(* ===== verification/Prelude.thy ===== *)
theory Prelude
  imports Main "HOL-Library.Word"
begin

text \<open>
  Shared ground of the development: machine integers as words of their Rust width, Rust's
  \<open>Result\<close> as a sum and the \<open>?\<close> operator on it, methods with a mutable receiver as
  state-passing functions, and the interfaces that several components share: a machine whose
  rejected inputs change nothing (\<open>txn_machine\<close>), a machine that issues fresh effect
  identities (\<open>effect_issuer\<close>), and a two-sided codec (\<open>codec\<close>).
\<close>

unbundle bit_operations_syntax

section \<open>Named collections\<close>

named_theorems model_defs \<open>definitions of the model that component proofs unfold\<close>
named_theorems byte_simps \<open>lengths and round trips of byte encodings\<close>

section \<open>Machine integers\<close>

type_synonym u8 = "8 word"
type_synonym u16 = "16 word"
type_synonym u32 = "32 word"
type_synonym u64 = "64 word"

text \<open>Rust's \<open>checked_add\<close>, \<open>saturating_add\<close>, \<open>saturating_sub\<close> on an unsigned width.\<close>

definition checked_add :: "'a::len word \<Rightarrow> 'a word \<Rightarrow> 'a word option" where
  "checked_add a b = (if unat a + unat b < 2 ^ LENGTH('a) then Some (a + b) else None)"

definition saturating_add :: "'a::len word \<Rightarrow> 'a word \<Rightarrow> 'a word" where
  "saturating_add a b = (if unat a + unat b < 2 ^ LENGTH('a) then a + b else - 1)"

definition saturating_sub :: "'a::len word \<Rightarrow> 'a word \<Rightarrow> 'a word" where
  "saturating_sub a b = (if b \<le> a then a - b else 0)"

lemma checked_add_Some:
  "checked_add a b = Some c \<Longrightarrow> unat c = unat a + unat b"
  by (auto simp: checked_add_def unat_word_ariths split: if_splits)

lemma checked_add_Some_eq: "checked_add a b = Some c \<Longrightarrow> c = a + b"
  by (simp add: checked_add_def split: if_splits)

lemma checked_add_1_Some:
  assumes "checked_add a (1 :: u64) = Some c"
  shows "unat c = Suc (unat a)" and "c \<noteq> 0"
proof -
  from checked_add_Some [OF assms] show c: "unat c = Suc (unat a)" by simp
  then show "c \<noteq> 0" by auto
qed

lemma checked_add_1_None:
  "checked_add a (1 :: u64) = None \<longleftrightarrow> a = - 1"
proof -
  have "unat a < 2 ^ 64" using unsigned_less [of a] by simp
  moreover have "a = - 1 \<longleftrightarrow> unat a = 2 ^ 64 - 1"
    by (simp add: word_unat_eq_iff unsigned_minus_1_eq_mask mask_eq_exp_minus_1)
  ultimately show ?thesis by (auto simp: checked_add_def)
qed

lemma unat_saturating_add:
  "unat (saturating_add a (b :: 'a::len word)) = min (unat a + unat b) (2 ^ LENGTH('a) - 1)"
  by (auto simp: saturating_add_def unat_word_ariths unsigned_minus_1_eq_mask mask_eq_exp_minus_1)

lemma unat_saturating_sub:
  "unat (saturating_sub a b) = unat a - unat b"
  by (auto simp: saturating_sub_def unat_sub word_le_nat_alt)

text \<open>A widening cast keeps the value, a narrowing one keeps it when it fits.\<close>

lemma unat_ucast_fits:
  "unat w < 2 ^ LENGTH('b) \<Longrightarrow> unat (ucast (w :: 'a::len word) :: 'b::len word) = unat w"
  by (simp add: unsigned_ucast_eq take_bit_nat_eq_self_iff)

lemma unat_ucast_widen [simp]:
  "unat (ucast (w8 :: u8) :: u16) = unat w8" "unat (ucast (w8 :: u8) :: u32) = unat w8"
  "unat (ucast (w16 :: u16) :: u32) = unat w16" "unat (ucast (w16 :: u16) :: u64) = unat w16"
  "unat (ucast (w32 :: u32) :: u64) = unat w32"
  using unsigned_less [of w8, where ?'a = nat] unsigned_less [of w16, where ?'a = nat]
    unsigned_less [of w32, where ?'a = nat]
  by (simp_all add: unat_ucast_fits)

text \<open>Testing one bit of a byte.\<close>

lemma bit_byte: "(b :: u8) AND 2 ^ k \<noteq> 0 \<longleftrightarrow> bit b k" if "k < 8"
proof -
  have "b AND 2 ^ k = (if bit b k then 2 ^ k else 0)"
  proof (rule bit_word_eqI)
    fix n assume "n < LENGTH(8)"
    then show "bit (b AND 2 ^ k) n = bit (if bit b k then 2 ^ k else 0 :: u8) n"
      by (cases "n = k") (auto simp: bit_and_iff bit_exp_iff)
  qed
  moreover have "(2 ^ k :: u8) \<noteq> 0" using that by simp
  ultimately show ?thesis by simp
qed

section \<open>Results and mutable receivers\<close>

text \<open>
  A \<open>Result<T, E>\<close> is \<open>'e + 't\<close> with the error on the left. A method with receiver
  \<open>&mut self\<close> is a function that returns its result together with the receiver it leaves
  behind; \<open>try_then\<close> is the operator \<open>?\<close> inside such a method: an error stops the
  method and keeps the mutations made so far.
\<close>

type_synonym ('s, 'e, 'a) mut_call = "'s \<Rightarrow> ('e + 'a) \<times> 's"

definition return_ok :: "'a \<Rightarrow> ('s, 'e, 'a) mut_call" where
  "return_ok x s = (Inr x, s)"

definition return_err :: "'e \<Rightarrow> ('s, 'e, 'a) mut_call" where
  "return_err e s = (Inl e, s)"

definition try_then :: "('s, 'e, 'a) mut_call \<Rightarrow> ('a \<Rightarrow> ('s, 'e, 'b) mut_call) \<Rightarrow> ('s, 'e, 'b) mut_call" where
  "try_then m k s = (case m s of (Inl e, s') \<Rightarrow> (Inl e, s') | (Inr x, s') \<Rightarrow> k x s')"

fun map_err :: "('e \<Rightarrow> 'f) \<Rightarrow> 'e + 'a \<Rightarrow> 'f + 'a" where
  "map_err f (Inl e) = Inl (f e)"
| "map_err f (Inr x) = Inr x"

fun map_ok :: "('a \<Rightarrow> 'b) \<Rightarrow> ('e + 'a) \<times> 's \<Rightarrow> ('e + 'b) \<times> 's" where
  "map_ok f (Inl e, s) = (Inl e, s)"
| "map_ok f (Inr x, s) = (Inr (f x), s)"

fun res_bind :: "'e + 'a \<Rightarrow> ('a \<Rightarrow> 'e + 'b) \<Rightarrow> 'e + 'b" where
  "res_bind (Inl e) k = Inl e"
| "res_bind (Inr x) k = k x"

fun ok_or :: "'e \<Rightarrow> 'a option \<Rightarrow> 'e + 'a" where
  "ok_or e None = Inl e"
| "ok_or e (Some x) = Inr x"

fun is_ok :: "'e + 'a \<Rightarrow> bool" where
  "is_ok (Inl e) \<longleftrightarrow> False"
| "is_ok (Inr x) \<longleftrightarrow> True"

lemma map_ok_Inr: "map_ok f p = (Inr y, s') \<longleftrightarrow> (\<exists>x. p = (Inr x, s') \<and> y = f x)"
  by (cases "(f, p)" rule: map_ok.cases) auto

lemma res_bind_Inr_iff: "res_bind r k = Inr y \<longleftrightarrow> (\<exists>x. r = Inr x \<and> k x = Inr y)"
  by (cases r) auto

lemma ok_or_Inr_iff [simp]: "ok_or e m = Inr x \<longleftrightarrow> m = Some x"
  by (cases m) auto

lemma ok_or_Inl_iff [simp]: "ok_or e m = Inl e' \<longleftrightarrow> m = None \<and> e' = e"
  by (cases m) auto

lemma is_ok_iff: "is_ok r \<longleftrightarrow> (\<exists>x. r = Inr x)"
  by (cases r) auto

lemma map_err_Inr_iff [simp]: "map_err f r = Inr x \<longleftrightarrow> r = Inr x"
  by (cases r) auto

lemma map_err_Inl_iff [simp]: "map_err f r = Inl e \<longleftrightarrow> (\<exists>e'. r = Inl e' \<and> e = f e')"
  by (cases r) auto

section \<open>Runs of a machine\<close>

text \<open>
  A component that owns its state and answers every input with a \<open>Result\<close> is a function
  \<open>'s \<Rightarrow> 'i \<Rightarrow> ('e + 'o) \<times> 's\<close>. A run feeds it a list of inputs; \<open>accepted\<close> is the
  sublist of inputs answered with \<open>Ok\<close>, \<open>outputs\<close> the answers.
\<close>

type_synonym ('s, 'i, 'e, 'o) machine = "'s \<Rightarrow> 'i \<Rightarrow> ('e + 'o) \<times> 's"

fun run :: "('s, 'i, 'e, 'o) machine \<Rightarrow> 's \<Rightarrow> 'i list \<Rightarrow> 's" where
  "run step s [] = s"
| "run step s (i # is) = run step (snd (step s i)) is"

fun accepted :: "('s, 'i, 'e, 'o) machine \<Rightarrow> 's \<Rightarrow> 'i list \<Rightarrow> 'i list" where
  "accepted step s [] = []"
| "accepted step s (i # is) =
     (if is_ok (fst (step s i)) then [i] else []) @ accepted step (snd (step s i)) is"

fun outputs :: "('s, 'i, 'e, 'o) machine \<Rightarrow> 's \<Rightarrow> 'i list \<Rightarrow> 'o list" where
  "outputs step s [] = []"
| "outputs step s (i # is) =
     (case fst (step s i) of Inl e \<Rightarrow> [] | Inr out \<Rightarrow> [out]) @ outputs step (snd (step s i)) is"

lemma run_append: "run step s (is @ js) = run step (run step s is) js"
  by (induction "is" arbitrary: s) auto

lemma accepted_append:
  "accepted step s (is @ js) = accepted step s is @ accepted step (run step s is) js"
  by (induction "is" arbitrary: s) auto

lemma outputs_append:
  "outputs step s (is @ js) = outputs step s is @ outputs step (run step s is) js"
  by (induction "is" arbitrary: s) auto

section \<open>Interface: a machine that rejects transactionally\<close>

locale txn_machine =
  fixes step :: "('s, 'i, 'e, 'o) machine"
    and inv :: "'s \<Rightarrow> bool"
  assumes rejected_unchanged: "inv s \<Longrightarrow> step s i = (Inl e, s') \<Longrightarrow> s' = s"
    and accepted_inv: "inv s \<Longrightarrow> step s i = (Inr out, s') \<Longrightarrow> inv s'"
begin

lemma step_inv: "inv s \<Longrightarrow> inv (snd (step s i))"
  by (cases "step s i"; cases "fst (step s i)")
    (auto dest: rejected_unchanged accepted_inv)

lemma run_inv: "inv s \<Longrightarrow> inv (run step s is)"
  by (induction "is" arbitrary: s) (auto intro: step_inv)

lemma rejected_snd: "inv s \<Longrightarrow> \<not> is_ok (fst (step s i)) \<Longrightarrow> snd (step s i) = s"
  by (cases "step s i"; cases "fst (step s i)") (auto dest: rejected_unchanged)

text \<open>Rejected inputs can be erased from a run without a trace.\<close>

lemma run_accepted: "inv s \<Longrightarrow> run step s (accepted step s is) = run step s is"
proof (induction "is" arbitrary: s)
  case Nil
  then show ?case by simp
next
  case (Cons i "is")
  then show ?case
    by (cases "is_ok (fst (step s i))") (auto simp: rejected_snd intro: step_inv)
qed

lemma outputs_accepted: "inv s \<Longrightarrow> outputs step s (accepted step s is) = outputs step s is"
proof (induction "is" arbitrary: s)
  case Nil
  then show ?case by simp
next
  case (Cons i "is")
  show ?case
  proof (cases "is_ok (fst (step s i))")
    case True
    then show ?thesis using Cons by (auto intro: step_inv)
  next
    case False
    then show ?thesis using Cons
      by (cases "fst (step s i)") (auto simp: rejected_snd)
  qed
qed

end

section \<open>Interface: a machine whose observable state follows its accepted history\<close>

locale refined_machine = txn_machine step inv
  for step :: "('s, 'i, 'e, 'o) machine" and inv :: "'s \<Rightarrow> bool" +
  fixes abs :: "'s \<Rightarrow> 'v"
    and spec :: "'i \<Rightarrow> 'v \<Rightarrow> 'v"
  assumes accepted_spec: "inv s \<Longrightarrow> step s i = (Inr out, s') \<Longrightarrow> abs s' = spec i (abs s)"
begin

lemma step_spec:
  "inv s \<Longrightarrow> abs (snd (step s i)) = (if is_ok (fst (step s i)) then spec i (abs s) else abs s)"
proof (cases "step s i")
  case (Pair r s')
  moreover assume "inv s"
  ultimately show ?thesis
    using rejected_unchanged [of s i _ s'] accepted_spec [of s i _ s'] by (cases r) auto
qed

lemma run_spec: "inv s \<Longrightarrow> abs (run step s is) = fold spec (accepted step s is) (abs s)"
  by (induction "is" arbitrary: s) (simp_all add: step_spec step_inv)

end

section \<open>Interface: a machine that issues effect identities\<close>

text \<open>
  The issuer counts the identities it has handed out; the identities an answer carries are the
  next ones, in order. Whatever the inputs, the identities of a whole run are then consecutive.
\<close>

locale effect_issuer = txn_machine step inv
  for step :: "('s, 'i, 'e, 'o) machine" and inv :: "'s \<Rightarrow> bool" +
  fixes issued :: "'o \<Rightarrow> nat list"
    and counter :: "'s \<Rightarrow> nat"
  assumes issues_next: "inv s \<Longrightarrow> step s i = (Inr out, s') \<Longrightarrow>
      counter s \<le> counter s' \<and> issued out = [Suc (counter s)..<Suc (counter s')]"
begin

lemma counter_run: "inv s \<Longrightarrow> counter s \<le> counter (run step s is)"
proof (induction "is" arbitrary: s)
  case Nil
  then show ?case by simp
next
  case (Cons i "is")
  have "counter s \<le> counter (snd (step s i))"
  proof (cases "step s i")
    case (Pair r s')
    then show ?thesis
      using Cons.prems issues_next [of s i _ s'] rejected_unchanged [of s i _ s'] by (cases r) auto
  qed
  also have "\<dots> \<le> counter (run step (snd (step s i)) is)"
    by (rule Cons.IH) (rule step_inv [OF Cons.prems])
  finally show ?case by simp
qed

lemma issued_run:
  "inv s \<Longrightarrow> concat (map issued (outputs step s is))
     = [Suc (counter s)..<Suc (counter (run step s is))]"
proof (induction "is" arbitrary: s)
  case Nil
  then show ?case by simp
next
  case (Cons i "is")
  obtain r s' where st: "step s i = (r, s')" by (cases "step s i")
  have s': "inv s'" using step_inv [OF Cons.prems, of i] st by simp
  show ?case
  proof (cases r)
    case (Inl e)
    then have "s' = s" using st Cons.prems rejected_unchanged by blast
    then show ?thesis using Cons.IH [OF s'] st Inl by simp
  next
    case (Inr out)
    have nxt: "counter s \<le> counter s'" "issued out = [Suc (counter s)..<Suc (counter s')]"
      using issues_next [of s i out s'] Cons.prems st Inr by auto
    have le: "counter s' \<le> counter (run step s' is)" by (rule counter_run [OF s'])
    from nxt le show ?thesis using Cons.IH [OF s'] st Inr
      using upt_add_eq_append [of "Suc (counter s)" "Suc (counter s')"
        "counter (run step s' is) - counter s'"]
      by simp
  qed
qed

lemma issued_distinct: "inv s \<Longrightarrow> distinct (concat (map issued (outputs step s is)))"
  by (simp add: issued_run del: upt_Suc)

lemma issued_fresh:
  "inv s \<Longrightarrow> n \<in> set (concat (map issued (outputs step s is))) \<Longrightarrow> counter s < n"
  by (simp add: issued_run del: upt_Suc)

end

section \<open>Interface: a machine that answers every identity at most once\<close>

text \<open>
  \<open>answered\<close> lists the identities an accepted input settles, \<open>floor\<close> is the least identity
  that can still be settled. A step settles identities between the floor it finds and the floor
  it leaves, so along a run they only grow.
\<close>

fun answers :: "('s, 'i, 'e, 'o) machine \<Rightarrow> ('i \<Rightarrow> 'o \<Rightarrow> 'a list) \<Rightarrow> 's \<Rightarrow> 'i list \<Rightarrow> 'a list" where
  "answers step ans s [] = []"
| "answers step ans s (i # is) =
     (case fst (step s i) of Inl e \<Rightarrow> [] | Inr out \<Rightarrow> ans i out) @
     answers step ans (snd (step s i)) is"

locale answer_once = txn_machine step inv
  for step :: "('s, 'i, 'e, 'o) machine" and inv :: "'s \<Rightarrow> bool" +
  fixes answered :: "'i \<Rightarrow> 'o \<Rightarrow> nat list"
    and lowest :: "'s \<Rightarrow> nat"
  assumes answers_rise: "inv s \<Longrightarrow> step s i = (Inr out, s') \<Longrightarrow>
      lowest s \<le> lowest s' \<and> sorted_wrt (<) (answered i out) \<and>
      set (answered i out) \<subseteq> {lowest s..<lowest s'}"
begin

lemma answers_run:
  "inv s \<Longrightarrow> sorted_wrt (<) (answers step answered s is) \<and>
     set (answers step answered s is) \<subseteq> {lowest s..<lowest (run step s is)} \<and>
     lowest s \<le> lowest (run step s is)"
proof (induction "is" arbitrary: s)
  case Nil
  then show ?case by simp
next
  case (Cons i "is")
  obtain r s' where st: "step s i = (r, s')" by (cases "step s i")
  have s': "inv s'" using step_inv [OF Cons.prems, of i] st by simp
  note IH = Cons.IH [OF s']
  show ?case
  proof (cases r)
    case (Inl e)
    then have "s' = s" using st Cons.prems rejected_unchanged by blast
    then show ?thesis using IH st Inl by simp
  next
    case (Inr out)
    with st have step: "step s i = (Inr out, s')" by simp
    from answers_rise [OF Cons.prems step] IH show ?thesis
      unfolding step by (fastforce simp: step sorted_wrt_append)
  qed
qed

lemma answers_distinct: "inv s \<Longrightarrow> distinct (answers step answered s is)"
  using answers_run [of s "is"] by (simp add: strict_sorted_iff)

end

section \<open>Interface: a system whose every step keeps an invariant\<close>

text \<open>
  The invariant may speak of the past when the state carries its log. It holds after every run
  and at every point on the way.
\<close>

locale invariant_system =
  fixes step :: "'e \<Rightarrow> 's \<Rightarrow> 's"
    and inv :: "'s \<Rightarrow> bool"
  assumes inv_step: "inv s \<Longrightarrow> inv (step e s)"
begin

lemma inv_run: "inv s \<Longrightarrow> inv (fold step es s)"
  by (induction es arbitrary: s) (simp_all add: inv_step)

lemma inv_between: "inv s \<Longrightarrow> es = fs @ gs \<Longrightarrow> inv (fold step fs s)"
  by (simp add: inv_run)

end

section \<open>Interface: a two-sided codec\<close>

text \<open>
  \<open>dec\<close> undoes \<open>enc\<close> on valid values and accepts nothing but encodings of valid values:
  the wire form is canonical.
\<close>

locale codec =
  fixes enc :: "'a \<Rightarrow> 'w"
    and dec :: "'w \<Rightarrow> 'e + 'a"
    and valid :: "'a \<Rightarrow> bool"
  assumes dec_enc: "valid x \<Longrightarrow> dec (enc x) = Inr x"
    and enc_dec: "dec w = Inr x \<Longrightarrow> valid x \<and> enc x = w"
begin

lemma enc_inj: "valid x \<Longrightarrow> valid y \<Longrightarrow> enc x = enc y \<Longrightarrow> x = y"
  by (metis dec_enc Inr_inject)

lemma dec_inj: "dec v = Inr x \<Longrightarrow> dec w = Inr x \<Longrightarrow> v = w"
  by (metis enc_dec)

lemma accepts_iff: "dec w = Inr x \<longleftrightarrow> valid x \<and> enc x = w"
  using dec_enc enc_dec by blast

end

end
