(* ===== verification/Application_Core.thy ===== *)
theory Application_Core
  imports Prelude
begin

text \<open>
  \<open>crates/application-core\<close>: the lifecycle events every feature understands and the
  identities of local effects, which are never zero.
\<close>

datatype lifecycle = Start | Stop | SessionInvalidated

datatype local_effect_id = LocalEffectId u64

definition LocalEffectId_new :: "u64 \<Rightarrow> local_effect_id option" where
  "LocalEffectId_new v = (if v = 0 then None else Some (LocalEffectId v))"

fun LocalEffectId_get :: "local_effect_id \<Rightarrow> u64" where
  "LocalEffectId_get (LocalEffectId v) = v"

lemma LocalEffectId_new_Some:
  "LocalEffectId_new v = Some i \<longleftrightarrow> v \<noteq> 0 \<and> i = LocalEffectId v"
  by (auto simp: LocalEffectId_new_def)

text \<open>
  The step both features use to hand out an identity: the next value of the counter, if there
  is one. \<open>next_local_id\<close> is the common part of their \<open>allocate\<close> methods.
\<close>

definition next_local_id :: "u64 \<Rightarrow> local_effect_id option" where
  "next_local_id n = (case checked_add n 1 of None \<Rightarrow> None | Some v \<Rightarrow> LocalEffectId_new v)"

lemma next_local_id_Some:
  "next_local_id n = Some i \<longleftrightarrow> n \<noteq> - 1 \<and> i = LocalEffectId (n + 1)"
proof (cases "checked_add n 1")
  case None
  then show ?thesis using checked_add_1_None [of n] by (simp add: next_local_id_def)
next
  case (Some v)
  then have "v = n + 1" "v \<noteq> 0" "n \<noteq> - 1"
    using checked_add_1_Some(2) [OF Some] checked_add_1_None [of n] checked_add_Some_eq [OF Some]
    by simp_all
  then show ?thesis using Some by (auto simp: next_local_id_def LocalEffectId_new_Some)
qed

lemma next_local_id_None: "next_local_id n = None \<longleftrightarrow> n = - 1"
  using next_local_id_Some [of n "LocalEffectId (n + 1)"]
  by (cases "next_local_id n") (auto simp: next_local_id_Some)

lemma unat_Suc_id: "n \<noteq> (- 1 :: u64) \<Longrightarrow> unat (n + 1) = Suc (unat n)"
  by (metis checked_add_1_None checked_add_1_Some(1) checked_add_Some_eq option.exhaust)

lemma unat_less_not_max: "Suc (unat (n :: u64)) < 2 ^ 64 \<Longrightarrow> n \<noteq> - 1"
  by (auto simp: unsigned_minus_1_eq_mask mask_eq_exp_minus_1)

lemma Suc_id_nonzero: "n \<noteq> (- 1 :: u64) \<Longrightarrow> n + 1 \<noteq> 0"
  by (simp add: eq_neg_iff_add_eq_0)

end
