(* ===== verification/Availability_Feature.thy ===== *)
theory Availability_Feature
  imports Application_Core
begin

text \<open>
  \<open>crates/application-features/src/availability.rs\<close>: the availability feature, a state
  machine that reads availability, shows what it read, arms a refresh timer and reads again.
  \<open>av_step\<close> is its public interface (\<open>lifecycle\<close> and \<open>transition\<close>), every input of which
  is applied to a candidate that is published only when it is accepted.
\<close>

section \<open>Data\<close>

definition REFRESH_DELAY_MS :: u32 where
  "REFRESH_DELAY_MS = 5000"

datatype availability = Available | Unavailable

datatype av_surface = SurfaceUnknown | SurfaceAvailable | SurfaceUnavailable

datatype av_request = ReadAvailability | ArmRefreshTimer u32

record av_effect =
  ave_id :: local_effect_id
  ave_request :: av_request

datatype read_error = ReadUnavailable
datatype timer_arm_error = TimerArmUnavailable

datatype av_input =
  ReadCompleted local_effect_id "read_error + availability"
| TimerArmCompleted local_effect_id "timer_arm_error + unit"
| RefreshDue local_effect_id

datatype av_state =
  AvStopped
| AvReading local_effect_id
| AvArmingRefresh local_effect_id
| AvWaiting local_effect_id

datatype av_error =
  AvAlreadyStarted
| AvNotStarted
| AvUnexpectedInput
| AvEffectIdentityMismatch local_effect_id local_effect_id
| AvEffectIdentityExhausted

record av_transition =
  avt_state :: av_state
  avt_surface :: "av_surface option"
  avt_effect :: "av_effect option"

record availability_feature =
  avf_state :: av_state
  avf_surface :: av_surface
  avf_next_effect_id :: u64

section \<open>Operations\<close>

definition av_new :: availability_feature where
  "av_new = \<lparr>avf_state = AvStopped, avf_surface = SurfaceUnknown, avf_next_effect_id = 0\<rparr>"

definition av_surface_of :: "availability_feature \<Rightarrow> av_surface option" where
  "av_surface_of self = (if avf_state self = AvStopped then None else Some (avf_surface self))"

definition av_ensure_id :: "local_effect_id \<Rightarrow> local_effect_id \<Rightarrow> ('s, av_error, unit) mut_call" where
  "av_ensure_id expected actual self =
     (if expected = actual then (Inr (), self)
      else (Inl (AvEffectIdentityMismatch expected actual), self))"

definition av_allocate :: "av_request \<Rightarrow> (availability_feature, av_error, av_effect) mut_call" where
  "av_allocate request self =
     (case next_local_id (avf_next_effect_id self) of
        None \<Rightarrow> (Inl AvEffectIdentityExhausted, self)
      | Some i \<Rightarrow> (Inr \<lparr>ave_id = i, ave_request = request\<rparr>,
                  self\<lparr>avf_next_effect_id := LocalEffectId_get i\<rparr>))"

fun av_surface_of_result :: "read_error + availability \<Rightarrow> av_surface" where
  "av_surface_of_result (Inr Available) = SurfaceAvailable"
| "av_surface_of_result (Inr Unavailable) = SurfaceUnavailable"
| "av_surface_of_result (Inl ReadUnavailable) = SurfaceUnknown"

definition av_apply :: "av_input \<Rightarrow> (availability_feature, av_error, av_effect option) mut_call" where
  "av_apply input self =
     (case (avf_state self, input) of
        (AvReading i, ReadCompleted j result) \<Rightarrow>
          try_then (av_ensure_id i j) (\<lambda>_ self.
            try_then (av_allocate (ArmRefreshTimer REFRESH_DELAY_MS)) (\<lambda>effect self.
              (Inr (Some effect), self\<lparr>avf_state := AvArmingRefresh (ave_id effect)\<rparr>))
            (self\<lparr>avf_surface := av_surface_of_result result\<rparr>)) self
      | (AvArmingRefresh i, TimerArmCompleted j result) \<Rightarrow>
          try_then (av_ensure_id i j) (\<lambda>_ self.
            (Inr None,
             case result of
               Inr _ \<Rightarrow> self\<lparr>avf_state := AvWaiting i\<rparr>
             | Inl TimerArmUnavailable \<Rightarrow>
                 self\<lparr>avf_state := AvStopped, avf_surface := SurfaceUnknown\<rparr>)) self
      | (AvWaiting i, RefreshDue j) \<Rightarrow>
          try_then (av_ensure_id i j) (\<lambda>_.
            try_then (av_allocate ReadAvailability) (\<lambda>effect self.
              (Inr (Some effect), self\<lparr>avf_state := AvReading (ave_id effect)\<rparr>))) self
      | _ \<Rightarrow> (Inl AvUnexpectedInput, self))"

definition av_invalidate :: "(availability_feature, av_error, av_effect option) mut_call" where
  "av_invalidate self =
     (case avf_state self of
        AvStopped \<Rightarrow> (Inr None, self)
      | AvReading i \<Rightarrow> av_apply (ReadCompleted i (Inl ReadUnavailable)) self
      | AvArmingRefresh _ \<Rightarrow> (Inr None, self\<lparr>avf_surface := SurfaceUnknown\<rparr>)
      | AvWaiting _ \<Rightarrow> (Inr None, self\<lparr>avf_surface := SurfaceUnknown\<rparr>))"

definition av_apply_lifecycle :: "lifecycle \<Rightarrow> (availability_feature, av_error, av_effect option) mut_call" where
  "av_apply_lifecycle lifecycle self =
     (case lifecycle of
        Start \<Rightarrow>
          (if avf_state self = AvStopped then
             try_then (av_allocate ReadAvailability) (\<lambda>effect self.
               (Inr (Some effect), self\<lparr>avf_state := AvReading (ave_id effect)\<rparr>))
             (self\<lparr>avf_surface := SurfaceUnknown\<rparr>)
           else (Inl AvAlreadyStarted, self))
      | Stop \<Rightarrow>
          (if avf_state self = AvStopped then (Inl AvNotStarted, self)
           else (Inr None, self\<lparr>avf_state := AvStopped, avf_surface := SurfaceUnknown\<rparr>))
      | SessionInvalidated \<Rightarrow>
          (if avf_state self = AvStopped then (Inr None, self) else av_invalidate self))"

definition av_publish ::
  "(availability_feature, av_error, av_effect option) mut_call \<Rightarrow>
   (availability_feature, av_error, av_transition) mut_call" where
  "av_publish apply self =
     (case apply self of
        (Inl e, _) \<Rightarrow> (Inl e, self)
      | (Inr effect, candidate) \<Rightarrow>
          (Inr \<lparr>avt_state = avf_state candidate, avt_surface = av_surface_of candidate,
                avt_effect = effect\<rparr>, candidate))"

definition av_lifecycle :: "availability_feature \<Rightarrow> lifecycle \<Rightarrow> (av_error + av_transition) \<times> availability_feature" where
  "av_lifecycle self l = av_publish (av_apply_lifecycle l) self"

definition av_transition_input :: "availability_feature \<Rightarrow> av_input \<Rightarrow> (av_error + av_transition) \<times> availability_feature" where
  "av_transition_input self input = av_publish (av_apply input) self"

datatype av_event = AvLifecycle lifecycle | AvInput av_input

fun av_step :: "(availability_feature, av_event, av_error, av_transition) machine" where
  "av_step self (AvLifecycle l) = av_lifecycle self l"
| "av_step self (AvInput input) = av_transition_input self input"

lemmas av_defs = av_surface_of_def av_ensure_id_def av_allocate_def av_apply_def
  av_invalidate_def av_apply_lifecycle_def av_publish_def av_lifecycle_def
  av_transition_input_def try_then_def

section \<open>Invariant and interface\<close>

fun av_pending :: "av_state \<Rightarrow> local_effect_id option" where
  "av_pending AvStopped = None"
| "av_pending (AvReading i) = Some i"
| "av_pending (AvArmingRefresh i) = Some i"
| "av_pending (AvWaiting i) = Some i"

text \<open>A running feature waits for the identity issued last; a stopped one shows nothing.\<close>

definition av_inv :: "availability_feature \<Rightarrow> bool" where
  "av_inv f \<longleftrightarrow>
     (case av_pending (avf_state f) of
        None \<Rightarrow> avf_surface f = SurfaceUnknown
      | Some i \<Rightarrow> avf_next_effect_id f \<noteq> 0 \<and> i = LocalEffectId (avf_next_effect_id f))"

definition av_issued :: "av_transition \<Rightarrow> nat list" where
  "av_issued t = (case avt_effect t of None \<Rightarrow> [] | Some e \<Rightarrow> [unat (LocalEffectId_get (ave_id e))])"

definition av_counter :: "availability_feature \<Rightarrow> nat" where
  "av_counter f = unat (avf_next_effect_id f)"

lemma av_inv_new: "av_inv av_new"
  by (simp add: av_inv_def av_new_def)

lemma av_step_rejected: "av_step f e = (Inl err, f') \<Longrightarrow> f' = f"
  by (cases e) (auto simp: av_lifecycle_def av_transition_input_def av_publish_def
      split: prod.splits sum.splits)

lemma av_step_accepted:
  assumes "av_inv f" and "av_step f e = (Inr t, f')"
  shows "av_inv f' \<and> av_counter f \<le> av_counter f' \<and>
         av_issued t = [Suc (av_counter f)..<Suc (av_counter f')]"
  using assms
  by (cases e; cases "avf_state f")
    (auto simp: av_defs av_inv_def av_issued_def av_counter_def next_local_id_Some
      unat_Suc_id Suc_id_nonzero split: lifecycle.splits option.splits sum.splits
      timer_arm_error.splits av_input.splits if_splits)

interpretation av: effect_issuer av_step av_inv av_issued av_counter
  by unfold_locales (auto dest: av_step_rejected av_step_accepted)


section \<open>Abstract specification of the surface\<close>

text \<open>
  What the feature promises to show, stated over the accepted events alone: nothing while it is
  stopped, what the last completed read said, and \<open>Unknown\<close> after a start, a failed read or
  an invalidated session.
\<close>

fun av_spec_surface :: "av_event \<Rightarrow> av_surface option \<Rightarrow> av_surface option" where
  "av_spec_surface (AvLifecycle Start) _ = Some SurfaceUnknown"
| "av_spec_surface (AvLifecycle Stop) _ = None"
| "av_spec_surface (AvLifecycle SessionInvalidated) s = map_option (\<lambda>_. SurfaceUnknown) s"
| "av_spec_surface (AvInput (ReadCompleted _ result)) _ = Some (av_surface_of_result result)"
| "av_spec_surface (AvInput (TimerArmCompleted _ (Inl _))) _ = None"
| "av_spec_surface (AvInput (TimerArmCompleted _ (Inr _))) s = s"
| "av_spec_surface (AvInput (RefreshDue _)) s = s"

lemma av_step_surface:
  "av_step f e = (Inr t, f') \<Longrightarrow>
     av_surface_of f' = av_spec_surface e (av_surface_of f) \<and> avt_surface t = av_surface_of f'"
  apply (cases e; cases "avf_state f")
         apply (simp_all add: av_defs split: lifecycle.splits option.splits sum.splits
      timer_arm_error.splits av_input.splits if_splits)
       apply auto
  done

interpretation av_shown: refined_machine av_step av_inv av_surface_of av_spec_surface
  by unfold_locales (blast dest: av_step_surface)

text \<open>
  C14: What the availability feature shows after any sequence of events is exactly what the
  accepted events say it should show: the surface is a function of the accepted history, and
  a rejected event never influences it.
\<close>

theorem av_surface_refines_history:
  "av_surface_of (run av_step av_new es) = fold av_spec_surface (accepted av_step av_new es) None"
  using av_shown.run_spec [OF av_inv_new, of es] by (simp add: av_surface_of_def av_new_def)

section \<open>Refresh cycles\<close>

text \<open>
  The environment works only on what the feature asks for: it answers a read that was requested
  with the next result, it arms a timer that was requested and, when the arming has been
  accepted without a further request, lets it fire. It carries on with the effect the feature
  then emits, and there is no outcome when an answer is rejected or no effect follows.
\<close>

definition av_perform ::
  "(read_error + availability) list \<Rightarrow> av_effect \<Rightarrow> availability_feature \<Rightarrow>
   ((read_error + availability) list \<times> av_effect \<times> availability_feature) option" where
  "av_perform rs e f =
     (case ave_request e of
        ReadAvailability \<Rightarrow>
          (case rs of [] \<Rightarrow> None | r # rs' \<Rightarrow>
           case av_step f (AvInput (ReadCompleted (ave_id e) r)) of
             (Inl _, _) \<Rightarrow> None
           | (Inr t, f') \<Rightarrow> map_option (\<lambda>e'. (rs', e', f')) (avt_effect t))
      | ArmRefreshTimer _ \<Rightarrow>
          (case av_step f (AvInput (TimerArmCompleted (ave_id e) (Inr ()))) of
             (Inl _, _) \<Rightarrow> None
           | (Inr t, f') \<Rightarrow>
               if avt_effect t \<noteq> None then None
               else (case av_step f' (AvInput (RefreshDue (ave_id e))) of
                       (Inl _, _) \<Rightarrow> None
                     | (Inr t', f'') \<Rightarrow> map_option (\<lambda>e'. (rs, e', f'')) (avt_effect t'))))"

text \<open>
  A number of effects served one after the other, from effect \<open>e\<close> on: the effects performed,
  each with the surface shown once it was answered, the results left, the effect that is
  outstanding then, and the feature.
\<close>

fun av_serve ::
  "nat \<Rightarrow> (read_error + availability) list \<Rightarrow> av_effect \<Rightarrow> availability_feature \<Rightarrow>
   ((av_effect \<times> av_surface option) list \<times> (read_error + availability) list \<times> av_effect \<times>
    availability_feature) option" where
  "av_serve 0 rs e f = Some ([], rs, e, f)"
| "av_serve (Suc k) rs e f =
     (case av_perform rs e f of
        None \<Rightarrow> None
      | Some (rs', e', f') \<Rightarrow>
          map_option (\<lambda>(log, rest). ((e, av_surface_of f') # log, rest)) (av_serve k rs' e' f'))"

text \<open>The effects that should be performed: reads and timers in turn, with consecutive identities.\<close>

abbreviation read_effect :: "u64 \<Rightarrow> av_effect" where
  "read_effect n \<equiv> \<lparr>ave_id = LocalEffectId n, ave_request = ReadAvailability\<rparr>"

abbreviation timer_effect :: "u64 \<Rightarrow> av_effect" where
  "timer_effect n \<equiv> \<lparr>ave_id = LocalEffectId n, ave_request = ArmRefreshTimer 5000\<rparr>"

fun av_cycles :: "u64 \<Rightarrow> (read_error + availability) list \<Rightarrow> (av_effect \<times> av_surface option) list" where
  "av_cycles n [] = []"
| "av_cycles n (r # rs) =
     (read_effect n, Some (av_surface_of_result r)) #
     (timer_effect (n + 1), Some (av_surface_of_result r)) # av_cycles (n + 2) rs"

lemma av_one_cycle:
  assumes "avf_state f = AvReading (LocalEffectId n)" and "avf_next_effect_id f = n"
    and "unat n + 2 < 2 ^ 64"
  shows "av_perform (r # rs) (read_effect n) f =
           Some (rs, timer_effect (n + 1),
             f\<lparr>avf_state := AvArmingRefresh (LocalEffectId (n + 1)),
               avf_surface := av_surface_of_result r, avf_next_effect_id := n + 1\<rparr>)"
    and "av_perform rs (timer_effect (n + 1))
             (f\<lparr>avf_state := AvArmingRefresh (LocalEffectId (n + 1)),
               avf_surface := av_surface_of_result r, avf_next_effect_id := n + 1\<rparr>) =
           Some (rs, read_effect (n + 2),
             f\<lparr>avf_state := AvReading (LocalEffectId (n + 2)),
               avf_surface := av_surface_of_result r, avf_next_effect_id := n + 2\<rparr>)"
    and "unat (n + 2) = unat n + 2"
proof -
  from assms(3) have n1: "n \<noteq> - 1" by (intro unat_less_not_max) simp
  then have u1: "unat (n + 1) = Suc (unat n)" by (rule unat_Suc_id)
  with assms(3) have n2: "n + 1 \<noteq> - 1" by (intro unat_less_not_max) simp
  from n2 u1 show "unat (n + 2) = unat n + 2"
    using unat_Suc_id [OF n2] by (simp add: add.assoc)
  have nx: "next_local_id n = Some (LocalEffectId (n + 1))"
    "next_local_id (n + 1) = Some (LocalEffectId (n + 2))"
    using n1 n2 by (auto simp: next_local_id_Some)
  show "av_perform (r # rs) (read_effect n) f =
           Some (rs, timer_effect (n + 1),
             f\<lparr>avf_state := AvArmingRefresh (LocalEffectId (n + 1)),
               avf_surface := av_surface_of_result r, avf_next_effect_id := n + 1\<rparr>)"
    using assms(1,2) nx by (simp add: av_perform_def av_defs REFRESH_DELAY_MS_def)
  show "av_perform rs (timer_effect (n + 1))
             (f\<lparr>avf_state := AvArmingRefresh (LocalEffectId (n + 1)),
               avf_surface := av_surface_of_result r, avf_next_effect_id := n + 1\<rparr>) =
           Some (rs, read_effect (n + 2),
             f\<lparr>avf_state := AvReading (LocalEffectId (n + 2)),
               avf_surface := av_surface_of_result r, avf_next_effect_id := n + 2\<rparr>)"
    using nx by (simp add: av_perform_def av_defs)
qed

lemma av_serve_cycles:
  assumes "avf_state f = AvReading (LocalEffectId n)" and "avf_next_effect_id f = n"
    and "unat n + 2 * length rs < 2 ^ 64"
  shows "\<exists>f'. av_serve (2 * length rs) rs (read_effect n) f =
       Some (av_cycles n rs, [], read_effect (n + 2 * of_nat (length rs)), f')"
  using assms
proof (induction rs arbitrary: f n)
  case (Cons r rs)
  have lt: "unat n + 2 < 2 ^ 64" using Cons.prems(3) by simp
  note one = av_one_cycle [OF Cons.prems(1,2) lt]
  define f' where "f' = f\<lparr>avf_state := AvReading (LocalEffectId (n + 2)),
    avf_surface := av_surface_of_result r, avf_next_effect_id := n + 2\<rparr>"
  have "unat (n + 2) + 2 * length rs < 2 ^ 64" using Cons.prems(3) one(3) by simp
  from Cons.IH [of f' "n + 2", OF _ _ this] obtain g where
    g: "av_serve (2 * length rs) rs (read_effect (n + 2)) f' =
       Some (av_cycles (n + 2) rs, [], read_effect (n + 2 + 2 * of_nat (length rs)), g)"
    by (auto simp: f'_def)
  have id: "n + 2 * of_nat (length (r # rs)) = n + 2 + 2 * of_nat (length rs)"
    by (simp add: algebra_simps)
  have steps: "2 * length (r # rs) = Suc (Suc (2 * length rs))" by simp
  show ?case
    unfolding id steps using g by (simp add: one f'_def av_surface_of_def)
qed simp

text \<open>
  C15: The feature never stalls while its effects are answered. Whenever a start is accepted it
  emits a read; and when every effect it emits is answered in turn, the reads with any results
  (failures included), the timers by being armed and firing, then every answer is accepted, the
  effects performed are exactly a read and a refresh timer of five seconds for each result, with
  consecutive identities, the surface follows every result at once, and a further read is
  outstanding at the end. The only limit is the supply of 64-bit identities.
\<close>

theorem av_refresh_cycles_never_stall:
  assumes "av_step f (AvLifecycle Start) = (Inr t, f1)"
    and "unat (avf_next_effect_id f) + 2 * length rs + 1 < 2 ^ 64"
  shows "avt_effect t = Some (read_effect (avf_next_effect_id f + 1)) \<and>
    (\<exists>f'. av_serve (2 * length rs) rs (read_effect (avf_next_effect_id f + 1)) f1 =
       Some (av_cycles (avf_next_effect_id f + 1) rs, [],
             read_effect (avf_next_effect_id f + 1 + 2 * of_nat (length rs)), f'))"
proof -
  let ?n = "avf_next_effect_id f"
  have n: "?n \<noteq> - 1" using assms(2) by (intro unat_less_not_max) simp
  then have "next_local_id ?n = Some (LocalEffectId (?n + 1))" by (simp add: next_local_id_Some)
  with assms(1) have s: "avt_effect t = Some (read_effect (?n + 1))"
    "avf_state f1 = AvReading (LocalEffectId (?n + 1))" "avf_next_effect_id f1 = ?n + 1"
    by (auto simp: av_defs split: if_splits)
  have "unat (?n + 1) + 2 * length rs < 2 ^ 64" using assms(2) unat_Suc_id [OF n] by simp
  from av_serve_cycles [OF s(2,3) this] s(1) show ?thesis by simp
qed

lemma av_refresh_cycles_never_stall_witness:
  "\<exists>f'. av_serve 6 [Inr Available, Inl ReadUnavailable, Inr Unavailable] (read_effect 1)
       (snd (av_step av_new (AvLifecycle Start))) =
     Some ([(read_effect 1, Some SurfaceAvailable), (timer_effect 2, Some SurfaceAvailable),
            (read_effect 3, Some SurfaceUnknown), (timer_effect 4, Some SurfaceUnknown),
            (read_effect 5, Some SurfaceUnavailable), (timer_effect 6, Some SurfaceUnavailable)],
           [], read_effect 7, f')"
proof -
  have nx: "next_local_id 0 = Some (LocalEffectId 1)" by (simp add: next_local_id_Some)
  obtain t f where "av_step av_new (AvLifecycle Start) = (Inr t, f)"
    by (simp add: av_defs av_new_def nx)
  from av_refresh_cycles_never_stall
    [OF this, of "[Inr Available, Inl ReadUnavailable, Inr Unavailable]"] this
  show ?thesis by (simp add: av_new_def)
qed

end
