(* ===== verification/Synthetic_Notice.thy ===== *)
theory Synthetic_Notice
  imports Application_Core
begin

text \<open>
  \<open>crates/application-features/src/synthetic_notice.rs\<close>: a notice that is shown on command,
  expires by a timer, can be replaced and cleared. The structure is that of the availability
  feature; \<open>sn_step\<close> is the public interface.
\<close>

section \<open>Data\<close>

definition NOTICE_LIFETIME_MS :: u32 where
  "NOTICE_LIFETIME_MS = 2000"

datatype notice_kind = CompositionCheck

datatype notice_command = Show notice_kind | Clear

datatype sn_request = ArmExpiryTimer u32

record sn_effect =
  sne_id :: local_effect_id
  sne_request :: sn_request

datatype sn_timer_arm_error = ExpiryArmUnavailable

datatype sn_input =
  Command notice_command
| ExpiryArmCompleted local_effect_id "sn_timer_arm_error + unit"
| ExpiryDue local_effect_id

datatype sn_state =
  SnStopped
| SnIdle
| SnArming local_effect_id notice_kind
| SnVisible local_effect_id notice_kind

datatype sn_error =
  SnAlreadyStarted
| SnNotStarted
| SnUnexpectedInput
| SnEffectIdentityMismatch local_effect_id local_effect_id
| SnEffectIdentityExhausted

record sn_transition =
  snt_state :: sn_state
  snt_surface :: "notice_kind option"
  snt_effect :: "sn_effect option"

record synthetic_notice_feature =
  snf_state :: sn_state
  snf_next_effect_id :: u64

section \<open>Operations\<close>

definition sn_new :: synthetic_notice_feature where
  "sn_new = \<lparr>snf_state = SnStopped, snf_next_effect_id = 0\<rparr>"

fun sn_surface_of_state :: "sn_state \<Rightarrow> notice_kind option" where
  "sn_surface_of_state (SnArming _ kind) = Some kind"
| "sn_surface_of_state (SnVisible _ kind) = Some kind"
| "sn_surface_of_state SnStopped = None"
| "sn_surface_of_state SnIdle = None"

definition sn_surface_of :: "synthetic_notice_feature \<Rightarrow> notice_kind option" where
  "sn_surface_of self = sn_surface_of_state (snf_state self)"

definition sn_ensure_id :: "local_effect_id \<Rightarrow> local_effect_id \<Rightarrow> ('s, sn_error, unit) mut_call" where
  "sn_ensure_id expected actual self =
     (if expected = actual then (Inr (), self)
      else (Inl (SnEffectIdentityMismatch expected actual), self))"

definition sn_allocate :: "sn_request \<Rightarrow> (synthetic_notice_feature, sn_error, sn_effect) mut_call" where
  "sn_allocate request self =
     (case next_local_id (snf_next_effect_id self) of
        None \<Rightarrow> (Inl SnEffectIdentityExhausted, self)
      | Some i \<Rightarrow> (Inr \<lparr>sne_id = i, sne_request = request\<rparr>,
                  self\<lparr>snf_next_effect_id := LocalEffectId_get i\<rparr>))"

definition sn_apply :: "sn_input \<Rightarrow> (synthetic_notice_feature, sn_error, sn_effect option) mut_call" where
  "sn_apply input self =
     (case (snf_state self, input) of
        (SnStopped, _) \<Rightarrow> (Inl SnNotStarted, self)
      | (_, Command (Show kind)) \<Rightarrow>
          try_then (sn_allocate (ArmExpiryTimer NOTICE_LIFETIME_MS)) (\<lambda>effect self.
            (Inr (Some effect), self\<lparr>snf_state := SnArming (sne_id effect) kind\<rparr>)) self
      | (SnIdle, Command Clear) \<Rightarrow> (Inr None, self)
      | (SnArming _ _, Command Clear) \<Rightarrow> (Inr None, self\<lparr>snf_state := SnIdle\<rparr>)
      | (SnVisible _ _, Command Clear) \<Rightarrow> (Inr None, self\<lparr>snf_state := SnIdle\<rparr>)
      | (SnArming i kind, ExpiryArmCompleted j result) \<Rightarrow>
          try_then (sn_ensure_id i j) (\<lambda>_ self.
            (Inr None, self\<lparr>snf_state :=
               (case result of Inr _ \<Rightarrow> SnVisible i kind
                | Inl ExpiryArmUnavailable \<Rightarrow> SnIdle)\<rparr>)) self
      | (SnVisible i _, ExpiryDue j) \<Rightarrow>
          try_then (sn_ensure_id i j) (\<lambda>_ self. (Inr None, self\<lparr>snf_state := SnIdle\<rparr>)) self
      | _ \<Rightarrow> (Inl SnUnexpectedInput, self))"

definition sn_apply_lifecycle :: "lifecycle \<Rightarrow> (synthetic_notice_feature, sn_error, sn_effect option) mut_call" where
  "sn_apply_lifecycle lifecycle self =
     (case lifecycle of
        Start \<Rightarrow>
          (if snf_state self = SnStopped then (Inr None, self\<lparr>snf_state := SnIdle\<rparr>)
           else (Inl SnAlreadyStarted, self))
      | Stop \<Rightarrow>
          (if snf_state self = SnStopped then (Inl SnNotStarted, self)
           else (Inr None, self\<lparr>snf_state := SnStopped\<rparr>))
      | SessionInvalidated \<Rightarrow>
          (if snf_state self = SnStopped then (Inr None, self)
           else (Inr None, self\<lparr>snf_state := SnIdle\<rparr>)))"

definition sn_publish ::
  "(synthetic_notice_feature, sn_error, sn_effect option) mut_call \<Rightarrow>
   (synthetic_notice_feature, sn_error, sn_transition) mut_call" where
  "sn_publish apply self =
     (case apply self of
        (Inl e, _) \<Rightarrow> (Inl e, self)
      | (Inr effect, candidate) \<Rightarrow>
          (Inr \<lparr>snt_state = snf_state candidate, snt_surface = sn_surface_of candidate,
                snt_effect = effect\<rparr>, candidate))"

definition sn_lifecycle :: "synthetic_notice_feature \<Rightarrow> lifecycle \<Rightarrow> (sn_error + sn_transition) \<times> synthetic_notice_feature" where
  "sn_lifecycle self l = sn_publish (sn_apply_lifecycle l) self"

definition sn_transition_input :: "synthetic_notice_feature \<Rightarrow> sn_input \<Rightarrow> (sn_error + sn_transition) \<times> synthetic_notice_feature" where
  "sn_transition_input self input = sn_publish (sn_apply input) self"

datatype sn_event = SnLifecycle lifecycle | SnInput sn_input

fun sn_step :: "(synthetic_notice_feature, sn_event, sn_error, sn_transition) machine" where
  "sn_step self (SnLifecycle l) = sn_lifecycle self l"
| "sn_step self (SnInput input) = sn_transition_input self input"

lemmas sn_defs = sn_surface_of_def sn_ensure_id_def sn_allocate_def sn_apply_def
  sn_apply_lifecycle_def sn_publish_def sn_lifecycle_def sn_transition_input_def try_then_def

lemmas sn_splits = lifecycle.splits option.splits sum.splits sn_timer_arm_error.splits
  sn_input.splits notice_command.splits if_splits

section \<open>Invariant and interfaces\<close>

fun sn_pending :: "sn_state \<Rightarrow> local_effect_id option" where
  "sn_pending SnStopped = None"
| "sn_pending SnIdle = None"
| "sn_pending (SnArming i _) = Some i"
| "sn_pending (SnVisible i _) = Some i"

definition sn_inv :: "synthetic_notice_feature \<Rightarrow> bool" where
  "sn_inv f \<longleftrightarrow>
     (case sn_pending (snf_state f) of
        None \<Rightarrow> True
      | Some i \<Rightarrow> snf_next_effect_id f \<noteq> 0 \<and> i = LocalEffectId (snf_next_effect_id f))"

definition sn_issued :: "sn_transition \<Rightarrow> nat list" where
  "sn_issued t = (case snt_effect t of None \<Rightarrow> [] | Some e \<Rightarrow> [unat (LocalEffectId_get (sne_id e))])"

definition sn_counter :: "synthetic_notice_feature \<Rightarrow> nat" where
  "sn_counter f = unat (snf_next_effect_id f)"

text \<open>The abstract notice: the kind shown, and the identity its timer answers to.\<close>

fun sn_spec_surface :: "sn_event \<Rightarrow> notice_kind option \<Rightarrow> notice_kind option" where
  "sn_spec_surface (SnLifecycle _) _ = None"
| "sn_spec_surface (SnInput (Command (Show kind))) _ = Some kind"
| "sn_spec_surface (SnInput (Command Clear)) _ = None"
| "sn_spec_surface (SnInput (ExpiryArmCompleted _ (Inl _))) _ = None"
| "sn_spec_surface (SnInput (ExpiryArmCompleted _ (Inr _))) s = s"
| "sn_spec_surface (SnInput (ExpiryDue _)) _ = None"

lemma sn_inv_new: "sn_inv sn_new"
  by (simp add: sn_inv_def sn_new_def)

lemma sn_step_rejected: "sn_step f e = (Inl err, f') \<Longrightarrow> f' = f"
  by (cases e) (auto simp: sn_lifecycle_def sn_transition_input_def sn_publish_def
      split: prod.splits sum.splits)

lemma sn_step_accepted:
  assumes "sn_inv f" and "sn_step f e = (Inr t, f')"
  shows "sn_inv f' \<and> sn_counter f \<le> sn_counter f' \<and>
         sn_issued t = [Suc (sn_counter f)..<Suc (sn_counter f')]"
  using assms
  by (cases e; cases "snf_state f")
    (auto simp: sn_defs sn_inv_def sn_issued_def sn_counter_def next_local_id_Some
      unat_Suc_id Suc_id_nonzero split: sn_splits)

lemma sn_step_surface:
  "sn_step f e = (Inr t, f') \<Longrightarrow>
     sn_surface_of f' = sn_spec_surface e (sn_surface_of f) \<and> snt_surface t = sn_surface_of f'"
  apply (cases e; cases "snf_state f")
         apply (simp_all add: sn_defs split: sn_splits)
       apply auto
  done

interpretation sn: effect_issuer sn_step sn_inv sn_issued sn_counter
  by unfold_locales (auto dest: sn_step_rejected sn_step_accepted)

interpretation sn_shown: refined_machine sn_step sn_inv sn_surface_of sn_spec_surface
  by unfold_locales (blast dest: sn_step_surface)

text \<open>
  The notice on display after any sequence of events is exactly the one the accepted events
  call for: shown by the last command, withdrawn by a clear, an expiry, a timer that could not
  be armed, or any lifecycle event.
\<close>

theorem sn_surface_refines_history:
  "sn_surface_of (run sn_step sn_new es) = fold sn_spec_surface (accepted sn_step sn_new es) None"
  using sn_shown.run_spec [OF sn_inv_new, of es] by (simp add: sn_surface_of_def sn_new_def)

end
