(* ===== verification/Application.thy ===== *)
theory Application
  imports Availability_Feature Synthetic_Notice
begin

text \<open>
  \<open>crates/deskkin-application\<close>: the composition root. It broadcasts lifecycle events to the
  features in registry order, routes namespaced effect completions, and publishes the views.
  \<open>app_step\<close> is \<open>Application::transition\<close>; \<open>app_moves\<close> is the abstract composition it
  implements, from which the properties are derived.
\<close>

section \<open>Data\<close>

definition FEATURE_COUNT :: nat where
  "FEATURE_COUNT = 2"

datatype feature_id = FAvailability | FSyntheticNotice

record application_effect_id =
  aei_feature :: feature_id
  aei_local :: local_effect_id

datatype app_request = RAvailability av_request | RSyntheticNotice sn_request

record app_effect =
  ape_id :: application_effect_id
  ape_request :: app_request

datatype app_error =
  AlreadyStarted
| NotStarted
| AvailabilityRejected av_error
| SyntheticNoticeRejected sn_error
| EffectFeatureMismatch feature_id feature_id
| EffectIdentityMismatch local_effect_id local_effect_id
| UnexpectedEffectInput
| EffectBatchExhausted

record effect_batch =
  eb_items :: "app_effect option list"
  eb_len :: nat

definition EffectBatch_new :: effect_batch where
  "EffectBatch_new = \<lparr>eb_items = replicate FEATURE_COUNT None, eb_len = 0\<rparr>"

definition EffectBatch_get :: "effect_batch \<Rightarrow> nat \<Rightarrow> app_effect option" where
  "EffectBatch_get b i = (if i < length (eb_items b) then eb_items b ! i else None)"

definition EffectBatch_push :: "effect_batch \<Rightarrow> app_effect \<Rightarrow> app_error + effect_batch" where
  "EffectBatch_push b e =
     (if eb_len b = FEATURE_COUNT then Inl EffectBatchExhausted
      else Inr \<lparr>eb_items = (eb_items b)[eb_len b := Some e], eb_len = eb_len b + 1\<rparr>)"

record 'a board =
  board_content :: 'a
  board_focused :: bool

record application_views =
  views_availability :: "av_surface board option"
  views_synthetic_notice :: "notice_kind board option"

definition ApplicationViews_empty :: application_views where
  "ApplicationViews_empty = \<lparr>views_availability = None, views_synthetic_notice = None\<rparr>"

datatype app_input =
  AppLifecycle lifecycle
| AvailabilityEffect application_effect_id av_input
| SyntheticNoticeCommand notice_command
| SyntheticNoticeEffect application_effect_id sn_input

record app_transition =
  apt_view :: application_views
  apt_effects :: effect_batch

datatype application_state = AppStopped | AppRunning

record application =
  app_state :: application_state
  app_availability :: availability_feature
  app_notice :: synthetic_notice_feature
  app_view :: application_views

section \<open>Operations\<close>

definition app_new :: application where
  "app_new = \<lparr>app_state = AppStopped, app_availability = av_new, app_notice = sn_new,
              app_view = ApplicationViews_empty\<rparr>"

definition wrap_availability :: "av_effect \<Rightarrow> app_effect" where
  "wrap_availability e =
     \<lparr>ape_id = \<lparr>aei_feature = FAvailability, aei_local = ave_id e\<rparr>,
      ape_request = RAvailability (ave_request e)\<rparr>"

definition wrap_notice :: "sn_effect \<Rightarrow> app_effect" where
  "wrap_notice e =
     \<lparr>ape_id = \<lparr>aei_feature = FSyntheticNotice, aei_local = sne_id e\<rparr>,
      ape_request = RSyntheticNotice (sne_request e)\<rparr>"

definition push_optional :: "effect_batch \<Rightarrow> app_effect option \<Rightarrow> app_error + effect_batch" where
  "push_optional b effect = (case effect of None \<Rightarrow> Inr b | Some e \<Rightarrow> EffectBatch_push b e)"

definition single_availability_effect :: "av_effect option \<Rightarrow> app_error + effect_batch" where
  "single_availability_effect effect =
     push_optional EffectBatch_new (map_option wrap_availability effect)"

definition single_notice_effect :: "sn_effect option \<Rightarrow> app_error + effect_batch" where
  "single_notice_effect effect = push_optional EffectBatch_new (map_option wrap_notice effect)"

fun availability_input_id :: "av_input \<Rightarrow> local_effect_id" where
  "availability_input_id (ReadCompleted i _) = i"
| "availability_input_id (TimerArmCompleted i _) = i"
| "availability_input_id (RefreshDue i) = i"

fun synthetic_notice_input_id :: "sn_input \<Rightarrow> app_error + local_effect_id" where
  "synthetic_notice_input_id (ExpiryArmCompleted i _) = Inr i"
| "synthetic_notice_input_id (ExpiryDue i) = Inr i"
| "synthetic_notice_input_id (Command _) = Inl UnexpectedEffectInput"

definition validate_effect_input ::
  "application_effect_id \<Rightarrow> feature_id \<Rightarrow> local_effect_id \<Rightarrow> app_error + unit" where
  "validate_effect_input i expected_feature input_id =
     (if aei_feature i \<noteq> expected_feature
        then Inl (EffectFeatureMismatch expected_feature (aei_feature i))
      else if aei_local i \<noteq> input_id then Inl (EffectIdentityMismatch (aei_local i) input_id)
      else Inr ())"

definition current_views :: "application \<Rightarrow> application_views" where
  "current_views self =
     (let notice = sn_surface_of (app_notice self)
      in \<lparr>views_availability =
            map_option (\<lambda>surface.
              if notice \<noteq> None then \<lparr>board_content = surface, board_focused = False\<rparr>
              else \<lparr>board_content = surface, board_focused = True\<rparr>)
              (av_surface_of (app_availability self)),
          views_synthetic_notice =
            map_option (\<lambda>kind. \<lparr>board_content = kind, board_focused = True\<rparr>) notice\<rparr>)"

text \<open>
  A result inside a method, and a call of a feature's method on the field that holds it.
\<close>

definition lift_res :: "'e + 'a \<Rightarrow> ('s, 'e, 'a) mut_call" where
  "lift_res r self = (r, self)"

definition on_availability ::
  "(availability_feature \<Rightarrow> (av_error + av_transition) \<times> availability_feature)
   \<Rightarrow> (application, app_error, av_transition) mut_call" where
  "on_availability m self =
     (case m (app_availability self) of
        (r, f) \<Rightarrow> (map_err AvailabilityRejected r, self\<lparr>app_availability := f\<rparr>))"

definition on_notice ::
  "(synthetic_notice_feature \<Rightarrow> (sn_error + sn_transition) \<times> synthetic_notice_feature)
   \<Rightarrow> (application, app_error, sn_transition) mut_call" where
  "on_notice m self =
     (case m (app_notice self) of
        (r, f) \<Rightarrow> (map_err SyntheticNoticeRejected r, self\<lparr>app_notice := f\<rparr>))"

definition app_apply_lifecycle :: "lifecycle \<Rightarrow> (application, app_error, effect_batch) mut_call" where
  "app_apply_lifecycle lifecycle self =
     (case (app_state self, lifecycle) of
        (AppRunning, Start) \<Rightarrow> (Inl AlreadyStarted, self)
      | (AppStopped, Stop) \<Rightarrow> (Inl NotStarted, self)
      | _ \<Rightarrow>
        try_then (on_availability (\<lambda>f. av_lifecycle f lifecycle)) (\<lambda>availability.
          try_then (lift_res (push_optional EffectBatch_new
                      (map_option wrap_availability (avt_effect availability)))) (\<lambda>effects.
            try_then (on_notice (\<lambda>f. sn_lifecycle f lifecycle)) (\<lambda>notice.
              try_then (lift_res (push_optional effects
                          (map_option wrap_notice (snt_effect notice)))) (\<lambda>effects self.
                (Inr effects,
                 self\<lparr>app_state :=
                   (case lifecycle of
                      Start \<Rightarrow> AppRunning
                    | SessionInvalidated \<Rightarrow> app_state self
                    | Stop \<Rightarrow> AppStopped)\<rparr>))))) self)"

definition app_apply :: "app_input \<Rightarrow> (application, app_error, effect_batch) mut_call" where
  "app_apply input self =
     (case input of
        AppLifecycle lifecycle \<Rightarrow> app_apply_lifecycle lifecycle self
      | AvailabilityEffect i input \<Rightarrow>
          (if app_state self = AppStopped then (Inl NotStarted, self)
           else try_then (lift_res (validate_effect_input i FAvailability
                            (availability_input_id input))) (\<lambda>_.
             try_then (on_availability (\<lambda>f. av_transition_input f input)) (\<lambda>transition.
               lift_res (single_availability_effect (avt_effect transition)))) self)
      | SyntheticNoticeCommand command \<Rightarrow>
          (if app_state self = AppStopped then (Inl NotStarted, self)
           else try_then (on_notice (\<lambda>f. sn_transition_input f (Command command))) (\<lambda>transition.
             lift_res (single_notice_effect (snt_effect transition))) self)
      | SyntheticNoticeEffect i input \<Rightarrow>
          (if app_state self = AppStopped then (Inl NotStarted, self)
           else try_then (lift_res (synthetic_notice_input_id input)) (\<lambda>input_id.
             try_then (lift_res (validate_effect_input i FSyntheticNotice input_id)) (\<lambda>_.
               try_then (on_notice (\<lambda>f. sn_transition_input f input)) (\<lambda>transition.
                 lift_res (single_notice_effect (snt_effect transition))))) self))"

definition app_step :: "(application, app_input, app_error, app_transition) machine" where
  "app_step self input =
     (case app_apply input self of
        (Inl e, _) \<Rightarrow> (Inl e, self)
      | (Inr effects, candidate) \<Rightarrow>
          (let candidate = candidate\<lparr>app_view := current_views candidate\<rparr>
           in (Inr \<lparr>apt_view = app_view candidate, apt_effects = effects\<rparr>, candidate)))"

lemmas app_defs = app_step_def app_apply_def app_apply_lifecycle_def on_availability_def
  on_notice_def lift_res_def single_availability_effect_def single_notice_effect_def
  validate_effect_input_def try_then_def

section \<open>The composition the implementation refines\<close>

fun list_of_option :: "'a option \<Rightarrow> 'a list" where
  "list_of_option None = []"
| "list_of_option (Some x) = [x]"

definition batch_of :: "app_effect list \<Rightarrow> effect_batch" where
  "batch_of es = \<lparr>eb_items = map Some es @ replicate (FEATURE_COUNT - length es) None,
                  eb_len = length es\<rparr>"

definition running_after :: "lifecycle \<Rightarrow> application_state \<Rightarrow> application_state" where
  "running_after l s = (case l of Start \<Rightarrow> AppRunning | SessionInvalidated \<Rightarrow> s | Stop \<Rightarrow> AppStopped)"

definition app_publish ::
  "application_state \<Rightarrow> availability_feature \<Rightarrow> synthetic_notice_feature \<Rightarrow> application" where
  "app_publish s f g =
     (let a = \<lparr>app_state = s, app_availability = f, app_notice = g, app_view = ApplicationViews_empty\<rparr>
      in a\<lparr>app_view := current_views a\<rparr>)"

inductive app_moves :: "application \<Rightarrow> app_input \<Rightarrow> app_effect list \<Rightarrow> application \<Rightarrow> bool" where
  broadcast:
    "app_state a = AppRunning \<longrightarrow> l \<noteq> Start \<Longrightarrow> app_state a = AppStopped \<longrightarrow> l \<noteq> Stop \<Longrightarrow>
     av_step (app_availability a) (AvLifecycle l) = (Inr t, f) \<Longrightarrow>
     sn_step (app_notice a) (SnLifecycle l) = (Inr u, g) \<Longrightarrow>
     app_moves a (AppLifecycle l)
       (map wrap_availability (list_of_option (avt_effect t)) @
        map wrap_notice (list_of_option (snt_effect u)))
       (app_publish (running_after l (app_state a)) f g)"
| to_availability:
    "app_state a = AppRunning \<Longrightarrow>
     i = \<lparr>aei_feature = FAvailability, aei_local = availability_input_id input\<rparr> \<Longrightarrow>
     av_step (app_availability a) (AvInput input) = (Inr t, f) \<Longrightarrow>
     app_moves a (AvailabilityEffect i input)
       (map wrap_availability (list_of_option (avt_effect t)))
       (app_publish AppRunning f (app_notice a))"
| command_notice:
    "app_state a = AppRunning \<Longrightarrow>
     sn_step (app_notice a) (SnInput (Command c)) = (Inr u, g) \<Longrightarrow>
     app_moves a (SyntheticNoticeCommand c)
       (map wrap_notice (list_of_option (snt_effect u)))
       (app_publish AppRunning (app_availability a) g)"
| to_notice:
    "app_state a = AppRunning \<Longrightarrow>
     synthetic_notice_input_id input = Inr n \<Longrightarrow>
     i = \<lparr>aei_feature = FSyntheticNotice, aei_local = n\<rparr> \<Longrightarrow>
     sn_step (app_notice a) (SnInput input) = (Inr u, g) \<Longrightarrow>
     app_moves a (SyntheticNoticeEffect i input)
       (map wrap_notice (list_of_option (snt_effect u)))
       (app_publish AppRunning (app_availability a) g)"

lemma push_optional_batch:
  "length es < FEATURE_COUNT \<Longrightarrow>
     push_optional (batch_of es) e = Inr (batch_of (es @ list_of_option e))"
  by (cases e) (auto simp: push_optional_def EffectBatch_push_def batch_of_def list_update_append
      FEATURE_COUNT_def less_Suc_eq numeral_2_eq_2)

lemma EffectBatch_new_eq: "EffectBatch_new = batch_of []"
  by (simp add: EffectBatch_new_def batch_of_def)

lemma batch_of_get: "length es \<le> FEATURE_COUNT \<Longrightarrow>
  EffectBatch_get (batch_of es) i = (if i < length es then Some (es ! i) else None)"
  by (auto simp: EffectBatch_get_def batch_of_def nth_append)

lemma length_list_of_option: "length (list_of_option x) \<le> 1" by (cases x) auto

lemma list_of_option_map: "list_of_option (map_option f x) = map f (list_of_option x)"
  by (cases x) auto

lemma effect_id_eq_iff: "(i = \<lparr>aei_feature = x, aei_local = y\<rparr>) = (aei_feature i = x \<and> aei_local i = y)"
  by (cases i) auto

lemma view_update_publish: "app_view_update (\<lambda>_. current_views b) b = app_publish (app_state b) (app_availability b) (app_notice b)"
  by (cases b) (simp add: app_publish_def current_views_def)

lemma push_first: "push_optional EffectBatch_new (map_option w x) = Inr (batch_of (map w (list_of_option x)))"
  by (simp add: EffectBatch_new_eq push_optional_batch FEATURE_COUNT_def list_of_option_map)

lemma push_second: "push_optional (batch_of (map w (list_of_option x))) (map_option v y) = Inr (batch_of (map w (list_of_option x) @ map v (list_of_option y)))"
  using length_list_of_option [of x] by (simp add: push_optional_batch FEATURE_COUNT_def list_of_option_map)

lemma app_step_complete:
  assumes "app_moves a i es b"
  shows "app_step a i = (Inr \<lparr>apt_view = app_view b, apt_effects = batch_of es\<rparr>, b)"
  using assms
proof cases
  case (broadcast l t f u g)
  then show ?thesis
    by (cases l; cases "app_state a") (simp_all add: app_defs Let_def push_first push_second view_update_publish running_after_def)
next
  case (to_availability j input t f)
  then show ?thesis
    by (simp add: app_defs Let_def push_first view_update_publish)
next
  case (command_notice c u g)
  then show ?thesis
    by (simp add: app_defs Let_def push_first view_update_publish)
next
  case (to_notice input n j u g)
  then show ?thesis
    by (simp add: app_defs Let_def push_first view_update_publish)
qed


lemma app_step_sound:
  assumes "app_step a i = (Inr t, b)"
  shows "\<exists>es. app_moves a i es b"
proof (cases i)
  case (AppLifecycle l)
  have ok: "app_state a = AppRunning \<longrightarrow> l \<noteq> Start" "app_state a = AppStopped \<longrightarrow> l \<noteq> Stop"
    using assms AppLifecycle by (auto simp: app_defs)
  obtain r f where av: "av_step (app_availability a) (AvLifecycle l) = (r, f)"
    by (cases "av_step (app_availability a) (AvLifecycle l)")
  obtain q g where sn: "sn_step (app_notice a) (SnLifecycle l) = (q, g)"
    by (cases "sn_step (app_notice a) (SnLifecycle l)")
  have "is_ok r \<and> is_ok q"
    using assms AppLifecycle ok av sn
    by (cases r; cases q; cases l; cases "app_state a") (simp_all add: app_defs push_first push_second)
  then obtain t' u where "r = Inr t'" "q = Inr u" by (auto simp: is_ok_iff)
  with ok av sn have m: "app_moves a i
      (map wrap_availability (list_of_option (avt_effect t')) @
       map wrap_notice (list_of_option (snt_effect u)))
      (app_publish (running_after l (app_state a)) f g)"
    unfolding AppLifecycle by (blast intro: app_moves.broadcast)
  with app_step_complete [OF m] assms show ?thesis by auto
next
  case (AvailabilityEffect j input)
  obtain r f where av: "av_step (app_availability a) (AvInput input) = (r, f)"
    by (cases "av_step (app_availability a) (AvInput input)")
  have ok: "app_state a = AppRunning" "is_ok r"
    "j = \<lparr>aei_feature = FAvailability, aei_local = availability_input_id input\<rparr>"
    using assms AvailabilityEffect av
    by (cases r; cases "app_state a"; simp add: app_defs effect_id_eq_iff split: if_splits)+
  then obtain t' where "r = Inr t'" by (auto simp: is_ok_iff)
  with ok av have m: "app_moves a i (map wrap_availability (list_of_option (avt_effect t')))
      (app_publish AppRunning f (app_notice a))"
    unfolding AvailabilityEffect by (blast intro: app_moves.to_availability)
  with app_step_complete [OF m] assms show ?thesis by auto
next
  case (SyntheticNoticeCommand c)
  obtain q g where sn: "sn_step (app_notice a) (SnInput (Command c)) = (q, g)"
    by (cases "sn_step (app_notice a) (SnInput (Command c))")
  have ok: "app_state a = AppRunning" "is_ok q"
    using assms SyntheticNoticeCommand sn
    by (cases q; cases "app_state a"; simp add: app_defs split: if_splits)+
  then obtain u where "q = Inr u" by (auto simp: is_ok_iff)
  with ok sn have m: "app_moves a i (map wrap_notice (list_of_option (snt_effect u)))
      (app_publish AppRunning (app_availability a) g)"
    unfolding SyntheticNoticeCommand by (blast intro: app_moves.command_notice)
  with app_step_complete [OF m] assms show ?thesis by auto
next
  case (SyntheticNoticeEffect j input)
  obtain q g where sn: "sn_step (app_notice a) (SnInput input) = (q, g)"
    by (cases "sn_step (app_notice a) (SnInput input)")
  obtain n where n: "synthetic_notice_input_id input = Inr n"
    using assms SyntheticNoticeEffect
    by (cases input; cases "app_state a") (simp_all add: app_defs)
  have ok: "app_state a = AppRunning" "is_ok q"
    "j = \<lparr>aei_feature = FSyntheticNotice, aei_local = n\<rparr>"
    using assms SyntheticNoticeEffect sn n
    by (cases q; cases "app_state a"; simp add: app_defs effect_id_eq_iff split: if_splits)+
  then obtain u where "q = Inr u" by (auto simp: is_ok_iff)
  with ok sn n have m: "app_moves a i (map wrap_notice (list_of_option (snt_effect u)))
      (app_publish AppRunning (app_availability a) g)"
    unfolding SyntheticNoticeEffect by (blast intro: app_moves.to_notice)
  with app_step_complete [OF m] assms show ?thesis by auto
qed

lemma app_step_iff:
  "app_step a i = (Inr t, b) \<longleftrightarrow>
     (\<exists>es. app_moves a i es b \<and> t = \<lparr>apt_view = app_view b, apt_effects = batch_of es\<rparr>)"
  using app_step_complete [of a i _ b] app_step_sound [of a i t b] by fastforce

section \<open>Invariant and interfaces\<close>

lemma push_none [simp]: "push_optional b None = Inr b"
  by (simp add: push_optional_def)

lemma app_publish_sel [simp]:
  "app_state (app_publish s f g) = s"
  "app_availability (app_publish s f g) = f"
  "app_notice (app_publish s f g) = g"
  "app_view (app_publish s f g) = current_views (app_publish s f g)"
  by (simp_all add: app_publish_def current_views_def Let_def)

definition app_inv :: "application \<Rightarrow> bool" where
  "app_inv a \<longleftrightarrow>
     av_inv (app_availability a) \<and> sn_inv (app_notice a) \<and> app_view a = current_views a \<and>
     (case app_state a of
        AppStopped \<Rightarrow> avf_state (app_availability a) = AvStopped \<and> snf_state (app_notice a) = SnStopped
      | AppRunning \<Rightarrow> snf_state (app_notice a) \<noteq> SnStopped)"

lemma app_inv_new: "app_inv app_new"
  using av_inv_new sn_inv_new
  by (simp add: app_inv_def app_new_def current_views_def
      av_surface_of_def sn_surface_of_def av_new_def sn_new_def ApplicationViews_empty_def)

lemma av_lifecycle_state:
  "av_step f (AvLifecycle l) = (Inr t, f') \<Longrightarrow>
     (l = Stop \<longrightarrow> avf_state f' = AvStopped) \<and>
     (l = SessionInvalidated \<longrightarrow> avf_state f = AvStopped \<longrightarrow> avf_state f' = AvStopped)"
  by (auto simp: av_defs split: if_splits)

lemma sn_lifecycle_state:
  "sn_step g (SnLifecycle l) = (Inr t, g') \<Longrightarrow>
     (snf_state g' = SnStopped \<longleftrightarrow> l = Stop \<or> l = SessionInvalidated \<and> snf_state g = SnStopped)"
  by (cases l) (auto simp: sn_defs split: if_splits)

lemma sn_input_state:
  "sn_step g (SnInput i) = (Inr t, g') \<Longrightarrow> snf_state g' \<noteq> SnStopped"
  by (auto simp: sn_defs split: sn_splits sn_state.splits)

lemma app_moves_inv: "app_moves a i es b \<Longrightarrow> app_inv a \<Longrightarrow> app_inv b"
proof (induction rule: app_moves.induct)
  case (broadcast a l t f u g)
  have "av_inv f" "sn_inv g"
    using broadcast.prems av.accepted_inv [OF _ broadcast.hyps(3)] sn.accepted_inv [OF _ broadcast.hyps(4)]
    by (simp_all add: app_inv_def)
  then show ?case
    using broadcast.hyps(1,2) broadcast.prems av_lifecycle_state [OF broadcast.hyps(3)]
      sn_lifecycle_state [OF broadcast.hyps(4)]
    by (cases l; cases "app_state a") (auto simp: app_inv_def running_after_def)
next
  case (to_availability a i input t f)
  then show ?case using av.accepted_inv [OF _ to_availability.hyps(3)] by (auto simp: app_inv_def)
next
  case (command_notice a c u g)
  then show ?case using sn.accepted_inv [OF _ command_notice.hyps(2)] sn_input_state [OF command_notice.hyps(2)]
    by (auto simp: app_inv_def)
next
  case (to_notice a input n i u g)
  then show ?case using sn.accepted_inv [OF _ to_notice.hyps(4)] sn_input_state [OF to_notice.hyps(4)]
    by (auto simp: app_inv_def)
qed

lemma app_step_rejected: "app_step a i = (Inl e, b) \<Longrightarrow> b = a"
  by (auto simp: app_step_def Let_def split: prod.splits sum.splits)

text \<open>What an input means for one feature, and the effects an answer carries for it.\<close>

fun av_events :: "app_input \<Rightarrow> av_event list" where
  "av_events (AppLifecycle l) = [AvLifecycle l]"
| "av_events (AvailabilityEffect _ input) = [AvInput input]"
| "av_events (SyntheticNoticeCommand _) = []"
| "av_events (SyntheticNoticeEffect _ _) = []"

fun sn_events :: "app_input \<Rightarrow> sn_event list" where
  "sn_events (AppLifecycle l) = [SnLifecycle l]"
| "sn_events (AvailabilityEffect _ _) = []"
| "sn_events (SyntheticNoticeCommand c) = [SnInput (Command c)]"
| "sn_events (SyntheticNoticeEffect _ input) = [SnInput input]"

definition effects_of :: "app_transition \<Rightarrow> app_effect list" where
  "effects_of t = concat (map list_of_option (take (eb_len (apt_effects t)) (eb_items (apt_effects t))))"

definition app_issued :: "feature_id \<Rightarrow> app_transition \<Rightarrow> nat list" where
  "app_issued F t =
     map (\<lambda>e. unat (LocalEffectId_get (aei_local (ape_id e))))
       (filter (\<lambda>e. aei_feature (ape_id e) = F) (effects_of t))"

definition app_counter :: "feature_id \<Rightarrow> application \<Rightarrow> nat" where
  "app_counter F a = (case F of FAvailability \<Rightarrow> av_counter (app_availability a)
                      | FSyntheticNotice \<Rightarrow> sn_counter (app_notice a))"

lemma effects_of_batch: "effects_of \<lparr>apt_view = v, apt_effects = batch_of es\<rparr> = es"
  by (induction es) (simp_all add: effects_of_def batch_of_def)

lemma wrap_sel [simp]:
  "aei_feature (ape_id (wrap_availability e)) = FAvailability"
  "aei_feature (ape_id (wrap_notice d)) = FSyntheticNotice"
  "aei_local (ape_id (wrap_availability e)) = ave_id e"
  "aei_local (ape_id (wrap_notice d)) = sne_id d"
  by (simp_all add: wrap_availability_def wrap_notice_def)

lemma issued_list:
  "av_issued t = map (\<lambda>e. unat (LocalEffectId_get (ave_id e))) (list_of_option (avt_effect t))"
  "sn_issued u = map (\<lambda>e. unat (LocalEffectId_get (sne_id e))) (list_of_option (snt_effect u))"
  by (cases "avt_effect t"; simp add: av_issued_def) (cases "snt_effect u"; simp add: sn_issued_def)

lemma app_issues_next:
  assumes "app_moves a i es b" and "app_inv a"
  shows "app_counter F a \<le> app_counter F b \<and>
    app_issued F \<lparr>apt_view = v, apt_effects = batch_of es\<rparr> = [Suc (app_counter F a)..<Suc (app_counter F b)]"
  using assms
proof cases
  case (broadcast l t f u g)
  with assms(2) show ?thesis
    using av.issues_next [OF _ broadcast(6)] sn.issues_next [OF _ broadcast(7)]
    by (cases F) (simp_all add: app_inv_def app_issued_def effects_of_batch app_counter_def
        filter_map comp_def issued_list del: upt_Suc)
next
  case (to_availability j input t f)
  with assms(2) show ?thesis
    using av.issues_next [OF _ to_availability(6)]
    by (cases F) (simp_all add: app_inv_def app_issued_def effects_of_batch app_counter_def
        filter_map comp_def issued_list)
next
  case (command_notice c u g)
  with assms(2) show ?thesis
    using sn.issues_next [OF _ command_notice(5)]
    by (cases F) (simp_all add: app_inv_def app_issued_def effects_of_batch app_counter_def
        filter_map comp_def issued_list)
next
  case (to_notice input n j u g)
  with assms(2) show ?thesis
    using sn.issues_next [OF _ to_notice(7)]
    by (cases F) (simp_all add: app_inv_def app_issued_def effects_of_batch app_counter_def
        filter_map comp_def issued_list)
qed

interpretation app: effect_issuer app_step app_inv "app_issued F" "app_counter F" for F
proof unfold_locales
  fix s s' i e out
  show "app_step s i = (Inl e, s') \<Longrightarrow> s' = s" by (rule app_step_rejected)
  assume "app_inv s"
  moreover assume "app_step s i = (Inr out, s')"
  then obtain es where "app_moves s i es s'" "out = \<lparr>apt_view = app_view s', apt_effects = batch_of es\<rparr>"
    by (auto simp: app_step_iff)
  ultimately show "app_inv s'" "app_counter F s \<le> app_counter F s' \<and>
      app_issued F out = [Suc (app_counter F s)..<Suc (app_counter F s')]"
    by (simp_all add: app_moves_inv app_issues_next del: upt_Suc)
qed

text \<open>The abstract display: what each feature shows, as a function of the accepted inputs.\<close>

type_synonym display = "av_surface option \<times> notice_kind option"

definition app_display :: "application \<Rightarrow> display" where
  "app_display a = (av_surface_of (app_availability a), sn_surface_of (app_notice a))"

definition app_spec :: "app_input \<Rightarrow> display \<Rightarrow> display" where
  "app_spec i d = (fold av_spec_surface (av_events i) (fst d), fold sn_spec_surface (sn_events i) (snd d))"

definition compose_views :: "display \<Rightarrow> application_views" where
  "compose_views d =
     (case d of
        (s, None) \<Rightarrow>
          \<lparr>views_availability = map_option (\<lambda>c. \<lparr>board_content = c, board_focused = True\<rparr>) s,
           views_synthetic_notice = None\<rparr>
      | (s, Some k) \<Rightarrow>
          \<lparr>views_availability = map_option (\<lambda>c. \<lparr>board_content = c, board_focused = False\<rparr>) s,
           views_synthetic_notice = Some \<lparr>board_content = k, board_focused = True\<rparr>\<rparr>)"

lemma current_views_compose: "current_views a = compose_views (app_display a)"
  by (cases "sn_surface_of (app_notice a)")
    (simp_all add: current_views_def compose_views_def app_display_def Let_def)

lemma app_moves_spec: "app_moves a i es b \<Longrightarrow> app_display b = app_spec i (app_display a)"
  by (induction rule: app_moves.induct)
    (auto simp: app_display_def app_spec_def simp del: av_step.simps sn_step.simps
      dest!: av_step_surface sn_step_surface)

interpretation app_shown: refined_machine app_step app_inv app_display app_spec
  by unfold_locales (auto simp: app_step_iff dest: app_moves_spec)

section \<open>Properties\<close>

text \<open>
  C1: The application shows, after any sequence of inputs, exactly the boards that the accepted
  inputs call for: each feature's board as its own history prescribes, with the notice focused
  while one is shown and the availability board focused otherwise.
\<close>

theorem app_view_refines_history:
  "app_view (run app_step app_new is) = compose_views (fold app_spec (accepted app_step app_new is) (None, None))"
proof -
  have "app_view (run app_step app_new is) = compose_views (app_display (run app_step app_new is))"
    using app.run_inv [OF app_inv_new, of "is"] by (simp add: app_inv_def current_views_compose)
  also have "app_display (run app_step app_new is) = fold app_spec (accepted app_step app_new is) (None, None)"
    using app_shown.run_spec [OF app_inv_new, of "is"]
    by (simp add: app_display_def app_new_def av_surface_of_def sn_surface_of_def av_new_def sn_new_def)
  finally show ?thesis .
qed

text \<open>
  C13: Rejection is transactional: erasing every rejected input from a history changes neither
  the application it leaves nor the answers given to the accepted ones.
\<close>

theorem app_rejections_leave_no_trace:
  "run app_step app_new (accepted app_step app_new is) = run app_step app_new is \<and>
   outputs app_step app_new (accepted app_step app_new is) = outputs app_step app_new is"
  by (simp add: app.run_accepted app.outputs_accepted app_inv_new)

text \<open>
  C12: The effects an application ever emits have pairwise different identities within each
  feature, numbered from one without a gap, whatever it is sent.
\<close>

theorem app_effect_identities_fresh:
  "concat (map (app_issued F) (outputs app_step app_new is)) = [1..<Suc (app_counter F (run app_step app_new is))] \<and>
   distinct (concat (map (app_issued F) (outputs app_step app_new is)))"
proof -
  have "app_counter F app_new = 0"
    by (cases F) (simp_all add: app_counter_def app_new_def av_counter_def sn_counter_def av_new_def sn_new_def)
  then show ?thesis
    using app.issued_run [OF app_inv_new, of F "is"] app.issued_distinct [OF app_inv_new, of F "is"]
    by simp
qed


text \<open>
  An input that answers an effect: its feature and the identity it carries.
\<close>

fun answers :: "app_input \<Rightarrow> (feature_id \<times> application_effect_id) option" where
  "answers (AvailabilityEffect i _) = Some (FAvailability, i)"
| "answers (SyntheticNoticeEffect i _) = Some (FSyntheticNotice, i)"
| "answers (AppLifecycle _) = None"
| "answers (SyntheticNoticeCommand _) = None"

lemma av_accepted_id:
  "av_step f (AvInput input) = (Inr t, f') \<Longrightarrow> av_pending (avf_state f) = Some (availability_input_id input)"
  by (cases input; cases "avf_state f") (auto simp: av_defs split: if_splits)

lemma sn_accepted_id:
  "sn_step g (SnInput input) = (Inr u, g') \<Longrightarrow> synthetic_notice_input_id input = Inr n \<Longrightarrow>
     sn_pending (snf_state g) = Some n"
  by (cases input; cases "snf_state g") (auto simp: sn_defs split: if_splits)

text \<open>
  C11: A completion is accepted only when it names its own feature and the identity that feature
  issued last: completions of superseded, foreign or invented effects are rejected in every
  reachable state.
\<close>

theorem app_accepts_only_latest_identity:
  assumes "answers i = Some (F, j)" and "fst (app_step (run app_step app_new is) i) = Inr t"
  shows "aei_feature j = F \<and>
         unat (LocalEffectId_get (aei_local j)) = app_counter F (run app_step app_new is)"
proof -
  let ?a = "run app_step app_new is"
  have inv: "av_inv (app_availability ?a)" "sn_inv (app_notice ?a)"
    using app.run_inv [OF app_inv_new, of "is"] by (simp_all add: app_inv_def)
  obtain b where "app_step ?a i = (Inr t, b)" using assms(2) by (cases "app_step ?a i") auto
  then obtain es where "app_moves ?a i es b" by (auto simp: app_step_iff)
  then show ?thesis
  proof cases
    case (to_availability k input t f)
    with assms(1) inv(1) av_accepted_id [OF to_availability(6)] show ?thesis
      by (auto simp: av_inv_def app_counter_def av_counter_def)
  next
    case (to_notice input n k u g)
    with assms(1) inv(2) sn_accepted_id [OF to_notice(7,5)] show ?thesis
      by (auto simp: sn_inv_def app_counter_def sn_counter_def)
  qed (use assms(1) in auto)
qed

lemma app_accepts_only_latest_identity_witness:
  "unat (LocalEffectId_get (LocalEffectId 1)) =
     app_counter FAvailability (run app_step app_new [AppLifecycle Start])"
proof -
  let ?j = "\<lparr>aei_feature = FAvailability, aei_local = LocalEffectId 1\<rparr>"
  let ?i = "AvailabilityEffect ?j (ReadCompleted (LocalEffectId 1) (Inr Available))"
  have n: "next_local_id 0 = Some (LocalEffectId 1)" "next_local_id 1 = Some (LocalEffectId 2)"
    by (simp_all add: next_local_id_Some)
  have "is_ok (fst (app_step (run app_step app_new [AppLifecycle Start]) ?i))"
    by (simp add: app_defs Let_def app_new_def av_new_def sn_new_def av_defs sn_defs n push_first
        push_second)
  then obtain t where "fst (app_step (run app_step app_new [AppLifecycle Start]) ?i) = Inr t"
    by (auto simp: is_ok_iff)
  from app_accepts_only_latest_identity [OF _ this, of FAvailability ?j] show ?thesis by simp
qed

text \<open>
  The batch of effects never overflows: \<open>EffectBatchExhausted\<close> is not an answer
  \<open>Application::transition\<close> can give, in any state.
\<close>

theorem app_batch_never_exhausted: "fst (app_step a i) \<noteq> Inl EffectBatchExhausted"
proof
  assume *: "fst (app_step a i) = Inl EffectBatchExhausted"
  show False
  proof (cases i)
    case (AppLifecycle l)
    with * show False
      by (cases "av_lifecycle (app_availability a) l"; cases "sn_lifecycle (app_notice a) l";
          cases "fst (av_lifecycle (app_availability a) l)"; cases "fst (sn_lifecycle (app_notice a) l)";
          cases l; cases "app_state a") (simp_all add: app_defs Let_def push_first push_second)
  next
    case (AvailabilityEffect j input)
    with * show False
      by (cases "av_transition_input (app_availability a) input";
          cases "fst (av_transition_input (app_availability a) input)")
        (auto simp: app_defs Let_def push_first split: if_splits)
  next
    case (SyntheticNoticeCommand c)
    with * show False
      by (cases "sn_transition_input (app_notice a) (Command c)";
          cases "fst (sn_transition_input (app_notice a) (Command c))")
        (auto simp: app_defs Let_def push_first split: if_splits)
  next
    case (SyntheticNoticeEffect j input)
    with * show False
      by (cases "sn_transition_input (app_notice a) input";
          cases "fst (sn_transition_input (app_notice a) input)"; cases input)
        (auto simp: app_defs Let_def push_first split: if_splits)
  qed
qed

text \<open>A running application whose availability feature has stopped by itself.\<close>

definition app_wedged :: "application \<Rightarrow> bool" where
  "app_wedged a \<longleftrightarrow> app_state a = AppRunning \<and> avf_state (app_availability a) = AvStopped"

lemma app_moves_wedged: "app_moves a i es b \<Longrightarrow> app_wedged a \<Longrightarrow> app_wedged b"
proof (induction rule: app_moves.induct)
  case (broadcast a l t f u g)
  then have "l = SessionInvalidated"
    by (cases l) (auto simp: app_wedged_def av_defs)
  with broadcast show ?case
    using av_lifecycle_state [OF broadcast.hyps(3)] by (simp add: app_wedged_def running_after_def)
next
  case (to_availability a i input t f)
  then show ?case using av_accepted_id [OF to_availability.hyps(3)] by (simp add: app_wedged_def)
qed (auto simp: app_wedged_def)

lemma app_step_wedged:
  assumes "app_wedged a"
  shows "app_wedged (snd (app_step a i))"
proof (cases "app_step a i")
  case (Pair r b)
  have "app_wedged b"
  proof (cases r)
    case (Inl e)
    with Pair assms show ?thesis using app_step_rejected by blast
  next
    case (Inr t)
    with Pair assms show ?thesis using app_step_iff app_moves_wedged by blast
  qed
  with Pair show ?thesis by simp
qed

lemma app_run_wedged: "app_wedged a \<Longrightarrow> app_wedged (run app_step a is)"
  by (induction "is" arbitrary: a) (auto intro: app_step_wedged)

lemma app_wedged_lifecycle:
  "app_wedged a \<Longrightarrow>
     fst (app_step a (AppLifecycle Start)) = Inl AlreadyStarted \<and>
     fst (app_step a (AppLifecycle Stop)) = Inl (AvailabilityRejected AvNotStarted)"
  by (simp add: app_wedged_def app_defs av_defs)

text \<open>
  C2: When a refresh timer cannot be armed, the availability feature stops by itself while the
  application keeps running, and from then on the application can be neither stopped nor
  started again, whatever it is sent: \<open>Stop\<close> is answered by the feature's own
  \<open>NotStarted\<close>, \<open>Start\<close> by \<open>AlreadyStarted\<close>.
\<close>

theorem app_unstoppable_after_timer_failure:
  assumes "app_state a = AppRunning" and "avf_state (app_availability a) = AvArmingRefresh i"
  shows "\<exists>b. app_step a (AvailabilityEffect \<lparr>aei_feature = FAvailability, aei_local = i\<rparr>
                 (TimerArmCompleted i (Inl TimerArmUnavailable)))
             = (Inr \<lparr>apt_view = app_view b, apt_effects = EffectBatch_new\<rparr>, b) \<and>
           (\<forall>is. fst (app_step (run app_step b is) (AppLifecycle Stop))
                   = Inl (AvailabilityRejected AvNotStarted) \<and>
                 fst (app_step (run app_step b is) (AppLifecycle Start)) = Inl AlreadyStarted)"
proof -
  let ?i = "AvailabilityEffect \<lparr>aei_feature = FAvailability, aei_local = i\<rparr>
                 (TimerArmCompleted i (Inl TimerArmUnavailable))"
  let ?f = "(app_availability a)\<lparr>avf_state := AvStopped, avf_surface := SurfaceUnknown\<rparr>"
  define b where "b = app_publish AppRunning ?f (app_notice a)"
  have av: "av_step (app_availability a) (AvInput (TimerArmCompleted i (Inl TimerArmUnavailable)))
      = (Inr \<lparr>avt_state = AvStopped, avt_surface = None, avt_effect = None\<rparr>, ?f)"
    using assms(2) by (simp add: av_defs)
  have "app_moves a ?i [] b"
    using app_moves.to_availability [OF assms(1) _ av, of "\<lparr>aei_feature = FAvailability, aei_local = i\<rparr>"]
    by (simp add: b_def)
  then have "app_step a ?i = (Inr \<lparr>apt_view = app_view b, apt_effects = EffectBatch_new\<rparr>, b)"
    by (simp add: app_step_complete EffectBatch_new_eq)
  moreover have "app_wedged b" by (simp add: b_def app_wedged_def)
  ultimately show ?thesis using app_run_wedged app_wedged_lifecycle by blast
qed

lemma app_unstoppable_after_timer_failure_witness:
  "\<exists>is. fst (app_step (run app_step app_new is) (AppLifecycle Stop)) = Inl (AvailabilityRejected AvNotStarted) \<and>
        fst (app_step (run app_step app_new is) (AppLifecycle Start)) = Inl AlreadyStarted"
proof -
  let ?read = "AvailabilityEffect \<lparr>aei_feature = FAvailability, aei_local = LocalEffectId 1\<rparr>
                 (ReadCompleted (LocalEffectId 1) (Inr Available))"
  let ?fail = "AvailabilityEffect \<lparr>aei_feature = FAvailability, aei_local = LocalEffectId 2\<rparr>
                 (TimerArmCompleted (LocalEffectId 2) (Inl TimerArmUnavailable))"
  let ?a = "run app_step app_new [AppLifecycle Start, ?read]"
  have n: "next_local_id 0 = Some (LocalEffectId 1)" "next_local_id 1 = Some (LocalEffectId 2)"
    by (simp_all add: next_local_id_Some)
  have "app_state ?a = AppRunning \<and> avf_state (app_availability ?a) = AvArmingRefresh (LocalEffectId 2)"
    by (simp add: app_defs Let_def app_new_def av_new_def sn_new_def av_defs sn_defs n push_first
        push_second)
  then obtain b where b: "app_step ?a ?fail = (Inr \<lparr>apt_view = app_view b, apt_effects = EffectBatch_new\<rparr>, b)"
    and "\<forall>is. fst (app_step (run app_step b is) (AppLifecycle Stop))
                   = Inl (AvailabilityRejected AvNotStarted) \<and>
                 fst (app_step (run app_step b is) (AppLifecycle Start)) = Inl AlreadyStarted"
    using app_unstoppable_after_timer_failure [of ?a "LocalEffectId 2"] by blast
  then have stuck: "fst (app_step (run app_step b []) (AppLifecycle Stop)) = Inl (AvailabilityRejected AvNotStarted) \<and>
      fst (app_step (run app_step b []) (AppLifecycle Start)) = Inl AlreadyStarted"
    by blast
  have "run app_step app_new [AppLifecycle Start, ?read, ?fail] = b"
    using b by (simp del: app_step_def)
  with stuck show ?thesis by (metis run.simps(1))
qed

end
