(* ===== verification/Bytes.thy ===== *)
theory Bytes
  imports Prelude
begin

text \<open>
  Fixed-width byte encodings of machine integers, little endian and big endian, and the list
  lemmas that take a byte string apart into fields and put it together again.
\<close>

section \<open>Digits in base 256\<close>

fun le_digits :: "nat \<Rightarrow> nat \<Rightarrow> u8 list" where
  "le_digits 0 v = []"
| "le_digits (Suc n) v = of_nat v # le_digits n (v div 256)"

fun nat_of_le :: "u8 list \<Rightarrow> nat" where
  "nat_of_le [] = 0"
| "nat_of_le (b # bs) = unat b + 256 * nat_of_le bs"

lemma length_le_digits [simp]: "length (le_digits n v) = n"
  by (induction n arbitrary: v) auto

lemma unat_of_nat_u8: "unat (of_nat v :: u8) = v mod 256"
  by (simp add: unat_of_nat)

lemma nat_of_le_digits: "nat_of_le (le_digits n v) = v mod 256 ^ n"
proof (induction n arbitrary: v)
  case 0
  then show ?case by simp
next
  case (Suc n)
  then show ?case using mod_mult2_eq [of v 256 "256 ^ n"] by (simp add: unat_of_nat_u8)
qed

lemma nat_of_le_bound: "nat_of_le bs < 256 ^ length bs"
proof (induction bs)
  case Nil
  then show ?case by simp
next
  case (Cons b bs)
  have "unat b < 256" using unsigned_less [of b] by simp
  with Cons show ?case by simp
qed

lemma le_digits_nat_of_le: "length bs = n \<Longrightarrow> le_digits n (nat_of_le bs) = bs"
proof (induction bs arbitrary: n)
  case Nil
  then show ?case by simp
next
  case (Cons b bs)
  have b: "unat b < 256" using unsigned_less [of b] by simp
  have "(of_nat (unat b + 256 * nat_of_le bs) :: u8) = b"
  proof (rule word_unat_eq_iff [THEN iffD2])
    show "unat (of_nat (unat b + 256 * nat_of_le bs) :: u8) = unat b"
      using b by (simp add: unat_of_nat_u8 del: of_nat_add)
  qed
  moreover have "(unat b + 256 * nat_of_le bs) div 256 = nat_of_le bs" using b by simp
  ultimately show ?case using Cons by (cases n) (auto simp del: of_nat_add)
qed

section \<open>to_be_bytes, from_be_bytes, to_le_bytes, from_le_bytes\<close>

definition to_le_bytes :: "'a::len word \<Rightarrow> u8 list" where
  "to_le_bytes w = le_digits (LENGTH('a) div 8) (unat w)"

definition from_le_bytes :: "u8 list \<Rightarrow> 'a::len word" where
  "from_le_bytes bs = of_nat (nat_of_le bs)"

definition to_be_bytes :: "'a::len word \<Rightarrow> u8 list" where
  "to_be_bytes w = rev (to_le_bytes w)"

definition from_be_bytes :: "u8 list \<Rightarrow> 'a::len word" where
  "from_be_bytes bs = from_le_bytes (rev bs)"

lemma length_to_le_bytes [simp]: "length (to_le_bytes (w :: 'a::len word)) = LENGTH('a) div 8"
  by (simp add: to_le_bytes_def)

lemma length_to_be_bytes [simp]: "length (to_be_bytes (w :: 'a::len word)) = LENGTH('a) div 8"
  by (simp add: to_be_bytes_def)

lemma pow_256_bytes: "8 * (n :: nat) = m \<Longrightarrow> (256 :: nat) ^ n = 2 ^ m"
  by (auto simp: power_mult)

lemma from_le_to_le:
  assumes "8 * (LENGTH('a::len) div 8) = LENGTH('a)"
  shows "from_le_bytes (to_le_bytes (w :: 'a word)) = w"
  by (simp add: to_le_bytes_def from_le_bytes_def nat_of_le_digits pow_256_bytes [OF assms]
      unsigned_less)

lemma to_le_from_le:
  assumes "8 * length bs = LENGTH('a::len)"
  shows "to_le_bytes (from_le_bytes bs :: 'a word) = bs"
proof -
  have "unat (of_nat (nat_of_le bs) :: 'a word) = nat_of_le bs"
    using nat_of_le_bound [of bs] by (simp add: unat_of_nat pow_256_bytes [OF assms])
  moreover have "LENGTH('a) div 8 = length bs" using assms by linarith
  ultimately show ?thesis
    by (simp add: to_le_bytes_def from_le_bytes_def le_digits_nat_of_le)
qed

lemma from_be_to_be:
  "8 * (LENGTH('a::len) div 8) = LENGTH('a) \<Longrightarrow> from_be_bytes (to_be_bytes (w :: 'a word)) = w"
  by (simp add: from_be_bytes_def to_be_bytes_def from_le_to_le)

lemma to_be_from_be:
  "8 * length bs = LENGTH('a::len) \<Longrightarrow> to_be_bytes (from_be_bytes bs :: 'a word) = bs"
  by (simp add: from_be_bytes_def to_be_bytes_def to_le_from_le)

lemma be_round_trips [simp, byte_simps]:
  "from_be_bytes (to_be_bytes (w16 :: u16)) = w16"
  "from_be_bytes (to_be_bytes (w32 :: u32)) = w32"
  "from_be_bytes (to_be_bytes (w64 :: u64)) = w64"
  "from_le_bytes (to_le_bytes (w32 :: u32)) = w32"
  "from_le_bytes (to_le_bytes (w64 :: u64)) = w64"
  by (simp_all add: from_be_to_be from_le_to_le)

lemma be_canonical [simp, byte_simps]:
  "length bs = 2 \<Longrightarrow> to_be_bytes (from_be_bytes bs :: u16) = bs"
  "length bs = 4 \<Longrightarrow> to_be_bytes (from_be_bytes bs :: u32) = bs"
  "length bs = 8 \<Longrightarrow> to_be_bytes (from_be_bytes bs :: u64) = bs"
  "length bs = 4 \<Longrightarrow> to_le_bytes (from_le_bytes bs :: u32) = bs"
  "length bs = 8 \<Longrightarrow> to_le_bytes (from_le_bytes bs :: u64) = bs"
  by (simp_all add: to_be_from_be to_le_from_le)

lemma to_be_bytes_u16: "\<exists>a b. to_be_bytes (w :: u16) = [a, b]"
proof -
  have "length (to_be_bytes w) = Suc (Suc 0)" by simp
  then show ?thesis by (auto simp: length_Suc_conv simp del: length_to_be_bytes)
qed

section \<open>Fields of a byte string\<close>

definition slice :: "nat \<Rightarrow> nat \<Rightarrow> 'a list \<Rightarrow> 'a list" where
  "slice i n xs = take n (drop i xs)"

lemma length_slice [simp]: "i + n \<le> length xs \<Longrightarrow> length (slice i n xs) = n"
  by (simp add: slice_def)

lemma slice_join: "j = i + n \<Longrightarrow> slice i n xs @ drop j xs = drop i xs"
  unfolding slice_def by (metis append_take_drop_id drop_drop add.commute)

lemma slice_end: "length xs = i + n \<Longrightarrow> slice i n xs = drop i xs"
  by (simp add: slice_def)

lemma slice_start: "slice 0 n xs @ drop n xs = xs"
  by (simp add: slice_def)

lemma nth_join: "i < length xs \<Longrightarrow> j = Suc i \<Longrightarrow> xs ! i # drop j xs = drop i xs"
  by (simp add: Cons_nth_drop_Suc)

lemma nth_end: "length xs = Suc i \<Longrightarrow> [xs ! i] = drop i xs"
  using nth_join [of i xs "Suc i"] by simp

lemma slice_append1: "i + n \<le> length xs \<Longrightarrow> slice i n (xs @ ys) = slice i n xs"
  by (simp add: slice_def)

lemma slice_append2: "length xs \<le> i \<Longrightarrow> slice i n (xs @ ys) = slice (i - length xs) n ys"
  by (simp add: slice_def)

lemma slice_all: "length xs = n \<Longrightarrow> slice 0 n xs = xs"
  by (simp add: slice_def)

lemma slice_Cons: "0 < i \<Longrightarrow> slice i n (x # xs) = slice (i - 1) n xs"
  by (cases i) (simp_all add: slice_def)

lemmas slice_append = slice_append1 slice_append2 slice_all slice_Cons

end
