(* ===== verification/Protocol_Codec.thy ===== *)
theory Protocol_Codec
  imports Bytes
begin

text \<open>
  \<open>crates/deskkin-protocol\<close>: the canonical plaintext messages of protocol major 1, their
  encoder into a caller's buffer, their decoder, frame lengths and the six-digit
  authentication string.
\<close>

section \<open>Data\<close>

definition PRELUDE :: "u8 list" where
  "PRELUDE = [0x44, 0x53, 0x4b, 0x4e, 0, 1]"

definition APPLICATION_FRAME_MAX :: nat where
  "APPLICATION_FRAME_MAX = 16 * 1024"

type_synonym context_id = "u8 list"
type_synonym bits = "u8 list"

definition AVAILABILITY_READ_V1 :: bits where
  "AVAILABILITY_READ_V1 = [1, 0, 0, 0, 0, 0, 0, 0]"

definition AVAILABILITY_READ_PERMISSION :: bits where
  "AVAILABILITY_READ_PERMISSION = [1, 0, 0, 0, 0, 0, 0, 0]"

definition PROTOCOL_MAJOR_1 :: bits where
  "PROTOCOL_MAJOR_1 = [2, 0, 0, 0, 0, 0, 0, 0]"

datatype pairing_decision = Confirmed | Rejected

datatype pairing_close_reason =
  PcRejected | PcExpired | PcIncomplete | PcStoreFailed | PcPairingBusy

datatype hello_reject_reason =
  NoCommonVersion | RequiredFeatureUnsupported | SessionBusy | PermissionDenied

datatype availability_result = ArAvailable | ArUnavailable | ArReadFailed

datatype close_reason = CNormal | CProtocol | CTimeout | CCancelled | CUnpaired

datatype message =
  PairingBegin context_id
| PairingDecision context_id pairing_decision
| PairingPrepared context_id
| PairingCommit context_id
| PairingCommitted context_id
| PairingClose context_id pairing_close_reason
| PairingComplete context_id
| Hello context_id bits bits bits bits
| HelloAck context_id u8 bits bits
| HelloReject context_id hello_reject_reason
| ReadAvailabilityMsg u32 context_id
| AvailabilityResultMsg u32 context_id availability_result
| Ping
| Pong
| Close close_reason

datatype codec_error =
  BufferTooSmall
| Empty
| UnknownTag u8
| InvalidValue
| TrailingBytes
| Oversize

text \<open>The array types of the Rust fields, as lengths.\<close>

fun message_wf :: "message \<Rightarrow> bool" where
  "message_wf (PairingBegin t) \<longleftrightarrow> length t = 16"
| "message_wf (PairingDecision t _) \<longleftrightarrow> length t = 16"
| "message_wf (PairingPrepared t) \<longleftrightarrow> length t = 16"
| "message_wf (PairingCommit t) \<longleftrightarrow> length t = 16"
| "message_wf (PairingCommitted t) \<longleftrightarrow> length t = 16"
| "message_wf (PairingClose t _) \<longleftrightarrow> length t = 16"
| "message_wf (PairingComplete t) \<longleftrightarrow> length t = 16"
| "message_wf (Hello s pm rf of' rp) \<longleftrightarrow>
     length s = 16 \<and> length pm = 8 \<and> length rf = 8 \<and> length of' = 8 \<and> length rp = 8"
| "message_wf (HelloAck s _ sf gp) \<longleftrightarrow> length s = 16 \<and> length sf = 8 \<and> length gp = 8"
| "message_wf (HelloReject s _) \<longleftrightarrow> length s = 16"
| "message_wf (ReadAvailabilityMsg _ c) \<longleftrightarrow> length c = 16"
| "message_wf (AvailabilityResultMsg _ c _) \<longleftrightarrow> length c = 16"
| "message_wf Ping \<longleftrightarrow> True"
| "message_wf Pong \<longleftrightarrow> True"
| "message_wf (Close _) \<longleftrightarrow> True"

section \<open>Closed values and their byte\<close>

fun decision_u8 :: "pairing_decision \<Rightarrow> u8" where
  "decision_u8 Confirmed = 0"
| "decision_u8 Rejected = 1"

definition decision_of :: "u8 \<Rightarrow> codec_error + pairing_decision" where
  "decision_of v = (if v = 0 then Inr Confirmed else if v = 1 then Inr Rejected else Inl InvalidValue)"

fun pairing_reason_u8 :: "pairing_close_reason \<Rightarrow> u8" where
  "pairing_reason_u8 PcRejected = 0"
| "pairing_reason_u8 PcExpired = 1"
| "pairing_reason_u8 PcIncomplete = 2"
| "pairing_reason_u8 PcStoreFailed = 3"
| "pairing_reason_u8 PcPairingBusy = 4"

definition pairing_reason :: "u8 \<Rightarrow> codec_error + pairing_close_reason" where
  "pairing_reason v =
     (if v = 0 then Inr PcRejected else if v = 1 then Inr PcExpired
      else if v = 2 then Inr PcIncomplete else if v = 3 then Inr PcStoreFailed
      else if v = 4 then Inr PcPairingBusy else Inl InvalidValue)"

fun hello_reason_u8 :: "hello_reject_reason \<Rightarrow> u8" where
  "hello_reason_u8 NoCommonVersion = 0"
| "hello_reason_u8 RequiredFeatureUnsupported = 1"
| "hello_reason_u8 SessionBusy = 2"
| "hello_reason_u8 PermissionDenied = 3"

definition hello_reason :: "u8 \<Rightarrow> codec_error + hello_reject_reason" where
  "hello_reason v =
     (if v = 0 then Inr NoCommonVersion else if v = 1 then Inr RequiredFeatureUnsupported
      else if v = 2 then Inr SessionBusy else if v = 3 then Inr PermissionDenied
      else Inl InvalidValue)"

fun availability_u8 :: "availability_result \<Rightarrow> u8" where
  "availability_u8 ArAvailable = 0"
| "availability_u8 ArUnavailable = 1"
| "availability_u8 ArReadFailed = 2"

definition availability_of :: "u8 \<Rightarrow> codec_error + availability_result" where
  "availability_of v =
     (if v = 0 then Inr ArAvailable else if v = 1 then Inr ArUnavailable
      else if v = 2 then Inr ArReadFailed else Inl InvalidValue)"

fun close_reason_u8 :: "close_reason \<Rightarrow> u8" where
  "close_reason_u8 CNormal = 0"
| "close_reason_u8 CProtocol = 1"
| "close_reason_u8 CTimeout = 2"
| "close_reason_u8 CCancelled = 3"
| "close_reason_u8 CUnpaired = 4"

definition close_reason_of :: "u8 \<Rightarrow> codec_error + close_reason" where
  "close_reason_of v =
     (if v = 0 then Inr CNormal else if v = 1 then Inr CProtocol else if v = 2 then Inr CTimeout
      else if v = 3 then Inr CCancelled else if v = 4 then Inr CUnpaired else Inl InvalidValue)"

interpretation decision: codec decision_u8 decision_of "\<lambda>_. True"
proof unfold_locales
  show "decision_of (decision_u8 x) = Inr x" for x by (cases x) (simp_all add: decision_of_def)
qed (auto simp: decision_of_def split: if_splits)

interpretation pairing_reason_codec: codec pairing_reason_u8 pairing_reason "\<lambda>_. True"
proof unfold_locales
  show "pairing_reason (pairing_reason_u8 x) = Inr x" for x by (cases x) (simp_all add: pairing_reason_def)
qed (auto simp: pairing_reason_def split: if_splits)

interpretation hello_reason_codec: codec hello_reason_u8 hello_reason "\<lambda>_. True"
proof unfold_locales
  show "hello_reason (hello_reason_u8 x) = Inr x" for x by (cases x) (simp_all add: hello_reason_def)
qed (auto simp: hello_reason_def split: if_splits)

interpretation availability_codec: codec availability_u8 availability_of "\<lambda>_. True"
proof unfold_locales
  show "availability_of (availability_u8 x) = Inr x" for x by (cases x) (simp_all add: availability_of_def)
qed (auto simp: availability_of_def split: if_splits)

interpretation close_reason_codec: codec close_reason_u8 close_reason_of "\<lambda>_. True"
proof unfold_locales
  show "close_reason_of (close_reason_u8 x) = Inr x" for x by (cases x) (simp_all add: close_reason_of_def)
qed (auto simp: close_reason_of_def split: if_splits)

lemmas closed_value_simps =
  decision.dec_enc pairing_reason_codec.dec_enc hello_reason_codec.dec_enc
  availability_codec.dec_enc close_reason_codec.dec_enc

lemmas closed_value_encodings =
  decision.enc_dec pairing_reason_codec.enc_dec hello_reason_codec.enc_dec
  availability_codec.enc_dec close_reason_codec.enc_dec

section \<open>Encoding\<close>

fun message_tag :: "message \<Rightarrow> u8" where
  "message_tag (PairingBegin _) = 1"
| "message_tag (PairingDecision _ _) = 2"
| "message_tag (PairingPrepared _) = 3"
| "message_tag (PairingCommit _) = 4"
| "message_tag (PairingCommitted _) = 5"
| "message_tag (PairingClose _ _) = 6"
| "message_tag (PairingComplete _) = 7"
| "message_tag (Hello _ _ _ _ _) = 0x10"
| "message_tag (HelloAck _ _ _ _) = 0x11"
| "message_tag (HelloReject _ _) = 0x12"
| "message_tag (ReadAvailabilityMsg _ _) = 0x20"
| "message_tag (AvailabilityResultMsg _ _ _) = 0x21"
| "message_tag Ping = 0x30"
| "message_tag Pong = 0x31"
| "message_tag (Close _) = 0x32"

fun encoded_len :: "message \<Rightarrow> nat" where
  "encoded_len (PairingBegin _) = 17"
| "encoded_len (PairingPrepared _) = 17"
| "encoded_len (PairingCommit _) = 17"
| "encoded_len (PairingCommitted _) = 17"
| "encoded_len (PairingComplete _) = 17"
| "encoded_len (PairingDecision _ _) = 18"
| "encoded_len (PairingClose _ _) = 18"
| "encoded_len (HelloReject _ _) = 18"
| "encoded_len (Hello _ _ _ _ _) = 49"
| "encoded_len (HelloAck _ _ _ _) = 34"
| "encoded_len (ReadAvailabilityMsg _ _) = 21"
| "encoded_len (AvailabilityResultMsg _ _ _) = 22"
| "encoded_len Ping = 1"
| "encoded_len Pong = 1"
| "encoded_len (Close _) = 2"

text \<open>What the \<open>bytes!\<close> and \<open>byte!\<close> macros write after the tag, in order.\<close>

fun message_payload :: "message \<Rightarrow> u8 list" where
  "message_payload (PairingBegin t) = t"
| "message_payload (PairingPrepared t) = t"
| "message_payload (PairingCommit t) = t"
| "message_payload (PairingCommitted t) = t"
| "message_payload (PairingComplete t) = t"
| "message_payload (PairingDecision t d) = t @ [decision_u8 d]"
| "message_payload (PairingClose t r) = t @ [pairing_reason_u8 r]"
| "message_payload (Hello s pm rf of' rp) = s @ pm @ rf @ of' @ rp"
| "message_payload (HelloAck s m sf gp) = s @ [m] @ sf @ gp"
| "message_payload (HelloReject s r) = s @ [hello_reason_u8 r]"
| "message_payload (ReadAvailabilityMsg n c) = to_be_bytes n @ c"
| "message_payload (AvailabilityResultMsg n c r) = to_be_bytes n @ c @ [availability_u8 r]"
| "message_payload Ping = []"
| "message_payload Pong = []"
| "message_payload (Close r) = [close_reason_u8 r]"

text \<open>
  \<open>Message::encode\<close>: the result is the slice \<open>output[..size]\<close> after the tag and the payload
  have been written over its beginning; the second component is the caller's buffer.
\<close>

definition Message_encode :: "message \<Rightarrow> (u8 list, codec_error, u8 list) mut_call" where
  "Message_encode m output =
     (let size = encoded_len m
      in if size > APPLICATION_FRAME_MAX then (Inl Oversize, output)
         else if length output < size then (Inl BufferTooSmall, output)
         else let written = message_tag m # message_payload m;
                  out = written @ drop (length written) (take size output)
              in (Inr out, out @ drop size output))"

section \<open>Decoding\<close>

definition exact :: "nat \<Rightarrow> u8 list \<Rightarrow> codec_error + message \<Rightarrow> codec_error + message" where
  "exact n body k = (if length body \<noteq> n then Inl TrailingBytes else k)"

definition Message_decode :: "u8 list \<Rightarrow> codec_error + message" where
  "Message_decode input =
     (case input of
        [] \<Rightarrow> Inl Empty
      | tag # body \<Rightarrow>
        if length input > APPLICATION_FRAME_MAX then Inl Oversize
        else if tag = 0x01 then exact 16 body (Inr (PairingBegin (slice 0 16 body)))
        else if tag = 0x02 then exact 17 body
          (res_bind (decision_of (body ! 16)) (\<lambda>d. Inr (PairingDecision (slice 0 16 body) d)))
        else if tag = 0x03 then exact 16 body (Inr (PairingPrepared (slice 0 16 body)))
        else if tag = 0x04 then exact 16 body (Inr (PairingCommit (slice 0 16 body)))
        else if tag = 0x05 then exact 16 body (Inr (PairingCommitted (slice 0 16 body)))
        else if tag = 0x06 then exact 17 body
          (res_bind (pairing_reason (body ! 16)) (\<lambda>r. Inr (PairingClose (slice 0 16 body) r)))
        else if tag = 0x07 then exact 16 body (Inr (PairingComplete (slice 0 16 body)))
        else if tag = 0x10 then exact 48 body
          (Inr (Hello (slice 0 16 body) (slice 16 8 body) (slice 24 8 body) (slice 32 8 body)
                 (slice 40 8 body)))
        else if tag = 0x11 then exact 33 body
          (Inr (HelloAck (slice 0 16 body) (body ! 16) (slice 17 8 body) (slice 25 8 body)))
        else if tag = 0x12 then exact 17 body
          (res_bind (hello_reason (body ! 16)) (\<lambda>r. Inr (HelloReject (slice 0 16 body) r)))
        else if tag = 0x20 then exact 20 body
          (Inr (ReadAvailabilityMsg (from_be_bytes (slice 0 4 body)) (slice 4 16 body)))
        else if tag = 0x21 then exact 21 body
          (res_bind (availability_of (body ! 20)) (\<lambda>r.
             Inr (AvailabilityResultMsg (from_be_bytes (slice 0 4 body)) (slice 4 16 body) r)))
        else if tag = 0x30 then exact 0 body (Inr Ping)
        else if tag = 0x31 then exact 0 body (Inr Pong)
        else if tag = 0x32 then exact 1 body
          (res_bind (close_reason_of (body ! 0)) (\<lambda>r. Inr (Close r)))
        else Inl (UnknownTag tag))"

section \<open>Frame length and authentication string\<close>

definition encode_frame_length :: "nat \<Rightarrow> codec_error + u8 list" where
  "encode_frame_length len =
     (if len > 65535 then Inl Oversize
      else if len > APPLICATION_FRAME_MAX then Inl Oversize
      else Inr (to_be_bytes (of_nat len :: u16)))"

definition decode_frame_length :: "u8 list \<Rightarrow> nat" where
  "decode_frame_length bytes = unat (from_be_bytes bytes :: u16)"

fun sas_digits :: "nat \<Rightarrow> u32 \<Rightarrow> u8 list \<Rightarrow> u8 list" where
  "sas_digits 0 n out = out"
| "sas_digits (Suc i) n out = sas_digits i (n div 10) (out[i := 0x30 + ucast (n mod 10)])"

definition authentication_string :: "u8 list \<Rightarrow> codec_error + u8 list" where
  "authentication_string handshake_hash =
     (if length handshake_hash < 4 then Inl InvalidValue
      else Inr (sas_digits 6 ((from_be_bytes (take 4 handshake_hash) :: u32) mod 1000000)
                  (replicate 6 0x30)))"

section \<open>The codec laws\<close>

definition message_bytes :: "message \<Rightarrow> u8 list" where
  "message_bytes m = message_tag m # message_payload m"

lemma length_message_bytes [simp]: "message_wf m \<Longrightarrow> length (message_bytes m) = encoded_len m"
  by (cases m) (auto simp: message_bytes_def)

lemma encoded_len_bounds: "0 < encoded_len m" "encoded_len m \<le> 49"
  by (cases m; simp)+

lemma Message_decode_bytes: "message_wf m \<Longrightarrow> Message_decode (message_bytes m) = Inr m"
  by (cases m)
    (simp_all add: message_bytes_def Message_decode_def APPLICATION_FRAME_MAX_def exact_def
      closed_value_simps slice_append nth_append)

lemma exact_Inr: "exact n body k = Inr m \<longleftrightarrow> length body = n \<and> k = Inr m"
  by (simp add: exact_def)

lemma Message_decode_canonical:
  assumes "Message_decode input = Inr m"
  shows "message_wf m \<and> message_bytes m = input"
proof -
  obtain tag body where input: "input = tag # body"
    using assms by (cases input) (auto simp: Message_decode_def)
  show ?thesis
    using assms unfolding input
    by (auto simp: Message_decode_def exact_Inr res_bind_Inr_iff message_bytes_def slice_join
        slice_end slice_start nth_join nth_end dest!: closed_value_encodings split: if_splits)
qed

interpretation message_codec: codec message_bytes Message_decode message_wf
  by unfold_locales (simp add: Message_decode_bytes, rule Message_decode_canonical)

section \<open>Properties\<close>

text \<open>
  C34: Encoding succeeds exactly when the caller's buffer holds the fixed length of the message;
  it writes that many bytes, which decode to the same message, and leaves the rest of the buffer
  alone. No encoding exceeds 49 bytes.
\<close>

theorem message_encode_round_trip:
  assumes "message_wf m"
  shows "(if length output < encoded_len m
          then Message_encode m output = (Inl BufferTooSmall, output)
          else \<exists>out. Message_encode m output = (Inr out, out @ drop (encoded_len m) output) \<and>
                 length out = encoded_len m \<and> Message_decode out = Inr m) \<and>
         encoded_len m \<le> 49"
proof -
  have "encoded_len m \<le> APPLICATION_FRAME_MAX"
    using encoded_len_bounds(2) [of m] by (simp add: APPLICATION_FRAME_MAX_def)
  moreover have "length (message_tag m # message_payload m) = encoded_len m"
    using length_message_bytes [OF assms] by (simp add: message_bytes_def)
  ultimately show ?thesis
    using encoded_len_bounds(2) [of m] Message_decode_bytes [OF assms]
    by (simp add: Message_encode_def Let_def message_bytes_def)
qed

lemma message_encode_round_trip_witness:
  "\<exists>out. Message_encode (Close CUnpaired) (replicate 4 0) = (Inr out, out @ [0, 0]) \<and>
         Message_decode out = Inr (Close CUnpaired)"
  using message_encode_round_trip [of "Close CUnpaired" "replicate 4 0"]
  by (auto simp: numeral_eq_Suc)

text \<open>
  C35: The wire form is canonical: a byte string is accepted exactly when it is the encoding of a
  well-formed message, so no message has two accepted encodings and no string two meanings.
\<close>

theorem message_decode_canonical:
  "Message_decode input = Inr m \<longleftrightarrow> message_wf m \<and> message_bytes m = input"
  by (rule message_codec.accepts_iff)

text \<open>
  A frame length is encoded exactly when it is at most 16384, in two bytes that decode to it.
\<close>

lemma frame_length_round_trip:
  "encode_frame_length len =
     (if len \<le> 16384 then Inr (to_be_bytes (of_nat len :: u16)) else Inl Oversize) \<and>
   (len \<le> 16384 \<longrightarrow> decode_frame_length (to_be_bytes (of_nat len :: u16)) = len)"
  by (simp add: encode_frame_length_def decode_frame_length_def APPLICATION_FRAME_MAX_def
      unat_of_nat)

text \<open>The number a string of ASCII digits denotes.\<close>

definition ascii_value :: "u8 list \<Rightarrow> nat" where
  "ascii_value ds = foldl (\<lambda>v d. 10 * v + (unat d - 0x30)) 0 ds"

definition is_ascii_digit :: "u8 \<Rightarrow> bool" where
  "is_ascii_digit d \<longleftrightarrow> 0x30 \<le> d \<and> d \<le> 0x39"

lemma unat_digit: "unat (0x30 + ucast ((n :: u32) mod 10) :: u8) = 48 + unat n mod 10"
  by (simp add: unat_word_ariths unat_mod unsigned_ucast_eq take_bit_nat_eq_self)

lemma ascii_value_append: "ascii_value (xs @ [d]) = 10 * ascii_value xs + (unat d - 48)"
  by (simp add: ascii_value_def)

lemma sas_digits_inv:
  assumes "i \<le> length out"
  shows "length (sas_digits i n out) = length out \<and>
         drop i (sas_digits i n out) = drop i out \<and>
         list_all is_ascii_digit (take i (sas_digits i n out)) \<and>
         ascii_value (take i (sas_digits i n out)) = unat n mod 10 ^ i"
  using assms
proof (induction i arbitrary: n out)
  case 0
  then show ?case by (simp add: ascii_value_def)
next
  case (Suc i)
  define d :: u8 where "d = 0x30 + ucast (n mod 10)"
  define r where "r = sas_digits i (n div 10) (out[i := d])"
  have IH: "length r = length out" "drop i r = drop i (out[i := d])"
    "list_all is_ascii_digit (take i r)" "ascii_value (take i r) = unat (n div 10) mod 10 ^ i"
    using Suc.IH [of "out[i := d]" "n div 10"] Suc.prems by (simp_all add: r_def)
  have i: "i < length r" "i < length out" using Suc.prems IH(1) by simp_all
  have "drop i r ! 0 = drop i (out[i := d]) ! 0" by (simp only: IH(2))
  then have ri: "r ! i = d" using i by simp
  have "drop (Suc i) r = drop 1 (drop i r)" by simp
  also have "\<dots> = drop (Suc i) out" using i by (simp add: IH(2) drop_update_swap)
  finally have dr: "drop (Suc i) r = drop (Suc i) out" .
  have tk: "take (Suc i) r = take i r @ [d]" using i ri by (simp add: take_Suc_conv_app_nth)
  have ud: "unat d = 48 + unat n mod 10" unfolding d_def by (rule unat_digit)
  have "unat n mod 10 < 10" by simp
  then have dig: "is_ascii_digit d"
    using ud by (simp add: is_ascii_digit_def word_le_nat_alt)
  have "unat n mod 10 ^ Suc i = 10 * (unat n div 10 mod 10 ^ i) + unat n mod 10"
    using mod_mult2_eq [of "unat n" 10 "10 ^ i"] by simp
  then have val: "ascii_value (take (Suc i) r) = unat n mod 10 ^ Suc i"
    by (simp add: tk ascii_value_append IH(4) ud unat_div)
  have "sas_digits (Suc i) n out = r" by (simp add: r_def d_def)
  with IH(1,3) dr tk dig val show ?case by simp
qed

text \<open>
  The authentication string exists exactly when the handshake hash has four bytes; it is six
  ASCII digits that spell the first four bytes, read big endian, modulo one million, so two peers
  with the same hash always show the same string.
\<close>

theorem authentication_string_digits:
  "(length h < 4 \<longrightarrow> authentication_string h = Inl InvalidValue) \<and>
   (4 \<le> length h \<longrightarrow>
      (\<exists>s. authentication_string h = Inr s \<and> length s = 6 \<and> list_all is_ascii_digit s \<and>
           ascii_value s = unat (from_be_bytes (take 4 h) :: u32) mod 1000000))"
proof -
  let ?n = "(from_be_bytes (take 4 h) :: u32) mod 1000000"
  let ?s = "sas_digits 6 ?n (replicate 6 0x30)"
  have inv: "length ?s = length (replicate 6 (0x30 :: u8)) \<and> drop 6 ?s = drop 6 (replicate 6 0x30) \<and>
      list_all is_ascii_digit (take 6 ?s) \<and> ascii_value (take 6 ?s) = unat ?n mod 10 ^ 6"
    by (rule sas_digits_inv) simp
  then have len: "length ?s = 6" and "take 6 ?s = ?s" by simp_all
  with inv have dig: "list_all is_ascii_digit ?s" and val: "ascii_value ?s = unat ?n mod 10 ^ 6"
    by metis+
  have "unat ?n = unat (from_be_bytes (take 4 h) :: u32) mod 1000000"
    by (simp add: unat_mod)
  with len dig val show ?thesis by (simp add: authentication_string_def)
qed

lemma authentication_string_digits_witness:
  "authentication_string [0, 0, 0, 42] = Inr [0x30, 0x30, 0x30, 0x30, 0x34, 0x32] \<and>
   (\<exists>s. authentication_string [0, 0, 0, 42] = Inr s \<and> length s = 6 \<and> list_all is_ascii_digit s)"
proof
  show "authentication_string [0, 0, 0, 42] = Inr [0x30, 0x30, 0x30, 0x30, 0x34, 0x32]"
    by code_simp
  show "\<exists>s. authentication_string [0, 0, 0, 42] = Inr s \<and> length s = 6 \<and> list_all is_ascii_digit s"
    using authentication_string_digits [of "[0, 0, 0, 42]"] by auto
qed

end
