(* ===== verification/Host_Capabilities.thy ===== *)
theory Host_Capabilities
  imports Prelude
begin

text \<open>
  \<open>crates/deskkin-host-capabilities\<close>: the host's single owner of connector lifecycle and of the
  effect in flight. \<open>hc_step\<close> is its public interface.
\<close>

section \<open>Data\<close>

datatype capability_id = AvailabilityRead
datatype connector_id = DeterministicAvailabilityConnector
datatype hc_lifecycle = HcStart | HcStop
datatype hc_value = HcAvailable | HcUnavailable
datatype capability_failure = CfReadFailed | CfConnectorUnavailable | CfTimeout | CfCancelled
datatype capability_request = CapReadAvailability
datatype capability_result = CapAvailability "capability_failure + hc_value"
datatype deterministic_availability =
  DaAvailable | DaUnavailable | DaReadFailed | DaConnectorUnavailable | DaTimeout | DaCancelled

record capability_effect_id =
  cei_capability :: capability_id
  cei_connector :: connector_id
  cei_local :: u64

datatype connector_request = ConnReadAvailability

record routed_request =
  rr_id :: capability_effect_id
  rr_request :: connector_request

datatype connector_result = ConnAvailability "capability_failure + hc_value"

record connector_completion =
  cc_id :: capability_effect_id
  cc_result :: connector_result

record invocation =
  inv_routed :: routed_request
  inv_result :: capability_result

datatype hc_error =
  HcAlreadyStarted | HcNotStarted | HcBusy | HcUnexpectedCompletion
| HcEffectIdentityMismatch | HcEffectIdentityExhausted

datatype runtime_state = RsStopped | RsReady | RsWaiting capability_effect_id

record host_capabilities =
  hc_state :: runtime_state
  hc_availability :: deterministic_availability
  hc_next_effect_id :: u64

section \<open>Operations\<close>

definition hc_new :: "deterministic_availability \<Rightarrow> host_capabilities" where
  "hc_new a = \<lparr>hc_state = RsStopped, hc_availability = a, hc_next_effect_id = 0\<rparr>"

definition hc_lifecycle :: "hc_lifecycle \<Rightarrow> (host_capabilities, hc_error, unit) mut_call" where
  "hc_lifecycle lifecycle self =
     (case (hc_state self, lifecycle) of
        (RsStopped, HcStart) \<Rightarrow> (Inr (), self\<lparr>hc_state := RsReady\<rparr>)
      | (RsStopped, HcStop) \<Rightarrow> (Inl HcNotStarted, self)
      | (_, HcStart) \<Rightarrow> (Inl HcAlreadyStarted, self)
      | (_, HcStop) \<Rightarrow> (Inr (), self\<lparr>hc_state := RsStopped\<rparr>))"

definition NonZeroU64_new :: "u64 \<Rightarrow> u64 option" where
  "NonZeroU64_new v = (if v = 0 then None else Some v)"

definition hc_route :: "capability_request \<Rightarrow> (host_capabilities, hc_error, routed_request) mut_call" where
  "hc_route request self =
     (case hc_state self of
        RsStopped \<Rightarrow> (Inl HcNotStarted, self)
      | RsWaiting _ \<Rightarrow> (Inl HcBusy, self)
      | RsReady \<Rightarrow>
          (case Option.bind (checked_add (hc_next_effect_id self) 1) NonZeroU64_new of
             None \<Rightarrow> (Inl HcEffectIdentityExhausted, self)
           | Some next \<Rightarrow>
               (let (capability, connector, request) =
                      (case request of CapReadAvailability \<Rightarrow>
                         (AvailabilityRead, DeterministicAvailabilityConnector, ConnReadAvailability));
                    routed = \<lparr>rr_id = \<lparr>cei_capability = capability, cei_connector = connector,
                                       cei_local = next\<rparr>, rr_request = request\<rparr>
                in (Inr routed,
                    self\<lparr>hc_next_effect_id := next, hc_state := RsWaiting (rr_id routed)\<rparr>))))"

fun connector_answer :: "deterministic_availability \<Rightarrow> capability_failure + hc_value" where
  "connector_answer DaAvailable = Inr HcAvailable"
| "connector_answer DaUnavailable = Inr HcUnavailable"
| "connector_answer DaReadFailed = Inl CfReadFailed"
| "connector_answer DaConnectorUnavailable = Inl CfConnectorUnavailable"
| "connector_answer DaTimeout = Inl CfTimeout"
| "connector_answer DaCancelled = Inl CfCancelled"

definition hc_execute :: "host_capabilities \<Rightarrow> routed_request \<Rightarrow> connector_completion" where
  "hc_execute self request =
     (let result = (case rr_request request of ConnReadAvailability \<Rightarrow>
                      connector_answer (hc_availability self))
      in \<lparr>cc_id = rr_id request, cc_result = ConnAvailability result\<rparr>)"

definition hc_complete :: "connector_completion \<Rightarrow> (host_capabilities, hc_error, capability_result) mut_call" where
  "hc_complete completion self =
     (case hc_state self of
        RsWaiting i \<Rightarrow>
          (if cc_id completion \<noteq> i then (Inl HcEffectIdentityMismatch, self)
           else (case cc_result completion of ConnAvailability result \<Rightarrow>
                   (Inr (CapAvailability result), self\<lparr>hc_state := RsReady\<rparr>)))
      | _ \<Rightarrow> (Inl HcUnexpectedCompletion, self))"

definition hc_invoke :: "capability_request \<Rightarrow> (host_capabilities, hc_error, invocation) mut_call" where
  "hc_invoke request =
     try_then (hc_route request) (\<lambda>routed self.
       try_then (hc_complete (hc_execute self routed)) (\<lambda>result self.
         (Inr \<lparr>inv_routed = routed, inv_result = result\<rparr>, self)) self)"

datatype hc_event =
  HcLifecycle hc_lifecycle | HcRoute capability_request | HcComplete connector_completion
| HcInvoke capability_request

datatype hc_output =
  OutUnit | OutRouted routed_request | OutResult capability_result | OutInvocation invocation

fun hc_step :: "(host_capabilities, hc_event, hc_error, hc_output) machine" where
  "hc_step self (HcLifecycle l) = map_ok (\<lambda>_. OutUnit) (hc_lifecycle l self)"
| "hc_step self (HcRoute r) = map_ok OutRouted (hc_route r self)"
| "hc_step self (HcComplete c) = map_ok OutResult (hc_complete c self)"
| "hc_step self (HcInvoke r) = map_ok OutInvocation (hc_invoke r self)"

lemmas hc_defs = hc_lifecycle_def hc_route_def hc_execute_def hc_complete_def hc_invoke_def
  try_then_def Let_def

lemmas hc_splits = option.splits runtime_state.splits hc_lifecycle.splits if_splits
  capability_request.splits connector_result.splits connector_request.splits

section \<open>Invariant and interfaces\<close>

definition hc_counter :: "host_capabilities \<Rightarrow> nat" where
  "hc_counter h = unat (hc_next_effect_id h)"

definition hc_inv :: "host_capabilities \<Rightarrow> bool" where
  "hc_inv h \<longleftrightarrow> (\<forall>i. hc_state h = RsWaiting i \<longrightarrow> cei_local i = hc_next_effect_id h)"

fun hc_issued :: "hc_output \<Rightarrow> nat list" where
  "hc_issued (OutRouted r) = [unat (cei_local (rr_id r))]"
| "hc_issued (OutInvocation v) = [unat (cei_local (rr_id (inv_routed v)))]"
| "hc_issued _ = []"

fun hc_answered :: "hc_event \<Rightarrow> hc_output \<Rightarrow> nat list" where
  "hc_answered (HcComplete c) _ = [unat (cei_local (cc_id c))]"
| "hc_answered _ (OutInvocation v) = [unat (cei_local (rr_id (inv_routed v)))]"
| "hc_answered _ _ = []"

definition hc_lowest :: "host_capabilities \<Rightarrow> nat" where
  "hc_lowest h = (case hc_state h of RsWaiting _ \<Rightarrow> hc_counter h | _ \<Rightarrow> Suc (hc_counter h))"

lemma next_hc_id:
  "Option.bind (checked_add n 1) NonZeroU64_new = Some v \<longleftrightarrow> checked_add n 1 = Some v"
  using checked_add_1_Some(2) [of n]
  by (cases "checked_add n 1") (auto simp: NonZeroU64_new_def)

lemma hc_inv_new: "hc_inv (hc_new a)"
  by (simp add: hc_inv_def hc_new_def)

text \<open>Every operation of the owner, as one of six moves.\<close>

lemma hc_route_cases:
  assumes "hc_route r h = (Inr q, h')"
  obtains n where "hc_state h = RsReady" "checked_add (hc_next_effect_id h) 1 = Some n"
    "q = \<lparr>rr_id = \<lparr>cei_capability = AvailabilityRead,
                   cei_connector = DeterministicAvailabilityConnector, cei_local = n\<rparr>,
          rr_request = ConnReadAvailability\<rparr>"
    "h' = h\<lparr>hc_next_effect_id := n, hc_state := RsWaiting (rr_id q)\<rparr>"
  using assms
  by (cases r) (auto simp: hc_route_def Let_def next_hc_id split: runtime_state.splits option.splits)

lemma hc_complete_cases:
  assumes "hc_complete c h = (Inr q, h')"
  obtains "hc_state h = RsWaiting (cc_id c)" "cc_result c = ConnAvailability (case q of CapAvailability v \<Rightarrow> v)"
    "h' = h\<lparr>hc_state := RsReady\<rparr>"
  using assms
  by (auto simp: hc_complete_def split: runtime_state.splits connector_result.splits if_splits)

lemma hc_invoke_eq:
  "hc_invoke r h =
     (case hc_route r h of
        (Inl e, h') \<Rightarrow> (Inl e, h')
      | (Inr q, h') \<Rightarrow>
          (Inr \<lparr>inv_routed = q, inv_result = CapAvailability (connector_answer (hc_availability h))\<rparr>,
           h'\<lparr>hc_state := RsReady\<rparr>))"
proof (cases "hc_route r h")
  case (Pair a h')
  then show ?thesis
  proof (cases a)
    case (Inl e)
    with Pair show ?thesis by (simp add: hc_invoke_def try_then_def)
  next
    case (Inr q)
    with Pair have "hc_route r h = (Inr q, h')" by simp
    then show ?thesis
      by (rule hc_route_cases)
        (simp_all add: Pair Inr hc_invoke_def try_then_def hc_execute_def hc_complete_def Let_def)
  qed
qed

lemma hc_rejected: "hc_step h e = (Inl err, h') \<Longrightarrow> h' = h"
proof (cases e)
  case (HcInvoke r)
  assume *: "hc_step h e = (Inl err, h')"
  have "hc_route r h = (Inl x, h'') \<Longrightarrow> h'' = h" for x h''
    by (auto simp: hc_route_def Let_def split: hc_splits prod.splits)
  with * HcInvoke show ?thesis
    by (auto simp: hc_invoke_eq split: prod.splits sum.splits)
qed (auto simp: hc_lifecycle_def hc_route_def hc_complete_def Let_def split: hc_splits prod.splits)

lemma hc_accepted:
  assumes "hc_inv h" and "hc_step h e = (Inr out, h')"
  shows "hc_inv h' \<and>
    (hc_counter h \<le> hc_counter h' \<and> hc_issued out = [Suc (hc_counter h)..<Suc (hc_counter h')]) \<and>
    (hc_lowest h \<le> hc_lowest h' \<and> sorted_wrt (<) (hc_answered e out) \<and>
     set (hc_answered e out) \<subseteq> {hc_lowest h..<hc_lowest h'})"
proof (cases e)
  case (HcLifecycle l)
  with assms show ?thesis
    by (cases l; cases "hc_state h") (auto simp: hc_lifecycle_def hc_inv_def hc_counter_def hc_lowest_def)
next
  case (HcRoute r)
  with assms(2) obtain q where "hc_route r h = (Inr q, h')" "out = OutRouted q"
    by (auto simp: map_ok_Inr)
  then show ?thesis using HcRoute
    by (elim hc_route_cases)
      (auto simp: hc_inv_def hc_counter_def hc_lowest_def dest: checked_add_1_Some(1))
next
  case (HcComplete c)
  with assms(2) obtain q where "hc_complete c h = (Inr q, h')" "out = OutResult q"
    by (auto simp: map_ok_Inr)
  then show ?thesis using assms(1) HcComplete
    by (elim hc_complete_cases) (auto simp: hc_inv_def hc_counter_def hc_lowest_def)
next
  case (HcInvoke r)
  with assms(2) obtain q h1 where "hc_route r h = (Inr q, h1)" "h' = h1\<lparr>hc_state := RsReady\<rparr>"
    "out = OutInvocation \<lparr>inv_routed = q, inv_result = CapAvailability (connector_answer (hc_availability h))\<rparr>"
    by (auto simp: map_ok_Inr hc_invoke_eq split: prod.splits sum.splits)
  then show ?thesis using HcInvoke
    by (elim hc_route_cases)
      (auto simp: hc_inv_def hc_counter_def hc_lowest_def dest: checked_add_1_Some(1))
qed

interpretation hc: effect_issuer hc_step hc_inv hc_issued hc_counter
proof
  fix h h' e err
  assume "hc_step h e = (Inl err, h')"
  then show "h' = h" by (rule hc_rejected)
next
  fix h h' e out
  assume "hc_inv h" "hc_step h e = (Inr out, h')"
  note * = hc_accepted [OF this]
  from * show "hc_inv h'" by (rule conjunct1)
  from * show "hc_counter h \<le> hc_counter h' \<and> hc_issued out = [Suc (hc_counter h)..<Suc (hc_counter h')]"
    by (elim conjE) (intro conjI)
qed

interpretation hc_once: answer_once hc_step hc_inv hc_answered hc_lowest
proof
  fix h h' e out
  assume "hc_inv h" "hc_step h e = (Inr out, h')"
  from hc_accepted [OF this]
  show "hc_lowest h \<le> hc_lowest h' \<and> sorted_wrt (<) (hc_answered e out) \<and>
     set (hc_answered e out) \<subseteq> {hc_lowest h..<hc_lowest h'}"
    by (elim conjE) (intro conjI)
qed

section \<open>Properties\<close>

text \<open>
  C39: Whatever the host asks of the owner, routed effects are numbered from one without a gap
  and each is completed at most once, in order: no late, repeated or foreign completion is
  accepted, stopping and restarting included.
\<close>

theorem hc_effects_complete_at_most_once:
  "distinct (answers hc_step hc_answered (hc_new a) es) \<and>
   sorted_wrt (<) (answers hc_step hc_answered (hc_new a) es) \<and>
   concat (map hc_issued (outputs hc_step (hc_new a) es))
     = [1..<Suc (hc_counter (run hc_step (hc_new a) es))]"
  using hc_once.answers_distinct [OF hc_inv_new, of a es] hc_once.answers_run [OF hc_inv_new, of a es]
    hc.issued_run [OF hc_inv_new, of a es]
  by (simp add: hc_counter_def hc_new_def)

text \<open>
  A deterministic invocation succeeds exactly when the owner is ready and identities are
  left; it returns the configured connector's answer and leaves the owner ready again.
\<close>

theorem hc_invoke_answers:
  "(case hc_invoke r h of
      (Inr v, h') \<Rightarrow>
        hc_state h = RsReady \<and> hc_next_effect_id h \<noteq> - 1 \<and>
        inv_result v = CapAvailability (connector_answer (hc_availability h)) \<and>
        cei_local (rr_id (inv_routed v)) = hc_next_effect_id h + 1 \<and>
        h' = h\<lparr>hc_next_effect_id := hc_next_effect_id h + 1, hc_state := RsReady\<rparr>
    | (Inl e, h') \<Rightarrow>
        h' = h \<and>
        (e = HcNotStarted \<and> hc_state h = RsStopped \<or>
         e = HcBusy \<and> (\<exists>i. hc_state h = RsWaiting i) \<or>
         e = HcEffectIdentityExhausted \<and> hc_state h = RsReady \<and> hc_next_effect_id h = - 1))"
proof (cases "hc_state h")
  case RsReady
  show ?thesis
  proof (cases "checked_add (hc_next_effect_id h) 1")
    case None
    with RsReady show ?thesis
      using checked_add_1_None [of "hc_next_effect_id h"] by (simp add: hc_invoke_eq hc_route_def)
  next
    case (Some n)
    then have n: "n = hc_next_effect_id h + 1" "hc_next_effect_id h \<noteq> - 1"
      using checked_add_1_None [of "hc_next_effect_id h"] checked_add_Some_eq [OF Some] by auto
    have "Option.bind (checked_add (hc_next_effect_id h) 1) NonZeroU64_new = Some n"
      using next_hc_id Some by blast
    with n RsReady show ?thesis
      by (cases r) (simp add: hc_invoke_eq hc_route_def Let_def)
  qed
qed (simp_all add: hc_invoke_eq hc_route_def)

end
