(* ===== verification/Protocol_Client.thy ===== *)
theory Protocol_Client
  imports Protocol_Codec "HOL-Library.Sublist"
begin

text \<open>
  \<open>crates/deskkin-protocol-client\<close>: the client's connection state, its one outstanding read,
  and the reconnect backoff. \<open>client_step\<close> is the interface its two hosts call.
\<close>

section \<open>Data\<close>

definition RECONNECT_DELAYS_MS :: "u32 list" where
  "RECONNECT_DELAYS_MS = [250, 500, 1000, 2000, 5000]"

datatype connection_state = CsDisconnected | CsBackoff | CsConnecting | CsAuthenticated | CsStopped

datatype adapter_error =
  NotAuthenticated | NoActiveRead | SessionMismatch | RequestMismatch | ActiveRead | AeStopped

datatype terminal_reason = Incompatible | AuthorizationDenied

datatype client_value = CvAvailable | CvUnavailable | CvReadFailed

datatype protocol_event = AvailabilityCompleted u64 client_value | SessionInvalidated

record protocol_adapter =
  pa_state :: connection_state
  pa_session :: "context_id option"
  pa_request_id :: u32
  pa_active :: "(context_id \<times> u32 \<times> u64) option"
  pa_backoff_index :: nat
  pa_terminal_reason :: "terminal_reason option"

section \<open>Operations\<close>

definition pa_new :: protocol_adapter where
  "pa_new = \<lparr>pa_state = CsDisconnected, pa_session = None, pa_request_id = 0, pa_active = None,
     pa_backoff_index = 0, pa_terminal_reason = None\<rparr>"

definition connecting :: "protocol_adapter \<Rightarrow> protocol_adapter" where
  "connecting self = (if pa_state self \<noteq> CsStopped then self\<lparr>pa_state := CsConnecting\<rparr> else self)"

definition authenticated :: "context_id \<Rightarrow> protocol_adapter \<Rightarrow> protocol_adapter" where
  "authenticated session self =
     (if pa_state self \<noteq> CsStopped
      then self\<lparr>pa_session := Some session, pa_state := CsAuthenticated\<rparr> else self)"

definition valid_availability_result :: "protocol_adapter \<Rightarrow> protocol_adapter" where
  "valid_availability_result self =
     (if pa_state self = CsAuthenticated then self\<lparr>pa_backoff_index := 0\<rparr> else self)"

definition restart_after_pairing :: "protocol_adapter \<Rightarrow> protocol_adapter" where
  "restart_after_pairing self =
     self\<lparr>pa_state := CsDisconnected, pa_session := None, pa_active := None,
          pa_backoff_index := 0, pa_terminal_reason := None\<rparr>"

definition reconnect_delay_ms :: "protocol_adapter \<Rightarrow> u32 option" where
  "reconnect_delay_ms self =
     (if pa_state self = CsBackoff
      then Some (RECONNECT_DELAYS_MS ! min (pa_backoff_index self) (length RECONNECT_DELAYS_MS - 1))
      else None)"

definition connection_failed :: "(protocol_adapter, adapter_error, u32) mut_call" where
  "connection_failed self =
     (if pa_state self = CsStopped then (Inl AeStopped, self)
      else (let delay = RECONNECT_DELAYS_MS ! min (pa_backoff_index self) (length RECONNECT_DELAYS_MS - 1)
            in (Inr delay,
                self\<lparr>pa_state := CsBackoff,
                     pa_backoff_index := min (pa_backoff_index self + 1) (length RECONNECT_DELAYS_MS - 1)\<rparr>)))"

definition hello_rejected :: "hello_reject_reason \<Rightarrow> protocol_adapter \<Rightarrow> protocol_adapter" where
  "hello_rejected reason self =
     (case reason of
        SessionBusy \<Rightarrow> snd (connection_failed self)
      | PermissionDenied \<Rightarrow>
          self\<lparr>pa_state := CsStopped, pa_terminal_reason := Some AuthorizationDenied\<rparr>
      | _ \<Rightarrow> self\<lparr>pa_state := CsStopped, pa_terminal_reason := Some Incompatible\<rparr>)"

definition begin_read :: "u64 \<Rightarrow> context_id \<Rightarrow> (protocol_adapter, adapter_error, u32) mut_call" where
  "begin_read effect_id operation self =
     (if pa_state self \<noteq> CsAuthenticated then (Inl NotAuthenticated, self)
      else if pa_active self \<noteq> None then (Inl ActiveRead, self)
      else if effect_id = 0 then (Inl NoActiveRead, self)
      else (case checked_add (pa_request_id self) 1 of
              None \<Rightarrow> (Inl RequestMismatch, self)
            | Some next \<Rightarrow>
                (Inr next, self\<lparr>pa_request_id := next, pa_active := Some (operation, next, effect_id)\<rparr>)))"

fun client_value_of :: "availability_result \<Rightarrow> client_value" where
  "client_value_of ArAvailable = CvAvailable"
| "client_value_of ArUnavailable = CvUnavailable"
| "client_value_of ArReadFailed = CvReadFailed"

definition pa_result ::
  "context_id \<Rightarrow> u32 \<Rightarrow> context_id \<Rightarrow> availability_result \<Rightarrow>
   (protocol_adapter, adapter_error, protocol_event) mut_call" where
  "pa_result session request_id operation result self =
     (if pa_state self \<noteq> CsAuthenticated \<or> pa_session self \<noteq> Some session
      then (Inl SessionMismatch, self)
      else (case pa_active self of
              None \<Rightarrow> (Inl NoActiveRead, self)
            | Some (expected_operation, expected_request, effect_id) \<Rightarrow>
                (if expected_request \<noteq> request_id \<or> expected_operation \<noteq> operation
                 then (Inl RequestMismatch, self)
                 else (Inr (AvailabilityCompleted effect_id (client_value_of result)),
                       self\<lparr>pa_active := None, pa_backoff_index := 0\<rparr>))))"

definition disconnected :: "protocol_adapter \<Rightarrow> protocol_event option \<times> protocol_adapter" where
  "disconnected self =
     (if pa_state self = CsStopped then (None, self)
      else (Some SessionInvalidated,
            self\<lparr>pa_state := CsBackoff, pa_session := None, pa_active := None,
                 pa_terminal_reason := None\<rparr>))"

definition pa_stop :: "protocol_adapter \<Rightarrow> protocol_adapter" where
  "pa_stop self = self\<lparr>pa_state := CsStopped, pa_session := None, pa_active := None\<rparr>"

text \<open>One call of the interface, and what it returns.\<close>

datatype client_call =
  CcConnecting | CcAuthenticated context_id | CcValidResult | CcRestart | CcFailed
| CcHelloRejected hello_reject_reason | CcBeginRead u64 context_id
| CcResult context_id u32 context_id availability_result | CcDisconnected | CcStop

datatype client_return =
  CrUnit | CrDelay u32 | CrRequest u32 | CrEvent protocol_event | CrOption "protocol_event option"

fun client_step :: "(protocol_adapter, client_call, adapter_error, client_return) machine" where
  "client_step self CcConnecting = (Inr CrUnit, connecting self)"
| "client_step self (CcAuthenticated s) = (Inr CrUnit, authenticated s self)"
| "client_step self CcValidResult = (Inr CrUnit, valid_availability_result self)"
| "client_step self CcRestart = (Inr CrUnit, restart_after_pairing self)"
| "client_step self CcFailed = map_ok CrDelay (connection_failed self)"
| "client_step self (CcHelloRejected r) = (Inr CrUnit, hello_rejected r self)"
| "client_step self (CcBeginRead e c) = map_ok CrRequest (begin_read e c self)"
| "client_step self (CcResult s n c r) = map_ok CrEvent (pa_result s n c r self)"
| "client_step self CcDisconnected = (case disconnected self of (e, s) \<Rightarrow> (Inr (CrOption e), s))"
| "client_step self CcStop = (Inr CrUnit, pa_stop self)"

lemmas pa_defs = connecting_def authenticated_def valid_availability_result_def
  restart_after_pairing_def connection_failed_def hello_rejected_def begin_read_def pa_result_def
  disconnected_def pa_stop_def Let_def

lemmas pa_splits = if_splits option.splits prod.splits hello_reject_reason.splits

section \<open>Invariant and interfaces\<close>

definition pa_inv :: "protocol_adapter \<Rightarrow> bool" where
  "pa_inv a \<longleftrightarrow> (\<forall>c n e. pa_active a = Some (c, n, e) \<longrightarrow> n = pa_request_id a \<and> e \<noteq> 0) \<and>
     (pa_state a = CsAuthenticated \<longrightarrow> pa_session a \<noteq> None) \<and> pa_backoff_index a \<le> 4"

definition pa_counter :: "protocol_adapter \<Rightarrow> nat" where
  "pa_counter a = unat (pa_request_id a)"

definition pa_lowest :: "protocol_adapter \<Rightarrow> nat" where
  "pa_lowest a = (case pa_active a of Some _ \<Rightarrow> pa_counter a | None \<Rightarrow> Suc (pa_counter a))"

fun pa_issued :: "client_return \<Rightarrow> nat list" where
  "pa_issued (CrRequest n) = [unat n]"
| "pa_issued _ = []"

fun pa_answered :: "client_call \<Rightarrow> client_return \<Rightarrow> nat list" where
  "pa_answered (CcResult _ n _ _) _ = [unat n]"
| "pa_answered _ _ = []"

lemma pa_inv_new: "pa_inv pa_new"
  by (simp add: pa_inv_def pa_new_def)

lemma client_rejected: "client_step a c = (Inl e, a') \<Longrightarrow> a' = a"
  by (cases c) (auto simp: pa_defs split: pa_splits)

lemma delays_length [simp]: "length RECONNECT_DELAYS_MS = 5"
  by (simp add: RECONNECT_DELAYS_MS_def)

lemma client_inv:
  assumes "pa_inv a" and "client_step a c = (Inr out, a')"
  shows "pa_inv a'"
proof (cases c)
  case (CcBeginRead e s)
  with assms show ?thesis by (auto simp: pa_inv_def begin_read_def split: pa_splits)
next
  case (CcResult s n c r)
  with assms show ?thesis by (auto simp: pa_inv_def pa_result_def split: pa_splits)
next
  case (CcHelloRejected r)
  with assms show ?thesis
    by (cases r) (auto simp: pa_inv_def hello_rejected_def connection_failed_def Let_def split: if_splits)
qed (use assms in \<open>auto simp: pa_inv_def connecting_def authenticated_def
    valid_availability_result_def restart_after_pairing_def connection_failed_def disconnected_def
    pa_stop_def Let_def split: if_splits\<close>)

lemma client_counters:
  assumes "pa_inv a" and "client_step a c = (Inr out, a')"
  shows "(pa_counter a \<le> pa_counter a' \<and> pa_issued out = [Suc (pa_counter a)..<Suc (pa_counter a')]) \<and>
    (pa_lowest a \<le> pa_lowest a' \<and> sorted_wrt (<) (pa_answered c out) \<and>
     set (pa_answered c out) \<subseteq> {pa_lowest a..<pa_lowest a'})"
proof (cases c)
  case (CcBeginRead e s)
  with assms(2) obtain n where "checked_add (pa_request_id a) 1 = Some n" "out = CrRequest n"
    "a' = a\<lparr>pa_request_id := n, pa_active := Some (s, n, e)\<rparr>" "pa_active a = None"
    by (cases "pa_active a") (auto simp: begin_read_def split: pa_splits)
  with CcBeginRead show ?thesis
    by (auto simp: pa_counter_def pa_lowest_def dest: checked_add_Some)
next
  case (CcResult s n c r)
  with assms show ?thesis
    by (auto simp: pa_inv_def pa_result_def pa_counter_def pa_lowest_def map_ok_Inr split: pa_splits)
next
  case (CcHelloRejected r)
  with assms(2) show ?thesis
    by (cases r) (auto simp: hello_rejected_def connection_failed_def Let_def pa_counter_def pa_lowest_def
        split: if_splits option.splits)
qed (use assms(2) in \<open>auto simp: connecting_def authenticated_def
    valid_availability_result_def restart_after_pairing_def connection_failed_def disconnected_def
    pa_stop_def Let_def pa_counter_def pa_lowest_def split: if_splits option.splits\<close>)

interpretation pa: effect_issuer client_step pa_inv pa_issued pa_counter
proof
  fix a a' c e
  assume "client_step a c = (Inl e, a')"
  then show "a' = a" by (rule client_rejected)
next
  fix a a' c out
  assume *: "pa_inv a" "client_step a c = (Inr out, a')"
  then show "pa_inv a'" by (rule client_inv)
  from client_counters [OF *]
  show "pa_counter a \<le> pa_counter a' \<and> pa_issued out = [Suc (pa_counter a)..<Suc (pa_counter a')]"
    by (rule conjunct1)
qed

interpretation pa_once: answer_once client_step pa_inv pa_answered pa_lowest
proof
  fix a a' c out
  assume "pa_inv a" "client_step a c = (Inr out, a')"
  from client_counters [OF this]
  show "pa_lowest a \<le> pa_lowest a' \<and> sorted_wrt (<) (pa_answered c out) \<and>
     set (pa_answered c out) \<subseteq> {pa_lowest a..<pa_lowest a'}"
    by (rule conjunct2)
qed

section \<open>Specification: the connection and the failures since the last reset\<close>

text \<open>
  The state a sequence of calls prescribes, and how many failed attempts it holds since the
  last valid result or restart after a pairing.
\<close>

fun client_spec :: "client_call \<Rightarrow> connection_state \<times> nat \<Rightarrow> connection_state \<times> nat" where
  "client_spec CcConnecting (s, n) = (if s = CsStopped then s else CsConnecting, n)"
| "client_spec (CcAuthenticated _) (s, n) = (if s = CsStopped then s else CsAuthenticated, n)"
| "client_spec CcValidResult (s, n) = (s, if s = CsAuthenticated then 0 else n)"
| "client_spec CcRestart (s, n) = (CsDisconnected, 0)"
| "client_spec CcFailed (s, n) = (CsBackoff, Suc n)"
| "client_spec (CcHelloRejected r) (s, n) =
     (if r = SessionBusy then (if s = CsStopped then (s, n) else (CsBackoff, Suc n))
      else (CsStopped, n))"
| "client_spec (CcBeginRead _ _) (s, n) = (s, n)"
| "client_spec (CcResult _ _ _ _) (s, n) = (s, 0)"
| "client_spec CcDisconnected (s, n) = (if s = CsStopped then s else CsBackoff, n)"
| "client_spec CcStop (s, n) = (CsStopped, n)"

definition client_sim :: "protocol_adapter \<Rightarrow> connection_state \<times> nat \<Rightarrow> bool" where
  "client_sim a s \<longleftrightarrow> pa_state a = fst s \<and> pa_backoff_index a = min (snd s) 4"

lemma client_sim_step:
  assumes "client_sim a s" and "client_step a c = (Inr out, a')"
  shows "client_sim a' (client_spec c s)"
proof (cases s)
  case (Pair q n)
  note * = assms [unfolded Pair client_sim_def fst_conv snd_conv]
  show ?thesis
  proof (cases c)
    case (CcHelloRejected r)
    with * Pair show ?thesis
      by (cases r) (auto simp: hello_rejected_def connection_failed_def Let_def client_sim_def)
  next
    case CcFailed
    with * Pair show ?thesis
      by (auto simp: connection_failed_def Let_def client_sim_def split: if_splits)
  next
    case (CcResult w x y z)
    with * Pair show ?thesis
      by (auto simp: pa_result_def client_sim_def split: pa_splits)
  next
    case (CcBeginRead w x)
    with * Pair show ?thesis
      by (auto simp: begin_read_def client_sim_def split: pa_splits)
  qed (use * Pair in \<open>auto simp: connecting_def authenticated_def
      valid_availability_result_def restart_after_pairing_def disconnected_def
      pa_stop_def client_sim_def split: if_splits\<close>)
qed

lemma client_sim_run:
  "client_sim a s \<Longrightarrow> client_sim (run client_step a cs) (fold client_spec (accepted client_step a cs) s)"
proof (induction cs arbitrary: a s)
  case (Cons c cs)
  obtain r a' where st: "client_step a c = (r, a')" by (cases "client_step a c")
  show ?case
  proof (cases r)
    case (Inl e)
    then show ?thesis using Cons st client_rejected by fastforce
  next
    case (Inr out)
    then show ?thesis using Cons.IH [OF client_sim_step [OF Cons.prems]] st by simp
  qed
qed simp

section \<open>Properties\<close>

text \<open>
  The reads a sequence of calls begins and the results it delivers, each as the request
  identity, the operation and the effect identity.
\<close>

fun read_begun :: "client_call \<Rightarrow> client_return \<Rightarrow> (u32 \<times> context_id \<times> u64) list" where
  "read_begun (CcBeginRead e c) (CrRequest n) = [(n, c, e)]"
| "read_begun _ _ = []"

fun result_delivered :: "client_call \<Rightarrow> client_return \<Rightarrow> (u32 \<times> context_id \<times> u64) list" where
  "result_delivered (CcResult s n c r) (CrEvent (AvailabilityCompleted e v)) = [(n, c, e)]"
| "result_delivered _ _ = []"

definition outstanding_read :: "protocol_adapter \<Rightarrow> (u32 \<times> context_id \<times> u64) list" where
  "outstanding_read a = (case pa_active a of Some (c, n, e) \<Rightarrow> [(n, c, e)] | None \<Rightarrow> [])"

lemma outstanding_simps [simp]:
  "pa_active a = None \<Longrightarrow> outstanding_read a = []"
  "pa_active a = Some (c, n, e) \<Longrightarrow> outstanding_read a = [(n, c, e)]"
  by (simp_all add: outstanding_read_def)

lemma read_begun_issued:
  "client_step a c = (Inr out, a') \<Longrightarrow> map (\<lambda>x. unat (fst x)) (read_begun c out) = pa_issued out"
  by (cases c) (auto simp: pa_defs map_ok_Inr split: pa_splits)

lemma reads_begun_run:
  "map (\<lambda>x. unat (fst x)) (answers client_step read_begun a cs)
     = concat (map pa_issued (outputs client_step a cs))"
proof (induction cs arbitrary: a)
  case (Cons c cs)
  obtain r a' where "client_step a c = (r, a')" by (cases "client_step a c")
  then show ?case using read_begun_issued [of a c _ a'] Cons.IH [of a'] by (cases r) auto
qed simp

lemma subseq_distinct: "subseq xs ys \<Longrightarrow> distinct ys \<Longrightarrow> distinct xs"
  by (auto simp: subseq_conv_nths)

lemma delivered_step:
  assumes "client_step a c = (Inr out, a')"
  shows "subseq (result_delivered c out @ outstanding_read a') (outstanding_read a @ read_begun c out)"
proof (cases c)
  case (CcResult s n d r)
  with assms show ?thesis by (auto simp: pa_result_def map_ok_Inr split: pa_splits)
next
  case (CcBeginRead e d)
  with assms show ?thesis by (auto simp: begin_read_def map_ok_Inr split: pa_splits)
next
  case (CcHelloRejected r)
  with assms show ?thesis
    by (cases r) (auto simp: hello_rejected_def connection_failed_def Let_def outstanding_read_def)
qed (use assms in \<open>auto simp: pa_defs outstanding_read_def map_ok_Inr split: if_splits option.splits\<close>)

lemma delivered_run:
  "subseq (answers client_step result_delivered a cs)
     (outstanding_read a @ answers client_step read_begun a cs)"
proof (induction cs arbitrary: a)
  case (Cons c cs)
  obtain r a' where st: "client_step a c = (r, a')" by (cases "client_step a c")
  show ?case
  proof (cases r)
    case (Inl e)
    then show ?thesis using Cons.IH st client_rejected by fastforce
  next
    case (Inr out)
    have "subseq (result_delivered c out @ answers client_step result_delivered a' cs)
        (result_delivered c out @ outstanding_read a' @ answers client_step read_begun a' cs)"
      using Cons.IH by (simp add: list_emb_append_mono)
    also have "subseq \<dots> (outstanding_read a @ read_begun c out @ answers client_step read_begun a' cs)"
      using list_emb_append_mono [OF delivered_step [OF st [unfolded Inr]] subseq_order.order_refl]
      by simp
    finally show ?thesis using st Inr by simp
  qed
qed simp

text \<open>
  C36: Over any sequence of calls to the adapter, the reads it begins carry the request
  identities one, two, three and so on, without a gap up to the adapter's counter, and the
  results it delivers are a subsequence of these reads: each answers, with its operation and
  its effect identity, one read that was begun, in the order of beginning, and no read is
  answered twice, across disconnections and pairings too.
\<close>

theorem client_results_at_most_once:
  "map (unat \<circ> fst) (answers client_step read_begun pa_new cs)
     = [1..<Suc (unat (pa_request_id (run client_step pa_new cs)))] \<and>
   subseq (answers client_step result_delivered pa_new cs) (answers client_step read_begun pa_new cs) \<and>
   distinct (map fst (answers client_step result_delivered pa_new cs))"
proof -
  have 1: "map (unat \<circ> fst) (answers client_step read_begun pa_new cs)
     = [1..<Suc (unat (pa_request_id (run client_step pa_new cs)))]"
    using pa.issued_run [OF pa_inv_new, of cs] unfolding comp_def reads_begun_run
    by (simp add: pa_counter_def pa_new_def del: upt_Suc)
  have 2: "subseq (answers client_step result_delivered pa_new cs) (answers client_step read_begun pa_new cs)"
    using delivered_run [of pa_new cs] by (simp add: pa_new_def)
  have "distinct (map (unat \<circ> fst) (answers client_step read_begun pa_new cs))"
    unfolding 1 by (rule distinct_upt)
  then have "distinct (map fst (answers client_step read_begun pa_new cs))"
    by (simp add: distinct_map inj_on_def)
  then have "distinct (map fst (answers client_step result_delivered pa_new cs))"
    by (rule subseq_distinct [OF subseq_map [OF 2]])
  then show ?thesis using 1 2 by blast
qed

text \<open>
  C37: The delay after a failed connection is the entry of the reconnect series that the number
  of failures since the backoff was last reset selects, its last entry from the fifth failure
  on; once the adapter is stopped a failure is refused instead. Three calls reset the count: a
  result that is delivered, \<open>valid_availability_result\<close> while authenticated, and
  \<open>restart_after_pairing\<close>. The comment in the code calls the second the only one.
\<close>

theorem client_backoff_refines_history:
  "fst (connection_failed (run client_step pa_new cs)) =
     (case fold client_spec (accepted client_step pa_new cs) (CsDisconnected, 0) of
        (CsStopped, n) \<Rightarrow> Inl AeStopped
      | (_, n) \<Rightarrow> Inr ([250, 500, 1000, 2000, 5000] ! min n 4))"
proof -
  have "client_sim pa_new (CsDisconnected, 0)" by (simp add: client_sim_def pa_new_def)
  from client_sim_run [OF this, of cs]
  show ?thesis
    by (cases "fold client_spec (accepted client_step pa_new cs) (CsDisconnected, 0)") (auto simp: client_sim_def connection_failed_def Let_def RECONNECT_DELAYS_MS_def
        split: connection_state.splits)
qed

text \<open>
  A stopped adapter stays stopped, issues no request, delivers no result and no delay,
  whatever is called on it, until it is restarted after a pairing.
\<close>

theorem client_stopped_until_paired:
  assumes "pa_state a = CsStopped" and "CcRestart \<notin> set cs"
  shows "pa_state (run client_step a cs) = CsStopped \<and>
    set (outputs client_step a cs) \<subseteq> {CrUnit, CrOption None}"
  using assms
proof (induction cs arbitrary: a)
  case (Cons c cs)
  have "pa_state (snd (client_step a c)) = CsStopped \<and>
    (\<forall>out. fst (client_step a c) = Inr out \<longrightarrow> out \<in> {CrUnit, CrOption None})"
    using Cons.prems
    by (cases c) (auto simp: pa_defs split: hello_reject_reason.splits)
  moreover have "CcRestart \<notin> set cs" using Cons.prems by simp
  ultimately show ?case using Cons.IH [of "snd (client_step a c)"]
    by (cases "fst (client_step a c)") auto
qed simp

theorem client_stopped_until_paired_witness:
  "pa_state (run client_step (pa_stop pa_new) [CcConnecting, CcFailed, CcAuthenticated []]) = CsStopped"
  using client_stopped_until_paired [of "pa_stop pa_new" "[CcConnecting, CcFailed, CcAuthenticated []]"]
  by (simp add: pa_stop_def)

text \<open>
  A result is delivered exactly when the adapter is authenticated in the result's session
  and the result names the request and the operation of the outstanding read; it then closes
  that read, carries its effect identity, and resets the backoff.
\<close>

theorem client_result_iff:
  "pa_result s n c r a = (Inr ev, a') \<longleftrightarrow>
     pa_state a = CsAuthenticated \<and> pa_session a = Some s \<and>
     (\<exists>e. pa_active a = Some (c, n, e) \<and> ev = AvailabilityCompleted e (client_value_of r)) \<and>
     a' = a\<lparr>pa_active := None, pa_backoff_index := 0\<rparr>"
  by (auto simp: pa_result_def split: pa_splits)

text \<open>
  A failed connection, unlike a reported disconnection, keeps the outstanding read: after a
  failure and a new authentication, the answer to the read of the old session is delivered in
  the new one.
\<close>

theorem client_failure_keeps_read:
  assumes "pa_state a = CsAuthenticated" and "pa_active a = Some (c, n, e)"
  shows "outputs client_step a [CcFailed, CcConnecting, CcAuthenticated s, CcResult s n c r]
      = [CrDelay (RECONNECT_DELAYS_MS ! min (pa_backoff_index a) 4), CrUnit, CrUnit,
         CrEvent (AvailabilityCompleted e (client_value_of r))] \<and>
    outputs client_step a [CcDisconnected, CcConnecting, CcAuthenticated s, CcResult s n c r]
      = [CrOption (Some SessionInvalidated), CrUnit, CrUnit]"
  using assms by (simp add: pa_defs)

theorem client_failure_keeps_read_witness:
  "outputs client_step
     \<lparr>pa_state = CsAuthenticated, pa_session = Some [1], pa_request_id = 1,
      pa_active = Some ([2], 1, 7), pa_backoff_index = 0, pa_terminal_reason = None\<rparr>
     [CcFailed, CcConnecting, CcAuthenticated [9], CcResult [9] 1 [2] ArAvailable]
   = [CrDelay 250, CrUnit, CrUnit, CrEvent (AvailabilityCompleted 7 CvAvailable)]"
  using client_failure_keeps_read [of "\<lparr>pa_state = CsAuthenticated, pa_session = Some [1], pa_request_id = 1,
      pa_active = Some ([2], 1, 7), pa_backoff_index = 0, pa_terminal_reason = None\<rparr>" "[2]" 1 7
      "[9]" ArAvailable]
  by (simp add: RECONNECT_DELAYS_MS_def)

end
