(* ===== verification/Nvs_Record.thy ===== *)
theory Nvs_Record
  imports Bytes
begin

text \<open>
  \<open>crates/deskkin-core-s3\<close>, persistent records: the checksummed record of the device's
  identity and configuration slots, its encoder and decoder, and the choice between two slots.
\<close>

section \<open>Data\<close>

definition SCHEMA_VERSION :: u8 where "SCHEMA_VERSION = 1"
definition NVS_HEADER_LEN :: nat where "NVS_HEADER_LEN = 24"
definition NVS_PAYLOAD_MAX :: nat where "NVS_PAYLOAD_MAX = 160"

datatype peer_state = PsUnpaired | PsPending | PsCommitting | PsPaired | PsRevoking

datatype record_state = Identity peer_state | ConfigPresent | ConfigCleared

datatype decode_error =
  DeTruncated | DeOversize | DeUnknownSchema | DeUnknownState | DeInvalidLength | DeInvalidCrc
| DeConflictingSlots | DeInvalidConfig | DeUnknownCommand | DeTrailingBytes

fun peer_state_u8 :: "peer_state \<Rightarrow> u8" where
  "peer_state_u8 PsUnpaired = 0"
| "peer_state_u8 PsPending = 1"
| "peer_state_u8 PsCommitting = 2"
| "peer_state_u8 PsPaired = 3"
| "peer_state_u8 PsRevoking = 4"

fun record_state_wire :: "record_state \<Rightarrow> u8" where
  "record_state_wire (Identity state) = peer_state_u8 state"
| "record_state_wire ConfigPresent = 0x10"
| "record_state_wire ConfigCleared = 0x11"

definition peer_state_try_from :: "u8 \<Rightarrow> decode_error + peer_state" where
  "peer_state_try_from v =
     (if v = 0 then Inr PsUnpaired else if v = 1 then Inr PsPending
      else if v = 2 then Inr PsCommitting else if v = 3 then Inr PsPaired
      else if v = 4 then Inr PsRevoking else Inl DeUnknownState)"

definition record_state_try_from :: "u8 \<Rightarrow> decode_error + record_state" where
  "record_state_try_from v =
     (if v \<le> 4 then res_bind (peer_state_try_from v) (\<lambda>s. Inr (Identity s))
      else if v = 0x10 then Inr ConfigPresent else if v = 0x11 then Inr ConfigCleared
      else Inl DeUnknownState)"

record record_ref =
  publication_sequence :: u64
  rr_generation :: u64
  rr_state :: record_state
  rr_payload :: "u8 list"

section \<open>Checksum\<close>

definition crc32_bit :: "u32 \<Rightarrow> u32" where
  "crc32_bit crc = drop_bit 1 crc XOR (0xedb88320 AND (0 - (crc AND 1)))"

fun crc32_update :: "u32 \<Rightarrow> u8 list \<Rightarrow> u32" where
  "crc32_update crc [] = crc"
| "crc32_update crc (byte # bytes) =
     crc32_update ((crc32_bit ^^ 8) (crc XOR ucast byte)) bytes"

definition crc32 :: "u8 list \<Rightarrow> u32" where
  "crc32 bytes = NOT (crc32_update (- 1) bytes)"

section \<open>Encoding and decoding\<close>

text \<open>
  \<open>encode_record\<close> writes into the caller's buffer and returns the number of bytes written; on
  an error the buffer is untouched.
\<close>

definition encode_record ::
  "u64 \<Rightarrow> u64 \<Rightarrow> record_state \<Rightarrow> u8 list \<Rightarrow> (u8 list, decode_error, nat) mut_call" where
  "encode_record sequence generation state payload output =
     (if length payload > NVS_PAYLOAD_MAX \<or> length output < NVS_HEADER_LEN + length payload
      then (Inl DeOversize, output)
      else
        (let n = length payload;
             front = [SCHEMA_VERSION, record_state_wire state] @ to_be_bytes (of_nat n :: u16) @
                     to_be_bytes sequence @ to_be_bytes generation;
             crc = crc32 (front @ [0, 0, 0, 0] @ payload)
         in (Inr (24 + n),
             front @ to_be_bytes crc @ payload @ drop (24 + n) output)))"

definition decode_record :: "u8 list \<Rightarrow> decode_error + record_ref" where
  "decode_record input =
     (if length input < NVS_HEADER_LEN then Inl DeTruncated
      else if input ! 0 \<noteq> SCHEMA_VERSION then Inl DeUnknownSchema
      else res_bind (record_state_try_from (input ! 1)) (\<lambda>state.
        let len = unat (from_be_bytes [input ! 2, input ! 3] :: u16)
        in if len > NVS_PAYLOAD_MAX \<or> length input \<noteq> NVS_HEADER_LEN + len then Inl DeInvalidLength
           else
             (let expected = from_be_bytes (slice 20 4 input) :: u32;
                  header = take 20 input @ [0, 0, 0, 0];
                  crc = crc32_update (crc32_update (- 1) header) (drop NVS_HEADER_LEN input)
              in if NOT crc \<noteq> expected then Inl DeInvalidCrc
                 else Inr \<lparr>publication_sequence = from_be_bytes (slice 4 8 input),
                           rr_generation = from_be_bytes (slice 12 8 input),
                           rr_state = state,
                           rr_payload = drop NVS_HEADER_LEN input\<rparr>)))"

definition select_slot :: "u8 list option \<Rightarrow> u8 list option \<Rightarrow> decode_error + record_ref option" where
  "select_slot first second =
     res_bind (case first of None \<Rightarrow> Inr None | Some b \<Rightarrow> res_bind (decode_record b) (\<lambda>r. Inr (Some r))) (\<lambda>first.
     res_bind (case second of None \<Rightarrow> Inr None | Some b \<Rightarrow> res_bind (decode_record b) (\<lambda>r. Inr (Some r))) (\<lambda>second.
       case (first, second) of
         (None, None) \<Rightarrow> Inr None
       | (Some value, None) \<Rightarrow> Inr (Some value)
       | (None, Some value) \<Rightarrow> Inr (Some value)
       | (Some left, Some right) \<Rightarrow>
           (if publication_sequence left > publication_sequence right then Inr (Some left)
            else if publication_sequence left < publication_sequence right then Inr (Some right)
            else if rr_generation left = rr_generation right \<and> rr_state left = rr_state right \<and>
                    rr_payload left = rr_payload right then Inr (Some left)
            else Inl DeConflictingSlots)))"

section \<open>State bytes\<close>

lemma peer_state_round_trip [simp]: "peer_state_try_from (peer_state_u8 s) = Inr s"
  by (cases s) (simp_all add: peer_state_try_from_def)

lemma peer_state_le [simp]: "peer_state_u8 s \<le> 4"
  by (cases s) simp_all

lemma record_state_round_trip [simp]: "record_state_try_from (record_state_wire s) = Inr s"
  by (cases s) (simp_all add: record_state_try_from_def)

lemma record_state_canonical: "record_state_try_from v = Inr s \<Longrightarrow> record_state_wire s = v"
  by (auto simp: record_state_try_from_def peer_state_try_from_def split: if_splits)

section \<open>The checksum is injective in its last differing byte\<close>

lemma crc32_bit_bit:
  "bit (crc32_bit c) i \<longleftrightarrow> (i < 31 \<and> bit c (Suc i)) \<noteq> (bit (0xedb88320 :: u32) i \<and> bit c 0)"
proof -
  have neg: "0 - (c AND 1) = (if bit c 0 then - 1 else 0)"
    by (cases "bit c 0") (simp_all add: and_one_eq bit_0 odd_iff_mod_2_eq_one)
  show ?thesis
    unfolding crc32_bit_def neg
    by (auto simp: bit_simps dest: bit_imp_le_length)
qed

lemma crc32_bit_inj: "crc32_bit a = crc32_bit b \<Longrightarrow> a = b"
proof -
  assume eq: "crc32_bit a = crc32_bit b"
  have top: "bit (0xedb88320 :: u32) 31" by simp
  have low: "bit a 0 \<longleftrightarrow> bit b 0"
    using crc32_bit_bit [of a 31] crc32_bit_bit [of b 31] eq top by simp
  show "a = b"
  proof (rule bit_word_eqI)
    fix n assume n: "n < LENGTH(32)"
    show "bit a n \<longleftrightarrow> bit b n"
    proof (cases n)
      case 0
      then show ?thesis using low by simp
    next
      case (Suc m)
      then show ?thesis using crc32_bit_bit [of a m] crc32_bit_bit [of b m] eq low n by auto
    qed
  qed
qed

lemma crc32_bits_inj: "(crc32_bit ^^ n) a = (crc32_bit ^^ n) b \<Longrightarrow> a = b"
  by (induction n) (auto dest: crc32_bit_inj)

lemma crc32_update_inj: "crc32_update a bs = crc32_update b bs \<Longrightarrow> a = b"
proof (induction bs arbitrary: a b)
  case (Cons x bs)
  from Cons.IH [of "(crc32_bit ^^ 8) (a XOR ucast x)" "(crc32_bit ^^ 8) (b XOR ucast x)"] Cons.prems
  have "a XOR ucast x = b XOR ucast x" by (auto dest: crc32_bits_inj)
  then have "(a XOR ucast x) XOR ucast x = (b XOR ucast x) XOR ucast x" by simp
  then show ?case by (simp add: xor.assoc)
qed simp

lemma crc32_update_append: "crc32_update c (xs @ ys) = crc32_update (crc32_update c xs) ys"
  by (induction xs arbitrary: c) simp_all

lemma ucast_u8_u32_inj: "(ucast (a :: u8) :: u32) = ucast b \<Longrightarrow> a = b"
proof -
  assume eq: "(ucast a :: u32) = ucast b"
  show "a = b"
  proof (rule bit_word_eqI)
    fix n assume "n < LENGTH(8)"
    then show "bit a n \<longleftrightarrow> bit b n" using arg_cong [OF eq, of "\<lambda>w. bit w n"] by (simp add: bit_ucast_iff)
  qed
qed

lemma crc32_update_byte:
  assumes "crc32_update c (xs @ x # ys) = crc32_update c (xs @ y # ys)"
  shows "x = y"
proof -
  let ?c = "crc32_update c xs"
  from assms have "(crc32_bit ^^ 8) (?c XOR ucast x) = (crc32_bit ^^ 8) (?c XOR ucast y)"
    by (auto simp: crc32_update_append dest: crc32_update_inj)
  then have "?c XOR ucast x = ?c XOR ucast y" by (rule crc32_bits_inj)
  then have "?c XOR (?c XOR ucast x) = ?c XOR (?c XOR ucast y)" by simp
  then have "(ucast x :: u32) = ucast y" by (simp add: xor.assoc [symmetric])
  then show ?thesis by (rule ucast_u8_u32_inj)
qed

section \<open>The record codec\<close>

definition record_wf :: "record_ref \<Rightarrow> bool" where
  "record_wf r \<longleftrightarrow> length (rr_payload r) \<le> NVS_PAYLOAD_MAX"

definition record_front :: "record_ref \<Rightarrow> u8 list" where
  "record_front r =
     [SCHEMA_VERSION, record_state_wire (rr_state r)] @ to_be_bytes (of_nat (length (rr_payload r)) :: u16) @
     to_be_bytes (publication_sequence r) @ to_be_bytes (rr_generation r)"

definition record_bytes :: "record_ref \<Rightarrow> u8 list" where
  "record_bytes r =
     record_front r @ to_be_bytes (crc32 (record_front r @ [0, 0, 0, 0] @ rr_payload r)) @ rr_payload r"

lemma length_record_front [simp]: "length (record_front r) = 20"
  by (simp add: record_front_def)

lemma length_record_bytes: "length (record_bytes r) = 24 + length (rr_payload r)"
  by (simp add: record_bytes_def)

lemma encode_record_eq:
  "encode_record s g st p out =
     (if length p > 160 \<or> length out < 24 + length p then (Inl DeOversize, out)
      else (let r = \<lparr>publication_sequence = s, rr_generation = g, rr_state = st, rr_payload = p\<rparr>
            in (Inr (24 + length p), record_bytes r @ drop (24 + length p) out)))"
  by (simp add: encode_record_def NVS_PAYLOAD_MAX_def NVS_HEADER_LEN_def Let_def record_bytes_def
      record_front_def)

lemma drop_record_bytes:
  "drop 24 (record_bytes r) = rr_payload r" "take 20 (record_bytes r) = record_front r"
  "slice 20 4 (record_bytes r) = to_be_bytes (crc32 (record_front r @ [0, 0, 0, 0] @ rr_payload r))"
  by (simp_all add: record_bytes_def slice_def)

lemma nth_record_front:
  "record_front r ! 0 = SCHEMA_VERSION" "record_front r ! 1 = record_state_wire (rr_state r)"
  "[record_front r ! 2, record_front r ! 3] = to_be_bytes (of_nat (length (rr_payload r)) :: u16)"
  "slice 4 8 (record_front r) = to_be_bytes (publication_sequence r)"
  "slice 12 8 (record_front r) = to_be_bytes (rr_generation r)"
proof -
  obtain a b where ab: "to_be_bytes (of_nat (length (rr_payload r)) :: u16) = [a, b]"
    using to_be_bytes_u16 by blast
  show "record_front r ! 0 = SCHEMA_VERSION" "record_front r ! 1 = record_state_wire (rr_state r)"
    "[record_front r ! 2, record_front r ! 3] = to_be_bytes (of_nat (length (rr_payload r)) :: u16)"
    "slice 4 8 (record_front r) = to_be_bytes (publication_sequence r)"
    "slice 12 8 (record_front r) = to_be_bytes (rr_generation r)"
    by (simp_all add: record_front_def ab slice_def)
qed

lemma record_bytes_front:
  "i < 20 \<Longrightarrow> record_bytes r ! i = record_front r ! i"
  "i + n \<le> 20 \<Longrightarrow> slice i n (record_bytes r) = slice i n (record_front r)"
  by (simp_all add: record_bytes_def nth_append slice_append1)

lemma decode_record_bytes:
  assumes "record_wf r"
  shows "decode_record (record_bytes r) = Inr r"
proof -
  have len: "unat (of_nat (length (rr_payload r)) :: u16) = length (rr_payload r)"
    using assms by (simp add: record_wf_def NVS_PAYLOAD_MAX_def unat_of_nat)
  have crc: "NOT (crc32_update (crc32_update (- 1) (record_front r @ [0, 0, 0, 0])) (rr_payload r)) =
      crc32 (record_front r @ [0, 0, 0, 0] @ rr_payload r)"
    by (simp add: crc32_def crc32_update_append)
  show ?thesis
    using assms
    by (simp add: decode_record_def NVS_HEADER_LEN_def length_record_bytes record_bytes_front
        nth_record_front nth_record_front(2) [unfolded One_nat_def] drop_record_bytes len crc Let_def
        record_wf_def)
qed

definition zeroed :: "u8 list \<Rightarrow> u8 list" where
  "zeroed input = take 20 input @ [0, 0, 0, 0] @ drop 24 input"

lemma zeroed_update:
  assumes "24 \<le> length input" and "i < 20 \<or> 24 \<le> i" and "i < length input"
  shows "zeroed (input[i := b]) = (zeroed input)[i := b] \<and> zeroed input ! i = input ! i"
proof (cases "i < 20")
  case True
  with assms(1) show ?thesis
    by (simp add: zeroed_def list_update_append take_update_swap nth_append)
next
  case False
  with assms(2) obtain j where j: "i = 24 + j" using le_Suc_ex [of 24 i] by auto
  have split: "zeroed xs = (take 20 xs @ [0, 0, 0, 0]) @ drop 24 xs" for xs
    by (simp add: zeroed_def)
  have "length (take 20 input @ [0, 0, 0, 0]) = 24" using assms(1) by simp
  then show ?thesis using assms j
    unfolding split by (simp add: list_update_append nth_append drop_update_swap del: append_assoc)
qed

lemma decode_record_Inr:
  assumes "decode_record input = Inr r"
  shows "24 \<le> length input" "input ! 0 = SCHEMA_VERSION" "input ! 1 = record_state_wire (rr_state r)"
    "length (rr_payload r) \<le> 160" "rr_payload r = drop 24 input"
    "slice 2 2 input = to_be_bytes (of_nat (length (rr_payload r)) :: u16)"
    "slice 4 8 input = to_be_bytes (publication_sequence r)"
    "slice 12 8 input = to_be_bytes (rr_generation r)"
    "slice 20 4 input = to_be_bytes (crc32 (zeroed input))"
proof -
  let ?len = "from_be_bytes [input ! 2, input ! 3] :: u16"
  from assms have 24: "24 \<le> length input" and
    st: "record_state_try_from (input ! 1) = Inr (rr_state r)" and
    l: "unat ?len \<le> 160" "length input = 24 + unat ?len" and
    r: "publication_sequence r = from_be_bytes (slice 4 8 input)"
       "rr_generation r = from_be_bytes (slice 12 8 input)" "rr_payload r = drop 24 input" and
    crc: "crc32 (zeroed input) = from_be_bytes (slice 20 4 input)" and
    v: "input ! 0 = SCHEMA_VERSION"
    by (auto simp: decode_record_def res_bind_Inr_iff NVS_HEADER_LEN_def NVS_PAYLOAD_MAX_def Let_def
        crc32_def zeroed_def crc32_update_append split: if_splits)
  show "24 \<le> length input" "input ! 0 = SCHEMA_VERSION" "rr_payload r = drop 24 input"
    by (fact 24, fact v, fact r)
  show "input ! 1 = record_state_wire (rr_state r)" using record_state_canonical [OF st] by simp
  show "length (rr_payload r) \<le> 160" using l r by simp
  have "slice 2 2 input = [input ! 2, input ! 3]"
    using 24 by (simp add: slice_def numeral_2_eq_2 numeral_3_eq_3 take_Suc_conv_app_nth Cons_nth_drop_Suc [symmetric])
  moreover have "(of_nat (length (rr_payload r)) :: u16) = ?len" using l r by simp
  ultimately show "slice 2 2 input = to_be_bytes (of_nat (length (rr_payload r)) :: u16)" by simp
  show "slice 4 8 input = to_be_bytes (publication_sequence r)"
    "slice 12 8 input = to_be_bytes (rr_generation r)"
    "slice 20 4 input = to_be_bytes (crc32 (zeroed input))"
    using 24 by (simp_all add: r crc)
qed

lemma decode_record_canonical:
  assumes "decode_record input = Inr r"
  shows "record_wf r \<and> record_bytes r = input"
proof
  note d = decode_record_Inr [OF assms]
  show "record_wf r" using d by (simp add: record_wf_def NVS_PAYLOAD_MAX_def)
  have "record_front r = input ! 0 # input ! 1 # slice 2 2 input @ slice 4 8 input @ slice 12 8 input"
    using d by (simp add: record_front_def)
  also have "\<dots> = take 20 input"
  proof -
    have "input ! 0 # drop (Suc 0) input = input" using d(1) by (cases input) auto
    from arg_cong [OF this, of "take 20"]
    have "take 20 input = take 20 (input ! 0 # input ! 1 # slice 2 2 input @ slice 4 8 input @ slice 12 8 input @ drop 20 input)"
      using d(1) by (simp add: slice_join nth_join)
    then show ?thesis using d(1) by simp
  qed
  finally have front: "record_front r = take 20 input" .
  have "record_bytes r = take 20 input @ slice 20 4 input @ drop 24 input"
    using d by (simp add: record_bytes_def front zeroed_def)
  then show "record_bytes r = input" by (simp add: slice_join)
qed

interpretation record_codec: codec record_bytes decode_record record_wf
  by unfold_locales (simp_all add: decode_record_bytes decode_record_canonical)

section \<open>Properties\<close>

text \<open>
  A record written into a large enough buffer occupies 24 bytes more than its payload,
  leaves the rest of the buffer alone, and reads back as the same sequence, generation, state
  and payload.
\<close>

theorem nvs_record_round_trip:
  assumes "length payload \<le> 160" and "24 + length payload \<le> length output"
  shows "\<exists>written. encode_record sequence generation state payload output = (Inr (24 + length payload), written) \<and>
     decode_record (take (24 + length payload) written) =
       Inr \<lparr>publication_sequence = sequence, rr_generation = generation, rr_state = state, rr_payload = payload\<rparr> \<and>
     drop (24 + length payload) written = drop (24 + length payload) output"
proof -
  let ?r = "\<lparr>publication_sequence = sequence, rr_generation = generation, rr_state = state, rr_payload = payload\<rparr>"
  have "record_wf ?r" using assms by (simp add: record_wf_def NVS_PAYLOAD_MAX_def)
  then show ?thesis
    using assms record_codec.dec_enc [of ?r] length_record_bytes [of ?r]
    by (simp add: encode_record_eq Let_def)
qed

theorem nvs_record_round_trip_witness:
  "\<exists>written. encode_record 7 2 (Identity PsPaired) [9, 8] (replicate 30 0) = (Inr 26, written) \<and>
     decode_record (take 26 written) =
       Inr \<lparr>publication_sequence = 7, rr_generation = 2, rr_state = Identity PsPaired, rr_payload = [9, 8]\<rparr> \<and>
     drop 26 written = drop 26 (replicate 30 0)"
  using nvs_record_round_trip [of "[9, 8]" "replicate 30 0" 7 2 "Identity PsPaired"] by simp

text \<open>
  C38: Whatever byte of a stored record is changed, the header and the checksum field included,
  the record is no longer accepted.
\<close>

theorem nvs_record_corruption_detected:
  assumes "decode_record input = Inr r" and "i < length input" and "b \<noteq> input ! i"
  shows "\<exists>e. decode_record (input[i := b]) = Inl e"
proof (rule ccontr)
  assume "\<not> ?thesis"
  then obtain r' where r': "decode_record (input[i := b]) = Inr r'"
    by (cases "decode_record (input[i := b])") auto
  note d = decode_record_Inr [OF assms(1)] and d' = decode_record_Inr [OF r']
  show False
  proof (cases "20 \<le> i \<and> i < 24")
    case True
    then have "zeroed (input[i := b]) = zeroed input" by (simp add: zeroed_def)
    then have "slice 20 4 (input[i := b]) = slice 20 4 input" using d(9) d'(9) by simp
    moreover obtain j where j: "i = 20 + j" "j < 4" using True by (auto dest: le_Suc_ex)
    ultimately have "slice 20 4 (input[i := b]) ! j = slice 20 4 input ! j" by simp
    then show False using j d(1) assms(2,3) by (simp add: slice_def)
  next
    case False
    then have same: "slice 20 4 (input[i := b]) = slice 20 4 input"
      by (auto simp: slice_def drop_update_swap not_le)
    have len: "length (zeroed input) = length input" using d(1) by (simp add: zeroed_def)
    have z: "zeroed (input[i := b]) = (zeroed input)[i := b]" "zeroed input ! i = input ! i"
      using zeroed_update [of input i b] False assms(2) d(1) by auto
    let ?z = "zeroed input"
    have "from_be_bytes (to_be_bytes (crc32 (zeroed (input[i := b])))) =
        (from_be_bytes (to_be_bytes (crc32 ?z)) :: u32)"
      using same d(9) d'(9) by simp
    then have "crc32_update (- 1) (?z[i := b]) = crc32_update (- 1) ?z"
      using z(1) by (simp add: crc32_def)
    moreover have "?z[i := b] = take i ?z @ b # drop (Suc i) ?z"
      using assms(2) len by (simp add: upd_conv_take_nth_drop)
    moreover have "?z = take i ?z @ (?z ! i) # drop (Suc i) ?z"
      using assms(2) len by (simp add: id_take_nth_drop [symmetric])
    ultimately have "crc32_update (- 1) (take i ?z @ b # drop (Suc i) ?z) =
      crc32_update (- 1) (take i ?z @ (?z ! i) # drop (Suc i) ?z)"
      by metis
    then show False using crc32_update_byte z(2) assms(3) by metis
  qed
qed

theorem nvs_record_corruption_detected_witness:
  "\<exists>e. decode_record ((record_bytes
      \<lparr>publication_sequence = 7, rr_generation = 2, rr_state = ConfigPresent, rr_payload = [9, 8]\<rparr>)[25 := 7]) = Inl e"
proof (rule nvs_record_corruption_detected)
  show "decode_record (record_bytes \<lparr>publication_sequence = 7, rr_generation = 2,
      rr_state = ConfigPresent, rr_payload = [9, 8]\<rparr>) =
    Inr \<lparr>publication_sequence = 7, rr_generation = 2, rr_state = ConfigPresent, rr_payload = [9, 8]\<rparr>"
    by (rule decode_record_bytes) (simp add: record_wf_def NVS_PAYLOAD_MAX_def)
qed (simp_all add: record_bytes_def nth_append)

text \<open>
  The slot choice fails when a present slot does not decode or two slots of one sequence
  differ; otherwise it returns the decoded slot of the highest publication sequence, and nothing
  only when both are absent.
\<close>

theorem select_slot_newest:
  "(case select_slot first second of
      Inr None \<Rightarrow> first = None \<and> second = None
    | Inr (Some r) \<Rightarrow>
        (\<exists>b. (first = Some b \<or> second = Some b) \<and> decode_record b = Inr r) \<and>
        (\<forall>b. (first = Some b \<or> second = Some b) \<longrightarrow>
           (\<exists>q. decode_record b = Inr q \<and>
             (q = r \<or> publication_sequence q < publication_sequence r)))
    | Inl e \<Rightarrow>
        (\<exists>b. (first = Some b \<or> second = Some b) \<and> decode_record b = Inl e) \<or>
        e = DeConflictingSlots \<and>
          (\<exists>a b q r. first = Some a \<and> second = Some b \<and> decode_record a = Inr q \<and>
             decode_record b = Inr r \<and> q \<noteq> r \<and> publication_sequence q = publication_sequence r))"
proof (cases first)
  case None
  show ?thesis
  proof (cases second)
    case (Some b)
    with None show ?thesis by (cases "decode_record b") (simp_all add: select_slot_def)
  qed (simp add: None select_slot_def)
next
  case (Some a)
  show ?thesis
  proof (cases second)
    case None
    with Some show ?thesis by (cases "decode_record a") (simp_all add: select_slot_def)
  next
    case b: (Some b)
    show ?thesis
    proof (cases "decode_record a")
      case (Inl e)
      with Some show ?thesis by (auto simp: select_slot_def)
    next
      case q: (Inr q)
      show ?thesis
      proof (cases "decode_record b")
        case (Inl e)
        with Some b q show ?thesis by (auto simp: select_slot_def)
      next
        case (Inr r)
        consider "publication_sequence q < publication_sequence r"
          | "publication_sequence r < publication_sequence q"
          | "publication_sequence q = publication_sequence r"
          by (rule linorder_cases)
        then show ?thesis
          using Some b q Inr by cases (auto simp: select_slot_def)
      qed
    qed
  qed
qed

theorem select_slot_newest_witness:
  "select_slot (Some (record_bytes \<lparr>publication_sequence = 7, rr_generation = 2, rr_state = ConfigPresent, rr_payload = []\<rparr>))
     (Some (record_bytes \<lparr>publication_sequence = 8, rr_generation = 3, rr_state = ConfigCleared, rr_payload = []\<rparr>))
   = Inr (Some \<lparr>publication_sequence = 8, rr_generation = 3, rr_state = ConfigCleared, rr_payload = []\<rparr>)"
  (is "select_slot (Some (record_bytes ?a)) (Some (record_bytes ?b)) = _")
proof -
  have ab: "decode_record (record_bytes ?a) = Inr ?a" "decode_record (record_bytes ?b) = Inr ?b"
    by (simp_all add: decode_record_bytes record_wf_def)
  show ?thesis
    using select_slot_newest [of "Some (record_bytes ?a)" "Some (record_bytes ?b)"] ab
    by (auto simp: ab ex_disj_distrib all_conj_distrib split: sum.splits option.splits)
qed

end
