(* ===== verification/Core_S3.thy ===== *)
theory Core_S3
  imports Nvs_Record
begin

text \<open>
  \<open>crates/deskkin-core-s3\<close>, shared memory and control: the world snapshot the renderer core
  decodes, the touch ring and the latest-value slot between the cores, the serial control frame
  and the Wi-Fi configuration check.
\<close>

section \<open>World snapshot\<close>

definition AMP_WORLD_MAGIC :: u32 where "AMP_WORLD_MAGIC = 0x4453574c"
definition AMP_WORLD_SCHEMA :: u8 where "AMP_WORLD_SCHEMA = 2"
definition AMP_WORLD_SNAPSHOT_LEN :: nat where "AMP_WORLD_SNAPSHOT_LEN = 24"
definition AMP_WORLD_VALUE_MASK :: u8 where "AMP_WORLD_VALUE_MASK = 0x7f"
definition AMP_WORLD_FILTER_BILINEAR :: u8 where "AMP_WORLD_FILTER_BILINEAR = 0x80"

datatype amp_texture_filter = AtfNearest | AtfBilinear

record amp_world_snapshot =
  aws_generation :: u32
  aws_observed_yaw :: u64
  aws_sas :: "u32 option"
  aws_shell :: u8
  aws_availability :: "u8 option"
  aws_notice :: "u8 option"
  aws_availability_filter :: amp_texture_filter
  aws_notice_filter :: amp_texture_filter

datatype amp_snapshot_error =
  AseUnpublished | AseUnstable | AseUnknownSchema | AseInvalidMagic | AseGenerationMismatch
| AseInvalidSemanticValue

definition amp_availability :: "u8 \<Rightarrow> amp_snapshot_error + u8 option" where
  "amp_availability b =
     (let v = b AND AMP_WORLD_VALUE_MASK
      in if v = 0 then Inr None else if 1 \<le> v \<and> v \<le> 3 then Inr (Some v)
         else Inl AseInvalidSemanticValue)"

definition amp_notice :: "u8 \<Rightarrow> amp_snapshot_error + u8 option" where
  "amp_notice b =
     (let v = b AND AMP_WORLD_VALUE_MASK
      in if v = 0 then Inr None else if v = 1 then Inr (Some 1) else Inl AseInvalidSemanticValue)"

definition amp_filter :: "u8 \<Rightarrow> amp_texture_filter" where
  "amp_filter b = (if b AND AMP_WORLD_FILTER_BILINEAR \<noteq> 0 then AtfBilinear else AtfNearest)"

text \<open>The signed yaw is kept as the 64 bits of its two's complement.\<close>

definition decode_amp_world_snapshot ::
  "u32 \<Rightarrow> u8 list \<Rightarrow> u32 \<Rightarrow> amp_snapshot_error + amp_world_snapshot" where
  "decode_amp_world_snapshot publication_before payload publication_after =
     (if publication_before = 0 \<or> publication_after = 0 then Inl AseUnpublished
      else if publication_before \<noteq> publication_after then Inl AseUnstable
      else if from_le_bytes (slice 0 4 payload) \<noteq> AMP_WORLD_MAGIC then Inl AseInvalidMagic
      else
        (let generation = from_le_bytes (slice 4 4 payload)
         in if generation \<noteq> publication_before then Inl AseGenerationMismatch
            else if payload ! 20 \<noteq> AMP_WORLD_SCHEMA then Inl AseUnknownSchema
            else
              (let shell = payload ! 21
               in res_bind (amp_availability (payload ! 22)) (\<lambda>availability.
                  res_bind (amp_notice (payload ! 23)) (\<lambda>notice.
                    if shell > 4 then Inl AseInvalidSemanticValue
                    else
                      (let sas = from_le_bytes (slice 16 4 payload)
                       in Inr \<lparr>aws_generation = generation,
                               aws_observed_yaw = from_le_bytes (slice 8 8 payload),
                               aws_sas = (if sas \<noteq> - 1 then Some sas else None),
                               aws_shell = shell,
                               aws_availability = availability,
                               aws_notice = notice,
                               aws_availability_filter = amp_filter (payload ! 22),
                               aws_notice_filter = amp_filter (payload ! 23)\<rparr>))))))"

section \<open>Touch ring\<close>

record amp_touch_sample =
  ats_generation :: u32
  ats_x :: u16
  ats_y :: u16
  ats_pressed :: bool

text \<open>The capacity \<open>N\<close> of the ring is the length of its sample array.\<close>

record amp_touch_ring =
  atr_samples :: "amp_touch_sample list"
  atr_generation :: u32

definition touch_new :: "nat \<Rightarrow> amp_touch_ring" where
  "touch_new n = \<lparr>atr_samples = replicate n \<lparr>ats_generation = 0, ats_x = 0, ats_y = 0, ats_pressed = False\<rparr>,
     atr_generation = 0\<rparr>"

definition touch_push :: "u16 \<Rightarrow> u16 \<Rightarrow> bool \<Rightarrow> amp_touch_ring \<Rightarrow> amp_touch_ring" where
  "touch_push x y pressed self =
     (if length (atr_samples self) = 0 then self
      else
        (let g = max (atr_generation self + 1) 1
         in \<lparr>atr_samples = (atr_samples self)[(unat g - 1) mod length (atr_samples self) :=
                \<lparr>ats_generation = g, ats_x = x, ats_y = y, ats_pressed = pressed\<rparr>],
             atr_generation = g\<rparr>))"

definition u32_try_from :: "nat \<Rightarrow> u32" where
  "u32_try_from n = (if n < 2 ^ 32 then of_nat n else - 1)"

definition touch_next_after :: "amp_touch_ring \<Rightarrow> u32 \<Rightarrow> amp_touch_sample option" where
  "touch_next_after self after =
     (if length (atr_samples self) = 0 \<or> atr_generation self = 0 \<or> after = atr_generation self then None
      else
        (let capacity = u32_try_from (length (atr_samples self));
             oldest = saturating_add (saturating_sub (atr_generation self) capacity) 1;
             wanted = max (after + 1) oldest;
             sample = atr_samples self ! ((unat wanted - 1) mod length (atr_samples self))
         in if ats_generation sample = wanted then Some sample else None))"

definition touch_read_after :: "amp_touch_ring \<Rightarrow> u32 \<Rightarrow> u32 \<Rightarrow> amp_touch_sample option \<times> u32" where
  "touch_read_after self after cumulative_drops =
     (case touch_next_after self after of
        None \<Rightarrow> (None, cumulative_drops)
      | Some sample \<Rightarrow>
          (let wanted = max (after + 1) 1;
               skipped = ats_generation sample - wanted
           in (Some sample, saturating_add cumulative_drops skipped)))"

section \<open>Latest value\<close>

record 'a amp_latest_value =
  alv_generation :: u32
  alv_value :: "'a option"

definition latest_new :: "'a amp_latest_value" where
  "latest_new = \<lparr>alv_generation = 0, alv_value = None\<rparr>"

definition latest_publish :: "'a \<Rightarrow> 'a amp_latest_value \<Rightarrow> u32 \<times> 'a amp_latest_value" where
  "latest_publish value self =
     (let g = max (alv_generation self + 1) 1
      in (g, self\<lparr>alv_generation := g, alv_value := Some value\<rparr>))"

definition latest_after :: "u32 \<Rightarrow> 'a amp_latest_value \<Rightarrow> (u32 \<times> 'a) option" where
  "latest_after observed_generation self =
     (if alv_generation self = 0 \<or> alv_generation self = observed_generation then None
      else map_option (\<lambda>value. (alv_generation self, value)) (alv_value self))"

section \<open>Wi-Fi configuration\<close>

record wifi_config =
  wc_ssid :: "u8 list"
  wc_passphrase :: "u8 list"
  wc_host_ipv4 :: "u8 list"

definition is_rfc1918 :: "u8 list \<Rightarrow> bool" where
  "is_rfc1918 v \<longleftrightarrow> v ! 0 = 10 \<or> (v ! 0 = 172 \<and> v ! 1 \<ge> 16 \<and> v ! 1 \<le> 31) \<or> (v ! 0 = 192 \<and> v ! 1 = 168)"

definition wifi_validate :: "wifi_config \<Rightarrow> decode_error + unit" where
  "wifi_validate self =
     (if \<not> (1 \<le> length (wc_ssid self) \<and> length (wc_ssid self) \<le> 32) \<or>
         \<not> (8 \<le> length (wc_passphrase self) \<and> length (wc_passphrase self) \<le> 63) \<or>
         \<not> list_all (\<lambda>b. 0x20 \<le> b \<and> b \<le> 0x7e) (wc_passphrase self) \<or>
         \<not> is_rfc1918 (wc_host_ipv4 self)
      then Inl DeInvalidConfig else Inr ())"

section \<open>Control frames\<close>

definition CONTROL_PAYLOAD_MAX :: nat where "CONTROL_PAYLOAD_MAX = 160"

datatype control_command =
  CmdIdentityInit | CmdIdentityList | CmdIdentityUnpair | CmdWifiProvision | CmdWifiStatus
| CmdWifiClear | CmdRun | CmdStatus | CmdShutdown | CmdWorldBenchmarkStart

fun control_command_u8 :: "control_command \<Rightarrow> u8" where
  "control_command_u8 CmdIdentityInit = 1"
| "control_command_u8 CmdIdentityList = 2"
| "control_command_u8 CmdIdentityUnpair = 3"
| "control_command_u8 CmdWifiProvision = 4"
| "control_command_u8 CmdWifiStatus = 5"
| "control_command_u8 CmdWifiClear = 6"
| "control_command_u8 CmdRun = 7"
| "control_command_u8 CmdStatus = 8"
| "control_command_u8 CmdShutdown = 9"
| "control_command_u8 CmdWorldBenchmarkStart = 10"

definition control_command_try_from :: "u8 \<Rightarrow> decode_error + control_command" where
  "control_command_try_from v =
     (if v = 1 then Inr CmdIdentityInit else if v = 2 then Inr CmdIdentityList
      else if v = 3 then Inr CmdIdentityUnpair else if v = 4 then Inr CmdWifiProvision
      else if v = 5 then Inr CmdWifiStatus else if v = 6 then Inr CmdWifiClear
      else if v = 7 then Inr CmdRun else if v = 8 then Inr CmdStatus
      else if v = 9 then Inr CmdShutdown else if v = 10 then Inr CmdWorldBenchmarkStart
      else Inl DeUnknownCommand)"

record control_frame =
  cf_command :: control_command
  cf_command_id :: "u8 list"
  cf_owner_generation :: u64
  cf_payload :: "u8 list"

definition decode_control :: "u8 list \<Rightarrow> decode_error + control_frame" where
  "decode_control input =
     (if length input < 28 then Inl DeTruncated
      else if input ! 0 \<noteq> SCHEMA_VERSION then Inl DeUnknownSchema
      else res_bind (control_command_try_from (input ! 1)) (\<lambda>command.
        let payload_len = unat (from_be_bytes [input ! 26, input ! 27] :: u16)
        in if payload_len > CONTROL_PAYLOAD_MAX then Inl DeOversize
           else if length input \<noteq> 28 + payload_len then Inl DeTrailingBytes
           else Inr \<lparr>cf_command = command, cf_command_id = slice 2 16 input,
                     cf_owner_generation = from_be_bytes (slice 18 8 input),
                     cf_payload = drop 28 input\<rparr>))"

section \<open>Lemmas: the touch ring\<close>

text \<open>
  The ring after pushing \<open>ps\<close>: its generation counts the pushes and the slot of each of the
  last \<open>N\<close> generations holds that push.
\<close>

definition touch_sample :: "nat \<Rightarrow> u16 \<times> u16 \<times> bool \<Rightarrow> amp_touch_sample" where
  "touch_sample g p = \<lparr>ats_generation = of_nat g, ats_x = fst p, ats_y = fst (snd p), ats_pressed = snd (snd p)\<rparr>"

definition touch_pushes :: "nat \<Rightarrow> (u16 \<times> u16 \<times> bool) list \<Rightarrow> amp_touch_ring" where
  "touch_pushes n ps = fold (\<lambda>(x, y, pressed). touch_push x y pressed) ps (touch_new n)"

definition touch_holds :: "nat \<Rightarrow> (u16 \<times> u16 \<times> bool) list \<Rightarrow> amp_touch_ring \<Rightarrow> bool" where
  "touch_holds n ps r \<longleftrightarrow> length (atr_samples r) = n \<and> atr_generation r = of_nat (length ps) \<and>
     (\<forall>k < length ps. length ps \<le> k + n \<longrightarrow> atr_samples r ! (k mod n) = touch_sample (Suc k) (ps ! k))"

lemma touch_holds_new: "touch_holds n [] (touch_new n)"
  by (simp add: touch_holds_def touch_new_def)

lemma mod_window: "j < k \<Longrightarrow> k < j + (n :: nat) \<Longrightarrow> j mod n \<noteq> k mod n"
proof
  assume j: "j < k" "k < j + n" and eq: "j mod n = k mod n"
  have "n dvd k - j" using eq j mod_eq_dvd_iff_nat [of j k n] by simp
  then show False using j by (auto dest: dvd_imp_le)
qed

lemma touch_holds_push:
  assumes "touch_holds n ps r" and "0 < n" and "Suc (length ps) < 2 ^ 32"
  shows "touch_holds n (ps @ [(x, y, b)]) (touch_push x y b r)"
proof -
  let ?g = "of_nat (Suc (length ps)) :: u32"
  have u: "unat ?g = Suc (length ps)" using assms(3) by (simp add: unat_of_nat del: of_nat_Suc)
  have g: "max (atr_generation r + 1) 1 = ?g"
  proof -
    have "1 \<le> ?g" using u by (simp add: word_le_nat_alt del: of_nat_Suc)
    then show ?thesis using assms(1) by (simp add: touch_holds_def add.commute max_absorb1)
  qed
  have push: "touch_push x y b r = \<lparr>atr_samples = (atr_samples r)[length ps mod n := touch_sample (Suc (length ps)) (x, y, b)],
      atr_generation = ?g\<rparr>"
    using assms(1,2) unfolding touch_push_def Let_def g u
    by (simp add: touch_holds_def touch_sample_def)
  show ?thesis
    unfolding push touch_holds_def
  proof (intro conjI allI impI)
    fix k
    assume k: "k < length (ps @ [(x, y, b)])" "length (ps @ [(x, y, b)]) \<le> k + n"
    show "atr_samples \<lparr>atr_samples = (atr_samples r)[length ps mod n := touch_sample (Suc (length ps)) (x, y, b)],
        atr_generation = ?g\<rparr> ! (k mod n) = touch_sample (Suc k) ((ps @ [(x, y, b)]) ! k)"
    proof (cases "k = length ps")
      case True
      then show ?thesis using assms(1,2) by (simp add: touch_holds_def)
    next
      case False
      then have "k < length ps" "k mod n \<noteq> length ps mod n"
        using k mod_window [of k "length ps" n] by auto
      then show ?thesis using assms(1) k by (simp add: touch_holds_def nth_append)
    qed
  qed (use assms(1) in \<open>simp_all add: touch_holds_def\<close>)
qed

lemma touch_pushes_hold:
  "0 < n \<Longrightarrow> length ps < 2 ^ 32 \<Longrightarrow> touch_holds n ps (touch_pushes n ps)"
proof (induction ps rule: rev_induct)
  case Nil
  then show ?case by (simp add: touch_pushes_def touch_holds_new)
next
  case (snoc p ps)
  obtain x y b where "p = (x, y, b)" by (cases p)
  with snoc touch_holds_push [of n ps "touch_pushes n ps" x y b] show ?case
    by (simp add: touch_pushes_def)
qed

section \<open>Lemmas: the latest value\<close>

definition latest_publishes :: "'a list \<Rightarrow> 'a amp_latest_value" where
  "latest_publishes vs = fold (\<lambda>v s. snd (latest_publish v s)) vs latest_new"

lemma latest_publishes_eq:
  "length vs < 2 ^ 32 \<Longrightarrow> latest_publishes vs =
     \<lparr>alv_generation = of_nat (length vs), alv_value = (if vs = [] then None else Some (last vs))\<rparr>"
proof (induction vs rule: rev_induct)
  case Nil
  then show ?case by (simp add: latest_publishes_def latest_new_def)
next
  case (snoc v vs)
  have "unat (of_nat (Suc (length vs)) :: u32) = Suc (length vs)"
    using snoc.prems by (simp add: unat_of_nat del: of_nat_Suc)
  then have "1 \<le> (of_nat (Suc (length vs)) :: u32)" by (simp add: word_le_nat_alt del: of_nat_Suc)
  moreover have "latest_publishes (vs @ [v]) = snd (latest_publish v (latest_publishes vs))"
    by (simp add: latest_publishes_def)
  ultimately show ?case
    using snoc by (simp add: latest_publish_def Let_def add.commute max_absorb1)
qed

section \<open>Lemmas: the snapshot and control frame on the wire\<close>

fun filter_bit :: "amp_texture_filter \<Rightarrow> u8" where
  "filter_bit AtfNearest = 0"
| "filter_bit AtfBilinear = 0x80"

definition value_byte :: "u8 option \<Rightarrow> amp_texture_filter \<Rightarrow> u8" where
  "value_byte v f = (case v of None \<Rightarrow> 0 | Some v \<Rightarrow> v) OR filter_bit f"

definition snapshot_bytes :: "amp_world_snapshot \<Rightarrow> u8 list" where
  "snapshot_bytes s = to_le_bytes AMP_WORLD_MAGIC @ to_le_bytes (aws_generation s) @
     to_le_bytes (aws_observed_yaw s) @
     to_le_bytes (case aws_sas s of None \<Rightarrow> - 1 | Some v \<Rightarrow> v) @
     [AMP_WORLD_SCHEMA, aws_shell s, value_byte (aws_availability s) (aws_availability_filter s),
      value_byte (aws_notice s) (aws_notice_filter s)]"

definition snapshot_wf :: "amp_world_snapshot \<Rightarrow> bool" where
  "snapshot_wf s \<longleftrightarrow> aws_generation s \<noteq> 0 \<and> aws_sas s \<noteq> Some (- 1) \<and> aws_shell s \<le> 4 \<and>
     aws_availability s \<in> {None, Some 1, Some 2, Some 3} \<and> aws_notice s \<in> {None, Some 1}"

lemma bits8: "n < 8 \<longleftrightarrow> n \<in> {0, 1, 2, 3, 4, 5, 6, 7 :: nat}"
  by auto

lemma byte_split: "(b AND 0x7f) OR (b AND 0x80) = (b :: u8)"
  by (rule bit_word_eqI) (auto simp: bits8 bit_simps)

lemma byte_top: "(b :: u8) AND 0x80 \<noteq> 0 \<Longrightarrow> b AND 0x80 = 0x80"
proof -
  assume nz: "b AND 0x80 \<noteq> 0"
  have "b AND 0x80 = (if bit b 7 then 0x80 else 0)"
    by (rule bit_word_eqI) (auto simp: bits8 bit_simps)
  with nz show ?thesis by (auto split: if_splits)
qed

lemma value_byte_eq: "value_byte (if b AND 0x7f = 0 then None else Some (b AND 0x7f)) (amp_filter b) = b"
  using byte_split [of b] byte_top [of b]
  by (auto simp: value_byte_def amp_filter_def AMP_WORLD_FILTER_BILINEAR_def)

lemma small_u8: "1 \<le> v \<Longrightarrow> v \<le> 3 \<Longrightarrow> v = 1 \<or> v = 2 \<or> v = (3 :: u8)"
proof -
  assume "1 \<le> v" "v \<le> 3"
  then have "unat v = 1 \<or> unat v = 2 \<or> unat v = 3" by (auto simp: word_le_nat_alt)
  then show ?thesis by (auto simp: word_unat_eq_iff)
qed

lemma amp_availability_iff:
  "amp_availability b = Inr v \<longleftrightarrow> v \<in> {None, Some 1, Some 2, Some 3} \<and> b = value_byte v (amp_filter b)"
proof
  assume "amp_availability b = Inr v"
  then show "v \<in> {None, Some 1, Some 2, Some 3} \<and> b = value_byte v (amp_filter b)"
    using value_byte_eq [of b]
    by (auto simp: amp_availability_def AMP_WORLD_VALUE_MASK_def Let_def dest: small_u8 split: if_splits)
next
  assume *: "v \<in> {None, Some 1, Some 2, Some 3} \<and> b = value_byte v (amp_filter b)"
  have "amp_availability (value_byte v f) = Inr v" if "v \<in> {None, Some 1, Some 2, Some 3}" for f
    using that by (cases f) (auto simp: amp_availability_def AMP_WORLD_VALUE_MASK_def value_byte_def)
  from this [of "amp_filter b"] * show "amp_availability b = Inr v" by simp
qed

lemma amp_notice_iff:
  "amp_notice b = Inr v \<longleftrightarrow> v \<in> {None, Some 1} \<and> b = value_byte v (amp_filter b)"
proof
  assume "amp_notice b = Inr v"
  then show "v \<in> {None, Some 1} \<and> b = value_byte v (amp_filter b)"
    using value_byte_eq [of b]
    by (auto simp: amp_notice_def AMP_WORLD_VALUE_MASK_def Let_def split: if_splits)
next
  assume *: "v \<in> {None, Some 1} \<and> b = value_byte v (amp_filter b)"
  have "amp_notice (value_byte v f) = Inr v" if "v \<in> {None, Some 1}" for f
    using that by (cases f) (auto simp: amp_notice_def AMP_WORLD_VALUE_MASK_def value_byte_def)
  from this [of "amp_filter b"] * show "amp_notice b = Inr v" by simp
qed

lemma amp_filter_value_byte:
  "v \<in> {None, Some 1, Some 2, Some 3} \<Longrightarrow> amp_filter (value_byte v f) = f"
  by (cases f) (auto simp: amp_filter_def value_byte_def AMP_WORLD_FILTER_BILINEAR_def)

lemma length_snapshot_bytes [simp]: "length (snapshot_bytes s) = 24"
  by (simp add: snapshot_bytes_def)

lemma snapshot_fields:
  "slice 0 4 (snapshot_bytes s) = to_le_bytes AMP_WORLD_MAGIC"
  "slice 4 4 (snapshot_bytes s) = to_le_bytes (aws_generation s)"
  "slice 8 8 (snapshot_bytes s) = to_le_bytes (aws_observed_yaw s)"
  "slice 16 4 (snapshot_bytes s) = to_le_bytes (case aws_sas s of None \<Rightarrow> - 1 | Some v \<Rightarrow> v)"
  "snapshot_bytes s ! 20 = AMP_WORLD_SCHEMA" "snapshot_bytes s ! 21 = aws_shell s"
  "snapshot_bytes s ! 22 = value_byte (aws_availability s) (aws_availability_filter s)"
  "snapshot_bytes s ! 23 = value_byte (aws_notice s) (aws_notice_filter s)"
  by (simp_all add: snapshot_bytes_def slice_def nth_append)

fun control_command_wf :: "control_frame \<Rightarrow> bool" where
  "control_command_wf f \<longleftrightarrow> length (cf_command_id f) = 16 \<and> length (cf_payload f) \<le> 160"

definition control_bytes :: "control_frame \<Rightarrow> u8 list" where
  "control_bytes f = [SCHEMA_VERSION, control_command_u8 (cf_command f)] @ cf_command_id f @
     to_be_bytes (cf_owner_generation f) @ to_be_bytes (of_nat (length (cf_payload f)) :: u16) @ cf_payload f"

lemma control_command_round_trip [simp]: "control_command_try_from (control_command_u8 c) = Inr c"
  by (cases c) (simp_all add: control_command_try_from_def)

lemma control_command_canonical: "control_command_try_from v = Inr c \<Longrightarrow> control_command_u8 c = v"
  by (auto simp: control_command_try_from_def split: if_splits)

lemma decode_control_bytes:
  assumes "control_command_wf f"
  shows "decode_control (control_bytes f) = Inr f"
proof -
  obtain a b where ab: "to_be_bytes (of_nat (length (cf_payload f)) :: u16) = [a, b]"
    using to_be_bytes_u16 by blast
  have "unat (from_be_bytes [a, b] :: u16) = length (cf_payload f)"
    using assms be_round_trips(1) [of "of_nat (length (cf_payload f))"] by (simp add: ab unat_of_nat)
  then show ?thesis
    using assms by (simp add: decode_control_def control_bytes_def ab nth_append slice_append
        CONTROL_PAYLOAD_MAX_def)
qed

lemma decode_control_canonical:
  assumes "decode_control w = Inr f"
  shows "control_command_wf f \<and> control_bytes f = w"
proof -
  let ?len = "from_be_bytes [w ! 26, w ! 27] :: u16"
  from assms obtain c where c: "control_command_try_from (w ! 1) = Inr c" and
    w: "w ! 0 = SCHEMA_VERSION" "length w = 28 + unat ?len" "unat ?len \<le> 160" and
    f: "f = \<lparr>cf_command = c, cf_command_id = slice 2 16 w,
         cf_owner_generation = from_be_bytes (slice 18 8 w), cf_payload = drop 28 w\<rparr>"
    by (auto simp: decode_control_def res_bind_Inr_iff CONTROL_PAYLOAD_MAX_def Let_def split: if_splits)
  have "w ! 0 # drop (Suc 0) w = w" using w by (cases w) auto
  moreover have "control_bytes f = w ! 0 # w ! 1 # slice 2 16 w @ slice 18 8 w @ w ! 26 # w ! 27 # drop 28 w"
    using w control_command_canonical [OF c] by (simp add: control_bytes_def f)
  ultimately show ?thesis using w by (simp add: f slice_join nth_join)
qed

interpretation control: codec control_bytes decode_control control_command_wf
  by unfold_locales (simp_all only: decode_control_bytes decode_control_canonical)

section \<open>Properties\<close>

text \<open>
  C40: Below \<open>2 ^ 32\<close> pushes, a reader that has seen the samples up to generation \<open>after\<close> gets
  the oldest sample still in the ring that it has not seen, exactly as it was pushed, and its
  drop counter grows by exactly the number of samples overwritten in between; a reader that has
  seen everything gets nothing.
\<close>

theorem touch_read_oldest_unseen:
  assumes "0 < n" and "length ps < 2 ^ 32" and "after \<le> length ps"
  shows "touch_read_after (touch_pushes n ps) (of_nat after) drops =
    (if after = length ps then (None, drops)
     else (let k = max after (length ps - n)
           in (Some (touch_sample (Suc k) (ps ! k)), saturating_add drops (of_nat (k - after)))))"
proof (cases "after = length ps")
  case True
  then show ?thesis
    using touch_pushes_hold [OF assms(1,2)]
    by (simp add: touch_read_after_def touch_next_after_def touch_holds_def)
next
  case False
  let ?r = "touch_pushes n ps" and ?m = "length ps"
  define k where "k = max after (?m - n)"
  note h = touch_pushes_hold [OF assms(1,2), unfolded touch_holds_def]
  have lt: "after < ?m" "k < ?m" "?m \<le> k + n" "after \<le> k"
    using False assms by (auto simp: k_def)
  have um: "unat (of_nat ?m :: u32) = ?m" and ua: "unat (of_nat after :: u32) = after"
    and uk: "unat (of_nat (Suc k) :: u32) = Suc k" and uz: "unat (of_nat (Suc after) :: u32) = Suc after"
    using assms lt by (simp_all add: unat_of_nat del: of_nat_Suc)
  have ne: "(of_nat ?m :: u32) \<noteq> 0" "(of_nat after :: u32) \<noteq> of_nat ?m"
    using um ua lt by (metis unat_0 not_less0, metis less_irrefl)
  have cap: "unat (saturating_sub (of_nat ?m) (u32_try_from n)) = ?m - n"
  proof (cases "n < 2 ^ 32")
    case True
    then show ?thesis using assms(2) by (simp add: unat_saturating_sub u32_try_from_def unat_of_nat)
  next
    case False
    then show ?thesis using assms(2)
      by (simp add: unat_saturating_sub um u32_try_from_def unsigned_minus_1_eq_mask mask_eq_exp_minus_1)
  qed
  have old: "unat (saturating_add (saturating_sub (of_nat ?m) (u32_try_from n)) 1) = Suc (?m - n)"
    using assms lt by (simp add: unat_saturating_add cap)
  have wanted: "max (of_nat after + 1) (saturating_add (saturating_sub (of_nat ?m) (u32_try_from n)) 1) =
      (of_nat (Suc k) :: u32)"
    using old uz uk by (auto simp: max_def word_le_nat_alt word_unat_eq_iff k_def add.commute)
  have "touch_next_after ?r (of_nat after) = Some (touch_sample (Suc k) (ps ! k))"
    using h ne lt assms(1) unfolding touch_next_after_def Let_def
    by (simp add: wanted uk touch_sample_def del: of_nat_Suc)
  moreover have "max (of_nat after + 1) 1 = (of_nat (Suc after) :: u32)"
    using uz by (auto simp: max_def word_le_nat_alt add.commute)
  moreover have "(of_nat (Suc k) :: u32) - of_nat (Suc after) = of_nat (k - after)"
    using lt by (simp add: of_nat_diff)
  ultimately show ?thesis
    using False by (simp add: touch_read_after_def touch_sample_def k_def [symmetric] Let_def del: of_nat_Suc)
qed

theorem touch_read_oldest_unseen_witness:
  "touch_read_after (touch_pushes 2 [(1, 1, True), (2, 2, True), (3, 3, True), (4, 4, False)]) 1 0 =
     (Some \<lparr>ats_generation = 3, ats_x = 3, ats_y = 3, ats_pressed = True\<rparr>, 1)"
  using touch_read_oldest_unseen [of 2 "[(1, 1, True), (2, 2, True), (3, 3, True), (4, 4, False)]" 1 0]
  by (simp add: touch_sample_def saturating_add_def)

text \<open>
  A reader of the latest-value slot that has seen generation \<open>o\<close> gets the last published
  value with its generation, or nothing when that is the one it has seen.
\<close>

theorem latest_value_is_last_published:
  assumes "length vs < 2 ^ 32" and "seen \<le> length vs"
  shows "latest_after (of_nat seen) (latest_publishes vs) =
    (if seen = length vs then None else Some (of_nat (length vs), last vs))"
proof -
  have "unat (of_nat (length vs) :: u32) = length vs" "unat (of_nat seen :: u32) = seen"
    using assms by (simp_all add: unat_of_nat)
  then have eq: "(of_nat (length vs) :: u32) = of_nat seen \<longleftrightarrow> length vs = seen"
    "(of_nat (length vs) :: u32) = 0 \<longleftrightarrow> length vs = 0"
    by (simp_all add: word_unat_eq_iff)
  show ?thesis
  proof (cases "seen = length vs")
    case True
    then show ?thesis by (simp add: latest_after_def latest_publishes_eq [OF assms(1)])
  next
    case False
    with assms(2) have "vs \<noteq> []" by auto
    with False show ?thesis
      unfolding latest_after_def latest_publishes_eq [OF assms(1)] by (simp add: eq)
  qed
qed

theorem latest_value_is_last_published_witness:
  "latest_after 1 (latest_publishes [True, False, True]) = Some (3, True)"
  using latest_value_is_last_published [of "[True, False, True]" 1] by simp

text \<open>
  A 24-byte snapshot is accepted exactly when both publication words name its own non-zero
  generation and the bytes are those of a snapshot with legal values, which is then what the
  renderer gets: a snapshot torn between two publications is never taken.
\<close>

theorem amp_snapshot_accepted_iff:
  assumes "length payload = 24"
  shows "decode_amp_world_snapshot before payload after = Inr s \<longleftrightarrow>
    before = aws_generation s \<and> after = aws_generation s \<and> snapshot_wf s \<and> payload = snapshot_bytes s"
proof
  assume "decode_amp_world_snapshot before payload after = Inr s"
  then obtain av no where d: "before \<noteq> 0" "after = before" "from_le_bytes (slice 0 4 payload) = AMP_WORLD_MAGIC"
    "from_le_bytes (slice 4 4 payload) = before" "payload ! 20 = AMP_WORLD_SCHEMA" "payload ! 21 \<le> 4"
    "amp_availability (payload ! 22) = Inr av" "amp_notice (payload ! 23) = Inr no" and
    s: "s = \<lparr>aws_generation = before, aws_observed_yaw = from_le_bytes (slice 8 8 payload),
       aws_sas = (if (from_le_bytes (slice 16 4 payload) :: u32) \<noteq> - 1 then Some (from_le_bytes (slice 16 4 payload)) else None),
       aws_shell = payload ! 21, aws_availability = av, aws_notice = no,
       aws_availability_filter = amp_filter (payload ! 22), aws_notice_filter = amp_filter (payload ! 23)\<rparr>"
    by (auto simp: decode_amp_world_snapshot_def Let_def res_bind_Inr_iff not_less split: if_splits)
  have v: "av \<in> {None, Some 1, Some 2, Some 3}" "payload ! 22 = value_byte av (amp_filter (payload ! 22))"
    "no \<in> {None, Some 1}" "payload ! 23 = value_byte no (amp_filter (payload ! 23))"
    using d by (simp_all only: amp_availability_iff amp_notice_iff)
  have sas: "(case aws_sas s of None \<Rightarrow> - 1 | Some v \<Rightarrow> v) = (from_le_bytes (slice 16 4 payload) :: u32)"
    by (simp add: s)
  have "to_le_bytes (from_le_bytes (slice 0 4 payload) :: u32) @ to_le_bytes (from_le_bytes (slice 4 4 payload) :: u32) @
      to_le_bytes (from_le_bytes (slice 8 8 payload) :: u64) @ to_le_bytes (from_le_bytes (slice 16 4 payload) :: u32) @
      [payload ! 20, payload ! 21, payload ! 22, payload ! 23] = payload"
    using assms by (simp add: nth_end nth_join slice_join slice_start)
  moreover have "snapshot_bytes s = to_le_bytes AMP_WORLD_MAGIC @ to_le_bytes before @
      to_le_bytes (from_le_bytes (slice 8 8 payload) :: u64) @ to_le_bytes (from_le_bytes (slice 16 4 payload) :: u32) @
      [AMP_WORLD_SCHEMA, payload ! 21, payload ! 22, payload ! 23]"
    unfolding snapshot_bytes_def sas using v(2,4) by (simp add: s)
  moreover have "snapshot_wf s" using d v(1,3) by (simp add: s snapshot_wf_def)
  ultimately show "before = aws_generation s \<and> after = aws_generation s \<and> snapshot_wf s \<and> payload = snapshot_bytes s"
    using d by (simp add: s)
next
  assume *: "before = aws_generation s \<and> after = aws_generation s \<and> snapshot_wf s \<and> payload = snapshot_bytes s"
  then have wf: "snapshot_wf s" by simp
  have "amp_availability (payload ! 22) = Inr (aws_availability s)" "amp_notice (payload ! 23) = Inr (aws_notice s)"
    "amp_filter (payload ! 22) = aws_availability_filter s" "amp_filter (payload ! 23) = aws_notice_filter s"
    using * wf by (auto simp: snapshot_fields amp_availability_iff amp_notice_iff amp_filter_value_byte snapshot_wf_def)
  then show "decode_amp_world_snapshot before payload after = Inr s"
    using * wf by (cases "aws_sas s")
      (auto simp: decode_amp_world_snapshot_def snapshot_fields snapshot_wf_def Let_def)
qed

theorem amp_snapshot_accepted_iff_witness:
  "decode_amp_world_snapshot 3 (snapshot_bytes \<lparr>aws_generation = 3, aws_observed_yaw = 5, aws_sas = None,
      aws_shell = 2, aws_availability = Some 1, aws_notice = None, aws_availability_filter = AtfBilinear,
      aws_notice_filter = AtfNearest\<rparr>) 3 =
    Inr \<lparr>aws_generation = 3, aws_observed_yaw = 5, aws_sas = None,
      aws_shell = 2, aws_availability = Some 1, aws_notice = None, aws_availability_filter = AtfBilinear,
      aws_notice_filter = AtfNearest\<rparr>"
  by (subst amp_snapshot_accepted_iff) (simp_all add: snapshot_wf_def)

text \<open>
  A control frame is accepted exactly when it is the encoding of the command it yields, with
  a sixteen-byte command identity and at most 160 bytes of payload.
\<close>

theorem control_frame_canonical:
  "decode_control w = Inr f \<longleftrightarrow>
     length (cf_command_id f) = 16 \<and> length (cf_payload f) \<le> 160 \<and> control_bytes f = w"
  using control.accepts_iff [of w f] by (simp add: conj_assoc)

text \<open>
  The address check of the Wi-Fi configuration is membership in the private networks
  10.0.0.0/8, 172.16.0.0/12 and 192.168.0.0/16.
\<close>

theorem rfc1918_is_private_network:
  assumes "length ip = 4"
  shows "is_rfc1918 ip \<longleftrightarrow>
    (let a = nat_of_le (rev ip) in a div 2 ^ 24 = 10 \<or> a div 2 ^ 20 = 172 * 16 + 1 \<or> a div 2 ^ 16 = 192 * 256 + 168)"
proof -
  obtain w x y z where ip: "ip = [w, x, y, z]"
    using assms by (auto simp: numeral_eq_Suc length_Suc_conv)
  have b: "unat w < 256" "unat x < 256" "unat y < 256" "unat z < 256"
    using unsigned_less [of w] unsigned_less [of x] unsigned_less [of y] unsigned_less [of z] by simp_all
  define n where "n = unat z + 256 * (unat y + 256 * (unat x + 256 * unat w))"
  have n: "n div 256 div 256 = unat x + 256 * unat w" using b by (simp add: n_def)
  have "n div 2 ^ 24 = n div 256 div 256 div 256" "n div 2 ^ 20 = n div 256 div 256 div 16"
    "n div 2 ^ 16 = n div 256 div 256"
    by (simp_all add: div_mult2_eq [symmetric])
  then have d: "n div 2 ^ 24 = unat w" "n div 2 ^ 20 = 16 * unat w + unat x div 16"
    "n div 2 ^ 16 = 256 * unat w + unat x"
    using b by (simp_all add: n)
  have split: "16 * W + X div 16 = 172 * 16 + 1 \<longleftrightarrow> W = 172 \<and> 16 \<le> X \<and> X \<le> 31"
    "256 * W + X = 192 * 256 + 168 \<longleftrightarrow> W = 192 \<and> X = 168" if "X < 256" for W X :: nat
  proof -
    have "X div 16 < 16" "X div 16 = 1 \<longleftrightarrow> 16 \<le> X \<and> X \<le> 31" using that by linarith+
    moreover have "16 * W + d = 172 * 16 + 1 \<longleftrightarrow> W = 172 \<and> d = 1" if "d < 16" for d :: nat
      using that by presburger
    ultimately show "16 * W + X div 16 = 172 * 16 + 1 \<longleftrightarrow> W = 172 \<and> 16 \<le> X \<and> X \<le> 31" by blast
    show "256 * W + X = 192 * 256 + 168 \<longleftrightarrow> W = 192 \<and> X = 168" using that by presburger
  qed
  have net: "nat_of_le (rev ip) = n" by (simp add: ip n_def)
  have own: "is_rfc1918 ip \<longleftrightarrow> unat w = 10 \<or> (unat w = 172 \<and> 16 \<le> unat x \<and> unat x \<le> 31) \<or>
      (unat w = 192 \<and> unat x = 168)"
    by (simp add: ip is_rfc1918_def word_unat_eq_iff word_le_nat_alt)
  show ?thesis unfolding net Let_def d split [OF b(2)] own by blast
qed

theorem rfc1918_is_private_network_witness: "is_rfc1918 [172, 31, 255, 255] \<and> \<not> is_rfc1918 [172, 32, 0, 0]"
  using rfc1918_is_private_network [of "[172, 31, 255, 255]"] rfc1918_is_private_network [of "[172, 32, 0, 0]"]
  by simp

end
