(* ===== verification/Signed.thy ===== *)
theory Signed
  imports Prelude
begin

text \<open>
  Rust's signed integers \<open>i16\<close>, \<open>i32\<close>, \<open>i64\<close> as HOL integers: the ranges, the casts that
  truncate, the saturating and checked operations, and the division that rounds towards zero.
\<close>

definition in_i16 :: "int \<Rightarrow> bool" where "in_i16 x \<longleftrightarrow> - (2 ^ 15) \<le> x \<and> x < 2 ^ 15"
definition in_i32 :: "int \<Rightarrow> bool" where "in_i32 x \<longleftrightarrow> - (2 ^ 31) \<le> x \<and> x < 2 ^ 31"
definition in_i64 :: "int \<Rightarrow> bool" where "in_i64 x \<longleftrightarrow> - (2 ^ 63) \<le> x \<and> x < 2 ^ 63"

text \<open>\<open>x as i32\<close>: the low 32 bits read as two's complement.\<close>

definition as_i32 :: "int \<Rightarrow> int" where
  "as_i32 x = (x + 2 ^ 31) mod 2 ^ 32 - 2 ^ 31"

definition sat_i32 :: "int \<Rightarrow> int" where
  "sat_i32 x = max (- (2 ^ 31)) (min x (2 ^ 31 - 1))"

definition sat_i64 :: "int \<Rightarrow> int" where
  "sat_i64 x = max (- (2 ^ 63)) (min x (2 ^ 63 - 1))"

text \<open>Plain arithmetic on \<open>i64\<close>: the overflow check of the build panics, here None.\<close>

definition chk_i64 :: "int \<Rightarrow> int option" where
  "chk_i64 x = (if - (2 ^ 63) \<le> x \<and> x < 2 ^ 63 then Some x else None)"

text \<open>The operator \<open>/\<close> rounds towards zero.\<close>

definition tdiv :: "int \<Rightarrow> int \<Rightarrow> int" where
  "tdiv a b = (if (a < 0) = (b < 0) then \<bar>a\<bar> div \<bar>b\<bar> else - (\<bar>a\<bar> div \<bar>b\<bar>))"

lemma as_i32_id: "in_i32 x \<Longrightarrow> as_i32 x = x"
  by (simp add: as_i32_def in_i32_def)

lemma in_as_i32 [simp]: "in_i32 (as_i32 x)"
proof -
  have "0 \<le> (x + 2 ^ 31) mod 2 ^ 32" "(x + 2 ^ 31) mod 2 ^ 32 < 2 ^ 32" by simp_all
  then show ?thesis by (simp add: as_i32_def in_i32_def)
qed

lemma in_sat_i32 [simp]: "in_i32 (sat_i32 x)"
  by (simp add: sat_i32_def in_i32_def)

lemma in_sat_i64 [simp]: "in_i64 (sat_i64 x)"
  by (simp add: sat_i64_def in_i64_def)

lemma sat_i64_id: "in_i64 x \<Longrightarrow> sat_i64 x = x"
  by (simp add: sat_i64_def in_i64_def)

lemma sat_i32_id: "in_i32 x \<Longrightarrow> sat_i32 x = x"
  by (simp add: sat_i32_def in_i32_def)

lemma sat_i32_pos: "sat_i32 x \<le> 0 \<longleftrightarrow> x \<le> 0"
  by (auto simp: sat_i32_def min_def max_def)

lemma chk_i64_Some: "chk_i64 x = Some y \<longleftrightarrow> in_i64 x \<and> y = x"
  by (auto simp: chk_i64_def in_i64_def)

lemma chk_i64_None: "chk_i64 x = None \<longleftrightarrow> \<not> in_i64 x"
  by (auto simp: chk_i64_def in_i64_def)

lemma chk_i64_id: "in_i64 x \<Longrightarrow> chk_i64 x = Some x"
  by (simp add: chk_i64_def in_i64_def)

lemma tdiv_nonneg: "0 \<le> a \<Longrightarrow> 0 < b \<Longrightarrow> tdiv a b = a div b"
  by (simp add: tdiv_def)

lemma tdiv_neg: "a < 0 \<Longrightarrow> 0 < b \<Longrightarrow> tdiv a b = - (- a div b)"
  by (simp add: tdiv_def)

lemma tdiv_bound: "0 < b \<Longrightarrow> \<bar>a\<bar> \<le> m * b \<Longrightarrow> \<bar>tdiv a b\<bar> \<le> m"
proof -
  assume b: "0 < b" and a: "\<bar>a\<bar> \<le> m * b"
  have "\<bar>a\<bar> div b \<le> m * b div b" using a b by (intro zdiv_mono1)
  then have "\<bar>a\<bar> div b \<le> m" using b by simp
  moreover have "0 \<le> \<bar>a\<bar> div b" using b by (simp add: pos_imp_zdiv_nonneg_iff)
  ultimately show ?thesis using b by (auto simp: tdiv_def)
qed

lemma tdiv_close: "0 < b \<Longrightarrow> \<bar>b * tdiv a b - a\<bar> < b"
proof -
  assume b: "0 < b"
  have "b * (\<bar>a\<bar> div b) = \<bar>a\<bar> - \<bar>a\<bar> mod b" by (simp add: minus_mod_eq_mult_div [symmetric])
  moreover have "0 \<le> \<bar>a\<bar> mod b" "\<bar>a\<bar> mod b < b" using b by simp_all
  ultimately have q: "b * (\<bar>a\<bar> div b) \<le> \<bar>a\<bar>" "\<bar>a\<bar> - b < b * (\<bar>a\<bar> div b)" by linarith+
  show ?thesis
  proof (cases "a < 0")
    case True
    then have "b * tdiv a b = - (b * (\<bar>a\<bar> div b))" using b by (simp add: tdiv_def)
    then show ?thesis using q True by linarith
  next
    case False
    then have "b * tdiv a b = b * (\<bar>a\<bar> div b)" using b by (simp add: tdiv_def)
    then show ?thesis using q False by linarith
  qed
qed

lemma tdiv_sym: "tdiv (- a) b = - tdiv a b" if "0 < b"
  using that by (auto simp: tdiv_def)

end
