(* ===== verification/Projection.thy ===== *)
theory Projection
  imports Signed
begin

text \<open>
  \<open>crates/deskkin-presentation/src/lib.rs\<close>, geometry: angles and world units in fixed point,
  sine and cosine by table, and the projection of billboards and particles into the 320x240
  viewport. The table \<open>SIN_Q15\<close> is generated by the build script and is a parameter; a
  result None is the panic of an overflow check.
\<close>

section \<open>Units\<close>

definition TURN_UNITS :: int where "TURN_UNITS = 65536"
definition VIEWPORT_WIDTH :: int where "VIEWPORT_WIDTH = 320"
definition VIEWPORT_HEIGHT :: int where "VIEWPORT_HEIGHT = 240"
definition FOCAL_LENGTH :: int where "FOCAL_LENGTH = 160"

type_synonym world_unit = int
type_synonym unwrapped_angle = int

definition WorldUnit_ratio :: "int \<Rightarrow> int \<Rightarrow> world_unit" where
  "WorldUnit_ratio numerator denominator = as_i32 (tdiv (numerator * 2 ^ 16) denominator)"

definition WorldUnit_from_int :: "int \<Rightarrow> world_unit" where
  "WorldUnit_from_int value = value * 2 ^ 16"

definition Angle_from_degrees :: "int \<Rightarrow> unwrapped_angle" where
  "Angle_from_degrees degrees = tdiv (degrees * TURN_UNITS) 360"

record cylindrical_pose =
  cp_radius :: world_unit
  cp_azimuth :: unwrapped_angle
  cp_height :: world_unit

record camera_pose =
  cam_radius :: world_unit
  cam_observed_azimuth :: unwrapped_angle
  cam_height :: world_unit

type_synonym billboard_id = u16
type_synonym texture_id = u16

datatype texture_filter = FNearest | FBilinear

record billboard =
  bb_id :: billboard_id
  bb_pose :: cylindrical_pose
  bb_world_height :: world_unit
  bb_texture_id :: texture_id
  bb_filter :: texture_filter

record source_size =
  ss_width :: u16
  ss_height :: u16

record screen_rect =
  sr_x :: int
  sr_y :: int
  sr_width :: int
  sr_height :: int

record projected_billboard =
  pb_id :: billboard_id
  pb_screen_rect :: screen_rect
  pb_depth :: world_unit
  pb_source :: texture_id
  pb_filter :: texture_filter

definition resolved_filter :: "projected_billboard \<Rightarrow> bool \<Rightarrow> texture_filter" where
  "resolved_filter self mip_selected = (if mip_selected then FNearest else pb_filter self)"

datatype projection_cull = InvalidRadius | NearPlane | OutsideViewport | InvalidSource

section \<open>Sine and cosine\<close>

definition signed_turn :: "int \<Rightarrow> int" where
  "signed_turn angle =
     (let wrapped = angle mod TURN_UNITS
      in if wrapped > TURN_UNITS div 2 then wrapped - TURN_UNITS else wrapped)"

definition interpolated_sin_q15 :: "(nat \<Rightarrow> int) \<Rightarrow> int \<Rightarrow> int" where
  "interpolated_sin_q15 SIN_Q15 angle =
     (let wrapped = nat (angle mod TURN_UNITS);
          index = wrapped div 64;
          fraction = int (wrapped mod 64);
          first = SIN_Q15 index;
          second = SIN_Q15 ((index + 1) mod 1024)
      in first + tdiv ((second - first) * fraction + 32) 64)"

definition sin_q15 :: "(nat \<Rightarrow> int) \<Rightarrow> int \<Rightarrow> int" where
  "sin_q15 SIN_Q15 angle =
     (let signed = signed_turn angle
      in if signed < 0 then - interpolated_sin_q15 SIN_Q15 (- signed)
         else interpolated_sin_q15 SIN_Q15 signed)"

definition cos_q15 :: "(nat \<Rightarrow> int) \<Rightarrow> int \<Rightarrow> int" where
  "cos_q15 SIN_Q15 angle = interpolated_sin_q15 SIN_Q15 (TURN_UNITS div 4 + \<bar>signed_turn angle\<bar>)"

section \<open>Projection\<close>

definition project_anchor ::
  "(nat \<Rightarrow> int) \<Rightarrow> cylindrical_pose \<Rightarrow> camera_pose \<Rightarrow> (projection_cull + int \<times> int \<times> int) option" where
  "project_anchor SIN_Q15 pose camera =
     (if cp_radius pose < 0 \<or> cp_radius pose > WorldUnit_ratio 32 10 then Some (Inl InvalidRadius)
      else Option.bind (chk_i64 (cp_azimuth pose - cam_observed_azimuth camera)) (\<lambda>delta.
        let x = as_i32 (cp_radius pose * sin_q15 SIN_Q15 delta div 2 ^ 15);
            radial_depth = as_i32 (cp_radius pose * cos_q15 SIN_Q15 delta div 2 ^ 15);
            depth = sat_i32 (cam_radius camera - radial_depth)
        in if depth < WorldUnit_ratio 1 4 then Some (Inl NearPlane)
           else
             (let center_x = VIEWPORT_WIDTH div 2 + as_i32 (tdiv (x * FOCAL_LENGTH) depth);
                  vertical = sat_i32 (cam_height camera - cp_height pose);
                  center_y = VIEWPORT_HEIGHT div 2 + as_i32 (tdiv (vertical * FOCAL_LENGTH) depth)
              in Some (Inr (center_x, center_y, depth)))))"

definition outside_viewport :: "screen_rect \<Rightarrow> bool" where
  "outside_viewport rect \<longleftrightarrow> sr_x rect \<ge> VIEWPORT_WIDTH \<or> sr_y rect \<ge> VIEWPORT_HEIGHT \<or>
     sat_i32 (sr_x rect + sr_width rect) \<le> 0 \<or> sat_i32 (sr_y rect + sr_height rect) \<le> 0"

definition project_billboard ::
  "(nat \<Rightarrow> int) \<Rightarrow> billboard \<Rightarrow> source_size \<Rightarrow> camera_pose \<Rightarrow>
   (projection_cull + projected_billboard) option" where
  "project_billboard SIN_Q15 billboard source camera =
     (if ss_width source = 0 \<or> ss_height source = 0 then Some (Inl InvalidSource)
      else Option.bind (project_anchor SIN_Q15 (bb_pose billboard) camera) (\<lambda>anchor.
        case anchor of
          Inl e \<Rightarrow> Some (Inl e)
        | Inr (center_x, center_y, depth) \<Rightarrow>
            (let projected_height = as_i32 (tdiv (bb_world_height billboard * FOCAL_LENGTH) depth)
             in if projected_height \<le> 0 then Some (Inl InvalidSource)
                else
                  (let projected_width = as_i32 (tdiv (projected_height * uint (ss_width source)) (uint (ss_height source)));
                       rect = \<lparr>sr_x = center_x - tdiv projected_width 2, sr_y = center_y - tdiv projected_height 2,
                               sr_width = projected_width, sr_height = projected_height\<rparr>
                   in if outside_viewport rect then Some (Inl OutsideViewport)
                      else Some (Inr \<lparr>pb_id = bb_id billboard, pb_screen_rect = rect, pb_depth = depth,
                                      pb_source = bb_texture_id billboard, pb_filter = bb_filter billboard\<rparr>)))))"

record particle_lod =
  pl_texture :: texture_id
  pl_size :: source_size
  pl_max_depth :: world_unit

record particle =
  pt_id :: billboard_id
  pt_pose :: cylindrical_pose
  pt_lods :: "particle_lod list"

definition project_particle ::
  "(nat \<Rightarrow> int) \<Rightarrow> particle \<Rightarrow> camera_pose \<Rightarrow> (projection_cull + projected_billboard) option" where
  "project_particle SIN_Q15 particle camera =
     Option.bind (project_anchor SIN_Q15 (pt_pose particle) camera) (\<lambda>anchor.
       case anchor of
         Inl e \<Rightarrow> Some (Inl e)
       | Inr (x, y, depth) \<Rightarrow>
           (case find (\<lambda>lod. depth \<le> pl_max_depth lod) (pt_lods particle) of
              None \<Rightarrow> Some (Inl OutsideViewport)
            | Some lod \<Rightarrow>
                (if ss_width (pl_size lod) = 0 \<or> ss_height (pl_size lod) = 0 then Some (Inl InvalidSource)
                 else
                   (let rect = \<lparr>sr_x = x - tdiv (uint (ss_width (pl_size lod))) 2,
                                sr_y = y - uint (ss_height (pl_size lod)),
                                sr_width = uint (ss_width (pl_size lod)),
                                sr_height = uint (ss_height (pl_size lod))\<rparr>
                    in if outside_viewport rect then Some (Inl OutsideViewport)
                       else Some (Inr \<lparr>pb_id = pt_id particle, pb_screen_rect = rect, pb_depth = depth,
                                       pb_source = pl_texture lod, pb_filter = FNearest\<rparr>)))))"

section \<open>Lemmas\<close>

text \<open>What the generated table promises: sixteen-bit samples of a sine of amplitude 32767.\<close>

definition sine_table :: "(nat \<Rightarrow> int) \<Rightarrow> bool" where
  "sine_table T \<longleftrightarrow> (\<forall>i < 1024. \<bar>T i\<bar> \<le> 32767)"

lemma interpolation_between:
  fixes a b :: int
  assumes "0 \<le> f" and "f < 64"
  shows "min a b \<le> a + tdiv ((b - a) * f + 32) 64 \<and> a + tdiv ((b - a) * f + 32) 64 \<le> max a b"
proof -
  define n where "n = (b - a) * f + 32"
  have c: "\<bar>64 * tdiv n 64 - n\<bar> < 64" by (rule tdiv_close) simp
  show ?thesis
  proof (cases "a \<le> b")
    case True
    then have "0 \<le> (b - a) * f" "(b - a) * f \<le> (b - a) * 63"
      using assms by (auto intro: mult_nonneg_nonneg mult_left_mono simp del: left_diff_distrib_numeral)
    then have "0 \<le> n" "n \<le> (b - a) * 63 + 32" by (simp_all add: n_def)
    moreover from this have "tdiv n 64 = n div 64" by (simp add: tdiv_nonneg)
    moreover have "0 \<le> n div 64" using \<open>0 \<le> n\<close> by simp
    moreover have "64 * (n div 64) \<le> n" by simp
    ultimately have "0 \<le> tdiv n 64" "64 * tdiv n 64 \<le> 63 * (b - a) + 32" by (simp_all add: algebra_simps)
    moreover from this have "tdiv n 64 \<le> b - a" using True by (smt (verit))
    ultimately show ?thesis using True by (simp add: n_def)
  next
    case False
    then have "(a - b) * f \<le> (a - b) * 63" "0 \<le> (a - b) * f"
      using assms by (auto intro: mult_nonneg_nonneg mult_left_mono simp del: left_diff_distrib_numeral)
    moreover have "n = 32 - (a - b) * f" by (simp add: n_def algebra_simps)
    ultimately have n: "- ((a - b) * 63) + 32 \<le> n" "n \<le> 32" by simp_all
    have "tdiv n 64 \<le> 0"
    proof (cases "0 \<le> n")
      case True
      then show ?thesis using n by (simp add: tdiv_nonneg)
    next
      case False
      then show ?thesis using c by linarith
    qed
    moreover have "b - a \<le> tdiv n 64"
      using n c False by (smt (verit))
    ultimately show ?thesis using False by (simp add: n_def)
  qed
qed

lemma interpolated_sin_bound:
  assumes "sine_table T"
  shows "\<bar>interpolated_sin_q15 T angle\<bar> \<le> 32767"
proof -
  define w where "w = nat (angle mod TURN_UNITS)"
  have "w < 65536" by (simp add: w_def TURN_UNITS_def nat_less_iff)
  then have "w div 64 < 1024" by (simp add: div_less_iff_less_mult)
  then have "\<bar>T (w div 64)\<bar> \<le> 32767" "\<bar>T ((w div 64 + 1) mod 1024)\<bar> \<le> 32767"
    using assms by (simp_all add: sine_table_def)
  moreover define x y where "x = T (w div 64)" and "y = T ((w div 64 + 1) mod 1024)"
  moreover define v where "v = interpolated_sin_q15 T angle"
  moreover have "min x y \<le> v \<and> v \<le> max x y"
    using interpolation_between [of "int (w mod 64)" x y]
    unfolding v_def interpolated_sin_q15_def Let_def w_def [symmetric] x_def y_def by simp
  ultimately show ?thesis by (auto simp: min_def max_def abs_le_iff split: if_splits)
qed

lemma sin_bound: "sine_table T \<Longrightarrow> \<bar>sin_q15 T a\<bar> \<le> 32767"
  using interpolated_sin_bound [of T "signed_turn a"] interpolated_sin_bound [of T "- signed_turn a"]
  by (simp add: sin_q15_def Let_def)

lemma cos_bound: "sine_table T \<Longrightarrow> \<bar>cos_q15 T a\<bar> \<le> 32767"
  by (simp add: cos_q15_def interpolated_sin_bound)

lemma signed_turn_period: "signed_turn (a + TURN_UNITS * k) = signed_turn a"
  by (simp add: signed_turn_def TURN_UNITS_def)

lemma trig_period: "sin_q15 T (a + TURN_UNITS * k) = sin_q15 T a" "cos_q15 T (a + TURN_UNITS * k) = cos_q15 T a"
  by (simp_all only: sin_q15_def cos_q15_def signed_turn_period)

lemma ratios: "WorldUnit_ratio 32 10 = 209715" "WorldUnit_ratio 1 4 = 16384"
  by (simp_all add: WorldUnit_ratio_def tdiv_def as_i32_def)

lemma scaled_bound:
  assumes "0 \<le> r" "r \<le> 209715" "\<bar>s\<bar> \<le> (32767 :: int)"
  shows "\<bar>r * s div 2 ^ 15\<bar> \<le> 209715"
proof -
  have "\<bar>r * s\<bar> \<le> 209715 * 32767" using assms mult_mono [of r 209715 "\<bar>s\<bar>" 32767] by (simp add: abs_mult)
  then show ?thesis by (simp add: abs_le_iff) linarith
qed

lemma anchor_cases:
  assumes "sine_table T" and "project_anchor T pose camera = Some (Inr (cx, cy, d))"
  obtains x v where
    "0 \<le> cp_radius pose" "cp_radius pose \<le> 209715"
    "in_i64 (cp_azimuth pose - cam_observed_azimuth camera)"
    "x = cp_radius pose * sin_q15 T (cp_azimuth pose - cam_observed_azimuth camera) div 2 ^ 15"
    "\<bar>x\<bar> \<le> 209715" "in_i32 v"
    "d = sat_i32 (cam_radius camera - cp_radius pose * cos_q15 T (cp_azimuth pose - cam_observed_azimuth camera) div 2 ^ 15)"
    "16384 \<le> d" "d < 2 ^ 31" "cx = 160 + tdiv (x * 160) d" "\<bar>tdiv (x * 160) d\<bar> \<le> 2049"
    "v = sat_i32 (cam_height camera - cp_height pose)" "cy = 120 + tdiv (v * 160) d"
    "\<bar>tdiv (v * 160) d\<bar> \<le> 20971520"
proof -
  let ?delta = "cp_azimuth pose - cam_observed_azimuth camera"
  let ?x = "cp_radius pose * sin_q15 T ?delta div 2 ^ 15"
  let ?r = "cp_radius pose * cos_q15 T ?delta div 2 ^ 15"
  let ?v = "sat_i32 (cam_height camera - cp_height pose)"
  have rad: "0 \<le> cp_radius pose" "cp_radius pose \<le> 209715"
    and delta: "in_i64 ?delta"
    using assms(2)
    by (auto simp: project_anchor_def ratios chk_i64_None split: if_splits bind_splits option.splits)
      (metis chk_i64_Some)
  have x: "\<bar>?x\<bar> \<le> 209715" and r: "\<bar>?r\<bar> \<le> 209715"
    using scaled_bound rad sin_bound [OF assms(1)] cos_bound [OF assms(1)] by blast+
  have i32: "in_i32 y" if "\<bar>y\<bar> \<le> 30000000" for y using that by (auto simp: in_i32_def)
  have xr: "as_i32 ?x = ?x" "as_i32 ?r = ?r" using x r by (auto intro!: as_i32_id i32)
  let ?d = "sat_i32 (cam_radius camera - ?r)"
  have "project_anchor T pose camera = (if ?d < 16384 then Some (Inl NearPlane)
      else Some (Inr (160 + as_i32 (tdiv (?x * 160) ?d), 120 + as_i32 (tdiv (?v * 160) ?d), ?d)))"
    using rad unfolding project_anchor_def chk_i64_id [OF delta] bind.bind_lunit Let_def xr ratios
      VIEWPORT_WIDTH_def VIEWPORT_HEIGHT_def FOCAL_LENGTH_def by simp
  with assms(2) have d: "d = ?d" "16384 \<le> d"
    and c: "cx = 160 + as_i32 (tdiv (?x * 160) d)" "cy = 120 + as_i32 (tdiv (?v * 160) d)"
    by (auto split: if_splits)
  have "\<bar>?x * 160\<bar> \<le> 2049 * d" using x d(2) by (auto simp: abs_le_iff)
  then have bx: "\<bar>tdiv (?x * 160) d\<bar> \<le> 2049" using d(2) by (intro tdiv_bound) auto
  have "\<bar>?v\<bar> \<le> 2 ^ 31" using in_sat_i32 [of "cam_height camera - cp_height pose"] by (auto simp: in_i32_def)
  then have "\<bar>?v * 160\<bar> \<le> 20971520 * d" using d(2) by (auto simp: abs_le_iff)
  then have bv: "\<bar>tdiv (?v * 160) d\<bar> \<le> 20971520" using d(2) by (intro tdiv_bound) auto
  have "d < 2 ^ 31" using in_sat_i32 [of "cam_radius camera - ?r"] d(1) by (simp add: in_i32_def)
  moreover have "as_i32 (tdiv (?x * 160) d) = tdiv (?x * 160) d"
    using bx by (intro as_i32_id i32) linarith
  moreover have "as_i32 (tdiv (?v * 160) d) = tdiv (?v * 160) d"
    using bv by (intro as_i32_id i32) linarith
  ultimately show ?thesis
    using that [OF rad delta refl x in_sat_i32 d(1) d(2) _ _ bx refl _ bv] c by simp
qed

section \<open>Properties\<close>

text \<open>
  A billboard that is not culled lies at least a quarter unit in front of the camera, has a
  positive height, and its rectangle meets the viewport; its left and top edges fit in 32 bits,
  and its width is that of the source scaled to its height whenever that fits in 32 bits.
\<close>

theorem billboard_projection_visible:
  assumes "sine_table T" and "in_i32 (bb_world_height b)"
    and "project_billboard T b source camera = Some (Inr p)"
  shows "16384 \<le> pb_depth p \<and> 0 < sr_height (pb_screen_rect p) \<and>
     sr_x (pb_screen_rect p) < 320 \<and> sr_y (pb_screen_rect p) < 240 \<and>
     0 < sr_x (pb_screen_rect p) + sr_width (pb_screen_rect p) \<and>
     0 < sr_y (pb_screen_rect p) + sr_height (pb_screen_rect p) \<and>
     in_i32 (sr_x (pb_screen_rect p)) \<and> in_i32 (sr_y (pb_screen_rect p)) \<and>
     sr_height (pb_screen_rect p) = bb_world_height b * 160 div pb_depth p \<and>
     (sr_height (pb_screen_rect p) * uint (ss_width source) div uint (ss_height source) < 2 ^ 31 \<longrightarrow>
       sr_width (pb_screen_rect p) = sr_height (pb_screen_rect p) * uint (ss_width source) div uint (ss_height source))"
proof -
  from assms(3) obtain cx cy d where a: "project_anchor T (bb_pose b) camera = Some (Inr (cx, cy, d))"
    and src: "ss_width source \<noteq> 0" "ss_height source \<noteq> 0"
    by (auto simp: project_billboard_def split: if_splits bind_splits sum.splits)
  let ?h = "as_i32 (tdiv (bb_world_height b * 160) d)"
  let ?w = "as_i32 (tdiv (?h * uint (ss_width source)) (uint (ss_height source)))"
  let ?rect = "\<lparr>sr_x = cx - tdiv ?w 2, sr_y = cy - tdiv ?h 2, sr_width = ?w, sr_height = ?h\<rparr>"
  from assms(3) a src have h: "0 < ?h" and vis: "\<not> outside_viewport ?rect"
    and p: "p = \<lparr>pb_id = bb_id b, pb_screen_rect = ?rect, pb_depth = d,
        pb_source = bb_texture_id b, pb_filter = bb_filter b\<rparr>"
    by (auto simp: project_billboard_def FOCAL_LENGTH_def Let_def split: if_splits)
  obtain d: "16384 \<le> d" "\<bar>cx\<bar> \<le> 2209" "\<bar>cy\<bar> \<le> 20971640"
    using anchor_cases [OF assms(1) a] by (smt (verit))
  have wh: "\<bar>bb_world_height b * 160\<bar> \<le> 20971520 * d"
    using assms(2) d(1) by (auto simp: in_i32_def abs_le_iff)
  then have "\<bar>tdiv (bb_world_height b * 160) d\<bar> \<le> 20971520" using d(1) by (intro tdiv_bound) auto
  then have h_id: "?h = tdiv (bb_world_height b * 160) d"
    by (intro as_i32_id) (auto simp: in_i32_def)
  have pos: "0 \<le> bb_world_height b"
  proof (rule ccontr)
    assume "\<not> 0 \<le> bb_world_height b"
    then have "?h = - (- (bb_world_height b * 160) div d)" using d(1) h_id by (simp add: tdiv_neg)
    moreover have "0 \<le> - (bb_world_height b * 160) div d"
      using d(1) \<open>\<not> 0 \<le> bb_world_height b\<close> by (simp add: pos_imp_zdiv_nonneg_iff)
    ultimately show False using h by linarith
  qed
  have half: "\<bar>tdiv z 2\<bar> \<le> 2 ^ 30" if "in_i32 z" for z
    using that by (intro tdiv_bound) (auto simp: in_i32_def)
  have wi: "in_i32 ?w" and hi: "in_i32 ?h" by simp_all
  have edges: "in_i32 (cx - tdiv ?w 2)" "in_i32 (cy - tdiv ?h 2)"
    using half [OF wi] half [OF hi] d(2,3) by (auto simp: in_i32_def)
  have width: "?w = ?h * uint (ss_width source) div uint (ss_height source)"
    if "?h * uint (ss_width source) div uint (ss_height source) < 2 ^ 31"
  proof -
    have "0 < uint (ss_height source)" using src by (simp add: uint_0_iff order_less_le)
    moreover have "0 \<le> ?h * uint (ss_width source)" using h by simp
    ultimately show ?thesis using that
      by (subst as_i32_id) (auto simp: tdiv_nonneg in_i32_def pos_imp_zdiv_nonneg_iff intro: order_trans [of _ 0])
  qed
  have "?h = bb_world_height b * 160 div d"
    unfolding h_id using pos d(1) by (simp add: tdiv_nonneg)
  then have "sr_height (pb_screen_rect p) = bb_world_height b * 160 div pb_depth p" by (simp add: p)
  moreover have "sr_x ?rect < 320" "sr_y ?rect < 240" "0 < sr_x ?rect + sr_width ?rect"
    "0 < sr_y ?rect + sr_height ?rect"
    using vis unfolding outside_viewport_def VIEWPORT_WIDTH_def VIEWPORT_HEIGHT_def sat_i32_pos
    by linarith+
  moreover have "pb_depth p = d" "pb_screen_rect p = ?rect" by (simp_all add: p)
  moreover have "in_i32 (sr_x ?rect)" "in_i32 (sr_y ?rect)" "0 < sr_height ?rect"
    using edges h by simp_all
  ultimately show ?thesis using d(1) width by simp
qed

theorem billboard_projection_visible_witness:
  "16384 \<le> pb_depth \<lparr>pb_id = 1, pb_screen_rect = \<lparr>sr_x = 107, sr_y = 94, sr_width = 106, sr_height = 53\<rparr>,
       pb_depth = 196610, pb_source = 3, pb_filter = FNearest\<rparr>"
proof -
  define T where "T = (\<lambda>i :: nat. if i = 256 then 32767 else 0 :: int)"
  let ?b = "\<lparr>bb_id = 1, bb_pose = \<lparr>cp_radius = 65536, cp_azimuth = 0, cp_height = 0\<rparr>,
     bb_world_height = 65536, bb_texture_id = 3, bb_filter = FNearest\<rparr>"
  let ?c = "\<lparr>cam_radius = 262144, cam_observed_azimuth = 0, cam_height = 0\<rparr>"
  have trig: "sin_q15 T 0 = 0" "cos_q15 T 0 = 32767"
    by (simp_all add: sin_q15_def cos_q15_def signed_turn_def interpolated_sin_q15_def TURN_UNITS_def tdiv_def T_def)
  have "project_anchor T \<lparr>cp_radius = 65536, cp_azimuth = 0, cp_height = 0\<rparr> ?c = Some (Inr (160, 120, 196610))"
    by (simp add: project_anchor_def ratios chk_i64_def trig tdiv_def as_i32_def sat_i32_def
        VIEWPORT_WIDTH_def VIEWPORT_HEIGHT_def FOCAL_LENGTH_def)
  then have "project_billboard T ?b \<lparr>ss_width = 64, ss_height = 32\<rparr> ?c = Some (Inr \<lparr>pb_id = 1,
      pb_screen_rect = \<lparr>sr_x = 107, sr_y = 94, sr_width = 106, sr_height = 53\<rparr>,
      pb_depth = 196610, pb_source = 3, pb_filter = FNearest\<rparr>)"
    unfolding project_billboard_def billboard.simps source_size.simps Let_def FOCAL_LENGTH_def
    by (simp add: tdiv_def as_i32_def sat_i32_def VIEWPORT_WIDTH_def VIEWPORT_HEIGHT_def outside_viewport_def)
  moreover have "sine_table T" "in_i32 (bb_world_height ?b)" by (simp_all add: sine_table_def in_i32_def T_def)
  ultimately show ?thesis using billboard_projection_visible by blast
qed

text \<open>
  Turning the camera, or the object, by whole turns does not change a projection.
\<close>

theorem anchor_projection_periodic:
  assumes "in_i64 (cp_azimuth pose - cam_observed_azimuth camera)"
    and "in_i64 (cp_azimuth pose + 65536 * j - (cam_observed_azimuth camera + 65536 * k))"
  shows "project_anchor T (pose\<lparr>cp_azimuth := cp_azimuth pose + 65536 * j\<rparr>)
      (camera\<lparr>cam_observed_azimuth := cam_observed_azimuth camera + 65536 * k\<rparr>)
    = project_anchor T pose camera"
proof -
  let ?d = "cp_azimuth pose - cam_observed_azimuth camera"
  have e: "cp_azimuth pose + 65536 * j - (cam_observed_azimuth camera + 65536 * k) = ?d + TURN_UNITS * (j - k)"
    by (simp add: TURN_UNITS_def algebra_simps)
  show ?thesis
    using assms unfolding project_anchor_def
    by (simp add: chk_i64_id e trig_period Let_def cong: if_cong)
qed

theorem anchor_projection_periodic_witness:
  "project_anchor (\<lambda>i. int i mod 7) (\<lparr>cp_radius = 65536, cp_azimuth = 100, cp_height = 0\<rparr>\<lparr>cp_azimuth := 131172\<rparr>)
      (\<lparr>cam_radius = 262144, cam_observed_azimuth = 7, cam_height = 0\<rparr>\<lparr>cam_observed_azimuth := - 65529\<rparr>)
    = project_anchor (\<lambda>i. int i mod 7) \<lparr>cp_radius = 65536, cp_azimuth = 100, cp_height = 0\<rparr>
      \<lparr>cam_radius = 262144, cam_observed_azimuth = 7, cam_height = 0\<rparr>"
  using anchor_projection_periodic [of "\<lparr>cp_radius = 65536, cp_azimuth = 100, cp_height = 0\<rparr>"
      "\<lparr>cam_radius = 262144, cam_observed_azimuth = 7, cam_height = 0\<rparr>" 2 "- 1" "\<lambda>i. int i mod 7"]
  by (simp add: in_i64_def)

end
