(* ===== verification/Camera_Input.thy ===== *)
theory Camera_Input
  imports Projection
begin

text \<open>
  \<open>crates/deskkin-presentation/src/lib.rs\<close>, camera control: the drag of a finger turned into a
  target yaw, and the observed yaw that follows the target at half a turn per second.
\<close>

section \<open>Touch\<close>

record touch_yaw_adapter =
  ty_target :: unwrapped_angle
  ty_last_x :: "int option"

definition touch_yaw_new :: "unwrapped_angle \<Rightarrow> touch_yaw_adapter" where
  "touch_yaw_new target = \<lparr>ty_target = target, ty_last_x = None\<rparr>"

text \<open>None is the panic of the overflow check on the target.\<close>

definition touch_yaw_sample :: "touch_yaw_adapter \<Rightarrow> int \<Rightarrow> bool \<Rightarrow> (unwrapped_angle \<times> touch_yaw_adapter) option" where
  "touch_yaw_sample self x pressed =
     (if \<not> pressed then Some (ty_target self, self\<lparr>ty_last_x := None\<rparr>)
      else
        (let moved = (case ty_last_x self of
                        None \<Rightarrow> Some (ty_target self)
                      | Some previous \<Rightarrow>
                          chk_i64 (ty_target self + tdiv ((x - previous) * TURN_UNITS) VIEWPORT_WIDTH))
         in Option.bind moved (\<lambda>target. Some (target, self\<lparr>ty_target := target, ty_last_x := Some x\<rparr>))))"

fun touch_yaw_run :: "touch_yaw_adapter \<Rightarrow> (int \<times> bool) list \<Rightarrow> touch_yaw_adapter option" where
  "touch_yaw_run self [] = Some self"
| "touch_yaw_run self ((x, pressed) # samples) =
     (case touch_yaw_sample self x pressed of
        None \<Rightarrow> None
      | Some (_, self) \<Rightarrow> touch_yaw_run self samples)"

section \<open>Rate limit\<close>

record rate_limited_observed_yaw =
  ry_observed :: unwrapped_angle

definition yaw_maximum :: "u32 \<Rightarrow> int" where
  "yaw_maximum elapsed_ms = tdiv (sat_i64 (TURN_UNITS div 2 * uint elapsed_ms)) 1000"

definition yaw_advance ::
  "unwrapped_angle \<Rightarrow> u32 \<Rightarrow> rate_limited_observed_yaw \<Rightarrow> unwrapped_angle \<times> rate_limited_observed_yaw" where
  "yaw_advance target elapsed_ms self =
     (let difference = sat_i64 (target - ry_observed self);
          maximum = yaw_maximum elapsed_ms;
          observed = sat_i64 (ry_observed self + max (- maximum) (min difference maximum))
      in (observed, self\<lparr>ry_observed := observed\<rparr>))"

section \<open>Lemmas\<close>

text \<open>The pixels a finger drags while it stays down, and how many moves that takes.\<close>

fun dragged :: "int option \<Rightarrow> (int \<times> bool) list \<Rightarrow> int" where
  "dragged _ [] = 0"
| "dragged last_x ((x, pressed) # samples) =
     (if pressed then (case last_x of None \<Rightarrow> 0 | Some p \<Rightarrow> x - p) + dragged (Some x) samples
      else dragged None samples)"

lemma touch_step_close: "\<bar>5 * tdiv (d * TURN_UNITS) VIEWPORT_WIDTH - 1024 * d\<bar> < 5"
proof -
  have "\<bar>320 * tdiv (d * 65536) 320 - d * 65536\<bar> < 320" by (rule tdiv_close) simp
  then show ?thesis by (simp add: TURN_UNITS_def VIEWPORT_WIDTH_def)
qed

lemma touch_step_bound:
  assumes "in_i16 x" and "in_i16 p"
  shows "\<bar>tdiv ((x - p) * TURN_UNITS) VIEWPORT_WIDTH\<bar> \<le> 2 ^ 24"
  using assms unfolding TURN_UNITS_def VIEWPORT_WIDTH_def
  by (intro tdiv_bound) (auto simp: in_i16_def abs_le_iff)

lemma yaw_maximum_eq: "yaw_maximum ms = 32768 * uint ms div 1000" "0 \<le> yaw_maximum ms"
  "yaw_maximum ms \<le> 2 ^ 38"
proof -
  have "uint ms < 2 ^ 32" "0 \<le> uint ms" using uint_bounded [of ms] by simp_all
  then have m: "sat_i64 (TURN_UNITS div 2 * uint ms) = 32768 * uint ms"
    by (subst sat_i64_id) (auto simp: in_i64_def TURN_UNITS_def intro: order_trans [OF _ uint_ge_0])
  show e: "yaw_maximum ms = 32768 * uint ms div 1000"
    unfolding yaw_maximum_def m using \<open>0 \<le> uint ms\<close> by (simp add: tdiv_nonneg)
  then show "0 \<le> yaw_maximum ms" by (simp add: pos_imp_zdiv_nonneg_iff)
  show "yaw_maximum ms \<le> 2 ^ 38" unfolding e using zdiv_mono1 [of "32768 * uint ms" "32768 * 2 ^ 32" 1000] \<open>uint ms < 2 ^ 32\<close> by simp
qed

lemma yaw_advance_eq:
  assumes "in_i64 target" and "in_i64 (ry_observed y)"
  shows "yaw_advance target ms y =
    (let observed = ry_observed y + max (- yaw_maximum ms) (min (target - ry_observed y) (yaw_maximum ms))
     in (observed, y\<lparr>ry_observed := observed\<rparr>))"
proof -
  let ?m = "yaw_maximum ms" and ?d = "target - ry_observed y"
  have c: "max (- ?m) (min (sat_i64 ?d) ?m) = max (- ?m) (min ?d ?m)"
    using yaw_maximum_eq(2,3) [of ms] by (auto simp: sat_i64_def min_def max_def)
  moreover have "in_i64 (ry_observed y + max (- ?m) (min ?d ?m))"
    using assms yaw_maximum_eq(2) [of ms] by (auto simp: in_i64_def min_def max_def)
  ultimately show ?thesis by (simp add: yaw_advance_def Let_def sat_i64_id)
qed

section \<open>Properties\<close>

text \<open>
  Whatever the touch samples, fewer than \<open>2 ^ 38\<close> of them never overflow the target, and
  the target stays within one unit per sample of the exact angle of the pixels dragged while
  the finger was down: 1024 fifths of a unit per pixel, a full turn per viewport width. A finger
  that is lifted and set down elsewhere does not move it.
\<close>

theorem touch_yaw_tracks_drag:
  assumes "list_all (\<lambda>(x, pressed). in_i16 x) samples" and "length samples < 2 ^ 38"
    and "\<bar>start\<bar> \<le> 2 ^ 62"
  shows "\<exists>y. touch_yaw_run (touch_yaw_new start) samples = Some y \<and>
    \<bar>5 * (ty_target y - start) - 1024 * dragged None samples\<bar> \<le> 4 * int (length samples)"
proof -
  have "\<exists>y. touch_yaw_run z samples = Some y \<and>
      \<bar>5 * (ty_target y - ty_target z) - 1024 * dragged (ty_last_x z) samples\<bar> \<le> 4 * int (length samples)"
    if "\<bar>ty_target z\<bar> + 2 ^ 24 * int (length samples) < 2 ^ 63"
      "pred_option in_i16 (ty_last_x z)" for z
    using that assms(1)
  proof (induction samples arbitrary: z)
    case (Cons s samples)
    obtain x b where s: "s = (x, b)" by (cases s)
    show ?case
    proof (cases "b \<and> ty_last_x z \<noteq> None")
      case False
      define z' where "z' = z\<lparr>ty_last_x := if b then Some x else None\<rparr>"
      have "touch_yaw_sample z x b = Some (ty_target z, z')"
        using False by (auto simp: touch_yaw_sample_def z'_def Let_def)
      moreover have "dragged (ty_last_x z) (s # samples) = dragged (ty_last_x z') samples"
        using False by (auto simp: s z'_def)
      moreover have "ty_target z' = ty_target z" "pred_option in_i16 (ty_last_x z')"
        using Cons.prems(3) by (simp_all add: z'_def s)
      ultimately show ?thesis using Cons.IH [of z'] Cons.prems by (auto simp: s)
    next
      case True
      then obtain p where p: "ty_last_x z = Some p" and b by auto
      let ?m = "tdiv ((x - p) * TURN_UNITS) VIEWPORT_WIDTH"
      define z' where "z' = z\<lparr>ty_target := ty_target z + ?m, ty_last_x := Some x\<rparr>"
      have xp: "in_i16 x" "in_i16 p" using Cons.prems p by (simp_all add: s)
      note mb = touch_step_bound [OF xp] and mc = touch_step_close [of "x - p"]
      have in64: "in_i64 (ty_target z + ?m)" using mb Cons.prems(1) by (auto simp: in_i64_def)
      have "touch_yaw_sample z x b = Some (ty_target z + ?m, z')"
        using \<open>b\<close> by (simp add: touch_yaw_sample_def p chk_i64_id [OF in64] z'_def)
      moreover have "\<bar>ty_target z'\<bar> + 2 ^ 24 * int (length samples) < 2 ^ 63"
        using abs_triangle_ineq [of "ty_target z" ?m] mb Cons.prems(1) by (simp add: z'_def)
      then obtain y where y: "touch_yaw_run z' samples = Some y"
        "\<bar>5 * (ty_target y - ty_target z') - 1024 * dragged (ty_last_x z') samples\<bar> \<le> 4 * int (length samples)"
        using Cons.IH [of z'] Cons.prems(3) xp by (auto simp: z'_def s)
      moreover have "\<bar>5 * (ty_target y - ty_target z) - 1024 * ((x - p) + dragged (Some x) samples)\<bar>
          \<le> 4 * (1 + int (length samples))"
      proof -
        have "ty_target z' = ty_target z + ?m" "ty_last_x z' = Some x" by (simp_all add: z'_def)
        with y(2) mc show ?thesis by (smt (verit))
      qed
      ultimately show ?thesis using \<open>b\<close> by (simp add: s p)
    qed
  qed simp
  from this [of "touch_yaw_new start"] assms(2,3) show ?thesis
    by (simp add: touch_yaw_new_def)
qed

theorem touch_yaw_tracks_drag_witness:
  "\<exists>y. touch_yaw_run (touch_yaw_new 0) [(10, True), (30, True), (0, False), (200, True), (199, True)] = Some y \<and>
    \<bar>5 * ty_target y - 1024 * 19\<bar> \<le> 20"
  using touch_yaw_tracks_drag [of "[(10, True), (30, True), (0, False), (200, True), (199, True)]" 0]
  by (simp add: in_i16_def)

text \<open>
  One step moves the observed yaw towards the target by at most half a turn per second of
  elapsed time, never past it, and onto it when that is within reach.
\<close>

theorem yaw_advance_rate_limited:
  assumes "in_i64 target" and "in_i64 (ry_observed y)"
  shows "(case yaw_advance target ms y of (observed, y') \<Rightarrow>
      ry_observed y' = observed \<and>
      1000 * \<bar>observed - ry_observed y\<bar> \<le> 32768 * uint ms \<and>
      (ry_observed y \<le> target \<longrightarrow> ry_observed y \<le> observed \<and> observed \<le> target) \<and>
      (target \<le> ry_observed y \<longrightarrow> target \<le> observed \<and> observed \<le> ry_observed y) \<and>
      (1000 * \<bar>target - ry_observed y\<bar> \<le> 32768 * uint ms \<longrightarrow> observed = target))"
proof -
  define m where "m = yaw_maximum ms"
  have "m = 32768 * uint ms div 1000" "0 \<le> m" using yaw_maximum_eq [of ms] by (simp_all add: m_def)
  then have m: "0 \<le> m" "1000 * m \<le> 32768 * uint ms" "32768 * uint ms < 1000 * m + 1000" by linarith+
  define v where "v = ry_observed y + max (- m) (min (target - ry_observed y) m)"
  have v: "\<bar>v - ry_observed y\<bar> \<le> m" "ry_observed y \<le> target \<longrightarrow> ry_observed y \<le> v \<and> v \<le> target"
    "target \<le> ry_observed y \<longrightarrow> target \<le> v \<and> v \<le> ry_observed y"
    "\<bar>target - ry_observed y\<bar> \<le> m \<longrightarrow> v = target"
    using m(1) by (auto simp: v_def min_def max_def)
  moreover have "1000 * \<bar>v - ry_observed y\<bar> \<le> 32768 * uint ms" using v(1) m(2) by (smt (verit))
  moreover have "1000 * \<bar>target - ry_observed y\<bar> \<le> 32768 * uint ms \<longrightarrow> v = target"
    using v(4) m(3) by (smt (verit))
  moreover have "yaw_advance target ms y = (v, y\<lparr>ry_observed := v\<rparr>)"
    unfolding yaw_advance_eq [OF assms] by (simp add: m_def v_def Let_def)
  ultimately show ?thesis by simp
qed

theorem yaw_advance_rate_limited_witness:
  "fst (yaw_advance 1000 20 \<lparr>ry_observed = 500\<rparr>) = 1000"
  using yaw_advance_rate_limited [of 1000 "\<lparr>ry_observed = 500\<rparr>" 20]
  by (simp add: in_i64_def split: prod.splits)

text \<open>
  The observed yaw arrives: steps of one elapsed time reach a fixed target as soon as
  their allowances add up to the distance, and stay there.
\<close>

theorem yaw_advance_arrives:
  assumes "in_i64 target" and "in_i64 (ry_observed y)"
    and "\<bar>target - ry_observed y\<bar> \<le> int n * (32768 * uint ms div 1000)"
  shows "ry_observed (((\<lambda>y. snd (yaw_advance target ms y)) ^^ n) y) = target"
  using assms(2,3)
proof (induction n arbitrary: y)
  case 0
  then show ?case by simp
next
  case (Suc n)
  define m where "m = yaw_maximum ms"
  let ?y = "snd (yaw_advance target ms y)"
  have m: "0 \<le> m" "m = 32768 * uint ms div 1000" using yaw_maximum_eq [of ms] by (simp_all add: m_def)
  have o: "ry_observed ?y = ry_observed y + max (- m) (min (target - ry_observed y) m)"
    unfolding yaw_advance_eq [OF assms(1) Suc.prems(1)] m_def by (simp add: Let_def)
  have "in_i64 (ry_observed ?y)"
    using assms(1) Suc.prems(1) m(1) unfolding o by (auto simp: in_i64_def min_def max_def)
  moreover have "\<bar>target - ry_observed y\<bar> \<le> int n * m + m"
    using Suc.prems(2) unfolding m(2) [symmetric] by (simp add: algebra_simps)
  then have "\<bar>target - ry_observed ?y\<bar> \<le> int n * m"
    using m(1) unfolding o by (auto simp: min_def max_def)
  ultimately have "ry_observed (((\<lambda>y. snd (yaw_advance target ms y)) ^^ n) ?y) = target"
    using Suc.IH m(2) by blast
  then show ?case by (simp add: funpow_Suc_right del: funpow.simps)
qed

theorem yaw_advance_arrives_witness:
  "ry_observed (((\<lambda>y. snd (yaw_advance 3000 50 y)) ^^ 2) \<lparr>ry_observed = 0\<rparr>) = 3000"
  using yaw_advance_arrives [of 3000 "\<lparr>ry_observed = 0\<rparr>" 2 50] by (simp add: in_i64_def)

end
