(* ===== verification/Rgb565.thy ===== *)
theory Rgb565
  imports Prelude
begin

text \<open>
  \<open>crates/deskkin-presentation/src/lib.rs\<close>, colours and sampling coordinates: the interpolation
  and blending of packed RGB565 pixels, and the stepper that maps destination pixels to source
  texels without a division per pixel.
\<close>

section \<open>Definitions\<close>

definition lerp_channel :: "u32 \<Rightarrow> u32 \<Rightarrow> u32 \<Rightarrow> u16" where
  "lerp_channel first second fraction =
     ucast (drop_bit 16 (first * (65536 - fraction) + second * fraction + 32768))"

definition interpolate_rgb565 :: "u16 \<Rightarrow> u16 \<Rightarrow> u32 \<Rightarrow> u16" where
  "interpolate_rgb565 first second fraction =
     (let r = lerp_channel (ucast (drop_bit 11 first AND 0x1f)) (ucast (drop_bit 11 second AND 0x1f)) fraction;
          g = lerp_channel (ucast (drop_bit 5 first AND 0x3f)) (ucast (drop_bit 5 second AND 0x3f)) fraction;
          b = lerp_channel (ucast (first AND 0x1f)) (ucast (second AND 0x1f)) fraction
      in push_bit 11 r OR push_bit 5 g OR b)"

definition blend_rgb565 :: "u16 \<Rightarrow> u16 \<Rightarrow> u8 \<Rightarrow> u16" where
  "blend_rgb565 background foreground alpha =
     (let fraction = ucast alpha * 257 in interpolate_rgb565 background foreground fraction)"

record axis_stepper =
  as_coordinate :: u32
  as_step :: u32
  as_remainder :: u32
  as_remainder_step :: u32
  as_denominator :: u32

definition axis_new :: "u16 \<Rightarrow> int \<Rightarrow> int \<Rightarrow> axis_stepper" where
  "axis_new source destination offset =
     (let numerator = push_bit 16 (ucast source :: u64);
          denominator = of_int destination :: u64;
          start = of_int offset * numerator
      in \<lparr>as_coordinate = ucast (start div denominator),
          as_step = ucast (numerator div denominator),
          as_remainder = ucast (start mod denominator),
          as_remainder_step = ucast (numerator mod denominator),
          as_denominator = ucast denominator\<rparr>)"

definition axis_take :: "axis_stepper \<Rightarrow> u32 \<times> axis_stepper" where
  "axis_take self =
     (let coordinate = as_coordinate self;
          next = as_coordinate self + as_step self;
          remainder = as_remainder self + as_remainder_step self
      in (coordinate,
          if remainder \<ge> as_denominator self
          then self\<lparr>as_coordinate := next + 1, as_remainder := remainder - as_denominator self\<rparr>
          else self\<lparr>as_coordinate := next, as_remainder := remainder\<rparr>))"

fun axis_takes :: "nat \<Rightarrow> axis_stepper \<Rightarrow> u32 list \<times> axis_stepper" where
  "axis_takes 0 a = ([], a)"
| "axis_takes (Suc n) a =
     (let (c, a) = axis_take a; (cs, a) = axis_takes n a in (c # cs, a))"

section \<open>Channels\<close>

definition red :: "u16 \<Rightarrow> nat" where "red p = unat (drop_bit 11 p AND 0x1f)"
definition green :: "u16 \<Rightarrow> nat" where "green p = unat (drop_bit 5 p AND 0x3f)"
definition blue :: "u16 \<Rightarrow> nat" where "blue p = unat (p AND 0x1f)"

lemma mask_5_6: "(0x1f :: u16) = mask 5" "(0x3f :: u16) = mask 6"
  by (simp_all add: mask_eq_exp_minus_1)

lemma channel_nat: "red p = unat p div 2048 mod 32" "green p = unat p div 32 mod 64" "blue p = unat p mod 32"
  unfolding red_def green_def blue_def mask_5_6
  by (simp_all add: take_bit_eq_mask [symmetric] unsigned_take_bit_eq unsigned_drop_bit_eq
      take_bit_eq_mod drop_bit_eq_div unat_div unat_mod)

lemma channel_less: "red p < 32" "green p < 64" "blue p < 32"
  by (simp_all add: channel_nat)

lemma pixel_eqI: "red p = red q \<Longrightarrow> green p = green q \<Longrightarrow> blue p = blue q \<Longrightarrow> p = q"
proof -
  have nat: "unat p = 2048 * red p + 32 * green p + blue p" for p :: u16
  proof -
    define n where "n = unat p"
    have "n < 65536" using unsigned_less [of p] by (simp add: n_def)
    then have "n div 2048 < 32" by (simp add: div_less_iff_less_mult)
    then have "red p = n div 32 div 64" by (simp add: channel_nat n_def [symmetric] div_mult2_eq [symmetric])
    moreover have "green p = n div 32 mod 64" "blue p = n mod 32" by (simp_all add: channel_nat n_def)
    moreover have "n = 32 * (n div 32) + n mod 32" "n div 32 = 64 * (n div 32 div 64) + n div 32 mod 64"
      by simp_all
    ultimately show ?thesis unfolding n_def [symmetric] by linarith
  qed
  assume "red p = red q" "green p = green q" "blue p = blue q"
  then have "unat p = unat q" using nat [of p] nat [of q] by simp
  then show "p = q" by (simp add: word_unat_eq_iff)
qed

lemma pack_channels:
  fixes r g b :: u16
  assumes "unat r < 32" and "unat g < 64" and "unat b < 32"
  shows "red (push_bit 11 r OR push_bit 5 g OR b) = unat r"
    and "green (push_bit 11 r OR push_bit 5 g OR b) = unat g"
    and "blue (push_bit 11 r OR push_bit 5 g OR b) = unat b"
proof -
  have low: "bit w n \<Longrightarrow> n < k" if "unat w < 2 ^ k" for w :: u16 and n k
  proof (rule ccontr)
    assume "bit w n" "\<not> n < k"
    then have "bit (unat w) n" by (simp add: bit_unsigned_iff)
    then have "unat w div 2 ^ n \<noteq> 0" unfolding bit_iff_odd by (intro notI) simp
    then have "2 ^ n \<le> unat w" by (simp add: div_eq_0_iff not_less)
    moreover have "(2 :: nat) ^ k \<le> 2 ^ n" using \<open>\<not> n < k\<close> by simp
    ultimately show False using that by simp
  qed
  have hr: "\<not> bit r n" if "5 \<le> n" for n using low [of r 5 n] assms(1) that by auto
  have hg: "\<not> bit g n" if "6 \<le> n" for n using low [of g 6 n] assms(2) that by auto
  have hb: "\<not> bit b n" if "5 \<le> n" for n using low [of b 5 n] assms(3) that by auto
  let ?p = "push_bit 11 r OR push_bit 5 g OR b"
  have "drop_bit 11 ?p AND mask 5 = r"
  proof (rule bit_word_eqI)
    fix n show "bit (drop_bit 11 ?p AND mask 5) n = bit r n"
      by (cases "n < 5") (auto simp: bit_simps hr hg hb)
  qed
  moreover have "drop_bit 5 ?p AND mask 6 = g"
  proof (rule bit_word_eqI)
    fix n show "bit (drop_bit 5 ?p AND mask 6) n = bit g n"
      by (cases "n < 6") (auto simp: bit_simps hg hb)
  qed
  moreover have "?p AND mask 5 = b"
  proof (rule bit_word_eqI)
    fix n show "bit (?p AND mask 5) n = bit b n"
      by (cases "n < 5") (auto simp: bit_simps hb)
  qed
  ultimately have "drop_bit 11 ?p AND 0x1f = r" "drop_bit 5 ?p AND 0x3f = g" "?p AND 0x1f = b"
    by (simp_all only: mask_5_6)
  then show "red ?p = unat r" "green ?p = unat g" "blue ?p = unat b"
    by (simp_all only: red_def green_def blue_def)
qed

section \<open>Interpolation\<close>

lemma lerp_channel_nat:
  fixes a b f :: u32
  assumes "unat a \<le> 63" and "unat b \<le> 63" and "unat f \<le> 65536"
  shows "unat (lerp_channel a b f) = (unat a * (65536 - unat f) + unat b * unat f + 32768) div 65536"
proof -
  have le: "f \<le> 65536" using assms(3) by (simp add: word_le_nat_alt)
  have inv: "unat (65536 - f) = 65536 - unat f" using le by (simp add: unat_sub)
  have "unat a * (65536 - unat f) \<le> 63 * (65536 - unat f)" "unat b * unat f \<le> 63 * unat f"
    using assms by (auto intro: mult_right_mono)
  then have sum: "unat a * (65536 - unat f) + unat b * unat f \<le> 63 * 65536"
    using assms(3) by linarith
  then have "unat (a * (65536 - f) + b * f + 32768) = unat a * (65536 - unat f) + unat b * unat f + 32768"
    by (simp add: unat_word_ariths inv mod_add_eq)
  then show ?thesis using sum
    by (simp add: lerp_channel_def unsigned_ucast_eq unsigned_drop_bit_eq drop_bit_eq_div take_bit_nat_eq_self_iff unat_div)
qed

lemma lerp_between:
  fixes x y f m :: nat
  assumes "f \<le> 65536" and "x \<le> m" and "y \<le> m"
  shows "(x * (65536 - f) + y * f + 32768) div 65536 \<le> m"
proof -
  have "x * (65536 - f) + y * f \<le> m * (65536 - f) + m * f"
    using assms by (intro add_mono mult_right_mono) auto
  also have "\<dots> = m * 65536" using assms(1) by (simp add: add_mult_distrib2 [symmetric])
  finally show ?thesis by linarith
qed

lemma lerp_above:
  fixes x y f m :: nat
  assumes "f \<le> 65536" and "m \<le> x" and "m \<le> y"
  shows "m \<le> (x * (65536 - f) + y * f + 32768) div 65536"
proof -
  have "m * 65536 = m * (65536 - f) + m * f" using assms(1) by (simp add: add_mult_distrib2 [symmetric])
  also have "\<dots> \<le> x * (65536 - f) + y * f"
    using assms by (intro add_mono mult_right_mono) auto
  finally show ?thesis by linarith
qed

definition mixed :: "nat \<Rightarrow> nat \<Rightarrow> nat \<Rightarrow> nat" where
  "mixed x y f = (x * (65536 - f) + y * f + 32768) div 65536"

lemma interpolate_channels:
  assumes "unat f \<le> 65536"
  shows "red (interpolate_rgb565 p q f) = mixed (red p) (red q) (unat f)"
    and "green (interpolate_rgb565 p q f) = mixed (green p) (green q) (unat f)"
    and "blue (interpolate_rgb565 p q f) = mixed (blue p) (blue q) (unat f)"
proof -
  have up: "unat (ucast w :: u32) = unat w" for w :: u16
    using unsigned_less [of w, where ?'a = nat] by (simp add: unsigned_ucast_eq take_bit_nat_eq_self_iff)
  let ?r = "lerp_channel (ucast (drop_bit 11 p AND 0x1f)) (ucast (drop_bit 11 q AND 0x1f)) f"
  let ?g = "lerp_channel (ucast (drop_bit 5 p AND 0x3f)) (ucast (drop_bit 5 q AND 0x3f)) f"
  let ?b = "lerp_channel (ucast (p AND 0x1f)) (ucast (q AND 0x1f)) f"
  have r: "unat ?r = mixed (red p) (red q) (unat f)" and g: "unat ?g = mixed (green p) (green q) (unat f)"
    and b: "unat ?b = mixed (blue p) (blue q) (unat f)"
    using channel_less [of p] channel_less [of q] assms
    by (simp_all add: lerp_channel_nat up red_def green_def blue_def mixed_def)
  have "unat ?r \<le> 31" "unat ?g \<le> 63" "unat ?b \<le> 31"
    unfolding r g b mixed_def using channel_less [of p] channel_less [of q] assms
    by (auto intro!: lerp_between)
  then show "red (interpolate_rgb565 p q f) = mixed (red p) (red q) (unat f)"
    "green (interpolate_rgb565 p q f) = mixed (green p) (green q) (unat f)"
    "blue (interpolate_rgb565 p q f) = mixed (blue p) (blue q) (unat f)"
    unfolding r [symmetric] g [symmetric] b [symmetric] interpolate_rgb565_def Let_def
    by (auto intro!: pack_channels)
qed

lemma mixed_between: "f \<le> 65536 \<Longrightarrow> min x y \<le> mixed x y f \<and> mixed x y f \<le> max x y"
  unfolding mixed_def by (auto intro: lerp_between lerp_above)

lemma mixed_start: "mixed x y 0 = x"
  by (simp add: mixed_def)

lemma mixed_end: "x \<le> 63 \<Longrightarrow> y \<le> 63 \<Longrightarrow> mixed x y 65535 = y"
  by (simp add: mixed_def)

lemma interpolate_ends: "interpolate_rgb565 p q 0 = p" "interpolate_rgb565 p q 65535 = q"
proof -
  show "interpolate_rgb565 p q 0 = p"
    by (rule pixel_eqI) (simp_all add: interpolate_channels mixed_start)
  have "red p \<le> 63" "blue p \<le> 63" "green p \<le> 63" "red q \<le> 63" "blue q \<le> 63" "green q \<le> 63"
    using channel_less [of p] channel_less [of q] by simp_all
  then show "interpolate_rgb565 p q 65535 = q"
    by (intro pixel_eqI) (simp_all add: interpolate_channels mixed_end)
qed

section \<open>The stepper\<close>

definition axis_at :: "nat \<Rightarrow> nat \<Rightarrow> nat \<Rightarrow> axis_stepper \<Rightarrow> bool" where
  "axis_at n d k a \<longleftrightarrow>
     unat (as_coordinate a) = k * n div d \<and> unat (as_remainder a) = k * n mod d \<and>
     unat (as_step a) = n div d \<and> unat (as_remainder_step a) = n mod d \<and> unat (as_denominator a) = d"

lemma axis_quotient_bound:
  fixes k n d :: nat
  assumes "k \<le> d" and "0 < d"
  shows "k * n div d \<le> n"
proof -
  have "k * n div d \<le> d * n div d" using assms by (intro div_le_mono mult_right_mono) auto
  then show ?thesis using assms by simp
qed

lemma axis_new_at:
  assumes "0 < d" and "d < 2 ^ 31" and "k \<le> d"
  shows "axis_at (unat source * 65536) d k (axis_new source (int d) (int k))"
proof -
  let ?n = "unat source * 65536"
  have s: "unat source < 65536" using unsigned_less [of source] by simp
  then have n: "?n < 2 ^ 32" by simp
  have up: "unat (push_bit 16 (ucast source :: u64)) = ?n"
    using s by (simp add: push_bit_eq_mult unat_word_ariths)
  have d: "unat (of_int (int d) :: u64) = d" and k: "unat (of_int (int k) :: u64) = k"
    using assms by (simp_all add: unat_of_nat)
  have "k * ?n < 2 ^ 31 * 2 ^ 32" using assms n by (intro mult_strict_mono) auto
  then have start: "unat (of_int (int k) * push_bit 16 (ucast source :: u64)) = k * ?n"
    by (simp only: unat_word_ariths up k) simp
  have low: "unat (ucast w :: u32) = unat w" if "unat w < 2 ^ 32" for w :: u64
    using that by (simp add: unsigned_ucast_eq take_bit_nat_eq_self_iff)
  have d32: "d < 2 ^ 32" using assms(2) by simp
  have q: "k * ?n div d < 2 ^ 32" "?n div d < 2 ^ 32"
    using axis_quotient_bound [OF assms(3,1)] n div_le_dividend by (blast intro: le_less_trans)+
  have m: "k * ?n mod d < 2 ^ 32" "?n mod d < 2 ^ 32"
    using mod_less_divisor [OF assms(1)] d32 by (blast intro: less_trans)+
  show ?thesis
    unfolding axis_at_def axis_new_def Let_def axis_stepper.simps
    using q m d32 by (simp add: low unat_div unat_mod start up d del: push_bit_eq_mult of_int_of_nat_eq)
qed

lemma carry_step:
  fixes r s q t d :: nat
  assumes "r < d" and "t < d"
  shows "(q * d + r + (s * d + t)) div d = q + s + (if d \<le> r + t then 1 else 0)"
    and "(q * d + r + (s * d + t)) mod d = (if d \<le> r + t then r + t - d else r + t)"
proof -
  have split: "q * d + r + (s * d + t) = (if d \<le> r + t then r + t - d else r + t) +
      d * (q + s + (if d \<le> r + t then 1 else 0))"
    by (simp add: algebra_simps)
  have "(if d \<le> r + t then r + t - d else r + t) < d" using assms by auto
  then show "(q * d + r + (s * d + t)) div d = q + s + (if d \<le> r + t then 1 else 0)"
    "(q * d + r + (s * d + t)) mod d = (if d \<le> r + t then r + t - d else r + t)"
    unfolding split by (simp_all add: div_mult_self2)
qed

lemma axis_take_at:
  assumes "axis_at n d k a" and "0 < d" and "d < 2 ^ 31" and "n < 2 ^ 32" and "Suc k \<le> d"
  shows "unat (fst (axis_take a)) = k * n div d \<and> axis_at n d (Suc k) (snd (axis_take a))"
proof -
  note a = assms(1) [unfolded axis_at_def]
  let ?q = "k * n div d" and ?r = "k * n mod d" and ?s = "n div d" and ?t = "n mod d"
  have rt: "?r < d" "?t < d" using assms(2) by simp_all
  have nxt: "Suc k * n = ?q * d + ?r + (?s * d + ?t)" by simp
  have "unat (as_remainder a + as_remainder_step a) = ?r + ?t"
  proof -
    have "?r + ?t < d + d" using rt by (rule add_strict_mono)
    also have "d + d < 2 ^ 32" using assms(3) by simp
    finally have "?r + ?t < 2 ^ 32" .
    then show ?thesis using a by (subst unat_plus_if_size) (simp add: word_size)
  qed
  moreover have le: "?q + ?s + (if d \<le> ?r + ?t then 1 else 0) \<le> n"
    using axis_quotient_bound [OF assms(5,2), of n] carry_step(1) [OF rt, of ?q ?s] by (simp only: nxt)
  moreover from le have "unat (as_coordinate a + as_step a) = ?q + ?s"
    using a assms(4) by (subst unat_plus_if_size) (simp add: word_size)
  moreover from calculation have "unat (as_coordinate a + as_step a + 1) = ?q + ?s + 1" if "d \<le> ?r + ?t"
    using that assms(4) by (subst unat_plus_if_size) (simp add: word_size)
  ultimately show ?thesis
    using a carry_step [OF rt, of ?q ?s]
    unfolding axis_take_def Let_def axis_at_def nxt
    by (auto simp: word_le_nat_alt unat_sub)
qed

lemma axis_takes_at:
  assumes "axis_at n d k a" and "0 < d" and "d < 2 ^ 31" and "n < 2 ^ 32" and "k + m \<le> d"
  shows "map unat (fst (axis_takes m a)) = map (\<lambda>i. (k + i) * n div d) [0..<m] \<and>
    axis_at n d (k + m) (snd (axis_takes m a))"
  using assms(1,5)
proof (induction m arbitrary: k a)
  case (Suc m)
  obtain c a' where t: "axis_take a = (c, a')" by (cases "axis_take a")
  with axis_take_at [OF Suc.prems(1) assms(2-4)] Suc.prems(2)
  have c: "unat c = k * n div d" "axis_at n d (Suc k) a'" by auto
  obtain cs b where cs: "axis_takes m a' = (cs, b)" by (cases "axis_takes m a'")
  with Suc.IH [OF c(2)] Suc.prems(2)
  have "map unat cs = map (\<lambda>i. (Suc k + i) * n div d) [0..<m]" "axis_at n d (Suc k + m) b" by auto
  then show ?case
    by (simp add: t cs c(1) upt_conv_Cons map_Suc_upt [symmetric] comp_def del: upt_Suc)
qed simp

section \<open>Properties\<close>

text \<open>
  Taking one coordinate per destination pixel, from a clipped start on, yields exactly the
  quotients of the scaled offsets in Q16.16, however the scale factor divides; no addition in
  32 bits overflows, and each coordinate's integer part is a texel of the source.
\<close>

theorem axis_stepper_exact:
  assumes "0 < destination" and "destination < 2 ^ 31" and "offset + m \<le> destination" and "source \<noteq> 0"
  shows "map unat (fst (axis_takes m (axis_new source (int destination) (int offset)))) =
      map (\<lambda>i. (offset + i) * (unat source * 65536) div destination) [0..<m] \<and>
    list_all (\<lambda>c. unat (drop_bit 16 c) < unat source)
      (fst (axis_takes m (axis_new source (int destination) (int offset))))"
proof -
  let ?n = "unat source * 65536"
  let ?cs = "fst (axis_takes m (axis_new source (int destination) (int offset)))"
  have n: "?n < 2 ^ 32" using unsigned_less [of source] by simp
  have at: "axis_at ?n destination offset (axis_new source (int destination) (int offset))"
    using assms by (intro axis_new_at) auto
  have cs: "map unat ?cs = map (\<lambda>i. (offset + i) * ?n div destination) [0..<m]"
    using axis_takes_at [OF at assms(1,2) n assms(3)] by blast
  have "unat c div 65536 < unat source" if "c \<in> set ?cs" for c
  proof -
    have "unat c \<in> set (map unat ?cs)" using that by simp
    then obtain i where i: "i < m" "unat c = (offset + i) * ?n div destination" unfolding cs by auto
    have "0 < ?n" using assms(4) by (simp add: unat_gt_0)
    then have "(offset + i) * ?n < ?n * destination" using i(1) assms(3) by simp
    then have "unat c < ?n" unfolding i(2) by (simp add: div_less_iff_less_mult assms(1))
    then show ?thesis by (simp add: div_less_iff_less_mult)
  qed
  then show ?thesis using cs by (simp add: list_all_iff unsigned_drop_bit_eq drop_bit_eq_div unat_div)
qed

theorem axis_stepper_exact_witness:
  "map unat (fst (axis_takes 3 (axis_new 5 (int 7) (int 2)))) = [2 * 327680 div 7, 3 * 327680 div 7, 4 * 327680 div 7]"
  using axis_stepper_exact [of 7 2 3 5] by (simp add: upt_conv_Cons)

text \<open>
  Blending moves every colour channel from the background's towards the foreground's, never
  past either, and gives exactly the background at alpha 0 and exactly the foreground at 255.
\<close>

theorem blend_between_endpoints:
  "list_all (\<lambda>channel. min (channel bg) (channel fg) \<le> channel (blend_rgb565 bg fg a) \<and>
      channel (blend_rgb565 bg fg a) \<le> max (channel bg) (channel fg)) [red, green, blue] \<and>
   blend_rgb565 bg fg 0 = bg \<and> blend_rgb565 bg fg 255 = fg"
proof -
  have f: "unat (ucast a * 257 :: u32) = unat a * 257" for a :: u8
    using unsigned_less [of a, where ?'a = nat] by (simp add: unat_word_ariths)
  have le: "unat (ucast a * 257 :: u32) \<le> 65536" for a :: u8
    using unsigned_less [of a, where ?'a = nat] by (simp add: f)
  note ch = interpolate_channels [OF le]
  have "blend_rgb565 bg fg 0 = bg" "blend_rgb565 bg fg 255 = fg"
    by (simp_all add: blend_rgb565_def interpolate_ends)
  moreover have "list_all (\<lambda>channel. min (channel bg) (channel fg) \<le> channel (blend_rgb565 bg fg a) \<and>
      channel (blend_rgb565 bg fg a) \<le> max (channel bg) (channel fg)) [red, green, blue]"
    using mixed_between [OF le] by (simp add: blend_rgb565_def Let_def ch)
  ultimately show ?thesis by simp
qed

end
