(* ===== verification/Texture.thy ===== *)
theory Texture
  imports Projection Rgb565
begin

text \<open>
  \<open>crates/deskkin-presentation/src/occlusion.rs\<close> and \<open>lib.rs\<close>, textures: coverage planes as one
  bit or one byte per texel, the masks of opaque 8x8 blocks, their builders, and the validation
  that makes every texel of a region readable. None is the panic of an index out of range.
\<close>

section \<open>Indexing\<close>

definition get :: "'a list \<Rightarrow> nat \<Rightarrow> 'a option" where
  "get xs i = (if i < length xs then Some (xs ! i) else None)"

definition div_ceil :: "nat \<Rightarrow> nat \<Rightarrow> nat" where
  "div_ceil a b = (a + b - 1) div b"

definition TILE :: nat where "TILE = 8"

definition bit_get :: "u8 list \<Rightarrow> nat \<Rightarrow> bool option" where
  "bit_get bits i = map_option (\<lambda>b. b AND push_bit (i mod 8) 1 \<noteq> 0) (get bits (i div 8))"

definition bit_put :: "nat \<Rightarrow> u8 list \<Rightarrow> u8 list" where
  "bit_put i bits = bits[i div 8 := (bits ! (i div 8)) OR push_bit (i mod 8) 1]"

section \<open>Masks\<close>

datatype raster_error =
  InvalidFramebuffer | InvalidTexture | InvalidMask | InvalidOrder | InsufficientScratch

record mask8 =
  mk_size :: source_size
  mk_bits :: "u8 list"

definition mask_bytes_for :: "source_size \<Rightarrow> nat" where
  "mask_bytes_for sz = div_ceil (div_ceil (unat (ss_width sz)) TILE * div_ceil (unat (ss_height sz)) TILE) 8"

definition mask_new :: "source_size \<Rightarrow> u8 list \<Rightarrow> raster_error + mask8" where
  "mask_new sz bits =
     (if ss_width sz = 0 \<or> ss_height sz = 0 \<or> length bits \<noteq> mask_bytes_for sz then Inl InvalidMask
      else Inr \<lparr>mk_size = sz, mk_bits = bits\<rparr>)"

text \<open>\<open>Mask8::covers\<close> over inclusive texel ranges.\<close>

definition mask_covers :: "mask8 \<Rightarrow> nat \<Rightarrow> nat \<Rightarrow> nat \<Rightarrow> nat \<Rightarrow> bool option" where
  "mask_covers self left upper right lower =
     (let stride = div_ceil (unat (ss_width (mk_size self))) TILE;
          cells = [y * stride + x. y \<leftarrow> [upper div TILE..<Suc (lower div TILE)],
                                    x \<leftarrow> [left div TILE..<Suc (right div TILE)]]
      in foldr (\<lambda>cell rest. case bit_get (mk_bits self) cell of
                  None \<Rightarrow> None | Some False \<Rightarrow> Some False | Some True \<Rightarrow> rest) cells (Some True))"

definition block_opaque :: "nat \<Rightarrow> nat \<Rightarrow> u8 list \<Rightarrow> nat \<Rightarrow> nat \<Rightarrow> bool" where
  "block_opaque width height alpha row col =
     list_all (\<lambda>y. list_all (\<lambda>a. a = 255)
         (take (min ((col + 1) * TILE) width - col * TILE) (drop (y * width + col * TILE) alpha)))
       [row * TILE..<min ((row + 1) * TILE) height]"

definition build_opaque_mask :: "source_size \<Rightarrow> u8 list \<Rightarrow> (u8 list, raster_error, unit) mut_call" where
  "build_opaque_mask sz alpha bits =
     (if ss_width sz = 0 \<or> ss_height sz = 0 \<or>
         length alpha \<noteq> unat (ss_width sz) * unat (ss_height sz) \<or>
         length bits \<noteq> mask_bytes_for sz
      then (Inl InvalidMask, bits)
      else
        (let width = unat (ss_width sz); height = unat (ss_height sz)
         in (Inr (),
             fold (\<lambda>(row, col) bits.
                 if block_opaque width height alpha row col
                 then bit_put (row * div_ceil width TILE + col) bits else bits)
               [(row, col). row \<leftarrow> [0..<div_ceil height TILE], col \<leftarrow> [0..<div_ceil width TILE]]
               (replicate (length bits) 0))))"

definition build_cutout_mask :: "u8 list \<Rightarrow> (u8 list, raster_error, unit) mut_call" where
  "build_cutout_mask alpha bits =
     (if length bits \<noteq> div_ceil (length alpha) 8 \<or> list_ex (\<lambda>a. a \<noteq> 0 \<and> a \<noteq> 255) alpha
      then (Inl InvalidMask, bits)
      else (Inr (),
            fold (\<lambda>(index, a) bits. if a = 255 then bit_put index bits else bits)
              (zip [0..<length alpha] alpha) (replicate (length bits) 0)))"

section \<open>Coverage and textures\<close>

datatype coverage = Opaque | Cutout "u8 list" mask8 | Alpha8 "u8 list" mask8

fun coverage_is_alpha :: "coverage \<Rightarrow> bool" where
  "coverage_is_alpha Opaque \<longleftrightarrow> False"
| "coverage_is_alpha _ \<longleftrightarrow> True"

fun coverage_at :: "coverage \<Rightarrow> nat \<Rightarrow> u8 option" where
  "coverage_at Opaque index = Some 255"
| "coverage_at (Cutout bits _) index = map_option (\<lambda>set. if set then 255 else 0) (bit_get bits index)"
| "coverage_at (Alpha8 alpha _) index = get alpha index"

fun coverage_contains :: "coverage \<Rightarrow> nat \<Rightarrow> bool" where
  "coverage_contains Opaque pixels \<longleftrightarrow> True"
| "coverage_contains (Cutout bits _) pixels \<longleftrightarrow> length bits \<ge> div_ceil pixels 8"
| "coverage_contains (Alpha8 alpha _) pixels \<longleftrightarrow> length alpha \<ge> pixels"

fun coverage_alpha :: "coverage \<Rightarrow> u8 list" where
  "coverage_alpha (Alpha8 alpha _) = alpha"
| "coverage_alpha _ = []"

fun coverage_validate :: "coverage \<Rightarrow> source_size \<Rightarrow> raster_error + unit" where
  "coverage_validate Opaque sz = Inr ()"
| "coverage_validate (Cutout _ opaque_blocks) sz =
     (if mk_size opaque_blocks \<noteq> sz then Inl InvalidMask else Inr ())"
| "coverage_validate (Alpha8 _ opaque_blocks) sz =
     (if mk_size opaque_blocks \<noteq> sz then Inl InvalidMask else Inr ())"

record texture =
  tx_size :: source_size
  tx_pixels :: "u16 list"
  tx_coverage :: coverage

record texture_region =
  tr_source_x :: u16
  tr_source_y :: u16
  tr_width :: u16
  tr_height :: u16
  tr_stride :: u16

definition full_texture_region :: "source_size \<Rightarrow> texture_region" where
  "full_texture_region sz =
     \<lparr>tr_source_x = 0, tr_source_y = 0, tr_width = ss_width sz, tr_height = ss_height sz,
      tr_stride = ss_width sz\<rparr>"

definition validate_texture :: "texture \<Rightarrow> texture_region \<Rightarrow> raster_error + unit" where
  "validate_texture texture region =
     (let right = unat (tr_source_x region) + unat (tr_width region);
          bottom = unat (tr_source_y region) + unat (tr_height region);
          required = (bottom - 1) * unat (tr_stride region) + right
      in if tr_width region = 0 \<or> tr_height region = 0 \<or> right > unat (tr_stride region) \<or>
            right > unat (ss_width (tx_size texture)) \<or> bottom > unat (ss_height (tx_size texture)) \<or>
            tr_stride region \<noteq> ss_width (tx_size texture) \<or> length (tx_pixels texture) < required \<or>
            \<not> coverage_contains (tx_coverage texture) required
         then Inl InvalidTexture
         else coverage_validate (tx_coverage texture) (tx_size texture))"

section \<open>Lemmas on bit planes\<close>

lemma bit_get_eq: "bit_get bits i = (if i div 8 < length bits then Some (bit (bits ! (i div 8)) (i mod 8)) else None)"
  by (simp add: bit_get_def get_def bit_byte)

lemma bit_get_zero: "i div 8 < n \<Longrightarrow> bit_get (replicate n 0) i = Some False"
  by (simp add: bit_get_eq)

lemma length_bit_put [simp]: "length (bit_put i bits) = length bits"
  by (simp add: bit_put_def)

lemma bit_get_put:
  assumes "i div 8 < length bits"
  shows "bit_get (bit_put i bits) j = (if i = j then Some True else bit_get bits j)"
proof -
  have same: "i = j \<longleftrightarrow> i div 8 = j div 8 \<and> i mod 8 = j mod 8"
    by (metis div_mult_mod_eq)
  have "bit (b OR 2 ^ k) m \<longleftrightarrow> bit b m \<or> k = m" if "m < 8" for b :: u8 and k m
    using that by (auto simp: bit_or_iff bit_exp_iff)
  then show ?thesis using assms
    by (auto simp: bit_get_eq bit_put_def nth_list_update same)
qed

lemma bit_get_fold:
  assumes "\<forall>c \<in> set cs. f c div 8 < length bits"
  shows "bit_get (fold (\<lambda>c bits. if P c then bit_put (f c) bits else bits) cs bits) j =
     (if \<exists>c \<in> set cs. P c \<and> f c = j then Some True else bit_get bits j) \<and>
    length (fold (\<lambda>c bits. if P c then bit_put (f c) bits else bits) cs bits) = length bits"
  using assms
proof (induction cs arbitrary: bits)
  case (Cons c cs)
  let ?b = "if P c then bit_put (f c) bits else bits"
  have "bit_get ?b j = (if P c \<and> f c = j then Some True else bit_get bits j)"
    using Cons.prems by (cases "f c = j") (auto simp: bit_get_put)
  moreover have len: "length ?b = length bits" by simp
  moreover have "\<forall>c \<in> set cs. f c div 8 < length ?b" using Cons.prems len by simp
  note Cons.IH [OF this]
  ultimately show ?case
    unfolding fold_Cons comp_def set_simps bex_simps len by (simp only: list.set bex_simps) auto
qed simp

lemma div_ceil_less:
  assumes "i < n" and "0 < b"
  shows "i div b < div_ceil n b"
proof -
  obtain m where m: "n = Suc m" using assms(1) by (cases n) auto
  have "i div b \<le> m div b" using assms m by (intro div_le_mono) simp
  then show ?thesis using assms(2) div_add_self2 [of b m] by (simp add: div_ceil_def m)
qed

section \<open>Lemmas on opaque blocks\<close>

lemma covers_foldr:
  "foldr (\<lambda>cell rest. case bit_get bits cell of None \<Rightarrow> None | Some False \<Rightarrow> Some False | Some True \<Rightarrow> rest)
     cells (Some True) = Some True \<longleftrightarrow> (\<forall>cell \<in> set cells. bit_get bits cell = Some True)"
  by (induction cells) (auto split: option.splits bool.splits)

lemma grid_index:
  fixes row col row' col' w :: nat
  assumes "row * w + col = row' * w + col'" and "col < w" and "col' < w"
  shows "row = row' \<and> col = col'"
proof -
  have "row = (row * w + col) div w" using assms(2) by simp
  also have "\<dots> = (row' * w + col') div w" by (simp only: assms(1))
  also have "\<dots> = row'" using assms(3) by simp
  finally have "row = row'" .
  then show ?thesis using assms(1) by simp
qed

lemma block_opaque_texel:
  assumes "block_opaque width height alpha (y div TILE) (x div TILE)"
    and "x < width" and "y < height" and "length alpha = width * height"
  shows "alpha ! (y * width + x) = 255"
proof -
  let ?c = "x div TILE * TILE"
  have x: "?c \<le> x" "x < ?c + TILE" and y: "y div TILE * TILE \<le> y" "y < y div TILE * TILE + TILE"
    by (simp_all add: TILE_def dividend_less_times_div add.commute [of _ 8] dividend_less_div_times mult.commute)
  have "y \<in> set [y div TILE * TILE..<min ((y div TILE + 1) * TILE) height]" using y assms(3) by simp
  then have all: "list_all (\<lambda>a. a = 255)
      (take (min ((x div TILE + 1) * TILE) width - ?c) (drop (y * width + ?c) alpha))"
    using assms(1) unfolding block_opaque_def list_all_iff by blast
  have "y * width + width \<le> height * width"
    using mult_le_mono1 [of "Suc y" height width] assms(3) by simp
  then have len: "y * width + x < length alpha" using assms(2,4) by (simp add: mult.commute)
  have "x < min ((x div TILE + 1) * TILE) width" using x assms(2) by (simp add: add.commute)
  then have lt: "x - ?c < min ((x div TILE + 1) * TILE) width - ?c" using x(1) by (rule diff_less_mono)
  moreover have "x - ?c < length alpha - (y * width + ?c)" using len x(1) by linarith
  then have "x - ?c < length (drop (y * width + ?c) alpha)" by simp
  ultimately have "x - ?c < length (take (min ((x div TILE + 1) * TILE) width - ?c) (drop (y * width + ?c) alpha))"
    unfolding length_take by simp
  then have el: "take (min ((x div TILE + 1) * TILE) width - ?c) (drop (y * width + ?c) alpha) ! (x - ?c) = 255"
    using all nth_mem unfolding list_all_iff by blast
  have "y * width + ?c + (x - ?c) = y * width + x" using x(1) by linarith
  moreover have "y * width + ?c \<le> length alpha" using len x(1) by linarith
  from nth_drop [OF this, of "x - ?c"]
  have "drop (y * width + ?c) alpha ! (x - ?c) = alpha ! (y * width + ?c + (x - ?c))" .
  ultimately show ?thesis using el lt by simp
qed

lemma built_mask_bit:
  assumes "build_opaque_mask sz alpha bits = (Inr (), built)"
    and "bit_get built (row * div_ceil (unat (ss_width sz)) TILE + col) = Some True"
    and "col < div_ceil (unat (ss_width sz)) TILE"
  shows "block_opaque (unat (ss_width sz)) (unat (ss_height sz)) alpha row col"
proof -
  let ?W = "div_ceil (unat (ss_width sz)) TILE" and ?H = "div_ceil (unat (ss_height sz)) TILE"
  let ?P = "\<lambda>c. block_opaque (unat (ss_width sz)) (unat (ss_height sz)) alpha (fst c) (snd c)"
  let ?f = "\<lambda>c. fst c * ?W + snd c"
  let ?cs = "[(row, col). row \<leftarrow> [0..<?H], col \<leftarrow> [0..<?W]]"
  let ?zero = "replicate (length bits) 0 :: u8 list"
  from assms(1) have len: "length bits = div_ceil (?W * ?H) 8"
    and built: "built = fold (\<lambda>c bits. if ?P c then bit_put (?f c) bits else bits) ?cs ?zero"
    by (auto simp: build_opaque_mask_def mask_bytes_for_def Let_def case_prod_beta' split: if_splits)
  have less: "?f c < ?W * ?H" if "c \<in> set ?cs" for c
  proof -
    from that have "fst c < ?H" "snd c < ?W" by auto
    then have "Suc (fst c) * ?W \<le> ?H * ?W" by (intro mult_le_mono1) simp
    then show ?thesis using \<open>snd c < ?W\<close> by (simp add: mult.commute)
  qed
  have r: "\<forall>c \<in> set ?cs. ?f c div 8 < length ?zero"
    using less by (simp add: len div_ceil_less)
  have "bit_get ?zero j \<noteq> Some True" for j
    by (simp add: bit_get_eq)
  then have "\<exists>c \<in> set ?cs. ?P c \<and> ?f c = row * ?W + col"
    using assms(2) bit_get_fold [OF r, of ?P "row * ?W + col", THEN conjunct1] unfolding built
    by (cases "\<exists>c \<in> set ?cs. ?P c \<and> ?f c = row * ?W + col") (simp_all only: if_False simp_thms)
  then obtain c where "c \<in> set ?cs" "?P c" "?f c = row * ?W + col" by blast
  then show ?thesis using grid_index [of "fst c" ?W "snd c" row col] assms(3) by auto
qed

section \<open>Properties\<close>

text \<open>
  Packing a binary alpha plane into bits keeps the coverage of every texel; a plane with any
  other alpha, or a buffer of another size, is refused and the buffer left alone.
\<close>

theorem cutout_mask_keeps_coverage:
  "(case build_cutout_mask alpha bits of
      (Inr _, packed) \<Rightarrow>
        length packed = length bits \<and>
        map (coverage_at (Cutout packed m)) [0..<length alpha] = map (coverage_at (Alpha8 alpha m)) [0..<length alpha]
    | (Inl e, packed) \<Rightarrow>
        packed = bits \<and> e = InvalidMask \<and>
        \<not> (length bits = div_ceil (length alpha) 8 \<and> set alpha \<subseteq> {0, 255}))"
proof (cases "length bits \<noteq> div_ceil (length alpha) 8 \<or> list_ex (\<lambda>a. a \<noteq> 0 \<and> a \<noteq> 255) alpha")
  case True
  then show ?thesis by (auto simp: build_cutout_mask_def list_ex_iff)
next
  case False
  let ?cs = "zip [0..<length alpha] alpha"
  let ?packed = "fold (\<lambda>c bits. if snd c = 255 then bit_put (fst c) bits else bits) ?cs (replicate (length bits) 0)"
  have r: "\<forall>c \<in> set ?cs. fst c div 8 < length (replicate (length bits) (0 :: u8))"
    using False by (auto simp: set_zip div_ceil_less)
  have packed: "build_cutout_mask alpha bits = (Inr (), ?packed)"
    using False by (simp add: build_cutout_mask_def case_prod_beta')
  have "coverage_at (Cutout ?packed m) i = coverage_at (Alpha8 alpha m) i" if "i < length alpha" for i
  proof -
    have "alpha ! i = 0 \<or> alpha ! i = 255"
      using False nth_mem [OF that] by (auto simp: list_ex_iff)
    moreover have "(\<exists>c \<in> set ?cs. snd c = 255 \<and> fst c = i) \<longleftrightarrow> alpha ! i = 255"
      using that by (auto simp: set_zip intro!: exI [of _ i])
    moreover have "bit_get (replicate (length bits) 0) i = Some False"
      using False that by (simp add: bit_get_zero div_ceil_less)
    ultimately show ?thesis
      using bit_get_fold [OF r, of "\<lambda>c. snd c = 255" i] that by (auto simp: get_def)
  qed
  moreover have "length ?packed = length bits" using bit_get_fold [OF r, of "\<lambda>c. snd c = 255" 0] by simp
  ultimately show ?thesis unfolding packed by simp
qed

text \<open>
  A region that validates is readable: every texel of it has a colour and a coverage, at the
  index the rasterizer computes.
\<close>

theorem validated_region_readable:
  assumes "validate_texture texture region = Inr ()"
    and "x < unat (tr_width region)" and "y < unat (tr_height region)"
  shows "(let i = (unat (tr_source_y region) + y) * unat (tr_stride region) + (unat (tr_source_x region) + x)
    in get (tx_pixels texture) i \<noteq> None \<and> coverage_at (tx_coverage texture) i \<noteq> None)"
proof -
  let ?right = "unat (tr_source_x region) + unat (tr_width region)"
  let ?bottom = "unat (tr_source_y region) + unat (tr_height region)"
  let ?i = "(unat (tr_source_y region) + y) * unat (tr_stride region) + (unat (tr_source_x region) + x)"
  let ?required = "(?bottom - 1) * unat (tr_stride region) + ?right"
  from assms(1) have v: "?required \<le> length (tx_pixels texture)" "coverage_contains (tx_coverage texture) ?required"
    by (auto simp: validate_texture_def Let_def split: if_splits)
  have "(unat (tr_source_y region) + y) * unat (tr_stride region) \<le> (?bottom - 1) * unat (tr_stride region)"
    using assms(3) by (intro mult_right_mono) auto
  then have i: "?i < ?required" using assms(2) by linarith
  have "coverage_at (tx_coverage texture) ?i \<noteq> None"
  proof (cases "tx_coverage texture")
    case (Cutout bits m)
    then have "?i div 8 < length bits" using v(2) div_ceil_less [OF i, of 8] by simp
    then show ?thesis using Cutout by (simp add: bit_get_eq)
  qed (use v(2) i in \<open>auto simp: get_def\<close>)
  then show ?thesis using v(1) i by (simp add: get_def Let_def)
qed

theorem validated_region_readable_witness:
  "get [10, 11, 12, 13, 14, 15] ((1 + 0) * 3 + (1 + 1)) \<noteq> (None :: u16 option)"
  using validated_region_readable
    [of "\<lparr>tx_size = \<lparr>ss_width = 3, ss_height = 2\<rparr>, tx_pixels = [10, 11, 12, 13, 14, 15], tx_coverage = Opaque\<rparr>"
        "\<lparr>tr_source_x = 1, tr_source_y = 1, tr_width = 2, tr_height = 1, tr_stride = 3\<rparr>" 1 0]
  by (simp add: validate_texture_def)

text \<open>
  Where the block mask built from an alpha plane claims a rectangle of texels to be covered,
  every texel of it is fully opaque: the occlusion test may skip what lies behind.
\<close>

theorem opaque_mask_sound:
  assumes "build_opaque_mask sz alpha bits = (Inr (), built)" and "mask_new sz built = Inr blocks"
    and "mask_covers blocks left upper right lower = Some True"
    and "right < unat (ss_width sz)" and "lower < unat (ss_height sz)"
  shows "\<forall>x \<in> {left..right}. \<forall>y \<in> {upper..lower}. alpha ! (y * unat (ss_width sz) + x) = 255"
proof (intro ballI)
  fix x y
  assume x: "x \<in> {left..right}" and y: "y \<in> {upper..lower}"
  let ?W = "div_ceil (unat (ss_width sz)) TILE"
  from assms(2) have blocks: "mk_bits blocks = built" "mk_size blocks = sz"
    by (auto simp: mask_new_def split: if_splits)
  have len: "length alpha = unat (ss_width sz) * unat (ss_height sz)"
    using assms(1) by (auto simp: build_opaque_mask_def split: if_splits)
  have "left div TILE \<le> x div TILE" "x div TILE \<le> right div TILE"
    "upper div TILE \<le> y div TILE" "y div TILE \<le> lower div TILE"
    using x y by (auto intro: div_le_mono)
  then have "y div TILE * ?W + x div TILE \<in> set [b * ?W + a. b \<leftarrow> [upper div TILE..<Suc (lower div TILE)],
      a \<leftarrow> [left div TILE..<Suc (right div TILE)]]"
    unfolding set_concat set_map by (intro UN_I image_eqI) auto
  then have "bit_get built (y div TILE * ?W + x div TILE) = Some True"
    using assms(3) unfolding mask_covers_def Let_def blocks covers_foldr by blast
  moreover have "x div TILE < ?W"
    using x assms(4) by (intro div_ceil_less) (auto simp: TILE_def)
  ultimately have "block_opaque (unat (ss_width sz)) (unat (ss_height sz)) alpha (y div TILE) (x div TILE)"
    by (rule built_mask_bit [OF assms(1)])
  then show "alpha ! (y * unat (ss_width sz) + x) = 255"
    using block_opaque_texel len x y assms(4,5) by auto
qed

theorem opaque_mask_sound_witness:
  "replicate 4 255 ! (1 * unat (2 :: u16) + 0) = (255 :: u8)"
proof -
  let ?s = "\<lparr>ss_width = 2, ss_height = 2\<rparr>"
  have b: "build_opaque_mask ?s (replicate 4 255) [0] = (Inr (), [1])"
    by code_simp
  have "mask_new ?s [1] = Inr \<lparr>mk_size = ?s, mk_bits = [1]\<rparr>"
    by (simp add: mask_new_def mask_bytes_for_def div_ceil_def TILE_def)
  moreover have "mask_covers \<lparr>mk_size = ?s, mk_bits = [1]\<rparr> 0 0 1 1 = Some True"
    by (simp add: mask_covers_def div_ceil_def TILE_def bit_get_def get_def)
  ultimately show ?thesis using opaque_mask_sound [OF b] by simp
qed

end
