(* ===== verification/Blit.thy ===== *)
theory Blit
  imports Texture
begin

text \<open>
  \<open>crates/deskkin-presentation/src/blit.rs\<close>: the span writers of the rasterizer. \<open>ScalarBlitter\<close>
  copies or blends source words, \<open>SampledSpan::draw\<close> samples a texture row with or without filter.
  None is a panic: a failed assertion or an index out of range. The targets are little endian, so
  \<open>to_be\<close> and \<open>from_be\<close> swap the bytes. The trait \<open>Blitter\<close> is a record of its three operations,
  its contract the locale \<open>blitter_contract\<close>.
\<close>

section \<open>Slices\<close>

text \<open>\<open>&xs[a..b]\<close> and an operation on \<open>&mut xs[a..b]\<close>.\<close>

definition slice_of :: "nat \<Rightarrow> nat \<Rightarrow> 'a list \<Rightarrow> 'a list option" where
  "slice_of a b xs = (if a \<le> b \<and> b \<le> length xs then Some (take (b - a) (drop a xs)) else None)"

definition update_slice :: "nat \<Rightarrow> nat \<Rightarrow> ('a list \<Rightarrow> 'a list option) \<Rightarrow> 'a list \<Rightarrow> 'a list option" where
  "update_slice a b f xs =
     Option.bind (slice_of a b xs) (\<lambda>s. map_option (\<lambda>s. take a xs @ s @ drop b xs) (f s))"

section \<open>Pixels\<close>

definition to_be :: "u16 \<Rightarrow> u16" where
  "to_be w = push_bit 8 w OR drop_bit 8 w"

definition wire_order :: "bool \<Rightarrow> u16 \<Rightarrow> u16" where
  "wire_order wire c = (if wire then to_be c else c)"

text \<open>How a color with an alpha lands on a destination word.\<close>

definition put_pixel :: "bool \<Rightarrow> u16 \<Rightarrow> u8 \<Rightarrow> u16 \<Rightarrow> u16" where
  "put_pixel wire src a dst =
     (if a = 0 then dst
      else wire_order wire (if a = 255 then src else blend_rgb565 (wire_order wire dst) src a))"

section \<open>Sampled spans\<close>

record column_sample =
  cl_first :: u16
  cl_fraction :: u16

record sampled_span =
  sp_texture :: texture
  sp_columns :: "column_sample list"
  sp_rows :: "nat \<times> nat"
  sp_last_column :: u16
  sp_fraction_y :: u16
  sp_bilinear :: bool

definition has_alpha :: "sampled_span \<Rightarrow> bool" where
  "has_alpha self = coverage_is_alpha (tx_coverage (sp_texture self))"

definition span_indices :: "sampled_span \<Rightarrow> column_sample \<Rightarrow> nat list" where
  "span_indices self column =
     (let x = unat (cl_first column);
          next = unat (min (cl_first column + 1) (sp_last_column self))
      in [fst (sp_rows self) + x, fst (sp_rows self) + next,
          snd (sp_rows self) + x, snd (sp_rows self) + next])"

definition lerp_u32 :: "u32 \<Rightarrow> u32 \<Rightarrow> u16 \<Rightarrow> u32" where
  "lerp_u32 a b f = drop_bit 16 (a * (65536 - ucast f) + b * ucast f + 32768)"

definition interpolate4 :: "u16 \<Rightarrow> u16 \<Rightarrow> u32 list \<Rightarrow> u32" where
  "interpolate4 fx fy v = lerp_u32 (lerp_u32 (v ! 0) (v ! 1) fx) (lerp_u32 (v ! 2) (v ! 3) fx) fy"

definition filtered_component :: "u16 \<Rightarrow> u16 \<Rightarrow> u32 list \<Rightarrow> u16 list \<Rightarrow> u16 \<Rightarrow> nat \<times> u16 \<Rightarrow> u16" where
  "filtered_component fx fy alpha colors background = (\<lambda>(shift, mask).
     (let premultiplied = map2 (\<lambda>c a. ucast (drop_bit shift c AND mask) * a) colors alpha;
          component = min ((interpolate4 fx fy premultiplied +
                            ucast (drop_bit shift background AND mask) * (255 - interpolate4 fx fy alpha) + 127) div 255)
                          (ucast mask)
      in push_bit shift (ucast component)))"

text \<open>One turn of the loop in \<open>draw_filtered_alpha\<close>.\<close>

definition filtered_alpha_pixel :: "sampled_span \<Rightarrow> bool \<Rightarrow> u16 \<Rightarrow> column_sample \<Rightarrow> u16 option" where
  "filtered_alpha_pixel self wire dst column =
     (let indices = span_indices self column
      in Option.bind (those (map (\<lambda>i. map_option ucast (coverage_at (tx_coverage (sp_texture self)) i)) indices)) (\<lambda>alpha.
         if alpha = [0, 0, 0, 0] then Some dst
         else Option.bind (those (map (get (tx_pixels (sp_texture self))) indices)) (\<lambda>colors.
           Some (wire_order wire
             (foldl (\<lambda>color sm. color OR filtered_component (cl_fraction column) (sp_fraction_y self) alpha colors
                                    (wire_order wire dst) sm)
                0 [(11, 31), (5, 63), (0, 31)])))))"

text \<open>One turn of the loop in \<open>draw_kind\<close>.\<close>

definition kind_pixel :: "bool \<Rightarrow> bool \<Rightarrow> sampled_span \<Rightarrow> bool \<Rightarrow> u16 \<Rightarrow> column_sample \<Rightarrow> u16 option" where
  "kind_pixel bilinear alpha self wire dst column =
     (let indices = span_indices self column;
          pixel = get (tx_pixels (sp_texture self))
      in Option.bind (if alpha then coverage_at (tx_coverage (sp_texture self)) (indices ! 0) else Some 255) (\<lambda>a.
         if a = 0 then Some dst
         else Option.bind
           (if bilinear
            then Option.bind (those (map pixel indices)) (\<lambda>c.
              Some (interpolate_rgb565 (interpolate_rgb565 (c ! 0) (c ! 1) (ucast (cl_fraction column)))
                      (interpolate_rgb565 (c ! 2) (c ! 3) (ucast (cl_fraction column)))
                      (ucast (sp_fraction_y self))))
            else pixel (indices ! 0))
           (\<lambda>color. Some (put_pixel wire color a dst))))"

definition sample_pixel :: "sampled_span \<Rightarrow> bool \<Rightarrow> u16 \<Rightarrow> column_sample \<Rightarrow> u16 option" where
  "sample_pixel self =
     (if sp_bilinear self \<and> has_alpha self then filtered_alpha_pixel self
      else kind_pixel (sp_bilinear self) (has_alpha self) self)"

definition span_draw :: "u16 list \<Rightarrow> sampled_span \<Rightarrow> bool \<Rightarrow> u16 list option" where
  "span_draw destination self wire =
     (if length destination \<noteq> length (sp_columns self) then None
      else those (map2 (sample_pixel self wire) destination (sp_columns self)))"

section \<open>The scalar blitter\<close>

definition scalar_cutout :: "u16 list \<Rightarrow> u16 list \<Rightarrow> nat \<Rightarrow> u8 list \<Rightarrow> bool \<Rightarrow> u16 list option" where
  "scalar_cutout destination source offset bits wire =
     (let end = offset + length destination
      in if div_ceil end 8 > length bits then None
         else Option.bind (slice_of offset end source) (\<lambda>source.
           those (map (\<lambda>(bit, dst, src). map_option (\<lambda>set. if set then wire_order wire src else dst) (bit_get bits bit))
                   (enumerate offset (zip destination source)))))"

definition scalar_blit :: "u16 list \<Rightarrow> u16 list \<Rightarrow> u8 list option \<Rightarrow> bool \<Rightarrow> u16 list option" where
  "scalar_blit destination source alpha wire =
     (if length destination \<noteq> length source \<or> \<not> pred_option (\<lambda>a. length a = length source) alpha then None
      else Some (map (\<lambda>(index, dst, src).
              put_pixel wire src (case alpha of None \<Rightarrow> 255 | Some a \<Rightarrow> a ! index) dst)
            (enumerate 0 (zip destination source))))"

definition scalar_blit_from ::
  "u16 list \<Rightarrow> u16 list \<Rightarrow> nat \<Rightarrow> u8 list option \<Rightarrow> bool \<Rightarrow> u16 list option" where
  "scalar_blit_from destination source offset alpha wire =
     (let end = offset + length destination
      in Option.bind (slice_of offset end source) (\<lambda>source.
         Option.bind (case alpha of None \<Rightarrow> Some None | Some a \<Rightarrow> map_option Some (slice_of offset end a)) (\<lambda>alpha.
           scalar_blit destination source alpha wire)))"

record blitter =
  bl_cutout :: "u16 list \<Rightarrow> u16 list \<Rightarrow> nat \<Rightarrow> u8 list \<Rightarrow> bool \<Rightarrow> u16 list option"
  bl_sample :: "u16 list \<Rightarrow> sampled_span \<Rightarrow> bool \<Rightarrow> u16 list option"
  bl_blit_from :: "u16 list \<Rightarrow> u16 list \<Rightarrow> nat \<Rightarrow> u8 list option \<Rightarrow> bool \<Rightarrow> u16 list option"

definition ScalarBlitter :: blitter where
  "ScalarBlitter = \<lparr>bl_cutout = scalar_cutout, bl_sample = span_draw, bl_blit_from = scalar_blit_from\<rparr>"

section \<open>Lemmas on slices\<close>

lemma those_map_Some: "those (map (\<lambda>x. Some (f x)) xs) = Some (map f xs)"
  by (induction xs) simp_all

lemma those_eq_Some: "those xs = Some ys \<longleftrightarrow> xs = map Some ys"
proof (induction xs arbitrary: ys)
  case (Cons x xs)
  then show ?case by (cases x; cases ys) (auto split: option.splits)
qed auto

lemma those_upt:
  assumes "length xs = n" and "\<And>k. k < n \<Longrightarrow> xs ! k = Some (f k)"
  shows "those xs = Some (map f [0..<n])"
  unfolding those_eq_Some using assms by (auto intro: nth_equalityI)

lemma slice_of_Some:
  "b \<le> length xs \<Longrightarrow> a \<le> b \<Longrightarrow> slice_of a b xs = Some (map (\<lambda>k. xs ! (a + k)) [0..<b - a])"
  unfolding slice_of_def by (auto intro!: nth_equalityI)

section \<open>The contract of a blitter\<close>

text \<open>
  On ranges that exist, each operation writes every destination word from its own source texel,
  as the scalar blitter does.
\<close>

locale blitter_contract =
  fixes b :: blitter
  assumes cutout: "offset + length dst \<le> length source \<Longrightarrow> div_ceil (offset + length dst) 8 \<le> length bits \<Longrightarrow>
      bl_cutout b dst source offset bits wire =
        Some (map (\<lambda>k. put_pixel wire (source ! (offset + k)) (the (coverage_at (Cutout bits m) (offset + k))) (dst ! k))
          [0..<length dst])"
    and blit_from: "offset + length dst \<le> length source \<Longrightarrow> pred_option (\<lambda>a. offset + length dst \<le> length a) alpha \<Longrightarrow>
      bl_blit_from b dst source offset alpha wire =
        Some (map (\<lambda>k. put_pixel wire (source ! (offset + k)) (case alpha of None \<Rightarrow> 255 | Some a \<Rightarrow> a ! (offset + k)) (dst ! k))
          [0..<length dst])"
    and sample: "length dst = length (sp_columns span) \<Longrightarrow>
      list_all (\<lambda>(d, c). sample_pixel span wire d c \<noteq> None) (zip dst (sp_columns span)) \<Longrightarrow>
      bl_sample b dst span wire = Some (map2 (\<lambda>d c. the (sample_pixel span wire d c)) dst (sp_columns span))"

lemma bit_get_less: "i < n \<Longrightarrow> div_ceil n 8 \<le> length bits \<Longrightarrow> bit_get bits i \<noteq> None"
  using div_ceil_less [of i n 8] by (simp add: bit_get_eq)

lemma cutout_texel:
  "i < n \<Longrightarrow> div_ceil n 8 \<le> length bits \<Longrightarrow>
   map_option (\<lambda>set. if set then wire_order wire src else dst) (bit_get bits i) =
     Some (put_pixel wire src (the (coverage_at (Cutout bits m) i)) dst)"
  by (cases "bit_get bits i") (simp_all add: bit_get_less put_pixel_def)

interpretation scalar: blitter_contract ScalarBlitter
proof unfold_locales
  fix offset wire and dst source :: "u16 list" and bits :: "u8 list" and m
  assume src: "offset + length dst \<le> length source" and bits: "div_ceil (offset + length dst) 8 \<le> length bits"
  show "bl_cutout ScalarBlitter dst source offset bits wire =
        Some (map (\<lambda>k. put_pixel wire (source ! (offset + k)) (the (coverage_at (Cutout bits m) (offset + k))) (dst ! k))
          [0..<length dst])"
    using src bits
    by (simp add: ScalarBlitter_def scalar_cutout_def slice_of_Some Let_def nth_enumerate_eq
        del: coverage_at.simps map_option_eq_Some)
      (rule those_upt, simp, simp add: nth_enumerate_eq cutout_texel [OF _ bits] del: coverage_at.simps map_option_eq_Some)
next
  fix offset wire and dst source :: "u16 list" and alpha :: "u8 list option"
  assume src: "offset + length dst \<le> length source" and a: "pred_option (\<lambda>a. offset + length dst \<le> length a) alpha"
  show "bl_blit_from ScalarBlitter dst source offset alpha wire =
        Some (map (\<lambda>k. put_pixel wire (source ! (offset + k)) (case alpha of None \<Rightarrow> 255 | Some a \<Rightarrow> a ! (offset + k)) (dst ! k))
          [0..<length dst])"
    using src a
    by (cases alpha)
      (auto simp: ScalarBlitter_def scalar_blit_from_def scalar_blit_def slice_of_Some Let_def nth_enumerate_eq
        intro!: nth_equalityI)
next
  fix span wire and dst :: "u16 list"
  assume "length dst = length (sp_columns span)"
    and "list_all (\<lambda>(d, c). sample_pixel span wire d c \<noteq> None) (zip dst (sp_columns span))"
  then show "bl_sample ScalarBlitter dst span wire = Some (map2 (\<lambda>d c. the (sample_pixel span wire d c)) dst (sp_columns span))"
    by (auto simp: ScalarBlitter_def span_draw_def those_eq_Some list_all_iff)
qed

end
