(* ===== verification/Occlusion.thy ===== *)
theory Occlusion
  imports Blit
begin

text \<open>
  \<open>crates/deskkin-presentation/src/occlusion.rs\<close>: the occlusion pass. \<open>prepare\<close> walks the boards
  from the nearest to the farthest and notes for every screen tile the first board that covers it
  opaquely; the spans of a row that a board may still show follow from these cutoffs. None is the
  panic of an index out of range.
\<close>

section \<open>Boards\<close>

record scene_billboard =
  sb_projected :: projected_billboard
  sb_texture :: texture
  sb_region :: texture_region

definition scene_billboard_new ::
  "projected_billboard \<Rightarrow> texture \<Rightarrow> texture_region \<Rightarrow> raster_error + scene_billboard" where
  "scene_billboard_new projected texture region =
     (case validate_texture texture region of
        Inl e \<Rightarrow> Inl e
      | Inr _ \<Rightarrow>
          if sr_width (pb_screen_rect projected) \<le> 0 \<or> sr_height (pb_screen_rect projected) \<le> 0
          then Inl InvalidTexture
          else Inr \<lparr>sb_projected = projected, sb_texture = texture, sb_region = region\<rparr>)"

abbreviation board_rect :: "scene_billboard \<Rightarrow> screen_rect" where
  "board_rect b \<equiv> pb_screen_rect (sb_projected b)"

section \<open>Tiles\<close>

datatype screen_tile = Eight | Sixteen

fun tile_pixels :: "screen_tile \<Rightarrow> nat" where
  "tile_pixels Eight = 8"
| "tile_pixels Sixteen = 16"

definition tile_columns :: "screen_tile \<Rightarrow> nat" where
  "tile_columns t = nat VIEWPORT_WIDTH div tile_pixels t"

definition tile_cells :: "screen_tile \<Rightarrow> nat" where
  "tile_cells t = (nat VIEWPORT_WIDTH div tile_pixels t) * (nat VIEWPORT_HEIGHT div tile_pixels t)"

record occlusion =
  oc_tile :: screen_tile
  oc_cutoffs :: "u16 list"

definition occlusion_new :: "screen_tile \<Rightarrow> u16 list \<Rightarrow> raster_error + occlusion" where
  "occlusion_new tile cutoffs =
     (if length cutoffs \<noteq> tile_cells tile then Inl InvalidMask
      else Inr \<lparr>oc_tile = tile, oc_cutoffs = cutoffs\<rparr>)"

definition row_end :: "screen_tile \<Rightarrow> nat \<Rightarrow> nat \<Rightarrow> nat" where
  "row_end tile y end = min ((y div tile_pixels tile + 1) * tile_pixels tile) end"

section \<open>Preparation\<close>

record raster_stats =
  rs_nearest_samples :: u32
  rs_bilinear_samples :: u32

record scene_stats =
  st_raster :: raster_stats
  st_skipped_background_pixels :: u32
  st_opaque_tiles :: u32
  st_coverage_tests :: u32
  st_scaler_preparations :: u32

definition scene_stats_default :: scene_stats where
  "scene_stats_default =
     \<lparr>st_raster = \<lparr>rs_nearest_samples = 0, rs_bilinear_samples = 0\<rparr>, st_skipped_background_pixels = 0,
      st_opaque_tiles = 0, st_coverage_tests = 0, st_scaler_preparations = 0\<rparr>"

definition clamp :: "int \<Rightarrow> int \<Rightarrow> int \<Rightarrow> int" where
  "clamp lo hi x = max lo (min x hi)"

definition as_usize :: "int \<Rightarrow> nat" where
  "as_usize x = nat (x mod 2 ^ 64)"

definition source_span :: "nat \<Rightarrow> nat \<Rightarrow> int \<Rightarrow> int \<Rightarrow> u16 \<Rightarrow> u16 \<Rightarrow> nat \<times> nat" where
  "source_span pixel tile origin destination offset source =
     (let map_pixel = (\<lambda>pixel. unat offset + as_usize (tdiv ((int pixel - origin) * uint source) destination))
      in (map_pixel pixel, map_pixel (pixel + tile - 1)))"

text \<open>The outer option is the \<open>continue\<close> of the loop: a board that hides unseen.\<close>

fun occluder_mask :: "scene_billboard \<Rightarrow> mask8 option option" where
  "occluder_mask board =
     (case tx_coverage (sb_texture board) of
        Opaque \<Rightarrow> Some None
      | Cutout _ opaque_blocks \<Rightarrow>
          if pb_filter (sb_projected board) = FNearest \<and> list_ex (\<lambda>bits. bits \<noteq> 0) (mk_bits opaque_blocks)
          then Some (Some opaque_blocks) else None
      | Alpha8 _ opaque_blocks \<Rightarrow>
          if pb_filter (sb_projected board) = FNearest \<and> list_ex (\<lambda>bits. bits \<noteq> 0) (mk_bits opaque_blocks)
          then Some (Some opaque_blocks) else None)"

text \<open>The tiles that lie entirely within a rectangle, and those it touches: left, top, right, bottom.\<close>

definition inner_tiles :: "screen_tile \<Rightarrow> screen_rect \<Rightarrow> nat \<times> nat \<times> nat \<times> nat" where
  "inner_tiles t r =
     (div_ceil (nat (clamp 0 VIEWPORT_WIDTH (sr_x r))) (tile_pixels t),
      div_ceil (nat (clamp 0 VIEWPORT_HEIGHT (sr_y r))) (tile_pixels t),
      nat (clamp 0 VIEWPORT_WIDTH (sat_i32 (sr_x r + sr_width r))) div tile_pixels t,
      nat (clamp 0 VIEWPORT_HEIGHT (sat_i32 (sr_y r + sr_height r))) div tile_pixels t)"

definition touched_tiles :: "screen_tile \<Rightarrow> screen_rect \<Rightarrow> nat \<times> nat \<times> nat \<times> nat" where
  "touched_tiles t r =
     (nat (clamp 0 VIEWPORT_WIDTH (sr_x r)) div tile_pixels t,
      nat (clamp 0 VIEWPORT_HEIGHT (sr_y r)) div tile_pixels t,
      div_ceil (nat (clamp 0 VIEWPORT_WIDTH (sat_i32 (sr_x r + sr_width r)))) (tile_pixels t),
      div_ceil (nat (clamp 0 VIEWPORT_HEIGHT (sat_i32 (sr_y r + sr_height r)))) (tile_pixels t))"

fun fold_option :: "('a \<Rightarrow> 's \<Rightarrow> 's option) \<Rightarrow> 'a list \<Rightarrow> 's \<Rightarrow> 's option" where
  "fold_option f [] s = Some s"
| "fold_option f (x # xs) s = Option.bind (f x s) (fold_option f xs)"

definition prepare_cell ::
  "screen_tile \<Rightarrow> nat \<Rightarrow> scene_billboard \<Rightarrow> mask8 option \<Rightarrow> nat \<times> nat \<Rightarrow> u16 list \<times> scene_stats \<Rightarrow>
   (u16 list \<times> scene_stats) option" where
  "prepare_cell t index board blocks = (\<lambda>(y, x) (cutoffs, stats).
     (let tile = tile_pixels t;
          r = board_rect board;
          region = sb_region board;
          horizontal = source_span (x * tile) tile (sr_x r) (sr_width r) (tr_source_x region) (tr_width region);
          vertical = source_span (y * tile) tile (sr_y r) (sr_height r) (tr_source_y region) (tr_height region)
      in Option.bind (get cutoffs (y * tile_columns t + x)) (\<lambda>cutoff.
         if cutoff \<noteq> 0 then Some (cutoffs, stats)
         else
           (let stats = stats\<lparr>st_coverage_tests := saturating_add (st_coverage_tests stats) 1\<rparr>
            in Option.bind (case blocks of None \<Rightarrow> Some True
                            | Some m \<Rightarrow> mask_covers m (fst horizontal) (fst vertical) (snd horizontal) (snd vertical))
                 (\<lambda>covered.
                   Some (if covered
                         then (cutoffs[y * tile_columns t + x := of_nat (index + 1)],
                               stats\<lparr>st_opaque_tiles := st_opaque_tiles stats + 1,
                                     st_skipped_background_pixels :=
                                       st_skipped_background_pixels stats + of_nat (tile * tile)\<rparr>)
                         else (cutoffs, stats)))))))"

definition prepare_board ::
  "screen_tile \<Rightarrow> nat \<times> scene_billboard \<Rightarrow> u16 list \<times> scene_stats \<Rightarrow> (u16 list \<times> scene_stats) option" where
  "prepare_board t = (\<lambda>(index, board) state.
     (case occluder_mask board of
        None \<Rightarrow> Some state
      | Some blocks \<Rightarrow>
          (let (left, top, right, bottom) = inner_tiles t (board_rect board)
           in if left \<ge> right \<or> top \<ge> bottom then Some state
              else fold_option (prepare_cell t index board blocks)
                     [(y, x). y \<leftarrow> [top..<bottom], x \<leftarrow> [left..<right]] state)))"

definition prepare ::
  "occlusion \<Rightarrow> scene_billboard list \<Rightarrow> scene_stats \<Rightarrow> (occlusion \<times> scene_stats) option" where
  "prepare self boards stats =
     map_option (\<lambda>(cutoffs, stats). (self\<lparr>oc_cutoffs := cutoffs\<rparr>, stats))
       (fold_option (prepare_board (oc_tile self)) (rev (enumerate 0 boards))
         (replicate (length (oc_cutoffs self)) 0, stats))"

section \<open>Visible spans\<close>

definition cutoff_at :: "occlusion \<Rightarrow> nat \<Rightarrow> nat \<Rightarrow> u16 option" where
  "cutoff_at self y x =
     get (oc_cutoffs self)
       (y div tile_pixels (oc_tile self) * tile_columns (oc_tile self) + x div tile_pixels (oc_tile self))"

definition hidden_at :: "occlusion \<Rightarrow> nat \<Rightarrow> nat \<Rightarrow> nat \<Rightarrow> bool option" where
  "hidden_at self index y x = map_option (\<lambda>c. unat c > index + 1) (cutoff_at self y x)"

lemma tile_pixels_pos [simp]: "0 < tile_pixels t" "tile_pixels t \<noteq> 0"
  by (cases t; simp)+

lemma next_tile: "x < (x div tile_pixels t + 1) * tile_pixels t"
  using dividend_less_div_times [of "tile_pixels t" x] by simp

lemma next_tile_decreases: "x < e \<Longrightarrow> e - min (tile_pixels t + x div tile_pixels t * tile_pixels t) e < e - x"
  using next_tile [of x t] by (simp add: min_def) linarith

text \<open>\<open>while x < end && p(x)\<close>, a tile at a time.\<close>

function scan_tiles :: "screen_tile \<Rightarrow> (nat \<Rightarrow> bool option) \<Rightarrow> nat \<Rightarrow> nat \<Rightarrow> nat option" where
  "scan_tiles t p x end =
     (if x < end then
        (case p x of
           None \<Rightarrow> None
         | Some b \<Rightarrow>
             if b then scan_tiles t p (min ((x div tile_pixels t + 1) * tile_pixels t) end) end
             else Some x)
      else Some x)"
  by pat_completeness auto
termination
  by (relation "measure (\<lambda>(t, p, x, end). end - x)") (simp_all add: next_tile_decreases)

declare scan_tiles.simps [simp del]

definition visible_span :: "occlusion \<Rightarrow> nat \<Rightarrow> nat \<Rightarrow> nat \<Rightarrow> nat \<Rightarrow> (nat \<times> nat) option option" where
  "visible_span self y x end index =
     Option.bind (scan_tiles (oc_tile self) (hidden_at self index y) x end) (\<lambda>start.
       if start = end then Some None
       else map_option (\<lambda>stop. Some (start, stop))
              (scan_tiles (oc_tile self) (\<lambda>x. map_option Not (hidden_at self index y x)) start end))"

function has_visible_span :: "occlusion \<Rightarrow> nat \<Rightarrow> nat \<Rightarrow> nat \<Rightarrow> nat \<Rightarrow> nat \<Rightarrow> bool option" where
  "has_visible_span self row rows_end left right index =
     (if row < rows_end then
        Option.bind (visible_span self row left right index) (\<lambda>span.
          if span \<noteq> None then Some True
          else has_visible_span self (row_end (oc_tile self) row rows_end) rows_end left right index)
      else Some False)"
  by pat_completeness auto
termination
  by (relation "measure (\<lambda>(self, row, rows_end, left, right, index). rows_end - row)")
    (simp_all add: row_end_def next_tile_decreases)

declare has_visible_span.simps [simp del]

fun any_option :: "('a \<Rightarrow> bool option) \<Rightarrow> 'a list \<Rightarrow> bool option" where
  "any_option p [] = Some False"
| "any_option p (x # xs) = Option.bind (p x) (\<lambda>b. if b then Some True else any_option p xs)"

definition hides :: "occlusion \<Rightarrow> screen_rect \<Rightarrow> nat \<Rightarrow> bool option" where
  "hides self r index =
     (let (left, top, right, bottom) = touched_tiles (oc_tile self) r
      in any_option (\<lambda>y. any_option (\<lambda>x.
             map_option (\<lambda>c. unat c > index + 1) (get (oc_cutoffs self) (y * tile_columns (oc_tile self) + x)))
           [left..<right]) [top..<bottom])"

section \<open>Lemmas on spans\<close>

definition occlusion_wf :: "occlusion \<Rightarrow> bool" where
  "occlusion_wf self \<longleftrightarrow> length (oc_cutoffs self) = tile_cells (oc_tile self)"

definition tile_index :: "screen_tile \<Rightarrow> nat \<Rightarrow> nat \<Rightarrow> nat" where
  "tile_index t x y = y div tile_pixels t * tile_columns t + x div tile_pixels t"

text \<open>Painter index plus one of the board that hides a pixel, zero if none does.\<close>

definition cutoff :: "occlusion \<Rightarrow> nat \<Rightarrow> nat \<Rightarrow> nat" where
  "cutoff self x y = unat (oc_cutoffs self ! tile_index (oc_tile self) x y)"

definition visible :: "occlusion \<Rightarrow> nat \<Rightarrow> nat \<Rightarrow> nat \<Rightarrow> bool" where
  "visible self index x y \<longleftrightarrow> cutoff self x y \<le> index + 1"

lemma viewport_nat [simp]: "nat VIEWPORT_WIDTH = 320" "nat VIEWPORT_HEIGHT = 240"
  by (simp_all add: VIEWPORT_WIDTH_def VIEWPORT_HEIGHT_def)

lemma tile_index_less:
  assumes "x < 320" and "y < 240"
  shows "tile_index t x y < tile_cells t"
proof (cases t)
  case Eight
  then have "x div 8 \<le> 39" "y div 8 \<le> 29" using assms by auto
  then show ?thesis using Eight by (simp add: tile_index_def tile_cells_def tile_columns_def)
next
  case Sixteen
  then have "x div 16 \<le> 19" "y div 16 \<le> 14" using assms by auto
  then show ?thesis using Sixteen by (simp add: tile_index_def tile_cells_def tile_columns_def)
qed

lemma tile_index_cong:
  "x div tile_pixels t = x' div tile_pixels t \<Longrightarrow> y div tile_pixels t = y' div tile_pixels t \<Longrightarrow>
   tile_index t x y = tile_index t x' y'"
  by (simp add: tile_index_def)

lemma visible_cong:
  "x div tile_pixels (oc_tile s) = x' div tile_pixels (oc_tile s) \<Longrightarrow>
   y div tile_pixels (oc_tile s) = y' div tile_pixels (oc_tile s) \<Longrightarrow> visible s index x y = visible s index x' y'"
  by (simp add: visible_def cutoff_def tile_index_def)

lemma hidden_at_eq:
  assumes "occlusion_wf self" and "x < 320" and "y < 240"
  shows "hidden_at self index y x = Some (\<not> visible self index x y)"
  using assms tile_index_less [OF assms(2,3), of "oc_tile self"]
  by (auto simp: hidden_at_def cutoff_at_def get_def visible_def cutoff_def occlusion_wf_def tile_index_def)

lemma same_tile:
  assumes "(x :: nat) \<le> z" and "z < (x div tile_pixels t + 1) * tile_pixels t"
  shows "z div tile_pixels t = x div tile_pixels t"
proof (rule div_nat_eqI)
  show "tile_pixels t * (x div tile_pixels t) \<le> z"
    using assms(1) by (rule order_trans [OF times_div_less_eq_dividend])
qed (use assms(2) in \<open>simp add: mult.commute\<close>)

lemma scan_tiles_stops:
  assumes "\<And>z. x \<le> z \<Longrightarrow> z < e \<Longrightarrow> p z = Some (q z)"
    and "\<And>z z'. z div tile_pixels t = z' div tile_pixels t \<Longrightarrow> q z = q z'" and "x \<le> e"
  shows "\<exists>s. scan_tiles t p x e = Some s \<and> x \<le> s \<and> s \<le> e \<and> (\<forall>z. x \<le> z \<and> z < s \<longrightarrow> q z) \<and> (s < e \<longrightarrow> \<not> q s)"
  using assms
proof (induction t p x e rule: scan_tiles.induct)
  case (1 t p x e)
  note unfold = scan_tiles.simps [of t p x e]
  show ?case
  proof (cases "x < e \<and> q x")
    case False
    then have "scan_tiles t p x e = Some x" using "1.prems"(1) [of x] unfolding unfold by auto
    then show ?thesis using False "1.prems"(3) by (intro exI [of _ x]) auto
  next
    case True
    let ?x = "min ((x div tile_pixels t + 1) * tile_pixels t) e"
    have x: "x \<le> ?x" using next_tile [of x t] True by simp
    have p: "p x = Some True" using "1.prems"(1) [of x] True by simp
    have h: "\<And>z. ?x \<le> z \<Longrightarrow> z < e \<Longrightarrow> p z = Some (q z)" "?x \<le> e" using "1.prems"(1) x by simp_all
    from "1.IH" [OF _ p _ h(1) "1.prems"(2) h(2)] True
    obtain s where s: "scan_tiles t p ?x e = Some s" "?x \<le> s" "s \<le> e"
      "\<forall>z. ?x \<le> z \<and> z < s \<longrightarrow> q z" "s < e \<longrightarrow> \<not> q s" by blast
    have "q z" if "x \<le> z" "z < ?x" for z
      using "1.prems"(2) [OF same_tile [OF that(1), of t]] that(2) True by simp
    then have "\<forall>z. x \<le> z \<and> z < s \<longrightarrow> q z" using s(4) not_le by blast
    moreover have "scan_tiles t p x e = Some s" using s(1) True p unfolding unfold by simp
    moreover have "x \<le> s" using x s(2) by (rule order_trans)
    ultimately show ?thesis using s(3,5) by blast
  qed
qed

text \<open>What \<open>visible_span\<close> finds: unseen visible up to the end, or the first stretch of visible pixels.\<close>

lemma visible_span_cases:
  assumes "occlusion_wf self" and "y < 240" and "e \<le> 320" and "x \<le> e"
  obtains (none) "visible_span self y x e index = Some None" "\<forall>z. x \<le> z \<and> z < e \<longrightarrow> \<not> visible self index z y"
  | (some) s s' where "visible_span self y x e index = Some (Some (s, s'))" "x \<le> s" "s < s'" "s' \<le> e"
      "\<forall>z. x \<le> z \<and> z < s \<longrightarrow> \<not> visible self index z y" "\<forall>z. s \<le> z \<and> z < s' \<longrightarrow> visible self index z y"
proof -
  let ?v = "\<lambda>z. visible self index z y"
  have h: "hidden_at self index y z = Some (\<not> ?v z)" if "z < e" for z
    using hidden_at_eq [OF assms(1) _ assms(2)] that assms(3) by simp
  have cong: "?v z = ?v z'" if "z div tile_pixels (oc_tile self) = z' div tile_pixels (oc_tile self)" for z z'
    by (rule visible_cong [OF that refl])
  have cong': "(\<not> ?v z) = (\<not> ?v z')" if "z div tile_pixels (oc_tile self) = z' div tile_pixels (oc_tile self)" for z z'
    using cong [OF that] by simp
  from scan_tiles_stops [of x e "hidden_at self index y" "\<lambda>z. \<not> ?v z", OF h cong' assms(4)]
  obtain s where s: "scan_tiles (oc_tile self) (hidden_at self index y) x e = Some s" "x \<le> s" "s \<le> e"
    "\<forall>z. x \<le> z \<and> z < s \<longrightarrow> \<not> ?v z" "s < e \<longrightarrow> ?v s" by blast
  show ?thesis
  proof (cases "s = e")
    case True
    then show ?thesis using s that(1) by (simp add: visible_span_def)
  next
    case False
    have h': "\<And>z. s \<le> z \<Longrightarrow> z < e \<Longrightarrow> map_option Not (hidden_at self index y z) = Some (?v z)" by (simp add: h)
    from scan_tiles_stops [of s e "\<lambda>x. map_option Not (hidden_at self index y x)" ?v, OF h' cong s(3)]
    obtain s' where s': "scan_tiles (oc_tile self) (\<lambda>x. map_option Not (hidden_at self index y x)) s e = Some s'"
      "s \<le> s'" "s' \<le> e" "\<forall>z. s \<le> z \<and> z < s' \<longrightarrow> ?v z" "s' < e \<longrightarrow> \<not> ?v s'" by blast
    have "s < e" using s(3) False by simp
    then have "s \<noteq> s'" using s(5) s'(5) by blast
    then have "s < s'" using s'(2) by simp
    then show ?thesis using that(2) [of s s'] s s' False by (simp add: visible_span_def)
  qed
qed

text \<open>The spans of a row as the drawing loops visit them.\<close>


lemma row_end_bounds: "y < e \<Longrightarrow> y < row_end t y e" "row_end t y e \<le> e"
  using next_tile [of y t] by (simp_all add: row_end_def)

lemma row_end_same_tile: "y \<le> z \<Longrightarrow> z < row_end t y e \<Longrightarrow> z div tile_pixels t = y div tile_pixels t"
  using same_tile [of y z t] by (simp add: row_end_def)

lemma has_visible_span_iff:
  assumes "occlusion_wf self" and "rows_end \<le> 240" and "left \<le> right" and "right \<le> 320"
  shows "has_visible_span self row rows_end left right index =
    Some (\<exists>y x. row \<le> y \<and> y < rows_end \<and> left \<le> x \<and> x < right \<and> visible self index x y)"
  using assms
proof (induction self row rows_end left right index rule: has_visible_span.induct)
  case (1 self row rows_end left right index)
  note unfold = has_visible_span.simps [of self row]
  show ?case
  proof (cases "row < rows_end")
    case True
    then have row: "row < 240" using "1.prems"(2) by simp
    show ?thesis
    proof (rule visible_span_cases [OF "1.prems"(1) row "1.prems"(4,3), of index])
      assume unseen: "visible_span self row left right index = Some None"
        "\<forall>z. left \<le> z \<and> z < right \<longrightarrow> \<not> visible self index z row"
      let ?r = "row_end (oc_tile self) row rows_end"
      have "\<not> visible self index x y" if "row \<le> y" "y < ?r" "left \<le> x" "x < right" for x y
        using unseen(2) that visible_cong [OF refl row_end_same_tile [OF that(1,2)]] by blast
      then have "(\<exists>y x. row \<le> y \<and> y < rows_end \<and> left \<le> x \<and> x < right \<and> visible self index x y) =
          (\<exists>y x. ?r \<le> y \<and> y < rows_end \<and> left \<le> x \<and> x < right \<and> visible self index x y)"
        using row_end_bounds(1) [OF True, of "oc_tile self"] by (meson less_imp_le not_le order_trans)
      then show ?thesis
        using "1.IH" [OF True unseen(1)] "1.prems" True unfolding unfold by (simp add: unseen(1))
    next
      fix s s'
      assume some: "visible_span self row left right index = Some (Some (s, s'))" "left \<le> s" "s < s'" "s' \<le> right"
        "\<forall>z. s \<le> z \<and> z < s' \<longrightarrow> visible self index z row"
      then have "visible self index s row" "left \<le> s" "s < right" by auto
      then show ?thesis using True some(1) unfolding unfold by auto
    qed
  qed (simp add: unfold)
qed

section \<open>Lemmas on hidden rectangles\<close>

lemma any_option_Some:
  "(\<And>x. x \<in> set xs \<Longrightarrow> p x = Some (q x)) \<Longrightarrow> any_option p xs = Some (\<exists>x \<in> set xs. q x)"
  by (induction xs) auto

definition in_rect :: "screen_rect \<Rightarrow> nat \<Rightarrow> nat \<Rightarrow> bool" where
  "in_rect r x y \<longleftrightarrow> sr_x r \<le> int x \<and> int x < sr_x r + sr_width r \<and> sr_y r \<le> int y \<and> int y < sr_y r + sr_height r"

text \<open>A board whose rectangle no nearer board's tile touches is visible wherever it lies.\<close>

lemma clamp_viewport: "nat (clamp 0 VIEWPORT_WIDTH x) \<le> 320" "nat (clamp 0 VIEWPORT_HEIGHT x) \<le> 240"
  by (simp_all add: clamp_def VIEWPORT_WIDTH_def VIEWPORT_HEIGHT_def)

lemma div_ceil_mono: "a \<le> b \<Longrightarrow> div_ceil a c \<le> div_ceil b c"
  unfolding div_ceil_def by (intro div_le_mono) simp

lemma tiles_exact:
  "div_ceil 320 (tile_pixels t) = tile_columns t" "div_ceil 240 (tile_pixels t) = 240 div tile_pixels t"
  by (cases t; simp add: div_ceil_def tile_columns_def)+

lemma sat_less:
  assumes "int x < 320" shows "int x < sat_i32 w \<longleftrightarrow> int x < w"
  using assms by (auto simp: sat_i32_def)

lemma hides_Some:
  assumes "occlusion_wf self"
  shows "\<exists>b. hides self r index = Some b \<and>
    (\<not> b \<longrightarrow> (\<forall>x < 320. \<forall>y < 240. in_rect r x y \<longrightarrow> visible self index x y))"
proof -
  let ?t = "oc_tile self"
  obtain left top right bottom where r: "touched_tiles ?t r = (left, top, right, bottom)"
    by (cases "touched_tiles ?t r")
  let ?c = "\<lambda>y x. unat (oc_cutoffs self ! (y * tile_columns ?t + x)) > index + 1"
  have bound: "right \<le> tile_columns ?t" "bottom \<le> 240 div tile_pixels ?t"
    using r div_ceil_mono [OF clamp_viewport(1), of _ "tile_pixels ?t"]
      div_ceil_mono [OF clamp_viewport(2), of _ "tile_pixels ?t"]
    by (auto simp: touched_tiles_def tiles_exact)
  have get: "get (oc_cutoffs self) (y * tile_columns ?t + x) = Some (oc_cutoffs self ! (y * tile_columns ?t + x))"
    if "x < right" "y < bottom" for x y
  proof -
    have "Suc y * tile_columns ?t \<le> 240 div tile_pixels ?t * tile_columns ?t"
      using that(2) bound(2) by (intro mult_right_mono) auto
    then have "y * tile_columns ?t + x < tile_cells ?t"
      using that(1) bound(1) by (simp add: tile_cells_def tile_columns_def mult.commute)
    then show ?thesis using assms by (simp add: get_def occlusion_wf_def)
  qed
  have "hides self r index = Some (\<exists>y \<in> set [top..<bottom]. \<exists>x \<in> set [left..<right]. ?c y x)"
    unfolding hides_def r Let_def prod.case
    by (intro any_option_Some) (simp add: get)
  moreover have "visible self index x y"
    if no: "\<not> (\<exists>y \<in> set [top..<bottom]. \<exists>x \<in> set [left..<right]. ?c y x)" and "x < 320" "y < 240" "in_rect r x y" for x y
  proof -
    have "int x < sat_i32 (sr_x r + sr_width r)" "int y < sat_i32 (sr_y r + sr_height r)"
      using that sat_less [of x] sat_less [of y] by (simp_all add: in_rect_def)
    then have "nat (clamp 0 VIEWPORT_WIDTH (sr_x r)) \<le> x" "nat (clamp 0 VIEWPORT_HEIGHT (sr_y r)) \<le> y"
      "x < nat (clamp 0 VIEWPORT_WIDTH (sat_i32 (sr_x r + sr_width r)))"
      "y < nat (clamp 0 VIEWPORT_HEIGHT (sat_i32 (sr_y r + sr_height r)))"
      using that(2-4) by (auto simp: in_rect_def clamp_def VIEWPORT_WIDTH_def VIEWPORT_HEIGHT_def zless_nat_eq_int_zless)
    then have "left \<le> x div tile_pixels ?t" "top \<le> y div tile_pixels ?t"
      "x div tile_pixels ?t < right" "y div tile_pixels ?t < bottom"
      using r by (auto simp: touched_tiles_def intro: div_le_mono div_ceil_less)
    then have "\<not> ?c (y div tile_pixels ?t) (x div tile_pixels ?t)" using no by auto
    then show ?thesis by (simp add: visible_def cutoff_def tile_index_def not_less)
  qed
  ultimately show ?thesis by blast
qed

section \<open>Sound masks\<close>

fun coverage_mask :: "coverage \<Rightarrow> mask8 option" where
  "coverage_mask Opaque = None"
| "coverage_mask (Cutout _ m) = Some m"
| "coverage_mask (Alpha8 _ m) = Some m"

text \<open>A mask was made by \<open>Mask8::new\<close>, and its bits promise what the comment on \<open>Mask8\<close> says.\<close>

definition mask_sound :: "texture \<Rightarrow> bool" where
  "mask_sound tx \<longleftrightarrow>
     (case coverage_mask (tx_coverage tx) of
        None \<Rightarrow> True
      | Some m \<Rightarrow>
          mask_new (mk_size m) (mk_bits m) = Inr m \<and>
          (\<forall>x < unat (ss_width (tx_size tx)). \<forall>y < unat (ss_height (tx_size tx)).
             bit_get (mk_bits m) (y div TILE * div_ceil (unat (ss_width (tx_size tx))) TILE + x div TILE) = Some True \<longrightarrow>
             coverage_at (tx_coverage tx) (y * unat (ss_width (tx_size tx)) + x) = Some 255))"

text \<open>A board as \<open>SceneBillboard::new\<close> makes it, with coordinates of 32 bits.\<close>

definition board_wf :: "scene_billboard \<Rightarrow> bool" where
  "board_wf b \<longleftrightarrow>
     scene_billboard_new (sb_projected b) (sb_texture b) (sb_region b) = Inr b \<and>
     in_i32 (sr_x (board_rect b)) \<and> in_i32 (sr_y (board_rect b)) \<and>
     in_i32 (sr_width (board_rect b)) \<and> in_i32 (sr_height (board_rect b)) \<and> mask_sound (sb_texture b)"

lemma board_wfD:
  assumes "board_wf b"
  shows "validate_texture (sb_texture b) (sb_region b) = Inr ()"
    and "0 < sr_width (board_rect b)" and "0 < sr_height (board_rect b)"
    and "tr_width (sb_region b) \<noteq> 0" and "tr_height (sb_region b) \<noteq> 0"
    and "unat (tr_source_x (sb_region b)) + unat (tr_width (sb_region b)) \<le> unat (ss_width (tx_size (sb_texture b)))"
    and "unat (tr_source_y (sb_region b)) + unat (tr_height (sb_region b)) \<le> unat (ss_height (tx_size (sb_texture b)))"
    and "tr_stride (sb_region b) = ss_width (tx_size (sb_texture b))"
    and "coverage_mask (tx_coverage (sb_texture b)) = Some m \<Longrightarrow> mk_size m = tx_size (sb_texture b)"
proof -
  have v: "validate_texture (sb_texture b) (sb_region b) = Inr ()" and
    "0 < sr_width (board_rect b)" "0 < sr_height (board_rect b)"
    using assms by (auto simp: board_wf_def scene_billboard_new_def split: sum.splits if_splits)
  then show "validate_texture (sb_texture b) (sb_region b) = Inr ()"
    "0 < sr_width (board_rect b)" "0 < sr_height (board_rect b)" by simp_all
  from v show "tr_width (sb_region b) \<noteq> 0" "tr_height (sb_region b) \<noteq> 0"
    "unat (tr_source_x (sb_region b)) + unat (tr_width (sb_region b)) \<le> unat (ss_width (tx_size (sb_texture b)))"
    "unat (tr_source_y (sb_region b)) + unat (tr_height (sb_region b)) \<le> unat (ss_height (tx_size (sb_texture b)))"
    "tr_stride (sb_region b) = ss_width (tx_size (sb_texture b))"
    by (simp_all add: validate_texture_def Let_def split: if_splits)
  from v have "coverage_validate (tx_coverage (sb_texture b)) (tx_size (sb_texture b)) = Inr ()"
    by (simp add: validate_texture_def Let_def split: if_splits)
  then show "coverage_mask (tx_coverage (sb_texture b)) = Some m \<Longrightarrow> mk_size m = tx_size (sb_texture b)"
    by (cases "tx_coverage (sb_texture b)") (auto split: if_splits)
qed

text \<open>The texel that destination pixel \<open>x\<close>, or \<open>y\<close>, falls on.\<close>

definition texel :: "nat \<Rightarrow> nat \<Rightarrow> nat \<Rightarrow> nat \<Rightarrow> nat" where
  "texel offset source destination k = offset + k * source div destination"

definition texel_x :: "scene_billboard \<Rightarrow> nat \<Rightarrow> nat" where
  "texel_x b x = texel (unat (tr_source_x (sb_region b))) (unat (tr_width (sb_region b)))
     (nat (sr_width (board_rect b))) (nat (int x - sr_x (board_rect b)))"

definition texel_y :: "scene_billboard \<Rightarrow> nat \<Rightarrow> nat" where
  "texel_y b y = texel (unat (tr_source_y (sb_region b))) (unat (tr_height (sb_region b)))
     (nat (sr_height (board_rect b))) (nat (int y - sr_y (board_rect b)))"

text \<open>The pixels at which a board lets nothing behind it through.\<close>

definition opaque_at :: "scene_billboard \<Rightarrow> nat \<Rightarrow> nat \<Rightarrow> bool" where
  "opaque_at b x y \<longleftrightarrow> in_rect (board_rect b) x y \<and>
     (tx_coverage (sb_texture b) = Opaque \<or>
      pb_filter (sb_projected b) = FNearest \<and>
      coverage_at (tx_coverage (sb_texture b))
        (texel_y b y * unat (tr_stride (sb_region b)) + texel_x b x) = Some 255)"

lemma texel_less: "k < destination \<Longrightarrow> 0 < source \<Longrightarrow> texel offset source destination k < offset + source"
  unfolding texel_def by (simp add: div_less_iff_less_mult mult.commute)

lemma texel_mono: "k \<le> k' \<Longrightarrow> texel offset source destination k \<le> texel offset source destination k'"
  unfolding texel_def by (intro add_left_mono div_le_mono mult_right_mono) auto

lemma texel_bounds:
  assumes "board_wf b" and "in_rect (board_rect b) x y"
  shows "texel_x b x < unat (tr_source_x (sb_region b)) + unat (tr_width (sb_region b))"
    and "texel_y b y < unat (tr_source_y (sb_region b)) + unat (tr_height (sb_region b))"
  using assms(2) board_wfD(4,5) [OF assms(1)]
  by (auto simp: texel_x_def texel_y_def in_rect_def unat_gt_0 intro!: texel_less)

lemma as_usize_nat: "n < 2 ^ 64 \<Longrightarrow> as_usize (int n) = n"
proof -
  assume "n < 2 ^ 64"
  then have "int n < 2 ^ 64" by (simp only: of_nat_less_numeral_power_cancel_iff)
  then have "int n mod 2 ^ 64 = int n" by (intro mod_pos_pos_trivial) simp_all
  then show "as_usize (int n) = n" unfolding as_usize_def by simp
qed

lemma tdiv_of_nat: "0 < d \<Longrightarrow> tdiv (int k * int s) (int d) = int (k * s div d)"
  by (simp add: tdiv_nonneg zdiv_int)

lemma source_span_texels:
  assumes "origin \<le> int pixel" and "int (pixel + tile) \<le> origin + destination" and "0 < tile"
  shows "source_span pixel tile origin destination offset source =
    (texel (unat offset) (unat source) (nat destination) (nat (int pixel - origin)),
     texel (unat offset) (unat source) (nat destination) (nat (int (pixel + tile - 1) - origin)))"
proof -
  have "as_usize (tdiv ((int p - origin) * uint source) destination) = nat (int p - origin) * unat source div nat destination"
    if "origin \<le> int p" "int p < origin + destination" for p
  proof -
    let ?k = "nat (int p - origin)" and ?d = "nat destination"
    have k: "int p - origin = int ?k" and d: "destination = int ?d" "0 < ?d" "?k < ?d" using that by auto
    have u: "uint source = int (unat source)" by simp
    have "tdiv ((int p - origin) * uint source) destination = int (?k * unat source div ?d)"
      using tdiv_of_nat [OF d(2), of ?k "unat source"] unfolding k [symmetric] d(1) [symmetric] u [symmetric] .
    moreover have "?k * unat source div ?d \<le> unat source"
      using axis_quotient_bound [of ?k ?d "unat source"] d by simp
    then have "?k * unat source div ?d < 2 ^ 64" using unsigned_less [of source, where ?'a = nat] by simp
    ultimately show ?thesis by (simp only: as_usize_nat)
  qed
  from this [of pixel] this [of "pixel + tile - 1"] show ?thesis
    using assms by (simp add: source_span_def Let_def texel_def)
qed

lemma covers_bits:
  assumes "mask_covers m left upper right lower = Some True" and "left \<le> x" "x \<le> right" "upper \<le> y" "y \<le> lower"
  shows "bit_get (mk_bits m) (y div TILE * div_ceil (unat (ss_width (mk_size m))) TILE + x div TILE) = Some True"
proof -
  have "left div TILE \<le> x div TILE" "x div TILE \<le> right div TILE" "upper div TILE \<le> y div TILE" "y div TILE \<le> lower div TILE"
    using assms(2-5) by (auto intro: div_le_mono)
  then have "y div TILE * div_ceil (unat (ss_width (mk_size m))) TILE + x div TILE \<in>
      set [b * div_ceil (unat (ss_width (mk_size m))) TILE + a. b \<leftarrow> [upper div TILE..<Suc (lower div TILE)],
        a \<leftarrow> [left div TILE..<Suc (right div TILE)]]"
    unfolding set_concat set_map by (intro UN_I image_eqI) auto
  then show ?thesis using assms(1) unfolding mask_covers_def Let_def covers_foldr by blast
qed

lemma covers_foldr_total:
  "(\<And>cell. cell \<in> set cells \<Longrightarrow> bit_get bits cell \<noteq> None) \<Longrightarrow>
   foldr (\<lambda>cell rest. case bit_get bits cell of None \<Rightarrow> None | Some False \<Rightarrow> Some False | Some True \<Rightarrow> rest)
     cells (Some True) \<noteq> None"
  by (induction cells) (auto split: option.splits bool.splits)

lemma covers_total:
  assumes "mask_new (mk_size m) (mk_bits m) = Inr m"
    and "right < unat (ss_width (mk_size m))" and "lower < unat (ss_height (mk_size m))"
  shows "mask_covers m left upper right lower \<noteq> None"
  unfolding mask_covers_def Let_def
proof (rule covers_foldr_total)
  let ?W = "div_ceil (unat (ss_width (mk_size m))) TILE" and ?H = "div_ceil (unat (ss_height (mk_size m))) TILE"
  have len: "length (mk_bits m) = div_ceil (?W * ?H) 8"
    using assms(1) by (simp add: mask_new_def mask_bytes_for_def split: if_splits)
  fix cell
  assume "cell \<in> set [b * ?W + a. b \<leftarrow> [upper div TILE..<Suc (lower div TILE)], a \<leftarrow> [left div TILE..<Suc (right div TILE)]]"
  then obtain a b where ab: "cell = b * ?W + a" "a \<le> right div TILE" "b \<le> lower div TILE" by (auto simp: less_Suc_eq_le)
  have "right div TILE < ?W" "lower div TILE < ?H" using assms(2,3) by (simp_all add: div_ceil_less TILE_def)
  then have "a < ?W" "b < ?H" using ab by simp_all
  then have "Suc b * ?W \<le> ?H * ?W" by (intro mult_right_mono) simp_all
  then have "cell < ?W * ?H" using ab(1) \<open>a < ?W\<close> by (simp add: mult.commute)
  then show "bit_get (mk_bits m) cell \<noteq> None" by (simp add: bit_get_eq len div_ceil_less)
qed

section \<open>The occlusion pass\<close>

text \<open>Every noted cutoff names a board that is opaque on the whole tile, and they are counted.\<close>

definition prepared :: "screen_tile \<Rightarrow> scene_billboard list \<Rightarrow> u16 list \<times> scene_stats \<Rightarrow> bool" where
  "prepared t boards = (\<lambda>(cutoffs, stats).
     length cutoffs = tile_cells t \<and>
     (\<forall>x < 320. \<forall>y < 240. cutoffs ! tile_index t x y \<noteq> 0 \<longrightarrow>
        unat (cutoffs ! tile_index t x y) \<le> length boards \<and>
        opaque_at (boards ! (unat (cutoffs ! tile_index t x y) - 1)) x y) \<and>
     st_opaque_tiles stats = of_nat (length (filter (\<lambda>c. c \<noteq> 0) cutoffs)))"

lemma div_ceil_le: "div_ceil a b \<le> x \<Longrightarrow> 0 < b \<Longrightarrow> a \<le> x * b"
proof -
  assume "div_ceil a b \<le> x" "0 < b"
  then have "a + b - 1 < Suc x * b" unfolding div_ceil_def
    by (metis le_imp_less_Suc div_less_iff_less_mult)
  then show "a \<le> x * b" using \<open>0 < b\<close> by simp
qed

lemma less_div: "x < b div p \<Longrightarrow> 0 < p \<Longrightarrow> x * p + p \<le> (b :: nat)"
proof -
  assume "x < b div p" "0 < p"
  then have "Suc x * p \<le> b div p * p" by (intro mult_right_mono) simp_all
  then have "Suc x * p \<le> b" using order_trans [OF _ div_times_less_eq_dividend] by blast
  then show ?thesis by simp
qed

lemma clamp_le: "nat (clamp 0 hi v) \<le> n \<Longrightarrow> int n < hi \<Longrightarrow> v \<le> int n"
  by (auto simp: clamp_def nat_le_iff)

lemma clamp_ge: "n \<le> nat (clamp 0 hi v) \<Longrightarrow> 0 < n \<Longrightarrow> int n \<le> v"
  by (auto simp: clamp_def)

text \<open>A tile between the inner bounds lies in the viewport and in the rectangle.\<close>

lemma inner_tiles_bounds:
  assumes "inner_tiles t r = (left, upper, right, bottom)"
    and "left \<le> x" and "x < right" and "upper \<le> y" and "y < bottom"
    and "in_i32 (sr_x r)" and "in_i32 (sr_y r)" and "0 < sr_width r" and "0 < sr_height r"
  shows "x * tile_pixels t + tile_pixels t \<le> 320" and "y * tile_pixels t + tile_pixels t \<le> 240"
    and "sr_x r \<le> int (x * tile_pixels t)" and "sr_y r \<le> int (y * tile_pixels t)"
    and "int (x * tile_pixels t + tile_pixels t) \<le> sr_x r + sr_width r"
    and "int (y * tile_pixels t + tile_pixels t) \<le> sr_y r + sr_height r"
proof -
  let ?p = "tile_pixels t"
  have sat: "sat_i32 (sr_x r + sr_width r) \<le> sr_x r + sr_width r" "sat_i32 (sr_y r + sr_height r) \<le> sr_y r + sr_height r"
    using assms(6-9) by (auto simp: sat_i32_def in_i32_def)
  from assms(1) have e: "left = div_ceil (nat (clamp 0 VIEWPORT_WIDTH (sr_x r))) ?p"
    "upper = div_ceil (nat (clamp 0 VIEWPORT_HEIGHT (sr_y r))) ?p"
    "right = nat (clamp 0 VIEWPORT_WIDTH (sat_i32 (sr_x r + sr_width r))) div ?p"
    "bottom = nat (clamp 0 VIEWPORT_HEIGHT (sat_i32 (sr_y r + sr_height r))) div ?p"
    by (simp_all add: inner_tiles_def)
  have lo: "nat (clamp 0 VIEWPORT_WIDTH (sr_x r)) \<le> x * ?p" "nat (clamp 0 VIEWPORT_HEIGHT (sr_y r)) \<le> y * ?p"
    using assms(2,4) by (simp_all add: e div_ceil_le)
  have hi: "x * ?p + ?p \<le> nat (clamp 0 VIEWPORT_WIDTH (sat_i32 (sr_x r + sr_width r)))"
    "y * ?p + ?p \<le> nat (clamp 0 VIEWPORT_HEIGHT (sat_i32 (sr_y r + sr_height r)))"
    using assms(3,5) unfolding e by (simp_all only: less_div tile_pixels_pos)
  show xy: "x * ?p + ?p \<le> 320" "y * ?p + ?p \<le> 240"
    using hi clamp_viewport order_trans by blast+
  have p: "0 < ?p" by simp
  show "sr_x r \<le> int (x * ?p)" "sr_y r \<le> int (y * ?p)"
    using clamp_le [OF lo(1)] clamp_le [OF lo(2)] xy p
    by (simp_all add: VIEWPORT_WIDTH_def VIEWPORT_HEIGHT_def flip: of_nat_mult of_nat_add del: tile_pixels_pos)
  show "int (x * ?p + ?p) \<le> sr_x r + sr_width r" "int (y * ?p + ?p) \<le> sr_y r + sr_height r"
    using clamp_ge [OF hi(1)] clamp_ge [OF hi(2)] sat p by linarith+
qed

lemma count_update:
  assumes "i < length xs" and "xs ! i = (0 :: u16)" and "v \<noteq> 0"
  shows "length (filter (\<lambda>c. c \<noteq> 0) (xs[i := v])) = Suc (length (filter (\<lambda>c. c \<noteq> 0) xs))"
proof -
  have "xs = take i xs @ 0 # drop (Suc i) xs" using id_take_nth_drop [OF assms(1)] assms(2) by simp
  then have "filter (\<lambda>c. c \<noteq> 0) xs = filter (\<lambda>c. c \<noteq> 0) (take i xs) @ filter (\<lambda>c. c \<noteq> 0) (drop (Suc i) xs)"
    by (metis (mono_tags, lifting) filter.simps(2) filter_append)
  then show ?thesis using assms(1,3) by (simp add: upd_conv_take_nth_drop)
qed

lemma in_tile:
  assumes "px div p = x" and "0 < (p :: nat)"
  shows "x * p \<le> px" and "px \<le> x * p + p - 1"
  using assms dividend_less_div_times [of p px] by (auto simp: div_times_less_eq_dividend)

text \<open>A tile that the masks cover shows the board opaquely.\<close>

lemma covered_tile_opaque:
  assumes wf: "board_wf b" and occ: "occluder_mask b = Some blocks"
    and box: "x * p + p \<le> 320" "y * p + p \<le> 240" "sr_x (board_rect b) \<le> int (x * p)" "sr_y (board_rect b) \<le> int (y * p)"
      "int (x * p + p) \<le> sr_x (board_rect b) + sr_width (board_rect b)"
      "int (y * p + p) \<le> sr_y (board_rect b) + sr_height (board_rect b)" "0 < p"
    and h: "h = source_span (x * p) p (sr_x (board_rect b)) (sr_width (board_rect b))
        (tr_source_x (sb_region b)) (tr_width (sb_region b))"
    and v: "v = source_span (y * p) p (sr_y (board_rect b)) (sr_height (board_rect b))
        (tr_source_y (sb_region b)) (tr_height (sb_region b))"
  shows "\<exists>covered. (case blocks of None \<Rightarrow> Some True | Some m \<Rightarrow> mask_covers m (fst h) (fst v) (snd h) (snd v)) = Some covered \<and>
    (covered \<longrightarrow> (\<forall>px py. px div p = x \<longrightarrow> py div p = y \<longrightarrow> opaque_at b px py))"
proof -
  have rect: "in_rect (board_rect b) px py" if "px div p = x" "py div p = y" for px py
    using in_tile [OF that(1) box(7)] in_tile [OF that(2) box(7)] box unfolding in_rect_def by linarith
  note D = board_wfD [OF wf]
  show ?thesis
  proof (cases blocks)
    case None
    then have "tx_coverage (sb_texture b) = Opaque"
      using occ by (auto split: coverage.splits if_splits)
    then show ?thesis using None rect by (intro exI [of _ True]) (simp add: opaque_at_def)
  next
    case (Some m)
    then have m: "coverage_mask (tx_coverage (sb_texture b)) = Some m" "pb_filter (sb_projected b) = FNearest"
      using occ by (auto split: coverage.splits if_splits)
    note sz = D(9) [OF m(1)]
    have hs: "h = (texel_x b (x * p), texel_x b (x * p + p - 1))" and vs: "v = (texel_y b (y * p), texel_y b (y * p + p - 1))"
      unfolding h v texel_x_def texel_y_def using box by (simp_all add: source_span_texels)
    have corner: "in_rect (board_rect b) (x * p + p - 1) (y * p + p - 1)"
      using box(7) by (intro rect) (auto intro!: div_nat_eqI simp: algebra_simps)
    have sound: "mask_new (mk_size m) (mk_bits m) = Inr m"
      using wf m(1) by (simp add: board_wf_def mask_sound_def)
    have "snd h < unat (ss_width (mk_size m))" "snd v < unat (ss_height (mk_size m))"
      using texel_bounds [OF wf corner] D(6,7) unfolding hs vs sz by simp_all
    with covers_total [OF sound] obtain covered
      where c: "mask_covers m (fst h) (fst v) (snd h) (snd v) = Some covered" by blast
    have "opaque_at b px py" if covered "px div p = x" "py div p = y" for px py
    proof -
      note r = rect [OF that(2,3)]
      have "texel_x b (x * p) \<le> texel_x b px" "texel_x b px \<le> texel_x b (x * p + p - 1)"
        "texel_y b (y * p) \<le> texel_y b py" "texel_y b py \<le> texel_y b (y * p + p - 1)"
        using in_tile [OF that(2) box(7)] in_tile [OF that(3) box(7)]
        unfolding texel_x_def texel_y_def by (auto intro!: texel_mono nat_mono simp del: of_nat_mult)
      then have "bit_get (mk_bits m) (texel_y b py div TILE * div_ceil (unat (ss_width (mk_size m))) TILE + texel_x b px div TILE) = Some True"
        using covers_bits c that(1) unfolding hs vs by auto
      moreover have "texel_x b px < unat (ss_width (tx_size (sb_texture b)))" "texel_y b py < unat (ss_height (tx_size (sb_texture b)))"
        using texel_bounds [OF wf r] D(6,7) by simp_all
      ultimately have "coverage_at (tx_coverage (sb_texture b)) (texel_y b py * unat (ss_width (tx_size (sb_texture b))) + texel_x b px) = Some 255"
        using wf m(1) unfolding board_wf_def mask_sound_def sz by simp
      then show ?thesis using r m(2) D(8) by (simp add: opaque_at_def)
    qed
    then show ?thesis using c Some by auto
  qed
qed

lemma prepare_cell_prepared:
  assumes ok: "board_wf (boards ! index)" "index < length boards" "length boards \<le> 65535"
    and occ: "occluder_mask (boards ! index) = Some blocks"
    and box: "inner_tiles t (board_rect (boards ! index)) = (left, upper, right, bottom)"
      "left \<le> x" "x < right" "upper \<le> y" "y < bottom"
    and s: "prepared t boards s"
  shows "\<exists>s'. prepare_cell t index (boards ! index) blocks (y, x) s = Some s' \<and> prepared t boards s'"
proof -
  let ?b = "boards ! index" and ?p = "tile_pixels t" and ?i = "y * tile_columns t + x"
  obtain cutoffs stats where cs: "s = (cutoffs, stats)" by fastforce
  have i32: "in_i32 (sr_x (board_rect ?b))" "in_i32 (sr_y (board_rect ?b))" using ok(1) by (simp_all add: board_wf_def)
  note B = inner_tiles_bounds [OF box i32 board_wfD(2,3) [OF ok(1)]]
  have idx: "?i = tile_index t (x * ?p) (y * ?p)" by (simp add: tile_index_def)
  have "0 < ?p" by simp
  then have "x * ?p < 320" "y * ?p < 240" using B(1,2) by linarith+
  then have less: "?i < length cutoffs" using s tile_index_less unfolding idx cs prepared_def by simp
  define h where "h = source_span (x * ?p) ?p (sr_x (board_rect ?b)) (sr_width (board_rect ?b))
    (tr_source_x (sb_region ?b)) (tr_width (sb_region ?b))"
  define v where "v = source_span (y * ?p) ?p (sr_y (board_rect ?b)) (sr_height (board_rect ?b))
    (tr_source_y (sb_region ?b)) (tr_height (sb_region ?b))"
  from covered_tile_opaque [OF ok(1) occ B(1,2,3,4,5,6) \<open>0 < ?p\<close> h_def v_def]
  obtain covered where c: "(case blocks of None \<Rightarrow> Some True | Some m \<Rightarrow> mask_covers m (fst h) (fst v) (snd h) (snd v)) = Some covered"
    "covered \<Longrightarrow> px div ?p = x \<Longrightarrow> py div ?p = y \<Longrightarrow> opaque_at ?b px py" for px py by blast
  show ?thesis
  proof (cases "cutoffs ! ?i = 0 \<and> covered")
    case False
    then have "\<exists>stats'. prepare_cell t index ?b blocks (y, x) s = Some (cutoffs, stats') \<and> st_opaque_tiles stats' = st_opaque_tiles stats"
      using c(1) less unfolding h_def v_def by (auto simp: prepare_cell_def cs get_def Let_def)
    then show ?thesis using s by (auto simp: prepared_def cs)
  next
    case True
    define n :: u16 where "n = of_nat (index + 1)"
    have n: "unat n = index + 1" unfolding n_def using ok(2,3) by (simp add: unat_of_nat del: of_nat_Suc of_nat_add)
    then have n0: "n \<noteq> 0" by (metis add_is_0 unsigned_0 zero_neq_one)
    obtain stats' where r: "prepare_cell t index ?b blocks (y, x) s = Some (cutoffs[?i := n], stats')"
      and st: "st_opaque_tiles stats' = st_opaque_tiles stats + 1"
      using c(1) less True unfolding h_def v_def n_def by (auto simp: prepare_cell_def cs get_def Let_def)
    have "prepared t boards (cutoffs[?i := n], stats')"
    proof -
      have "opaque_at ?b px py" if "px < 320" "tile_index t px py = ?i" for px py
      proof -
        have "px div ?p < tile_columns t" "x < tile_columns t"
          using that(1) \<open>x * ?p < 320\<close> by (cases t; simp add: tile_columns_def)+
        then have "px div ?p = x" "py div ?p = y"
          using grid_index [of "py div ?p" "tile_columns t" "px div ?p" y x] that(2) by (simp_all add: tile_index_def)
        then show ?thesis using c(2) True by blast
      qed
      then show ?thesis
        using s less count_update [OF less _ n0] True ok(2) st unfolding prepared_def cs prod.case
        by (auto simp: nth_list_update n)
    qed
    then show ?thesis using r by blast
  qed
qed

lemma fold_option_inv:
  assumes "\<And>x s. x \<in> set xs \<Longrightarrow> P s \<Longrightarrow> \<exists>s'. f x s = Some s' \<and> P s'" and "P s"
  shows "\<exists>s'. fold_option f xs s = Some s' \<and> P s'"
  using assms
proof (induction xs arbitrary: s)
  case (Cons x xs)
  from Cons.prems(1) [of x s] Cons.prems(2) obtain s' where s': "f x s = Some s'" "P s'" by auto
  from Cons.IH [OF _ s'(2)] Cons.prems(1) obtain r where "fold_option f xs s' = Some r" "P r" by auto
  then show ?case using s'(1) by simp
qed simp

lemma prepare_prepared:
  assumes wf: "list_all board_wf boards" and len: "length boards \<le> 65535" and occ: "occlusion_wf self"
  obtains self' stats where "prepare self boards scene_stats_default = Some (self', stats)"
    "oc_tile self' = oc_tile self" "prepared (oc_tile self) boards (oc_cutoffs self', stats)"
proof -
  let ?t = "oc_tile self"
  have "\<exists>s'. prepare_board ?t ib s = Some s' \<and> prepared ?t boards s'"
    if ib: "ib \<in> set (rev (enumerate 0 boards))" and s: "prepared ?t boards s" for ib s
  proof -
    have "fst ib < length boards" "boards ! fst ib = snd ib"
      using ib by (simp_all add: in_set_enumerate_eq)
    then obtain index where i: "ib = (index, boards ! index)" "index < length boards"
      by (metis prod.collapse)
    obtain left upper right bottom where box: "inner_tiles ?t (board_rect (boards ! index)) = (left, upper, right, bottom)"
      by (metis prod_cases4)
    have "board_wf (boards ! index)" using wf i(2) by (simp add: list_all_length)
    note cell = prepare_cell_prepared [OF this i(2) len _ box]
    show ?thesis
    proof (cases "occluder_mask (boards ! index)")
      case (Some blocks)
      let ?cells = "[(y, x). y \<leftarrow> [upper..<bottom], x \<leftarrow> [left..<right]]"
      have "\<exists>s'. fold_option (prepare_cell ?t index (boards ! index) blocks) ?cells s = Some s' \<and> prepared ?t boards s'"
        by (rule fold_option_inv [where P = "prepared ?t boards"]) (use cell [OF Some] s in \<open>auto simp del: split_paired_Ex\<close>)
      then show ?thesis
        using s unfolding prepare_board_def i(1) prod.case Some option.case Let_def box by (simp del: split_paired_Ex)
    qed (use s in \<open>simp add: prepare_board_def i(1)\<close>)
  qed
  moreover have "prepared ?t boards (replicate (length (oc_cutoffs self)) 0, scene_stats_default)"
    using occ tile_index_less by (auto simp: prepared_def occlusion_wf_def scene_stats_default_def)
  ultimately obtain s where s: "fold_option (prepare_board ?t) (rev (enumerate 0 boards))
      (replicate (length (oc_cutoffs self)) 0, scene_stats_default) = Some s" "prepared ?t boards s"
    using fold_option_inv [of "rev (enumerate 0 boards)" "prepared ?t boards" "prepare_board ?t"] by blast
  obtain cutoffs stats where "s = (cutoffs, stats)" by fastforce
  then show ?thesis using s by (intro that [of "self\<lparr>oc_cutoffs := cutoffs\<rparr>" stats]) (simp_all add: prepare_def)
qed

text \<open>After the pass: which pixels have a cutoff, and what the number of opaque tiles tells.\<close>

lemma prepared_cutoff:
  assumes "prepared (oc_tile self) boards (oc_cutoffs self, stats)" and "x < 320" and "y < 240"
    and "cutoff self x y \<noteq> 0"
  shows "cutoff self x y \<le> length boards" and "opaque_at (boards ! (cutoff self x y - 1)) x y"
  using assms by (auto simp: prepared_def cutoff_def unat_eq_0)

lemma prepared_no_tiles:
  assumes "prepared (oc_tile self) boards (oc_cutoffs self, stats)" and "st_opaque_tiles stats = 0"
    and "x < 320" and "y < 240"
  shows "cutoff self x y = 0"
proof -
  let ?n = "length (filter (\<lambda>c. c \<noteq> 0) (oc_cutoffs self))"
  have "?n \<le> tile_cells (oc_tile self)" using assms(1) by (auto simp: prepared_def intro: order_trans [OF length_filter_le])
  also have "\<dots> \<le> 1200" by (cases "oc_tile self") (simp_all add: tile_cells_def)
  finally have "?n < 2 ^ 32" by simp
  moreover have "(of_nat ?n :: u32) = 0" using assms(1,2) by (simp add: prepared_def)
  then have "unat (of_nat ?n :: u32) = 0" by simp
  ultimately have "?n = 0" using unat_of_nat [of ?n, where ?'a = 32] by simp
  then have "oc_cutoffs self ! tile_index (oc_tile self) x y = 0"
    using tile_index_less [OF assms(3,4)] assms(1) by (auto simp: prepared_def filter_empty_conv)
  then show ?thesis by (simp add: cutoff_def)
qed

end
