(* ===== verification/Raster.thy ===== *)
theory Raster
  imports Occlusion
begin

text \<open>
  \<open>crates/deskkin-presentation/src/lib.rs\<close> and \<open>bands.rs\<close>, the rasterizer: a billboard is clipped
  to the viewport and written row by row, directly when it is shown at its own size, through the
  sampler otherwise, and only on the spans the occlusion leaves visible. A target is a band of full
  rows. None is a panic. The observers of the drawing phases see no data and are left out.
\<close>

section \<open>Targets\<close>

record band_target =
  bt_pixels :: "u16 list"
  bt_stride :: nat
  bt_y :: nat
  bt_rows :: nat

definition band_target_new :: "u16 list \<Rightarrow> nat \<Rightarrow> nat \<Rightarrow> nat \<Rightarrow> raster_error + band_target" where
  "band_target_new pixels stride y rows =
     (if stride < nat VIEWPORT_WIDTH \<or> rows = 0 \<or> y \<ge> nat VIEWPORT_HEIGHT \<or> rows > nat VIEWPORT_HEIGHT - y \<or>
         length pixels < stride * rows
      then Inl InvalidFramebuffer
      else Inr \<lparr>bt_pixels = pixels, bt_stride = stride, bt_y = y, bt_rows = rows\<rparr>)"

section \<open>Loops over visible spans\<close>

lemma scan_tiles_result:
  "scan_tiles t p x e = Some s \<Longrightarrow> (x < e \<longrightarrow> x \<le> s \<and> s \<le> e) \<and> (s < e \<longrightarrow> p s = Some False)"
proof (induction t p x e rule: scan_tiles.induct)
  case (1 t p x e)
  let ?x = "min ((x div tile_pixels t + 1) * tile_pixels t) e"
  have x: "x < e \<Longrightarrow> x < ?x" using next_tile [of x t] by simp
  note r = "1.prems" [unfolded scan_tiles.simps [of t p x e]]
  show ?case
  proof (cases "x < e \<and> p x = Some True")
    case True
    then have "scan_tiles t p ?x e = Some s" using r by simp
    with "1.IH" [of True] True have "(?x < e \<longrightarrow> ?x \<le> s \<and> s \<le> e) \<and> (s < e \<longrightarrow> p s = Some False)" by simp
    moreover have "s = ?x" if "\<not> ?x < e"
      using \<open>scan_tiles t p ?x e = Some s\<close> that by (subst (asm) scan_tiles.simps) simp
    ultimately show ?thesis using x True by (cases "?x < e") auto
  next
    case False
    then have "s = x" "x < e \<longrightarrow> p x = Some False" using r by (auto split: if_splits option.splits)
    then show ?thesis by simp
  qed
qed

lemma visible_span_progress:
  assumes "visible_span self y x e index = Some (Some (s, s'))" and "x < e"
  shows "x < s'"
proof -
  let ?h = "hidden_at self index y"
  from assms(1) have s: "scan_tiles (oc_tile self) ?h x e = Some s" "s \<noteq> e"
    and s': "scan_tiles (oc_tile self) (\<lambda>x. map_option Not (?h x)) s e = Some s'"
    by (auto simp: visible_span_def Option.bind_eq_Some_conv split: if_splits)
  from scan_tiles_result [OF s(1)] assms(2) s(2) have h: "x \<le> s" "s < e" "?h s = Some False" by auto
  with scan_tiles_result [OF s'] have "s \<le> s'" "s' < e \<longrightarrow> map_option Not (?h s') = Some False" by auto
  then have "s \<noteq> s'" using h by auto
  then show ?thesis using h \<open>s \<le> s'\<close> by simp
qed

text \<open>The spans a loop over one row visits, from \<open>x\<close> on.\<close>

function visible_spans :: "occlusion \<Rightarrow> nat \<Rightarrow> nat \<Rightarrow> nat \<Rightarrow> nat \<Rightarrow> (nat \<times> nat) list option" where
  "visible_spans self y x end index =
     (if x < end then
        (case visible_span self y x end index of
           None \<Rightarrow> None
         | Some None \<Rightarrow> Some []
         | Some (Some (start, stop)) \<Rightarrow> map_option ((#) (start, stop)) (visible_spans self y stop end index))
      else Some [])"
  by pat_completeness auto
termination
proof (relation "measure (\<lambda>(self, y, x, end, index). end - x)", goal_cases)
  case (2 self y x "end" index a b start stop)
  then have "visible_span self y x end index = Some (Some (start, stop))" by simp
  from visible_span_progress [OF this 2(1)] show ?case using 2(1) by simp
qed simp

declare visible_spans.simps [simp del]

text \<open>The blocks of rows that lie in one row of tiles; all rows are one block without a mask.\<close>

function row_blocks :: "screen_tile option \<Rightarrow> nat \<Rightarrow> nat \<Rightarrow> (nat \<times> nat) list" where
  "row_blocks t row bottom =
     (if row < bottom then
        (let stop = (case t of None \<Rightarrow> bottom | Some t \<Rightarrow> row_end t row bottom)
         in (row, stop) # row_blocks t stop bottom)
      else [])"
  by pat_completeness auto
termination
  by (relation "measure (\<lambda>(t, row, bottom). bottom - row)")
    (auto simp: row_end_def next_tile_decreases split: option.split)

declare row_blocks.simps [simp del]

type_synonym scene_mask = "(occlusion \<times> nat) option"

definition mask_spans :: "scene_mask \<Rightarrow> nat \<Rightarrow> nat \<Rightarrow> nat \<Rightarrow> (nat \<times> nat) list option" where
  "mask_spans m row left right =
     (case m of
        None \<Rightarrow> Some (if left < right then [(left, right)] else [])
      | Some (occ, index) \<Rightarrow> visible_spans occ row left right index)"

section \<open>Boards at their own size\<close>

definition native_row ::
  "blitter \<Rightarrow> bool \<Rightarrow> screen_rect \<Rightarrow> texture \<Rightarrow> texture_region \<Rightarrow> nat \<Rightarrow> nat \<Rightarrow> nat \<times> nat \<Rightarrow> nat \<Rightarrow> u16 list \<Rightarrow> u16 list option" where
  "native_row blitter wire rect texture region stride y0 = (\<lambda>(start, stop) y pixels.
     (let source_x = unat (tr_source_x region) + as_usize (int start - sr_x rect);
          source = (unat (tr_source_y region) + as_usize (int y - sr_y rect)) * unat (tr_stride region) + source_x;
          alpha = (if coverage_is_alpha (tx_coverage texture) then Some (coverage_alpha (tx_coverage texture)) else None)
      in update_slice ((y - y0) * stride + start) ((y - y0) * stride + stop)
           (\<lambda>destination.
              case tx_coverage texture of
                Cutout bits _ \<Rightarrow> bl_cutout blitter destination (tx_pixels texture) source bits wire
              | _ \<Rightarrow> bl_blit_from blitter destination (tx_pixels texture) source alpha wire)
           pixels))"

definition raster_native ::
  "band_target \<Rightarrow> projected_billboard \<Rightarrow> texture \<Rightarrow> texture_region \<Rightarrow> bool \<Rightarrow> scene_mask \<times> blitter \<Rightarrow>
   (u32 \<times> band_target) option" where
  "raster_native target projected texture region big_endian = (\<lambda>(m, blitter).
     (let rect = pb_screen_rect projected;
          left = nat (max (sr_x rect) 0);
          right = as_usize (min (sat_i32 (sr_x rect + sr_width rect)) VIEWPORT_WIDTH);
          upper = max (nat (max (sr_y rect) 0)) (bt_y target);
          bottom = min (as_usize (min (sat_i32 (sr_y rect + sr_height rect)) VIEWPORT_HEIGHT)) (bt_y target + bt_rows target)
      in map_option (\<lambda>(samples, pixels). (samples, target\<lparr>bt_pixels := pixels\<rparr>))
           (fold_option (\<lambda>(row, row_end) state.
              Option.bind (mask_spans m row left right) (\<lambda>spans.
                fold_option (\<lambda>(start, stop) (samples, pixels).
                    map_option (Pair (samples + of_nat ((stop - start) * (row_end - row))))
                      (fold_option
                        (native_row blitter big_endian rect texture region (bt_stride target) (bt_y target) (start, stop))
                        [row..<row_end] pixels))
                  spans state))
              (row_blocks (map_option (oc_tile \<circ> fst) m) upper bottom) (0, bt_pixels target))))"

section \<open>Sampled boards\<close>

definition column_of :: "u16 \<Rightarrow> u32 \<Rightarrow> column_sample" where
  "column_of source_x coordinate =
     \<lparr>cl_first = source_x + ucast (drop_bit 16 coordinate), cl_fraction = ucast coordinate\<rparr>"

definition row_span :: "texture \<Rightarrow> texture_region \<Rightarrow> bool \<Rightarrow> column_sample list \<Rightarrow> u32 \<Rightarrow> sampled_span" where
  "row_span texture region bilinear columns coordinate =
     (let sy = unat (drop_bit 16 coordinate);
          first_row = (unat (tr_source_y region) + sy) * unat (tr_stride region);
          second_row = (unat (tr_source_y region) + min (sy + 1) (unat (tr_height region) - 1)) * unat (tr_stride region)
      in \<lparr>sp_texture = texture, sp_columns = columns, sp_rows = (first_row, second_row),
          sp_last_column = tr_source_x region + tr_width region - 1,
          sp_fraction_y = ucast coordinate, sp_bilinear = bilinear\<rparr>)"

record raster_rows =
  rw_origin :: nat
  rw_stride :: nat
  rw_left :: nat
  rw_top :: nat
  rw_bottom :: nat
  rw_columns :: "column_sample list"
  rw_y :: axis_stepper
  rw_region :: texture_region

definition draw_row ::
  "raster_rows \<Rightarrow> texture \<Rightarrow> texture_filter \<Rightarrow> bool \<Rightarrow> blitter \<Rightarrow> nat \<Rightarrow> axis_stepper \<times> u16 list \<Rightarrow> (axis_stepper \<times> u16 list) option" where
  "draw_row self texture sampling big_endian blitter destination_y = (\<lambda>(y, framebuffer).
     (let (coordinate, y) = axis_take y;
          start = (destination_y - rw_origin self) * rw_stride self + rw_left self
      in map_option (Pair y)
           (update_slice start (start + length (rw_columns self))
              (\<lambda>destination. bl_sample blitter destination
                 (row_span texture (rw_region self) (sampling = FBilinear) (rw_columns self) coordinate) big_endian)
              framebuffer)))"

definition draw_rows ::
  "raster_rows \<Rightarrow> texture \<Rightarrow> texture_filter \<Rightarrow> bool \<Rightarrow> blitter \<Rightarrow> u16 list \<Rightarrow> u16 list option" where
  "draw_rows self texture sampling big_endian blitter framebuffer =
     map_option snd (fold_option (draw_row self texture sampling big_endian blitter)
       [rw_top self..<rw_bottom self] (rw_y self, framebuffer))"

definition dispatch_visible ::
  "raster_rows \<Rightarrow> u16 list \<Rightarrow> texture \<Rightarrow> texture_filter \<Rightarrow> bool \<Rightarrow> scene_mask \<times> blitter \<Rightarrow> (u32 \<times> u16 list) option" where
  "dispatch_visible self framebuffer texture sampling big_endian = (\<lambda>(m, blitter).
     (case m of
        None \<Rightarrow>
          map_option (Pair (of_nat (length (rw_columns self) * (rw_bottom self - rw_top self))))
            (draw_rows self texture sampling big_endian blitter framebuffer)
      | Some (occ, index) \<Rightarrow>
          map_option (\<lambda>(y, samples, framebuffer). (samples, framebuffer))
            (fold_option (\<lambda>(row, row_end) (y, samples, framebuffer).
               Option.bind (visible_spans occ row (rw_left self) (rw_left self + length (rw_columns self)) index) (\<lambda>spans.
               Option.bind
                 (fold_option (\<lambda>(start, stop) (samples, framebuffer).
                    Option.bind (slice_of (start - rw_left self) (stop - rw_left self) (rw_columns self)) (\<lambda>columns.
                      map_option (Pair (samples + of_nat ((stop - start) * (row_end - row))))
                        (draw_rows (self\<lparr>rw_left := start, rw_top := row, rw_bottom := row_end, rw_columns := columns, rw_y := y\<rparr>)
                           texture sampling big_endian blitter framebuffer)))
                   spans (samples, framebuffer))
                 (\<lambda>(samples, framebuffer). Some (snd (axis_takes (row_end - row) y), samples, framebuffer))))
              (row_blocks (Some (oc_tile occ)) (rw_top self) (rw_bottom self)) (rw_y self, 0, framebuffer))))"

section \<open>One billboard\<close>

definition is_native :: "projected_billboard \<Rightarrow> texture_region \<Rightarrow> bool" where
  "is_native projected region \<longleftrightarrow> pb_filter projected = FNearest \<and>
     sr_width (pb_screen_rect projected) = uint (tr_width region) \<and>
     sr_height (pb_screen_rect projected) = uint (tr_height region)"

text \<open>The multiplication of \<open>stride\<close> panics when it overflows a 64-bit \<open>usize\<close>.\<close>

definition raster_billboard_masked ::
  "u16 list \<Rightarrow> nat \<Rightarrow> projected_billboard \<Rightarrow> texture \<Rightarrow> texture_region \<Rightarrow> bool \<Rightarrow> scene_mask \<times> blitter \<Rightarrow>
   ((raster_error + raster_stats) \<times> u16 list) option" where
  "raster_billboard_masked framebuffer stride projected texture region big_endian = (\<lambda>(m, blitter).
     if stride < nat VIEWPORT_WIDTH then Some (Inl InvalidFramebuffer, framebuffer)
     else if stride * nat VIEWPORT_HEIGHT \<ge> 2 ^ 64 then None
     else if length framebuffer < stride * nat VIEWPORT_HEIGHT then Some (Inl InvalidFramebuffer, framebuffer)
     else
       (case validate_texture texture region of
          Inl e \<Rightarrow> Some (Inl e, framebuffer)
        | Inr _ \<Rightarrow>
            (let rect = pb_screen_rect projected;
                 left = max (sr_x rect) 0;
                 upper = max (sr_y rect) 0;
                 right = min (sat_i32 (sr_x rect + sr_width rect)) VIEWPORT_WIDTH;
                 bottom = min (sat_i32 (sr_y rect + sr_height rect)) VIEWPORT_HEIGHT;
                 unchanged = Some (Inr \<lparr>rs_nearest_samples = 0, rs_bilinear_samples = 0\<rparr>, framebuffer)
             in if sr_width rect \<le> 0 \<or> sr_height rect \<le> 0 then Some (Inl InvalidTexture, framebuffer)
                else if left \<ge> right \<or> upper \<ge> bottom then unchanged
                else Option.bind
                  (case m of
                     None \<Rightarrow> Some True
                   | Some (occ, index) \<Rightarrow> has_visible_span occ (nat upper) (nat bottom) (nat left) (nat right) index)
                  (\<lambda>any_visible.
                   if \<not> any_visible then unchanged
                   else if is_native projected region then
                     (case band_target_new framebuffer stride 0 (nat VIEWPORT_HEIGHT) of
                        Inl e \<Rightarrow> Some (Inl e, framebuffer)
                      | Inr target \<Rightarrow>
                          map_option (\<lambda>(samples, target).
                              (Inr \<lparr>rs_nearest_samples = samples, rs_bilinear_samples = 0\<rparr>, bt_pixels target))
                            (raster_native target projected texture region big_endian (m, blitter)))
                   else
                     (let columns = map (column_of (tr_source_x region))
                            (fst (axis_takes (nat (right - left)) (axis_new (tr_width region) (sr_width rect) (left - sr_x rect))));
                          rows = \<lparr>rw_origin = 0, rw_stride = stride, rw_left = nat left, rw_top = nat upper,
                                  rw_bottom = nat bottom, rw_columns = columns,
                                  rw_y = axis_new (tr_height region) (sr_height rect) (upper - sr_y rect),
                                  rw_region = region\<rparr>
                      in map_option (\<lambda>(samples, framebuffer).
                             (Inr (case pb_filter projected of
                                FNearest \<Rightarrow> \<lparr>rs_nearest_samples = samples, rs_bilinear_samples = 0\<rparr>
                              | FBilinear \<Rightarrow> \<lparr>rs_nearest_samples = 0, rs_bilinear_samples = samples\<rparr>), framebuffer))
                           (dispatch_visible rows framebuffer texture (pb_filter projected) big_endian (m, blitter)))))))"

definition raster_billboard_ordered ::
  "u16 list \<Rightarrow> nat \<Rightarrow> projected_billboard \<Rightarrow> texture \<Rightarrow> texture_region \<Rightarrow> bool \<Rightarrow>
   ((raster_error + raster_stats) \<times> u16 list) option" where
  "raster_billboard_ordered framebuffer stride projected texture region big_endian =
     raster_billboard_masked framebuffer stride projected texture region big_endian (None, ScalarBlitter)"

definition raster_billboard ::
  "u16 list \<Rightarrow> nat \<Rightarrow> projected_billboard \<Rightarrow> texture \<Rightarrow> ((raster_error + raster_stats) \<times> u16 list) option" where
  "raster_billboard framebuffer stride projected texture =
     raster_billboard_ordered framebuffer stride projected texture (full_texture_region (tx_size texture)) False"

definition raster_billboard_be ::
  "u16 list \<Rightarrow> nat \<Rightarrow> projected_billboard \<Rightarrow> texture \<Rightarrow> ((raster_error + raster_stats) \<times> u16 list) option" where
  "raster_billboard_be framebuffer stride projected texture =
     raster_billboard_ordered framebuffer stride projected texture (full_texture_region (tx_size texture)) True"

definition raster_billboard_region_be ::
  "u16 list \<Rightarrow> nat \<Rightarrow> projected_billboard \<Rightarrow> texture \<Rightarrow> texture_region \<Rightarrow> ((raster_error + raster_stats) \<times> u16 list) option" where
  "raster_billboard_region_be framebuffer stride projected texture region =
     raster_billboard_ordered framebuffer stride projected texture region True"

section \<open>The reference pixel\<close>

text \<open>
  A board's effect on one pixel, by exact division: the coordinate of the pixel in the region in
  Q16.16, rounded down, then the sampler of the span writers. It knows of no clipping, no spans, no
  stepping and no copying of rows.
\<close>

definition exact_coordinate :: "u16 \<Rightarrow> int \<Rightarrow> int \<Rightarrow> u32" where
  "exact_coordinate source destination offset = of_nat (nat offset * (unat source * 65536) div nat destination)"

definition board_pixel :: "bool \<Rightarrow> scene_billboard \<Rightarrow> nat \<Rightarrow> nat \<Rightarrow> u16 \<Rightarrow> u16 option" where
  "board_pixel wire b x y dst =
     (let r = board_rect b; region = sb_region b
      in if in_rect r x y then
           sample_pixel
             (row_span (sb_texture b) region (pb_filter (sb_projected b) = FBilinear) []
                (exact_coordinate (tr_height region) (sr_height r) (int y - sr_y r)))
             wire dst
             (column_of (tr_source_x region) (exact_coordinate (tr_width region) (sr_width r) (int x - sr_x r)))
         else Some dst)"

text \<open>Its total form, for boards that are well formed.\<close>

definition shaded :: "bool \<Rightarrow> scene_billboard \<Rightarrow> nat \<Rightarrow> nat \<Rightarrow> u16 \<Rightarrow> u16" where
  "shaded wire b x y dst = the (board_pixel wire b x y dst)"

lemma exact_coordinate_nat:
  assumes "nat offset < nat destination"
  shows "unat (exact_coordinate source destination offset) = nat offset * (unat source * 65536) div nat destination"
    and "unat (drop_bit 16 (exact_coordinate source destination offset)) = nat offset * unat source div nat destination"
    and "nat offset * unat source div nat destination < unat source \<or> source = 0"
proof -
  let ?k = "nat offset" and ?d = "nat destination" and ?s = "unat source"
  have s: "?s < 65536" using unsigned_less [of source, where ?'a = nat] by simp
  have "?k * (?s * 65536) div ?d \<le> ?s * 65536" using axis_quotient_bound [of ?k ?d "?s * 65536"] assms by simp
  also have "\<dots> < 2 ^ 32" using s by simp
  finally show u: "unat (exact_coordinate source destination offset) = ?k * (?s * 65536) div ?d"
    by (simp add: exact_coordinate_def unat_of_nat del: of_nat_mult)
  have "?k * (?s * 65536) div ?d div 65536 = (?k * ?s * 65536) div (?d * 65536)"
    by (simp add: div_mult2_eq mult.assoc)
  also have "\<dots> = ?k * ?s div ?d" by (rule div_mult_mult2) simp
  finally show "unat (drop_bit 16 (exact_coordinate source destination offset)) = ?k * ?s div ?d"
    using u by (simp add: unsigned_drop_bit_eq drop_bit_eq_div unat_div)
  show "?k * ?s div ?d < ?s \<or> source = 0"
    using texel_less [of ?k ?d ?s 0] assms by (auto simp: texel_def unat_gt_0)
qed

lemma sample_columns:
  "sample_pixel (row_span tx region bilinear columns c) = sample_pixel (row_span tx region bilinear [] c)"
proof -
  let ?s = "row_span tx region bilinear columns c" and ?t = "row_span tx region bilinear [] c"
  have "span_indices ?s = span_indices ?t"
    by (simp add: span_indices_def row_span_def Let_def fun_eq_iff)
  moreover have "sp_texture ?s = sp_texture ?t" "sp_fraction_y ?s = sp_fraction_y ?t" "sp_bilinear ?s = sp_bilinear ?t"
    by (simp_all add: row_span_def Let_def)
  ultimately show ?thesis
    unfolding sample_pixel_def has_alpha_def kind_pixel_def filtered_alpha_pixel_def by (simp only:)
qed

text \<open>The four texels around a pixel are readable.\<close>

lemma column_first:
  assumes "board_wf b" and "in_rect (board_rect b) x y"
  shows "unat (cl_first (column_of (tr_source_x (sb_region b))
      (exact_coordinate (tr_width (sb_region b)) (sr_width (board_rect b)) (int x - sr_x (board_rect b))))) = texel_x b x"
proof -
  let ?c = "exact_coordinate (tr_width (sb_region b)) (sr_width (board_rect b)) (int x - sr_x (board_rect b))"
  have k: "nat (int x - sr_x (board_rect b)) < nat (sr_width (board_rect b))" using assms(2) by (auto simp: in_rect_def)
  note c = exact_coordinate_nat(2) [OF k, of "tr_width (sb_region b)"]
  have t: "texel_x b x = unat (tr_source_x (sb_region b)) + unat (drop_bit 16 ?c)"
    by (simp add: texel_x_def texel_def c)
  have "texel_x b x < 65536"
    using texel_bounds(1) [OF assms] board_wfD(6) [OF assms(1)]
      unsigned_less [of "ss_width (tx_size (sb_texture b))", where ?'a = nat] by simp
  then show ?thesis unfolding t column_of_def
    by (simp add: unat_word_ariths unat_ucast_fits)
qed

lemma span_rows:
  assumes "board_wf b" and "in_rect (board_rect b) x y"
    and s_def: "s = row_span (sb_texture b) (sb_region b) f []
      (exact_coordinate (tr_height (sb_region b)) (sr_height (board_rect b)) (int y - sr_y (board_rect b)))"
  shows "sp_rows s = (texel_y b y * unat (tr_stride (sb_region b)),
      (unat (tr_source_y (sb_region b)) + min (texel_y b y - unat (tr_source_y (sb_region b)) + 1) (unat (tr_height (sb_region b)) - 1)) *
        unat (tr_stride (sb_region b)))"
    and "unat (sp_last_column s) = unat (tr_source_x (sb_region b)) + unat (tr_width (sb_region b)) - 1"
proof -
  have k: "nat (int y - sr_y (board_rect b)) < nat (sr_height (board_rect b))" using assms(2) by (auto simp: in_rect_def)
  show "sp_rows s = (texel_y b y * unat (tr_stride (sb_region b)),
      (unat (tr_source_y (sb_region b)) + min (texel_y b y - unat (tr_source_y (sb_region b)) + 1) (unat (tr_height (sb_region b)) - 1)) *
        unat (tr_stride (sb_region b)))"
    by (simp add: s_def row_span_def Let_def texel_y_def texel_def exact_coordinate_nat(2) [OF k])
  let ?x = "tr_source_x (sb_region b)" and ?w = "tr_width (sb_region b)"
  have "unat ?x + unat ?w < 65536" "?w \<noteq> 0"
    using board_wfD(4,6) [OF assms(1)] unsigned_less [of "ss_width (tx_size (sb_texture b))", where ?'a = nat] by simp_all
  then have "unat (?x + ?w) = unat ?x + unat ?w" "0 < unat ?w" by (simp_all add: unat_word_ariths unat_gt_0)
  then show "unat (sp_last_column s) = unat ?x + unat ?w - 1"
    by (simp add: s_def row_span_def Let_def unat_sub word_le_nat_alt)
qed

lemma board_texel_readable:
  assumes "board_wf b" and "i < unat (tr_width (sb_region b))" and "j < unat (tr_height (sb_region b))"
    and "k = (unat (tr_source_y (sb_region b)) + j) * unat (tr_stride (sb_region b)) + (unat (tr_source_x (sb_region b)) + i)"
  shows "get (tx_pixels (sb_texture b)) k \<noteq> None" and "coverage_at (tx_coverage (sb_texture b)) k \<noteq> None"
  using validated_region_readable [OF board_wfD(1) [OF assms(1)] assms(2,3)] unfolding assms(4) Let_def by simp_all

lemma span_indices_readable:
  assumes wf: "board_wf b" and r: "in_rect (board_rect b) x y"
    and s: "s = row_span (sb_texture b) (sb_region b) f []
      (exact_coordinate (tr_height (sb_region b)) (sr_height (board_rect b)) (int y - sr_y (board_rect b)))"
    and c: "c = column_of (tr_source_x (sb_region b))
      (exact_coordinate (tr_width (sb_region b)) (sr_width (board_rect b)) (int x - sr_x (board_rect b)))"
    and i: "i \<in> set (span_indices s c)"
  shows "get (tx_pixels (sb_texture b)) i \<noteq> None" and "coverage_at (tx_coverage (sb_texture b)) i \<noteq> None"
proof -
  let ?sx = "unat (tr_source_x (sb_region b))" and ?sy = "unat (tr_source_y (sb_region b))"
  let ?w = "unat (tr_width (sb_region b))" and ?h = "unat (tr_height (sb_region b))"
  let ?st = "unat (tr_stride (sb_region b))"
  note B = texel_bounds [OF wf r] and R = span_rows [OF wf r s]
  have first: "unat (cl_first c) = texel_x b x" unfolding c by (rule column_first [OF wf r])
  have ge: "?sx \<le> texel_x b x" "?sy \<le> texel_y b y" by (simp_all add: texel_x_def texel_y_def texel_def)
  have "?sx + ?w < 65536"
    using board_wfD(6) [OF wf] unsigned_less [of "ss_width (tx_size (sb_texture b))", where ?'a = nat] by simp
  then have "unat (cl_first c + 1) = texel_x b x + 1" using first B(1) by (simp add: unat_word_ariths)
  then have nxt: "unat (min (cl_first c + 1) (sp_last_column s)) = min (texel_x b x + 1) (?sx + ?w - 1)"
    using R(2) by (simp add: min_def word_le_nat_alt)
  obtain k l where kl: "i = (?sy + k) * ?st + (?sx + l)" "k < ?h" "l < ?w"
  proof -
    let ?ks = "{texel_y b y - ?sy, min (texel_y b y - ?sy + 1) (?h - 1)}"
    let ?ls = "{texel_x b x - ?sx, min (texel_x b x + 1) (?sx + ?w - 1) - ?sx}"
    have "\<exists>k \<in> ?ks. \<exists>l \<in> ?ls. i = (?sy + k) * ?st + (?sx + l)"
      using i ge B by (auto simp: span_indices_def Let_def R(1) first nxt)
    moreover have "k < ?h" if "k \<in> ?ks" for k using that B(2) ge by auto
    moreover have "l < ?w" if "l \<in> ?ls" for l using that B(1) ge by auto
    ultimately show ?thesis using that by blast
  qed
  show "get (tx_pixels (sb_texture b)) i \<noteq> None" "coverage_at (tx_coverage (sb_texture b)) i \<noteq> None"
    using board_texel_readable [OF wf kl(3,2,1)] by simp_all
qed

lemma those_not_None: "(\<And>x. x \<in> set xs \<Longrightarrow> f x \<noteq> None) \<Longrightarrow> those (map f xs) \<noteq> None"
proof (induction xs)
  case (Cons x xs)
  obtain a where "f x = Some a" using Cons.prems [of x] by auto
  moreover obtain as where "those (map f xs) = Some as" using Cons by auto
  ultimately show ?case by simp
qed simp

lemma sample_pixel_total:
  assumes "\<And>i. i \<in> set (span_indices s c) \<Longrightarrow>
      get (tx_pixels (sp_texture s)) i \<noteq> None \<and> coverage_at (tx_coverage (sp_texture s)) i \<noteq> None"
  shows "sample_pixel s wire d c \<noteq> None"
proof -
  have p: "those (map (get (tx_pixels (sp_texture s))) (span_indices s c)) \<noteq> None"
    and a: "those (map (\<lambda>i. map_option ucast (coverage_at (tx_coverage (sp_texture s)) i)) (span_indices s c)) \<noteq> (None :: u32 list option)"
    using assms by (force intro!: those_not_None)+
  have "span_indices s c ! 0 \<in> set (span_indices s c)" by (simp add: span_indices_def Let_def)
  from assms [OF this] p a show ?thesis
    by (auto simp: sample_pixel_def filtered_alpha_pixel_def kind_pixel_def Let_def Option.bind_eq_None_conv)
qed

lemma board_pixel_total:
  assumes "board_wf b"
  shows "board_pixel wire b x y d = Some (shaded wire b x y d)"
proof -
  have "board_pixel wire b x y d \<noteq> None"
    using span_indices_readable [OF assms _ refl refl] sample_pixel_total
    by (fastforce simp: board_pixel_def Let_def row_span_def)
  then show ?thesis by (simp add: shaded_def)
qed

lemma sample_nearest:
  assumes "\<not> sp_bilinear s" and "get (tx_pixels (sp_texture s)) (span_indices s c ! 0) = Some p"
    and "coverage_at (tx_coverage (sp_texture s)) (span_indices s c ! 0) = Some a"
  shows "sample_pixel s wire d c = Some (put_pixel wire p a d)"
proof (cases "has_alpha s")
  case True
  then show ?thesis using assms by (simp add: sample_pixel_def kind_pixel_def Let_def put_pixel_def del: not_None_eq)
next
  case False
  then have "a = 255" using assms(3) by (cases "tx_coverage (sp_texture s)") (auto simp: has_alpha_def)
  then show ?thesis using False assms by (simp add: sample_pixel_def kind_pixel_def Let_def)
qed

lemma sample_opaque:
  assumes "tx_coverage (sp_texture s) = Opaque"
  shows "sample_pixel s wire d c = sample_pixel s wire d' c"
proof -
  have "\<not> has_alpha s" using assms by (simp add: has_alpha_def)
  then show ?thesis by (simp add: sample_pixel_def kind_pixel_def Let_def put_pixel_def)
qed

text \<open>Without a filter the pixel is the texel it falls on.\<close>

lemma shaded_nearest:
  assumes wf: "board_wf b" and r: "in_rect (board_rect b) x y" and n: "pb_filter (sb_projected b) = FNearest"
    and i: "i = texel_y b y * unat (tr_stride (sb_region b)) + texel_x b x"
  shows "shaded wire b x y d =
    put_pixel wire (tx_pixels (sb_texture b) ! i) (the (coverage_at (tx_coverage (sb_texture b)) i)) d"
proof -
  define s where "s = row_span (sb_texture b) (sb_region b) False []
      (exact_coordinate (tr_height (sb_region b)) (sr_height (board_rect b)) (int y - sr_y (board_rect b)))"
  define c where "c = column_of (tr_source_x (sb_region b))
      (exact_coordinate (tr_width (sb_region b)) (sr_width (board_rect b)) (int x - sr_x (board_rect b)))"
  have idx: "span_indices s c ! 0 = i"
    using span_rows(1) [OF wf r s_def] column_first [OF wf r] by (simp add: span_indices_def Let_def i c_def)
  then have "i \<in> set (span_indices s c)" by (auto simp: span_indices_def Let_def)
  note R = span_indices_readable [OF wf r s_def c_def this]
  then obtain p a where p: "get (tx_pixels (sb_texture b)) i = Some p" and a: "coverage_at (tx_coverage (sb_texture b)) i = Some a" by auto
  have "tx_pixels (sb_texture b) ! i = p" using p by (simp add: get_def split: if_splits)
  moreover have "sp_texture s = sb_texture b" "sp_bilinear s = False" by (simp_all add: s_def row_span_def Let_def)
  ultimately have "sample_pixel s wire d c = Some (put_pixel wire p a d)"
    using p a by (intro sample_nearest) (simp_all only: idx simp_thms)
  then show ?thesis
    using r n a \<open>tx_pixels (sb_texture b) ! i = p\<close> by (simp add: shaded_def board_pixel_def Let_def s_def c_def)
qed

lemma shaded_outside: "\<not> in_rect (board_rect b) x y \<Longrightarrow> shaded wire b x y d = d"
  by (simp add: shaded_def board_pixel_def Let_def)

text \<open>Where a board is opaque nothing behind it matters.\<close>

lemma shaded_opaque:
  assumes "board_wf b" and "opaque_at b x y"
  shows "shaded wire b x y d = shaded wire b x y d'"
proof (cases "tx_coverage (sb_texture b) = Opaque")
  case True
  then have "sample_pixel (row_span (sb_texture b) region f [] c) wire d column =
      sample_pixel (row_span (sb_texture b) region f [] c) wire d' column" for region f c column
    by (intro sample_opaque) (simp add: row_span_def Let_def)
  then show ?thesis using assms(2) by (simp add: shaded_def board_pixel_def opaque_at_def Let_def)
next
  case False
  then show ?thesis
    using assms(2) shaded_nearest [OF assms(1) _ _ refl] by (simp add: opaque_at_def put_pixel_def)
qed

section \<open>Shading regions of a target\<close>

text \<open>
  What every drawing step does to the words of a target: those of a set of pixels are changed, each
  by itself, and the others kept. \<open>y0\<close> is the first screen row of the target.
\<close>

definition shade :: "nat \<Rightarrow> nat \<Rightarrow> (nat \<Rightarrow> nat \<Rightarrow> bool) \<Rightarrow> (nat \<Rightarrow> nat \<Rightarrow> u16 \<Rightarrow> u16) \<Rightarrow> u16 list \<Rightarrow> u16 list" where
  "shade stride y0 R f pixels =
     map (\<lambda>i. if R (i mod stride) (y0 + i div stride) then f (i mod stride) (y0 + i div stride) (pixels ! i) else pixels ! i)
       [0..<length pixels]"

lemma length_shade [simp]: "length (shade stride y0 R f pixels) = length pixels"
  by (simp add: shade_def)

lemma nth_shade: "i < length pixels \<Longrightarrow> shade stride y0 R f pixels ! i =
    (if R (i mod stride) (y0 + i div stride) then f (i mod stride) (y0 + i div stride) (pixels ! i) else pixels ! i)"
  by (simp add: shade_def)

lemma shade_none: "(\<And>x y. \<not> R x y) \<Longrightarrow> shade stride y0 R f pixels = pixels"
  by (auto simp: nth_shade intro: nth_equalityI)

lemma shade_shade:
  "(\<And>x y. R x y \<Longrightarrow> \<not> R' x y) \<Longrightarrow>
   shade stride y0 R' f (shade stride y0 R f pixels) = shade stride y0 (\<lambda>x y. R x y \<or> R' x y) f pixels"
  by (auto simp: nth_shade intro!: nth_equalityI)

lemma fold_shade:
  assumes "\<And>z pixels. z \<in> set zs \<Longrightarrow> length pixels = n \<Longrightarrow> step z pixels = Some (shade stride y0 (R z) f pixels)"
    and "sorted_wrt (\<lambda>z z'. \<forall>x y. R z x y \<longrightarrow> \<not> R z' x y) zs" and "length pixels = n"
  shows "fold_option step zs pixels = Some (shade stride y0 (\<lambda>x y. \<exists>z \<in> set zs. R z x y) f pixels)"
  using assms
proof (induction zs arbitrary: pixels)
  case (Cons z zs)
  have "fold_option step zs (shade stride y0 (R z) f pixels) =
      Some (shade stride y0 (\<lambda>x y. \<exists>z \<in> set zs. R z x y) f (shade stride y0 (R z) f pixels))"
    using Cons.prems by (intro Cons.IH) auto
  also have "\<dots> = Some (shade stride y0 (\<lambda>x y. R z x y \<or> (\<exists>z \<in> set zs. R z x y)) f pixels)"
    using Cons.prems(2) by (subst shade_shade) auto
  finally show ?case using Cons.prems by simp
qed (simp add: shade_none)

text \<open>A write into one row of the target.\<close>

lemma update_slice_shade:
  assumes "s \<le> e" and "e \<le> stride" and "0 < stride" and "y0 \<le> y" and "(y - y0) * stride + e \<le> length pixels"
    and op: "\<And>dst. length dst = e - s \<Longrightarrow> op dst = Some (map (\<lambda>k. f (s + k) y (dst ! k)) [0..<e - s])"
  shows "update_slice ((y - y0) * stride + s) ((y - y0) * stride + e) op pixels =
    Some (shade stride y0 (\<lambda>x y'. y' = y \<and> s \<le> x \<and> x < e) f pixels)"
proof -
  let ?a = "(y - y0) * stride + s" and ?b = "(y - y0) * stride + e"
  let ?dst = "map (\<lambda>k. pixels ! (?a + k)) [0..<e - s]"
  let ?new = "map (\<lambda>k. f (s + k) y (pixels ! (?a + k))) [0..<e - s]"
  have slice: "slice_of ?a ?b pixels = Some ?dst" using assms(1,5) by (subst slice_of_Some) simp_all
  have "op ?dst = Some ?new" using op [of ?dst] by simp
  then have "update_slice ?a ?b op pixels = Some (take ?a pixels @ ?new @ drop ?b pixels)"
    by (simp add: update_slice_def slice)
  also have "take ?a pixels @ ?new @ drop ?b pixels = shade stride y0 (\<lambda>x y'. y' = y \<and> s \<le> x \<and> x < e) f pixels"
  proof (rule nth_equalityI)
    show "length (take ?a pixels @ ?new @ drop ?b pixels) = length (shade stride y0 (\<lambda>x y'. y' = y \<and> s \<le> x \<and> x < e) f pixels)"
      using assms(1,5) by simp
    fix i assume "i < length (take ?a pixels @ ?new @ drop ?b pixels)"
    then have i: "i < length pixels" using assms(1,5) by simp
    have at: "y0 + i div stride = y \<and> s \<le> i mod stride \<and> i mod stride < e \<longleftrightarrow> ?a \<le> i \<and> i < ?b"
    proof
      assume "y0 + i div stride = y \<and> s \<le> i mod stride \<and> i mod stride < e"
      then have "i div stride = y - y0" "s \<le> i mod stride" "i mod stride < e" by auto
      then show "?a \<le> i \<and> i < ?b" using div_mult_mod_eq [of i stride] by simp
    next
      assume r: "?a \<le> i \<and> i < ?b"
      have "i div stride = y - y0" using r assms(2) by (intro div_nat_eqI) (auto simp: mult.commute)
      then show "y0 + i div stride = y \<and> s \<le> i mod stride \<and> i mod stride < e"
        using r assms(4) div_mult_mod_eq [of i stride] by simp
    qed
    have mod: "i mod stride = s + (i - ?a)" if "?a \<le> i" "i < ?b"
      using at that div_mult_mod_eq [of i stride] by (metis add.assoc add_diff_cancel_left' add_diff_inverse_nat not_le)
    show "(take ?a pixels @ ?new @ drop ?b pixels) ! i = shade stride y0 (\<lambda>x y'. y' = y \<and> s \<le> x \<and> x < e) f pixels ! i"
      using i at mod assms(1,5) by (auto simp: nth_shade nth_append)
  qed
  finally show ?thesis .
qed

lemma fold_shade_counted:
  assumes "\<And>z k pixels. z \<in> set zs \<Longrightarrow> length pixels = n \<Longrightarrow> \<exists>k'. step z (k, pixels) = Some (k', shade stride y0 (R z) f pixels)"
    and "sorted_wrt (\<lambda>z z'. \<forall>x y. R z x y \<longrightarrow> \<not> R z' x y) zs" and "length pixels = n"
  shows "\<exists>k'. fold_option step zs (k, pixels) = Some (k', shade stride y0 (\<lambda>x y. \<exists>z \<in> set zs. R z x y) f pixels)"
  using assms
proof (induction zs arbitrary: k pixels)
  case (Cons z zs)
  obtain k1 where k1: "step z (k, pixels) = Some (k1, shade stride y0 (R z) f pixels)"
    using Cons.prems(1) [of z pixels k] Cons.prems(3) by auto
  have "\<exists>k'. fold_option step zs (k1, shade stride y0 (R z) f pixels) =
      Some (k', shade stride y0 (\<lambda>x y. \<exists>z \<in> set zs. R z x y) f (shade stride y0 (R z) f pixels))"
    using Cons.prems by (intro Cons.IH) auto
  moreover have "shade stride y0 (\<lambda>x y. \<exists>z \<in> set zs. R z x y) f (shade stride y0 (R z) f pixels) =
      shade stride y0 (\<lambda>x y. \<exists>z \<in> set (z # zs). R z x y) f pixels"
    using Cons.prems(2) by (subst shade_shade) auto
  ultimately show ?case using k1 by simp
qed (simp add: shade_none)

section \<open>Spans and blocks\<close>

text \<open>Spans that are exactly the stretches of \<open>v\<close> between \<open>x\<close> and \<open>e\<close>, from left to right.\<close>

fun spans_ok :: "(nat \<Rightarrow> bool) \<Rightarrow> nat \<Rightarrow> nat \<Rightarrow> (nat \<times> nat) list \<Rightarrow> bool" where
  "spans_ok v x e [] \<longleftrightarrow> (\<forall>z. x \<le> z \<and> z < e \<longrightarrow> \<not> v z)"
| "spans_ok v x e ((s, s') # spans) \<longleftrightarrow>
     x \<le> s \<and> s < s' \<and> s' \<le> e \<and> (\<forall>z. x \<le> z \<and> z < s \<longrightarrow> \<not> v z) \<and> (\<forall>z. s \<le> z \<and> z < s' \<longrightarrow> v z) \<and> spans_ok v s' e spans"

lemma spans_within:
  "spans_ok v x e spans \<Longrightarrow> (s, s') \<in> set spans \<Longrightarrow> x \<le> s \<and> s < s' \<and> s' \<le> e"
proof (induction v x e spans rule: spans_ok.induct)
  case (2 v x e a b spans)
  then show ?case by (cases "(s, s') = (a, b)") (fastforce dest: order_trans)+
qed simp

lemma spans_sorted: "spans_ok v x e spans \<Longrightarrow> sorted_wrt (\<lambda>p q. snd p \<le> fst q) spans"
  by (induction v x e spans rule: spans_ok.induct) (auto dest: spans_within)

lemma spans_cover:
  "spans_ok v x e spans \<Longrightarrow> (\<exists>p \<in> set spans. fst p \<le> z \<and> z < snd p) \<longleftrightarrow> x \<le> z \<and> z < e \<and> v z"
proof (induction v x e spans rule: spans_ok.induct)
  case (2 v x e a b spans)
  have ok: "spans_ok v b e spans" "x \<le> a" "a < b" "b \<le> e" "\<And>z. x \<le> z \<Longrightarrow> z < a \<Longrightarrow> \<not> v z" "\<And>z. a \<le> z \<Longrightarrow> z < b \<Longrightarrow> v z"
    using "2.prems" by auto
  have IH: "(\<exists>p \<in> set spans. fst p \<le> z \<and> z < snd p) \<longleftrightarrow> b \<le> z \<and> z < e \<and> v z"
    using "2.IH" ok(1) by blast
  consider "z < a" | "a \<le> z" "z < b" | "b \<le> z" by linarith
  then show ?case
  proof cases
    case 1
    then show ?thesis using IH ok(3) ok(5) [of z] by auto
  next
    case 2
    then show ?thesis using ok(2-4) ok(6) [of z] by auto
  next
    case 3
    then show ?thesis using IH ok(2,3) by auto
  qed
qed auto

definition mask_wf :: "scene_mask \<Rightarrow> bool" where
  "mask_wf m \<longleftrightarrow> pred_option (occlusion_wf \<circ> fst) m"

definition mask_visible :: "scene_mask \<Rightarrow> nat \<Rightarrow> nat \<Rightarrow> bool" where
  "mask_visible m x y = (case m of None \<Rightarrow> True | Some (occ, index) \<Rightarrow> visible occ index x y)"

lemma visible_spans_ok:
  assumes "occlusion_wf self" and "y < 240" and "e \<le> 320" and "x \<le> e"
  shows "\<exists>spans. visible_spans self y x e index = Some spans \<and> spans_ok (\<lambda>z. visible self index z y) x e spans"
  using assms
proof (induction self y x e index rule: visible_spans.induct)
  case (1 self y x e index)
  note unfold = visible_spans.simps [of self y x e index]
  show ?case
  proof (cases "x < e")
    case True
    show ?thesis
    proof (rule visible_span_cases [OF "1.prems", of index])
      assume "visible_span self y x e index = Some None" "\<forall>z. x \<le> z \<and> z < e \<longrightarrow> \<not> visible self index z y"
      then show ?thesis using True unfolding unfold by simp
    next
      fix s s'
      assume some: "visible_span self y x e index = Some (Some (s, s'))" "x \<le> s" "s < s'" "s' \<le> e"
        "\<forall>z. x \<le> z \<and> z < s \<longrightarrow> \<not> visible self index z y" "\<forall>z. s \<le> z \<and> z < s' \<longrightarrow> visible self index z y"
      from "1.IH" [OF True some(1) refl refl "1.prems"(1-3) some(4)]
      obtain spans where "visible_spans self y s' e index = Some spans" "spans_ok (\<lambda>z. visible self index z y) s' e spans" by blast
      then show ?thesis using True some unfolding unfold by (intro exI [of _ "(s, s') # spans"]) simp
    qed
  next
    case False
    then show ?thesis unfolding unfold by (intro exI [of _ "[]"]) auto
  qed
qed

lemma mask_spans_ok:
  assumes "mask_wf m" and "y < 240" and "right \<le> 320" and "left \<le> right"
  shows "\<exists>spans. mask_spans m y left right = Some spans \<and> spans_ok (\<lambda>z. mask_visible m z y) left right spans"
proof (cases m)
  case (Some p)
  then show ?thesis
    using visible_spans_ok [of "fst p" y right left "snd p"] assms
    by (cases p) (simp add: mask_wf_def mask_visible_def mask_spans_def)
qed (simp add: mask_visible_def mask_spans_def)

text \<open>Blocks of rows from \<open>row\<close> to \<open>bottom\<close>, each within one row of tiles.\<close>

fun blocks_ok :: "screen_tile option \<Rightarrow> nat \<Rightarrow> nat \<Rightarrow> (nat \<times> nat) list \<Rightarrow> bool" where
  "blocks_ok t row bottom [] \<longleftrightarrow> bottom \<le> row"
| "blocks_ok t row bottom ((a, b) # blocks) \<longleftrightarrow>
     a = row \<and> a < b \<and> b \<le> bottom \<and>
     pred_option (\<lambda>t. \<forall>z. a \<le> z \<and> z < b \<longrightarrow> z div tile_pixels t = a div tile_pixels t) t \<and> blocks_ok t b bottom blocks"

lemma row_blocks_ok: "blocks_ok t row bottom (row_blocks t row bottom)"
proof (induction t row bottom rule: row_blocks.induct)
  case (1 t row bottom)
  show ?case
  proof (cases "row < bottom")
    case True
    let ?stop = "case t of None \<Rightarrow> bottom | Some t \<Rightarrow> row_end t row bottom"
    have stop: "row < ?stop" "?stop \<le> bottom"
      using True row_end_bounds(1) [OF True] row_end_bounds(2) [of _ row bottom] by (simp_all split: option.split)
    have "pred_option (\<lambda>t. \<forall>z. row \<le> z \<and> z < ?stop \<longrightarrow> z div tile_pixels t = row div tile_pixels t) t"
      by (cases t) (auto intro: row_end_same_tile)
    then show ?thesis
      using True "1.IH" [OF True refl] stop
      by (subst row_blocks.simps) (simp only: Let_def if_True blocks_ok.simps simp_thms)
  qed (subst row_blocks.simps, simp)
qed

lemma blocks_sorted: "blocks_ok t row bottom blocks \<Longrightarrow>
    sorted_wrt (\<lambda>p q. snd p \<le> fst q) blocks \<and> (\<forall>p \<in> set blocks. row \<le> fst p \<and> fst p < snd p \<and> snd p \<le> bottom)"
proof (induction t row bottom blocks rule: blocks_ok.induct)
  case (2 t row bottom a b blocks)
  then show ?case by fastforce
qed simp

lemma blocks_cover: "blocks_ok t row bottom blocks \<Longrightarrow>
    (\<exists>p \<in> set blocks. fst p \<le> z \<and> z < snd p) \<longleftrightarrow> row \<le> z \<and> z < bottom"
proof (induction t row bottom blocks rule: blocks_ok.induct)
  case (2 t row bottom a b blocks)
  then have "(\<exists>p \<in> set blocks. fst p \<le> z \<and> z < snd p) \<longleftrightarrow> b \<le> z \<and> z < bottom" "a = row" "a < b" "b \<le> bottom" by auto
  then show ?case by auto
qed auto

lemma blocks_tile: "blocks_ok (Some t) row bottom blocks \<Longrightarrow> (a, b) \<in> set blocks \<Longrightarrow> a \<le> z \<Longrightarrow> z < b \<Longrightarrow>
    z div tile_pixels t = a div tile_pixels t"
  by (induction "Some t" row bottom blocks rule: blocks_ok.induct) auto

section \<open>Every way of drawing shades its pixels\<close>

lemma as_usize_diff: "a \<le> int x \<Longrightarrow> int x - a < 2 ^ 64 \<Longrightarrow> as_usize (int x - a) = nat (int x - a)"
  using as_usize_nat [of "nat (int x - a)"] by (simp add: nat_less_iff)

lemma native_texel:
  assumes "board_wf b" and "is_native (sb_projected b) (sb_region b)" and "in_rect (board_rect b) x y"
  shows "texel_x b x = unat (tr_source_x (sb_region b)) + nat (int x - sr_x (board_rect b))"
    and "texel_y b y = unat (tr_source_y (sb_region b)) + nat (int y - sr_y (board_rect b))"
    and "as_usize (int x - sr_x (board_rect b)) = nat (int x - sr_x (board_rect b))"
    and "as_usize (int y - sr_y (board_rect b)) = nat (int y - sr_y (board_rect b))"
proof -
  have w: "sr_width (board_rect b) = uint (tr_width (sb_region b))" "sr_height (board_rect b) = uint (tr_height (sb_region b))"
    using assms(2) by (simp_all add: is_native_def)
  have p: "0 < unat (tr_width (sb_region b))" "0 < unat (tr_height (sb_region b))"
    using board_wfD(4,5) [OF assms(1)] by (simp_all add: unat_gt_0)
  show "texel_x b x = unat (tr_source_x (sb_region b)) + nat (int x - sr_x (board_rect b))"
    "texel_y b y = unat (tr_source_y (sb_region b)) + nat (int y - sr_y (board_rect b))"
    using p by (simp_all add: texel_x_def texel_y_def texel_def w)
  have "uint (tr_width (sb_region b)) < 2 ^ 16" "uint (tr_height (sb_region b)) < 2 ^ 16"
    using uint_lt2p [of "tr_width (sb_region b)"] uint_lt2p [of "tr_height (sb_region b)"] by simp_all
  then show "as_usize (int x - sr_x (board_rect b)) = nat (int x - sr_x (board_rect b))"
    "as_usize (int y - sr_y (board_rect b)) = nat (int y - sr_y (board_rect b))"
    using assms(3) by (auto simp: in_rect_def w intro!: as_usize_diff)
qed

lemma texel_readable:
  assumes "board_wf b" and "in_rect (board_rect b) x y"
    and "i = texel_y b y * unat (tr_stride (sb_region b)) + texel_x b x"
  shows "get (tx_pixels (sb_texture b)) i \<noteq> None" and "coverage_at (tx_coverage (sb_texture b)) i \<noteq> None"
proof -
  obtain k where k: "texel_x b x = unat (tr_source_x (sb_region b)) + k" by (simp add: texel_x_def texel_def)
  obtain l where l: "texel_y b y = unat (tr_source_y (sb_region b)) + l" by (simp add: texel_y_def texel_def)
  have "k < unat (tr_width (sb_region b))" "l < unat (tr_height (sb_region b))"
    using texel_bounds [OF assms(1,2)] unfolding k l by simp_all
  from board_texel_readable [OF assms(1) this]
  show "get (tx_pixels (sb_texture b)) i \<noteq> None" "coverage_at (tx_coverage (sb_texture b)) i \<noteq> None"
    using assms(3) unfolding k l by blast+
qed

context blitter_contract
begin

lemma native_row_shade:
  assumes wf: "board_wf bd" and n: "is_native (sb_projected bd) (sb_region bd)"
    and r: "in_rect (board_rect bd) start y" "in_rect (board_rect bd) (stop - 1) y" and "start < stop"
    and "stop \<le> stride" "y0 \<le> y" "(y - y0) * stride + stop \<le> length pixels"
  shows "native_row b wire (board_rect bd) (sb_texture bd) (sb_region bd) stride y0 (start, stop) y pixels =
    Some (shade stride y0 (\<lambda>x y'. y' = y \<and> start \<le> x \<and> x < stop) (shaded wire bd) pixels)"
proof -
  let ?px = "tx_pixels (sb_texture bd)" and ?cov = "tx_coverage (sb_texture bd)" and ?st = "unat (tr_stride (sb_region bd))"
  define source where "source = texel_y bd y * ?st + texel_x bd start"
  have near: "pb_filter (sb_projected bd) = FNearest" using n by (simp add: is_native_def)
  have in_r: "in_rect (board_rect bd) (start + k) y" if "k < stop - start" for k
    using r that by (auto simp: in_rect_def)
  have tx: "texel_x bd (start + k) = texel_x bd start + k" if "k < stop - start" for k
    using native_texel(1) [OF wf n in_r [OF that]] native_texel(1) [OF wf n r(1)] r(1)
    by (auto simp: in_rect_def nat_add_distrib nat_diff_distrib')
  have read: "get ?px (source + k) \<noteq> None \<and> coverage_at ?cov (source + k) \<noteq> None" if "k < stop - start" for k
    using texel_readable [OF wf in_r [OF that] refl] unfolding source_def tx [OF that] by (simp only: add.assoc simp_thms)
  have sh: "shaded wire bd (start + k) y d = put_pixel wire (?px ! (source + k)) (the (coverage_at ?cov (source + k))) d"
    if "k < stop - start" for k d
    using shaded_nearest [OF wf in_r [OF that] near refl] tx [OF that] by (simp add: source_def add.assoc)
  let ?src = "(unat (tr_source_y (sb_region bd)) + as_usize (int y - sr_y (board_rect bd))) * ?st +
      (unat (tr_source_x (sb_region bd)) + as_usize (int start - sr_x (board_rect bd)))"
  have src: "?src = source" using native_texel [OF wf n r(1)] by (simp add: source_def)
  let ?op = "\<lambda>dst. case ?cov of Cutout bits m \<Rightarrow> bl_cutout b dst ?px source bits wire
      | _ \<Rightarrow> bl_blit_from b dst ?px source (if coverage_is_alpha ?cov then Some (coverage_alpha ?cov) else None) wire"
  have op: "?op dst = Some (map (\<lambda>k. shaded wire bd (start + k) y (dst ! k)) [0..<stop - start])" if len: "length dst = stop - start" for dst
  proof -
    let ?l = "stop - start - 1"
    have l: "?l < stop - start" using assms(5) by simp
    have range: "source + length dst \<le> length ?px" using read [OF l] len l by (auto simp: get_def split: if_splits)
    show ?thesis
    proof (cases ?cov)
      case Opaque
      then show ?thesis using blit_from [OF range, of None] len sh by simp
    next
      case (Cutout bits m)
      then have "(source + ?l) div 8 < length bits" using read [OF l] by (auto simp: bit_get_eq split: if_splits)
      then have "div_ceil (source + length dst) 8 \<le> length bits"
        using len l by (simp add: div_ceil_def Suc_le_eq)
      then show ?thesis using cutout [OF range, of bits wire m] len sh Cutout by simp
    next
      case (Alpha8 alpha m)
      have "source + length dst \<le> length alpha" using read [OF l] len l Alpha8 by (auto simp: get_def split: if_splits)
      moreover have "the (coverage_at ?cov (source + k)) = alpha ! (source + k)" if "k < stop - start" for k
        using read [OF that] Alpha8 by (auto simp: get_def split: if_splits)
      ultimately show ?thesis using blit_from [OF range, of "Some alpha" wire] len sh Alpha8 by simp
    qed
  qed
  show ?thesis
    unfolding native_row_def Let_def prod.case src using assms(5-8) op
    by (intro update_slice_shade) simp_all
qed

lemma native_span_shade:
  assumes wf: "board_wf bd" and n: "is_native (sb_projected bd) (sb_region bd)" and "start < stop"
    and r: "\<And>x y. start \<le> x \<Longrightarrow> x < stop \<Longrightarrow> row \<le> y \<Longrightarrow> y < row' \<Longrightarrow> in_rect (board_rect bd) x y"
    and "stop \<le> stride" and "y0 \<le> row" and "\<And>y. row \<le> y \<Longrightarrow> y < row' \<Longrightarrow> (y - y0) * stride + stop \<le> length pixels"
  shows "fold_option (native_row b wire (board_rect bd) (sb_texture bd) (sb_region bd) stride y0 (start, stop)) [row..<row'] pixels =
    Some (shade stride y0 (\<lambda>x y. row \<le> y \<and> y < row' \<and> start \<le> x \<and> x < stop) (shaded wire bd) pixels)"
proof -
  have "fold_option (native_row b wire (board_rect bd) (sb_texture bd) (sb_region bd) stride y0 (start, stop)) [row..<row'] pixels =
    Some (shade stride y0 (\<lambda>x y'. \<exists>y \<in> set [row..<row']. y' = y \<and> start \<le> x \<and> x < stop) (shaded wire bd) pixels)"
    using assms by (intro fold_shade [where n = "length pixels"] native_row_shade) (auto simp: sorted_wrt_iff_nth_less)
  then show ?thesis by (simp add: conj_assoc)
qed

text \<open>A fold over blocks of rows and their spans, each shaded where it lies.\<close>

end

definition band_ok :: "nat \<Rightarrow> nat \<Rightarrow> nat \<Rightarrow> u16 list \<Rightarrow> bool" where
  "band_ok stride y0 rows pixels \<longleftrightarrow> 320 \<le> stride \<and> y0 + rows \<le> 240 \<and> rows * stride \<le> length pixels"

lemma band_row_fits:
  assumes "band_ok stride y0 rows pixels" and "y0 \<le> y" and "y < y0 + rows" and "stop \<le> stride"
  shows "(y - y0) * stride + stop \<le> length pixels"
proof -
  have "Suc (y - y0) * stride \<le> rows * stride" using assms(2,3) by (intro mult_right_mono) simp_all
  then show ?thesis using assms(1,4) unfolding band_ok_def by simp
qed

lemma block_shade:
  assumes s: "spans_ok v left right spans"
    and step: "\<And>start stop k px. left \<le> start \<Longrightarrow> start < stop \<Longrightarrow> stop \<le> right \<Longrightarrow> length px = length pixels \<Longrightarrow>
        \<exists>k'. step (start, stop) (k, px) = Some (k', shade stride y0
          (\<lambda>x y. a \<le> y \<and> y < c \<and> start \<le> x \<and> x < stop) f px)"
  shows "\<exists>k'. fold_option step spans (k, pixels) =
    Some (k', shade stride y0 (\<lambda>x y. a \<le> y \<and> y < c \<and> left \<le> x \<and> x < right \<and> v x) f pixels)"
proof -
  let ?S = "\<lambda>p x y. a \<le> y \<and> y < c \<and> fst p \<le> x \<and> x < snd p"
  have "\<exists>k'. fold_option step spans (k, pixels) = Some (k', shade stride y0 (\<lambda>x y. \<exists>p \<in> set spans. ?S p x y) f pixels)"
  proof (rule fold_shade_counted [OF _ _ refl])
    fix p k and px :: "u16 list"
    assume p: "p \<in> set spans" and l: "length px = length pixels"
    have "left \<le> fst p \<and> fst p < snd p \<and> snd p \<le> right" using spans_within [OF s] p by (cases p) auto
    then show "\<exists>k'. step p (k, px) = Some (k', shade stride y0 (?S p) f px)"
      using step [of "fst p" "snd p" px k] l by simp
  next
    show "sorted_wrt (\<lambda>p q. \<forall>x y. ?S p x y \<longrightarrow> \<not> ?S q x y) spans"
      by (rule sorted_wrt_mono_rel [OF _ spans_sorted [OF s]]) auto
  qed
  moreover have "(\<lambda>x y. \<exists>p \<in> set spans. ?S p x y) = (\<lambda>x y. a \<le> y \<and> y < c \<and> left \<le> x \<and> x < right \<and> v x)"
    using spans_cover [OF s] by (auto simp: fun_eq_iff)
  ultimately show ?thesis by simp
qed

text \<open>
  The rows of a mask, block by block and span by span: when every span is shaded, so are exactly the
  visible pixels.
\<close>

lemma fold_spans_shade:
  assumes m: "mask_wf m" and ok: "band_ok stride y0 rows pixels"
    and lr: "left \<le> right" "right \<le> 320" and ub: "y0 \<le> upper" "bottom \<le> y0 + rows"
    and step: "\<And>row row' start stop k pixels'. row < row' \<Longrightarrow> upper \<le> row \<Longrightarrow> row' \<le> bottom \<Longrightarrow> left \<le> start \<Longrightarrow>
        start < stop \<Longrightarrow> stop \<le> right \<Longrightarrow> length pixels' = length pixels \<Longrightarrow>
        \<exists>k'. step (row, row') (start, stop) (k, pixels') = Some (k', shade stride y0
          (\<lambda>x y. row \<le> y \<and> y < row' \<and> start \<le> x \<and> x < stop) f pixels')"
  shows "\<exists>k'. fold_option (\<lambda>rr state. Option.bind (mask_spans m (fst rr) left right) (\<lambda>spans. fold_option (step rr) spans state))
      (row_blocks (map_option (oc_tile \<circ> fst) m) upper bottom) (k, pixels) =
    Some (k', shade stride y0 (\<lambda>x y. upper \<le> y \<and> y < bottom \<and> left \<le> x \<and> x < right \<and> mask_visible m x y) f pixels)"
proof -
  let ?t = "map_option (oc_tile \<circ> fst) m"
  let ?blocks = "row_blocks ?t upper bottom"
  let ?R = "\<lambda>rr x y. fst rr \<le> y \<and> y < snd rr \<and> left \<le> x \<and> x < right \<and> mask_visible m x (fst rr)"
  note B = blocks_sorted [OF row_blocks_ok [of ?t upper bottom]]
  have "\<exists>k'. Option.bind (mask_spans m (fst rr) left right) (\<lambda>spans. fold_option (step rr) spans (k, pixels')) =
      Some (k', shade stride y0 (?R rr) f pixels')"
    if rr: "rr \<in> set ?blocks" and len: "length pixels' = length pixels" for rr k pixels'
  proof -
    have b: "upper \<le> fst rr" "fst rr < snd rr" "snd rr \<le> bottom" using B rr by auto
    then have "fst rr < 240" using ub ok by (simp add: band_ok_def)
    from mask_spans_ok [OF m this lr(2,1)]
    obtain spans where s: "mask_spans m (fst rr) left right = Some spans"
      "spans_ok (\<lambda>z. mask_visible m z (fst rr)) left right spans" by blast
    have "\<exists>k'. fold_option (step rr) spans (k, pixels') = Some (k', shade stride y0 (?R rr) f pixels')"
    proof (rule block_shade [OF s(2)])
      fix start stop k and px :: "u16 list"
      assume "left \<le> start" "start < stop" "stop \<le> right" "length px = length pixels'"
      then show "\<exists>k'. step rr (start, stop) (k, px) = Some (k', shade stride y0
          (\<lambda>x y. fst rr \<le> y \<and> y < snd rr \<and> start \<le> x \<and> x < stop) f px)"
        using step [of "fst rr" "snd rr" start stop px k] b len by simp
    qed
    then show ?thesis by (simp add: s(1))
  qed
  moreover have "sorted_wrt (\<lambda>p q. \<forall>x y. ?R p x y \<longrightarrow> \<not> ?R q x y) ?blocks"
    by (rule sorted_wrt_mono_rel [OF _ conjunct1 [OF B]]) auto
  ultimately have "\<exists>k'. fold_option (\<lambda>rr state. Option.bind (mask_spans m (fst rr) left right) (\<lambda>spans. fold_option (step rr) spans state))
      ?blocks (k, pixels) = Some (k', shade stride y0 (\<lambda>x y. \<exists>rr \<in> set ?blocks. ?R rr x y) f pixels)"
    by (intro fold_shade_counted) auto
  moreover have "(\<exists>rr \<in> set ?blocks. ?R rr x y) \<longleftrightarrow>
      upper \<le> y \<and> y < bottom \<and> left \<le> x \<and> x < right \<and> mask_visible m x y" for x y
  proof -
    have "mask_visible m x (fst rr) = mask_visible m x y" if rr: "rr \<in> set ?blocks" "fst rr \<le> y" "y < snd rr" for rr
    proof (cases m)
      case (Some p)
      obtain occ index where p: "p = (occ, index)" by fastforce
      have "blocks_ok (Some (oc_tile occ)) upper bottom ?blocks" using row_blocks_ok [of ?t upper bottom] Some p by simp
      from blocks_tile [OF this, of "fst rr" "snd rr" y] rr
      have "y div tile_pixels (oc_tile occ) = fst rr div tile_pixels (oc_tile occ)" by simp
      from visible_cong [OF refl this [symmetric]] show ?thesis by (simp add: mask_visible_def Some p)
    qed (simp add: mask_visible_def)
    then show ?thesis using blocks_cover [OF row_blocks_ok [of ?t upper bottom], of y] by blast
  qed
  ultimately show ?thesis by simp
qed

text \<open>Clipping one axis of a rectangle that meets the viewport.\<close>

lemma clip_axis:
  assumes "in_i32 a" and "0 < w" and "a < lim" and "0 < a + w" and "0 < lim" and "lim < 2 ^ 31"
  shows "int (nat (max a 0)) = max a 0" and "int (as_usize (min (sat_i32 (a + w)) lim)) = min (sat_i32 (a + w)) lim"
    and "nat (max a 0) < as_usize (min (sat_i32 (a + w)) lim)" and "int (as_usize (min (sat_i32 (a + w)) lim)) \<le> lim"
    and "nat (max a 0) \<le> x \<and> x < as_usize (min (sat_i32 (a + w)) lim) \<longleftrightarrow> int x < lim \<and> a \<le> int x \<and> int x < a + w"
proof -
  let ?m = "min (sat_i32 (a + w)) lim"
  have m: "0 < ?m" "?m < 2 ^ 31" using assms(4-6) by (simp_all add: sat_i32_def)
  then have "nat ?m < 2 ^ 64" by (simp add: nat_less_iff)
  from as_usize_nat [OF this] m(1) show r: "int (as_usize ?m) = ?m" by simp
  show "int (nat (max a 0)) = max a 0" by simp
  have lim: "int x < ?m \<longleftrightarrow> int x < lim \<and> int x < a + w" for x
    using assms(6) by (auto simp: sat_i32_def)
  show "nat (max a 0) \<le> x \<and> x < as_usize ?m \<longleftrightarrow> int x < lim \<and> a \<le> int x \<and> int x < a + w"
  proof -
    have "x < as_usize ?m \<longleftrightarrow> int x < int (as_usize ?m)" by simp
    then have "x < as_usize ?m \<longleftrightarrow> int x < ?m" by (simp only: r)
    moreover have "nat (max a 0) \<le> x \<longleftrightarrow> a \<le> int x" by (simp add: nat_le_iff)
    ultimately show ?thesis using lim [of x] by blast
  qed
  have "max a 0 < ?m" using lim [of "nat (max a 0)"] assms by simp
  then show "nat (max a 0) < as_usize ?m" using r by linarith
  show "int (as_usize ?m) \<le> lim" unfolding r by simp
qed

definition meets_viewport :: "screen_rect \<Rightarrow> bool" where
  "meets_viewport r \<longleftrightarrow> sr_x r < 320 \<and> sr_y r < 240 \<and> 0 < sr_x r + sr_width r \<and> 0 < sr_y r + sr_height r"

lemma meets_viewport: "x < 320 \<Longrightarrow> y < 240 \<Longrightarrow> in_rect r x y \<Longrightarrow> meets_viewport r"
  by (auto simp: meets_viewport_def in_rect_def)

lemma clip_board:
  assumes "board_wf b" and "meets_viewport (board_rect b)"
  defines "r \<equiv> board_rect b"
  defines "left \<equiv> nat (max (sr_x r) 0)" and "right \<equiv> as_usize (min (sat_i32 (sr_x r + sr_width r)) VIEWPORT_WIDTH)"
    and "upper \<equiv> nat (max (sr_y r) 0)" and "bottom \<equiv> as_usize (min (sat_i32 (sr_y r + sr_height r)) VIEWPORT_HEIGHT)"
  shows "left < right" and "right \<le> 320" and "upper < bottom" and "bottom \<le> 240"
    and "left \<le> x \<and> x < right \<and> upper \<le> y \<and> y < bottom \<longleftrightarrow> x < 320 \<and> y < 240 \<and> in_rect r x y"
    and "int left = max (sr_x r) 0" and "int upper = max (sr_y r) 0"
    and "int right = min (sat_i32 (sr_x r + sr_width r)) VIEWPORT_WIDTH"
    and "int bottom = min (sat_i32 (sr_y r + sr_height r)) VIEWPORT_HEIGHT"
proof -
  have w: "in_i32 (sr_x r)" "0 < sr_width r" "sr_x r < VIEWPORT_WIDTH" "0 < sr_x r + sr_width r" "0 < VIEWPORT_WIDTH" "VIEWPORT_WIDTH < 2 ^ 31"
    and h: "in_i32 (sr_y r)" "0 < sr_height r" "sr_y r < VIEWPORT_HEIGHT" "0 < sr_y r + sr_height r" "0 < VIEWPORT_HEIGHT" "VIEWPORT_HEIGHT < 2 ^ 31"
    using assms(1,2) board_wfD(2,3) [OF assms(1)]
    by (simp_all add: board_wf_def meets_viewport_def r_def VIEWPORT_WIDTH_def VIEWPORT_HEIGHT_def)
  note W = clip_axis [OF w, folded left_def right_def] and H = clip_axis [OF h, folded upper_def bottom_def]
  show "left < right" "upper < bottom" using W(3) H(3) .
  show "right \<le> 320" "bottom \<le> 240" using W(4) H(4) by (simp_all add: VIEWPORT_WIDTH_def VIEWPORT_HEIGHT_def)
  show "left \<le> x \<and> x < right \<and> upper \<le> y \<and> y < bottom \<longleftrightarrow> x < 320 \<and> y < 240 \<and> in_rect r x y"
    using W(5) [of x] H(5) [of y] by (auto simp: in_rect_def VIEWPORT_WIDTH_def VIEWPORT_HEIGHT_def)
  show "int left = max (sr_x r) 0" "int upper = max (sr_y r) 0" using W(1) H(1) .
  show "int right = min (sat_i32 (sr_x r + sr_width r)) VIEWPORT_WIDTH"
    "int bottom = min (sat_i32 (sr_y r + sr_height r)) VIEWPORT_HEIGHT" using W(2) H(2) .
qed

text \<open>The pixels of a band that a board with a mask may draw.\<close>

definition board_region :: "scene_billboard \<Rightarrow> scene_mask \<Rightarrow> nat \<Rightarrow> nat \<Rightarrow> nat \<Rightarrow> nat \<Rightarrow> bool" where
  "board_region b m y0 rows x y \<longleftrightarrow>
     x < 320 \<and> y0 \<le> y \<and> y < y0 + rows \<and> in_rect (board_rect b) x y \<and> mask_visible m x y"

context blitter_contract
begin

lemma raster_native_shade:
  assumes wf: "board_wf bd" and n: "is_native (sb_projected bd) (sb_region bd)" and m: "mask_wf m"
    and ok: "band_ok (bt_stride t) (bt_y t) (bt_rows t) (bt_pixels t)" and meets: "meets_viewport (board_rect bd)"
  shows "\<exists>k. raster_native t (sb_projected bd) (sb_texture bd) (sb_region bd) wire (m, b) =
    Some (k, t\<lparr>bt_pixels := shade (bt_stride t) (bt_y t) (board_region bd m (bt_y t) (bt_rows t)) (shaded wire bd) (bt_pixels t)\<rparr>)"
proof -
  let ?r = "board_rect bd" and ?stride = "bt_stride t" and ?y0 = "bt_y t"
  define left where "left = nat (max (sr_x ?r) 0)"
  define right where "right = as_usize (min (sat_i32 (sr_x ?r + sr_width ?r)) VIEWPORT_WIDTH)"
  define upper where "upper = nat (max (sr_y ?r) 0)"
  define bottom where "bottom = as_usize (min (sat_i32 (sr_y ?r + sr_height ?r)) VIEWPORT_HEIGHT)"
  note C = clip_board [OF wf meets, folded left_def right_def upper_def bottom_def]
  define step where "step = (\<lambda>rr p s. map_option (Pair (fst s + of_nat ((snd p - fst p) * (snd rr - fst rr)) :: u32))
      (fold_option (native_row b wire ?r (sb_texture bd) (sb_region bd) ?stride ?y0 (fst p, snd p)) [fst rr..<snd rr] (snd s)))"
  have "\<exists>k'. fold_option (\<lambda>rr state. Option.bind (mask_spans m (fst rr) left right) (\<lambda>spans. fold_option (step rr) spans state))
      (row_blocks (map_option (oc_tile \<circ> fst) m) (max upper ?y0) (min bottom (?y0 + bt_rows t))) (0, bt_pixels t) =
    Some (k', shade ?stride ?y0 (\<lambda>x y. max upper ?y0 \<le> y \<and> y < min bottom (?y0 + bt_rows t) \<and> left \<le> x \<and> x < right \<and> mask_visible m x y)
      (shaded wire bd) (bt_pixels t))"
  proof (rule fold_spans_shade [OF m ok])
    fix row row' start stop k and pixels' :: "u16 list"
    assume a: "row < row'" "max upper ?y0 \<le> row" "row' \<le> min bottom (?y0 + bt_rows t)" "left \<le> start" "start < stop" "stop \<le> right"
      "length pixels' = length (bt_pixels t)"
    have "band_ok ?stride ?y0 (bt_rows t) pixels'" using ok a(7) by (simp add: band_ok_def)
    moreover have "stop \<le> ?stride" using a(6) C(2) ok by (simp add: band_ok_def)
    moreover have "in_rect ?r x y" if "start \<le> x" "x < stop" "row \<le> y" "y < row'" for x y
      using C(5) [of x y] that a by simp
    ultimately show "\<exists>k'. step (row, row') (start, stop) (k, pixels') = Some (k', shade ?stride ?y0
        (\<lambda>x y. row \<le> y \<and> y < row' \<and> start \<le> x \<and> x < stop) (shaded wire bd) pixels')"
      unfolding step_def using a native_span_shade [OF wf n a(5), of row row' ?stride ?y0 pixels' wire]
        band_row_fits [of ?stride ?y0 "bt_rows t" pixels' _ stop] by simp
  qed (use C in auto)
  moreover have "(\<lambda>x y. max upper ?y0 \<le> y \<and> y < min bottom (?y0 + bt_rows t) \<and> left \<le> x \<and> x < right \<and> mask_visible m x y) =
      board_region bd m ?y0 (bt_rows t)"
  proof (intro ext)
    fix x y
    show "(max upper ?y0 \<le> y \<and> y < min bottom (?y0 + bt_rows t) \<and> left \<le> x \<and> x < right \<and> mask_visible m x y) =
        board_region bd m ?y0 (bt_rows t) x y"
      using C(5) [of x y] ok unfolding board_region_def band_ok_def by auto
  qed
  ultimately show ?thesis
    unfolding raster_native_def prod.case Let_def left_def [symmetric] right_def [symmetric] upper_def [symmetric] bottom_def [symmetric]
    by (auto simp: step_def case_prod_unfold)
qed

end

section \<open>Stepping through the coordinates\<close>

definition board_column :: "scene_billboard \<Rightarrow> nat \<Rightarrow> column_sample" where
  "board_column b x = column_of (tr_source_x (sb_region b))
     (exact_coordinate (tr_width (sb_region b)) (sr_width (board_rect b)) (int x - sr_x (board_rect b)))"

text \<open>The stepper of the rows stands at screen row \<open>row\<close>.\<close>

definition rows_at :: "scene_billboard \<Rightarrow> nat \<Rightarrow> axis_stepper \<Rightarrow> bool" where
  "rows_at b row a \<longleftrightarrow> axis_at (unat (tr_height (sb_region b)) * 65536) (nat (sr_height (board_rect b)))
     (nat (int row - sr_y (board_rect b))) a"

lemma exact_coordinate_unique:
  assumes "unat c = k * (unat source * 65536) div nat destination" and "k = nat offset"
  shows "c = exact_coordinate source destination offset"
proof -
  have "c = of_nat (unat c)" by simp
  then show ?thesis unfolding assms exact_coordinate_def .
qed

lemma source_scaled: "unat (source :: u16) * 65536 < 2 ^ 32"
  using unsigned_less [of source, where ?'a = nat] by simp

lemma board_sizes:
  assumes "board_wf b"
  shows "0 < nat (sr_width (board_rect b))" "nat (sr_width (board_rect b)) < 2 ^ 31"
    and "0 < nat (sr_height (board_rect b))" "nat (sr_height (board_rect b)) < 2 ^ 31"
  using board_wfD(2,3) [OF assms] assms by (simp_all add: board_wf_def in_i32_def nat_less_iff)

lemma columns_exact:
  assumes wf: "board_wf b" and "sr_x (board_rect b) \<le> int left" and "int (left + n) \<le> sr_x (board_rect b) + sr_width (board_rect b)"
  shows "map (column_of (tr_source_x (sb_region b)))
      (fst (axis_takes n (axis_new (tr_width (sb_region b)) (sr_width (board_rect b)) (int left - sr_x (board_rect b))))) =
    map (board_column b) [left..<left + n]"
proof -
  let ?w = "tr_width (sb_region b)" and ?r = "board_rect b"
  let ?k = "nat (int left - sr_x ?r)" and ?d = "nat (sr_width ?r)"
  note D = board_sizes(1,2) [OF wf]
  have k: "int left - sr_x ?r = int ?k" and d: "sr_width ?r = int ?d" and kd: "?k + n \<le> ?d" using assms D by auto
  define cs where "cs = fst (axis_takes n (axis_new ?w (int ?d) (int ?k)))"
  have "axis_at (unat ?w * 65536) ?d ?k (axis_new ?w (int ?d) (int ?k))" using D kd by (intro axis_new_at) auto
  from axis_takes_at [OF this D source_scaled kd]
  have cs: "map unat cs = map (\<lambda>i. (?k + i) * (unat ?w * 65536) div ?d) [0..<n]" by (simp add: cs_def)
  have len: "length cs = n" using arg_cong [OF cs, of length] by simp
  have "cs ! i = exact_coordinate ?w (sr_width ?r) (int (left + i) - sr_x ?r)" if "i < n" for i
  proof (rule exact_coordinate_unique)
    show "unat (cs ! i) = (?k + i) * (unat ?w * 65536) div nat (sr_width ?r)"
      using arg_cong [OF cs, of "\<lambda>l. l ! i"] that len by simp
    show "?k + i = nat (int (left + i) - sr_x ?r)" using assms(2) by simp
  qed
  then have "map (column_of (tr_source_x (sb_region b))) cs = map (board_column b) [left..<left + n]"
    using len by (auto simp: board_column_def intro!: nth_equalityI)
  then show ?thesis using k d by (simp add: cs_def)
qed

lemma rows_at_new:
  assumes "board_wf b" and "sr_y (board_rect b) \<le> int row" and "int row \<le> sr_y (board_rect b) + sr_height (board_rect b)"
  shows "rows_at b row (axis_new (tr_height (sb_region b)) (sr_height (board_rect b)) (int row - sr_y (board_rect b)))"
proof -
  let ?k = "nat (int row - sr_y (board_rect b))" and ?d = "nat (sr_height (board_rect b))"
  note D = board_sizes(3,4) [OF assms(1)]
  have "axis_at (unat (tr_height (sb_region b)) * 65536) ?d ?k (axis_new (tr_height (sb_region b)) (int ?d) (int ?k))"
    using D assms(2,3) by (intro axis_new_at) auto
  then show ?thesis using assms(2) D(1) by (simp add: rows_at_def)
qed

lemma rows_at_take:
  assumes wf: "board_wf b" and a: "rows_at b row a" and "sr_y (board_rect b) \<le> int row"
    and "int row < sr_y (board_rect b) + sr_height (board_rect b)"
  shows "fst (axis_take a) = exact_coordinate (tr_height (sb_region b)) (sr_height (board_rect b)) (int row - sr_y (board_rect b))"
    and "rows_at b (Suc row) (snd (axis_take a))"
proof -
  let ?k = "nat (int row - sr_y (board_rect b))"
  note D = board_sizes(3,4) [OF wf]
  have "Suc ?k \<le> nat (sr_height (board_rect b))" using assms(3,4) by auto
  from axis_take_at [OF a [unfolded rows_at_def] D source_scaled this]
  have t: "unat (fst (axis_take a)) = ?k * (unat (tr_height (sb_region b)) * 65536) div nat (sr_height (board_rect b))"
    and s: "axis_at (unat (tr_height (sb_region b)) * 65536) (nat (sr_height (board_rect b))) (Suc ?k) (snd (axis_take a))"
    by simp_all
  from t show "fst (axis_take a) = exact_coordinate (tr_height (sb_region b)) (sr_height (board_rect b)) (int row - sr_y (board_rect b))"
    by (rule exact_coordinate_unique) simp
  have "Suc ?k = nat (int (Suc row) - sr_y (board_rect b))" using assms(3) by simp
  then show "rows_at b (Suc row) (snd (axis_take a))" using s by (simp add: rows_at_def)
qed

lemma rows_at_takes:
  assumes "board_wf b" and "rows_at b row a" and "sr_y (board_rect b) \<le> int row"
    and "int (row + n) \<le> sr_y (board_rect b) + sr_height (board_rect b)"
  shows "rows_at b (row + n) (snd (axis_takes n a))"
  using assms
proof (induction n arbitrary: row a)
  case (Suc n)
  have "rows_at b (Suc row) (snd (axis_take a))" using Suc.prems by (intro rows_at_take) auto
  from Suc.IH [OF Suc.prems(1) this] Suc.prems(3,4) show ?case by (simp add: split_beta)
qed simp

section \<open>Sampled boards\<close>

text \<open>Rows prepared for a board: its columns from \<open>rw_left\<close> on.\<close>

definition rows_for :: "scene_billboard \<Rightarrow> raster_rows \<Rightarrow> bool" where
  "rows_for b self \<longleftrightarrow> rw_region self = sb_region b \<and>
     rw_columns self = map (board_column b) [rw_left self..<rw_left self + length (rw_columns self)]"

definition rows_inside :: "scene_billboard \<Rightarrow> raster_rows \<Rightarrow> bool" where
  "rows_inside b self \<longleftrightarrow> (\<forall>x y. rw_left self \<le> x \<longrightarrow> x < rw_left self + length (rw_columns self) \<longrightarrow>
     rw_top self \<le> y \<longrightarrow> y < rw_bottom self \<longrightarrow> in_rect (board_rect b) x y)"

context blitter_contract
begin

lemma draw_row_shade:
  assumes wf: "board_wf bd" and rows: "rows_for bd self" and a: "rows_at bd row a"
    and inside: "\<And>x. rw_left self \<le> x \<Longrightarrow> x < rw_left self + length (rw_columns self) \<Longrightarrow> in_rect (board_rect bd) x row"
    and "rw_columns self \<noteq> []" and fits: "rw_left self + length (rw_columns self) \<le> rw_stride self" "rw_origin self \<le> row"
      "(row - rw_origin self) * rw_stride self + (rw_left self + length (rw_columns self)) \<le> length pixels"
  shows "draw_row self (sb_texture bd) (pb_filter (sb_projected bd)) wire b row (a, pixels) =
    Some (snd (axis_take a), shade (rw_stride self) (rw_origin self)
      (\<lambda>x y. y = row \<and> rw_left self \<le> x \<and> x < rw_left self + length (rw_columns self)) (shaded wire bd) pixels)"
proof -
  let ?l = "rw_left self" and ?n = "length (rw_columns self)"
  let ?c = "exact_coordinate (tr_height (sb_region bd)) (sr_height (board_rect bd)) (int row - sr_y (board_rect bd))"
  let ?span = "row_span (sb_texture bd) (sb_region bd) (pb_filter (sb_projected bd) = FBilinear) (rw_columns self) ?c"
  have "in_rect (board_rect bd) ?l row" using inside [of ?l] assms(5) by simp
  then have "sr_y (board_rect bd) \<le> int row" "int row < sr_y (board_rect bd) + sr_height (board_rect bd)" by (auto simp: in_rect_def)
  note c = rows_at_take(1) [OF wf a this]
  have reg: "rw_region self = sb_region bd" using rows by (simp add: rows_for_def)
  have col: "rw_columns self ! k = board_column bd (?l + k)" if "k < ?n" for k
    using arg_cong [OF conjunct2 [OF rows [unfolded rows_for_def]], of "\<lambda>l. l ! k"] that by simp
  have px: "sample_pixel ?span wire d (rw_columns self ! k) = Some (shaded wire bd (?l + k) row d)" if "k < ?n" for k d
    using board_pixel_total [OF wf, of wire "?l + k" row d] inside [of "?l + k"] that
    by (simp add: board_pixel_def Let_def col board_column_def sample_columns [of _ _ _ "rw_columns self"])
  have "bl_sample b dst ?span wire = Some (map (\<lambda>k. shaded wire bd (?l + k) row (dst ! k)) [0..<?n])" if len: "length dst = ?n" for dst
  proof -
    have cols: "sp_columns ?span = rw_columns self" by (simp add: row_span_def Let_def)
    have "list_all (\<lambda>(d, c). sample_pixel ?span wire d c \<noteq> None) (zip dst (sp_columns ?span))"
      using len px by (auto simp: cols list_all_length)
    from sample [OF _ this] len
    have "bl_sample b dst ?span wire = Some (map2 (\<lambda>d c. the (sample_pixel ?span wire d c)) dst (rw_columns self))" by (simp add: cols)
    also have "map2 (\<lambda>d c. the (sample_pixel ?span wire d c)) dst (rw_columns self) = map (\<lambda>k. shaded wire bd (?l + k) row (dst ! k)) [0..<?n]"
      using len px by (auto intro!: nth_equalityI)
    finally show ?thesis .
  qed
  moreover have stride: "0 < rw_stride self" using assms(5) fits(1) by (cases "rw_columns self") auto
  ultimately have "update_slice ((row - rw_origin self) * rw_stride self + ?l) ((row - rw_origin self) * rw_stride self + (?l + ?n))
      (\<lambda>dst. bl_sample b dst ?span wire) pixels =
    Some (shade (rw_stride self) (rw_origin self) (\<lambda>x y. y = row \<and> ?l \<le> x \<and> x < ?l + ?n) (shaded wire bd) pixels)"
    using fits stride by (intro update_slice_shade) auto
  then show ?thesis
    by (simp add: draw_row_def split_beta Let_def c reg add.assoc)
qed

lemma draw_rows_fold:
  assumes wf: "board_wf bd" and rows: "rows_for bd self" and "rows_at bd row a"
    and "\<And>x y. rw_left self \<le> x \<Longrightarrow> x < rw_left self + length (rw_columns self) \<Longrightarrow> row \<le> y \<Longrightarrow> y < row + n \<Longrightarrow>
        in_rect (board_rect bd) x y"
    and "rw_columns self \<noteq> []" and "rw_left self + length (rw_columns self) \<le> rw_stride self" and "rw_origin self \<le> row"
    and "\<And>y. row \<le> y \<Longrightarrow> y < row + n \<Longrightarrow>
      (y - rw_origin self) * rw_stride self + (rw_left self + length (rw_columns self)) \<le> length pixels"
  shows "fold_option (draw_row self (sb_texture bd) (pb_filter (sb_projected bd)) wire b) [row..<row + n] (a, pixels) =
    Some (snd (axis_takes n a), shade (rw_stride self) (rw_origin self)
      (\<lambda>x y. row \<le> y \<and> y < row + n \<and> rw_left self \<le> x \<and> x < rw_left self + length (rw_columns self)) (shaded wire bd) pixels)"
  using assms(3,4,7,8)
proof (induction n arbitrary: row a pixels)
  case 0
  then show ?case by (simp add: shade_none)
next
  case (Suc n)
  let ?l = "rw_left self" and ?e = "rw_left self + length (rw_columns self)"
  let ?one = "shade (rw_stride self) (rw_origin self) (\<lambda>x y. y = row \<and> ?l \<le> x \<and> x < ?e) (shaded wire bd) pixels"
  have in_r: "in_rect (board_rect bd) ?l row" using Suc.prems(2) [of ?l row] assms(5) by simp
  have first: "draw_row self (sb_texture bd) (pb_filter (sb_projected bd)) wire b row (a, pixels) = Some (snd (axis_take a), ?one)"
    using Suc.prems assms(5,6) by (intro draw_row_shade wf rows) auto
  have a': "rows_at bd (Suc row) (snd (axis_take a))"
    using in_r by (intro rows_at_take [OF wf Suc.prems(1)]) (auto simp: in_rect_def)
  have "fold_option (draw_row self (sb_texture bd) (pb_filter (sb_projected bd)) wire b) [Suc row..<Suc row + n] (snd (axis_take a), ?one) =
      Some (snd (axis_takes n (snd (axis_take a))), shade (rw_stride self) (rw_origin self)
        (\<lambda>x y. Suc row \<le> y \<and> y < Suc row + n \<and> ?l \<le> x \<and> x < ?e) (shaded wire bd) ?one)"
    using Suc.prems by (intro Suc.IH [OF a']) auto
  also have "shade (rw_stride self) (rw_origin self) (\<lambda>x y. Suc row \<le> y \<and> y < Suc row + n \<and> ?l \<le> x \<and> x < ?e) (shaded wire bd) ?one =
      shade (rw_stride self) (rw_origin self) (\<lambda>x y. row \<le> y \<and> y < row + Suc n \<and> ?l \<le> x \<and> x < ?e) (shaded wire bd) pixels"
  proof -
    have "(\<lambda>x y. y = row \<and> ?l \<le> x \<and> x < ?e \<or> Suc row \<le> y \<and> y < Suc row + n \<and> ?l \<le> x \<and> x < ?e) =
        (\<lambda>x y. row \<le> y \<and> y < row + Suc n \<and> ?l \<le> x \<and> x < ?e)"
      by (auto simp: fun_eq_iff)
    then show ?thesis by (subst shade_shade) auto
  qed
  finally show ?case using first by (simp add: upt_conv_Cons split_beta del: upt_Suc)
qed

lemma draw_rows_shade:
  assumes wf: "board_wf bd" and rows: "rows_for bd self" "rows_at bd (rw_top self) (rw_y self)" "rows_inside bd self"
    and "rw_columns self \<noteq> []" "rw_top self < rw_bottom self"
    and ok: "band_ok (rw_stride self) (rw_origin self) n pixels" "rw_left self + length (rw_columns self) \<le> 320"
      "rw_origin self \<le> rw_top self" "rw_bottom self \<le> rw_origin self + n"
  shows "draw_rows self (sb_texture bd) (pb_filter (sb_projected bd)) wire b pixels =
    Some (shade (rw_stride self) (rw_origin self)
      (\<lambda>x y. rw_top self \<le> y \<and> y < rw_bottom self \<and> rw_left self \<le> x \<and> x < rw_left self + length (rw_columns self))
      (shaded wire bd) pixels)"
proof -
  obtain k where k: "rw_bottom self = rw_top self + k" using le_Suc_ex [OF less_imp_le [OF assms(6)]] by blast
  have fit: "rw_left self + length (rw_columns self) \<le> rw_stride self" using ok by (simp add: band_ok_def)
  have "fold_option (draw_row self (sb_texture bd) (pb_filter (sb_projected bd)) wire b) [rw_top self..<rw_top self + k] (rw_y self, pixels) =
    Some (snd (axis_takes k (rw_y self)), shade (rw_stride self) (rw_origin self)
      (\<lambda>x y. rw_top self \<le> y \<and> y < rw_top self + k \<and> rw_left self \<le> x \<and> x < rw_left self + length (rw_columns self)) (shaded wire bd) pixels)"
  proof (rule draw_rows_fold [OF wf rows(1,2) _ assms(5) fit ok(3)])
    fix x y assume "rw_left self \<le> x" "x < rw_left self + length (rw_columns self)" "rw_top self \<le> y" "y < rw_top self + k"
    then show "in_rect (board_rect bd) x y" using rows(3) k by (simp add: rows_inside_def)
  next
    fix y assume "rw_top self \<le> y" "y < rw_top self + k"
    then show "(y - rw_origin self) * rw_stride self + (rw_left self + length (rw_columns self)) \<le> length pixels"
      using ok(3,4) k by (intro band_row_fits [OF ok(1) _ _ fit]) simp_all
  qed
  then show ?thesis by (simp add: draw_rows_def k)
qed

lemma slice_rows_for:
  assumes "rows_for bd self" and "rw_left self \<le> start" and "start \<le> stop" and "stop \<le> rw_left self + length (rw_columns self)"
  shows "slice_of (start - rw_left self) (stop - rw_left self) (rw_columns self) = Some (map (board_column bd) [start..<stop])"
proof -
  have "slice_of (start - rw_left self) (stop - rw_left self) (rw_columns self) =
      Some (map (\<lambda>k. rw_columns self ! (start - rw_left self + k)) [0..<stop - start])"
    using assms(2-4) by (subst slice_of_Some) auto
  also have "map (\<lambda>k. rw_columns self ! (start - rw_left self + k)) [0..<stop - start] = map (board_column bd) [start..<stop]"
  proof (rule nth_equalityI)
    fix i assume "i < length (map (\<lambda>k. rw_columns self ! (start - rw_left self + k)) [0..<stop - start])"
    then have i: "i < stop - start" by simp
    then have "start - rw_left self + i < length (rw_columns self)" using assms(2,4) by simp
    then have "rw_columns self ! (start - rw_left self + i) = board_column bd (rw_left self + (start - rw_left self + i))"
      using arg_cong [OF conjunct2 [OF assms(1) [unfolded rows_for_def]], of "\<lambda>l. l ! (start - rw_left self + i)"] by simp
    then show "map (\<lambda>k. rw_columns self ! (start - rw_left self + k)) [0..<stop - start] ! i = map (board_column bd) [start..<stop] ! i"
      using i assms(2) by simp
  qed simp
  finally show ?thesis .
qed

lemma dispatch_visible_shade:
  assumes wf: "board_wf bd" and rows: "rows_for bd self" "rows_at bd (rw_top self) (rw_y self)" "rows_inside bd self"
    and "rw_columns self \<noteq> []" "rw_top self < rw_bottom self" and m: "mask_wf m"
    and ok: "band_ok (rw_stride self) (rw_origin self) n pixels" "rw_left self + length (rw_columns self) \<le> 320"
      "rw_origin self \<le> rw_top self" "rw_bottom self \<le> rw_origin self + n"
  shows "\<exists>k. dispatch_visible self pixels (sb_texture bd) (pb_filter (sb_projected bd)) wire (m, b) =
    Some (k, shade (rw_stride self) (rw_origin self)
      (\<lambda>x y. rw_top self \<le> y \<and> y < rw_bottom self \<and> rw_left self \<le> x \<and> x < rw_left self + length (rw_columns self) \<and>
        mask_visible m x y) (shaded wire bd) pixels)"
proof (cases m)
  case None
  then show ?thesis
    using draw_rows_shade [OF wf rows assms(5,6) ok] by (simp add: dispatch_visible_def mask_visible_def)
next
  case (Some p)
  obtain occ index where p: "p = (occ, index)" by fastforce
  let ?l = "rw_left self" and ?e = "rw_left self + length (rw_columns self)"
  have occ: "occlusion_wf occ" using m by (simp add: mask_wf_def Some p)
  define step where "step = (\<lambda>(row, row') (y, samples :: u32, framebuffer).
      Option.bind (visible_spans occ row ?l ?e index) (\<lambda>spans.
      Option.bind
        (fold_option (\<lambda>(start, stop) (samples, framebuffer).
           Option.bind (slice_of (start - ?l) (stop - ?l) (rw_columns self)) (\<lambda>columns.
             map_option (Pair (samples + of_nat ((stop - start) * (row' - row))))
               (draw_rows (self\<lparr>rw_left := start, rw_top := row, rw_bottom := row', rw_columns := columns, rw_y := y\<rparr>)
                  (sb_texture bd) (pb_filter (sb_projected bd)) wire b framebuffer)))
          spans (samples, framebuffer))
        (\<lambda>(samples, framebuffer). Some (snd (axis_takes (row' - row) y), samples, framebuffer))))"
  have "\<exists>y' k'. fold_option step blocks (y, k, px) = Some (y', k', shade (rw_stride self) (rw_origin self)
      (\<lambda>x y. row \<le> y \<and> y < rw_bottom self \<and> ?l \<le> x \<and> x < ?e \<and> visible occ index x y) (shaded wire bd) px)"
    if "blocks_ok (Some (oc_tile occ)) row (rw_bottom self) blocks" "rw_top self \<le> row" "rows_at bd row y" "length px = length pixels"
    for blocks row y k px
    using that
  proof (induction blocks arbitrary: row y k px)
    case Nil
    then show ?case by (auto simp: shade_none)
  next
    case (Cons block blocks)
    obtain a row' where ac: "block = (a, row')" by fastforce
    from Cons.prems(1) [unfolded ac blocks_ok.simps option.pred_inject]
    have block: "block = (row, row')" "row < row'" "row' \<le> rw_bottom self"
      "\<And>z. row \<le> z \<Longrightarrow> z < row' \<Longrightarrow> z div tile_pixels (oc_tile occ) = row div tile_pixels (oc_tile occ)"
      "blocks_ok (Some (oc_tile occ)) row' (rw_bottom self) blocks"
      unfolding ac by blast+
    have "row < 240" using block(2,3) ok by (simp add: band_ok_def)
    from visible_spans_ok [OF occ this ok(2), of ?l index]
    obtain spans where spans: "visible_spans occ row ?l ?e index = Some spans" "spans_ok (\<lambda>z. visible occ index z row) ?l ?e spans"
      by auto
    let ?one = "shade (rw_stride self) (rw_origin self) (\<lambda>x y. row \<le> y \<and> y < row' \<and> ?l \<le> x \<and> x < ?e \<and> visible occ index x row) (shaded wire bd) px"
    have "\<exists>k'. fold_option (\<lambda>(start, stop) (samples, framebuffer).
           Option.bind (slice_of (start - ?l) (stop - ?l) (rw_columns self)) (\<lambda>columns.
             map_option (Pair (samples + of_nat ((stop - start) * (row' - row))))
               (draw_rows (self\<lparr>rw_left := start, rw_top := row, rw_bottom := row', rw_columns := columns, rw_y := y\<rparr>)
                  (sb_texture bd) (pb_filter (sb_projected bd)) wire b framebuffer)))
          spans (k, px) = Some (k', ?one)"
    proof (rule block_shade [OF spans(2)])
      fix start stop k and px' :: "u16 list"
      assume s: "?l \<le> start" "start < stop" "stop \<le> ?e" "length px' = length px"
      let ?self = "self\<lparr>rw_left := start, rw_top := row, rw_bottom := row', rw_columns := map (board_column bd) [start..<stop], rw_y := y\<rparr>"
      have "draw_rows ?self (sb_texture bd) (pb_filter (sb_projected bd)) wire b px' = Some (shade (rw_stride ?self) (rw_origin ?self)
          (\<lambda>x y. rw_top ?self \<le> y \<and> y < rw_bottom ?self \<and> rw_left ?self \<le> x \<and> x < rw_left ?self + length (rw_columns ?self))
          (shaded wire bd) px')"
      proof (rule draw_rows_shade [OF wf, where n = n])
        show "rows_for bd ?self" using rows(1) s(2) by (simp add: rows_for_def)
        show "rows_at bd (rw_top ?self) (rw_y ?self)" using Cons.prems(3) by simp
        show "rows_inside bd ?self" using rows(3) s(1,3) Cons.prems(2) block(3) by (simp add: rows_inside_def)
        show "band_ok (rw_stride ?self) (rw_origin ?self) n px'" using ok(1) s(4) Cons.prems(4) by (simp add: band_ok_def)
      qed (use s block(2,3) Cons.prems(2) ok in auto)
      then show "\<exists>k'. (\<lambda>(start, stop) (samples, framebuffer).
           Option.bind (slice_of (start - ?l) (stop - ?l) (rw_columns self)) (\<lambda>columns.
             map_option (Pair (samples + of_nat ((stop - start) * (row' - row))))
               (draw_rows (self\<lparr>rw_left := start, rw_top := row, rw_bottom := row', rw_columns := columns, rw_y := y\<rparr>)
                  (sb_texture bd) (pb_filter (sb_projected bd)) wire b framebuffer))) (start, stop) (k, px') =
          Some (k', shade (rw_stride self) (rw_origin self) (\<lambda>x y. row \<le> y \<and> y < row' \<and> start \<le> x \<and> x < stop) (shaded wire bd) px')"
        using slice_rows_for [OF rows(1) s(1) _ s(3)] s(2) by simp
    qed
    then obtain k' where k': "step block (y, k, px) = Some (snd (axis_takes (row' - row) y), k', ?one)"
      by (auto simp: step_def block(1) spans(1))
    have in_r: "in_rect (board_rect bd) ?l z" if "row \<le> z" "z < row'" for z
      using rows(3) that Cons.prems(2) block(3) assms(5) by (simp add: rows_inside_def)
    have last: "row \<le> row' - 1" "row' - 1 < row'" using block(2) by simp_all
    have "rows_at bd (row + (row' - row)) (snd (axis_takes (row' - row) y))"
      using in_r [OF order_refl block(2)] in_r [OF last] block(2)
      by (intro rows_at_takes [OF wf Cons.prems(3)]) (auto simp: in_rect_def)
    then have at': "rows_at bd row' (snd (axis_takes (row' - row) y))" using block(2) by simp
    have "\<exists>y' k''. fold_option step blocks (snd (axis_takes (row' - row) y), k', ?one) = Some (y', k'', shade (rw_stride self) (rw_origin self)
      (\<lambda>x y. row' \<le> y \<and> y < rw_bottom self \<and> ?l \<le> x \<and> x < ?e \<and> visible occ index x y) (shaded wire bd) ?one)"
      using Cons.prems(2,4) block(2,5) by (intro Cons.IH at') auto
    moreover have "visible occ index x row = visible occ index x y" if "row \<le> y" "y < row'" for x y
      by (rule visible_cong [OF refl block(4) [OF that, symmetric]])
    then have "(\<lambda>x y. (row \<le> y \<and> y < row' \<and> ?l \<le> x \<and> x < ?e \<and> visible occ index x row) \<or>
          row' \<le> y \<and> y < rw_bottom self \<and> ?l \<le> x \<and> x < ?e \<and> visible occ index x y) =
        (\<lambda>x y. row \<le> y \<and> y < rw_bottom self \<and> ?l \<le> x \<and> x < ?e \<and> visible occ index x y)"
      using block(2,3) by (auto simp: fun_eq_iff)
    then have "shade (rw_stride self) (rw_origin self) (\<lambda>x y. row' \<le> y \<and> y < rw_bottom self \<and> ?l \<le> x \<and> x < ?e \<and> visible occ index x y) (shaded wire bd) ?one =
        shade (rw_stride self) (rw_origin self) (\<lambda>x y. row \<le> y \<and> y < rw_bottom self \<and> ?l \<le> x \<and> x < ?e \<and> visible occ index x y) (shaded wire bd) px"
      by (subst shade_shade) auto
    ultimately show ?case using k' by auto
  qed
  from this [OF row_blocks_ok order_refl rows(2) refl, of 0]
  show ?thesis by (auto simp: dispatch_visible_def Some p step_def mask_visible_def)
qed

lemma raster_billboard_masked_shade:
  assumes wf: "board_wf bd" and m: "mask_wf m"
    and fb: "320 \<le> stride" "stride * 240 < 2 ^ 64" "stride * 240 \<le> length pixels"
  shows "\<exists>st. raster_billboard_masked pixels stride (sb_projected bd) (sb_texture bd) (sb_region bd) wire (m, b) =
    Some (Inr st, shade stride 0 (board_region bd m 0 240) (shaded wire bd) pixels)"
proof -
  let ?r = "board_rect bd"
  let ?left = "max (sr_x ?r) 0" and ?upper = "max (sr_y ?r) 0"
  let ?right = "min (sat_i32 (sr_x ?r + sr_width ?r)) VIEWPORT_WIDTH" and ?bottom = "min (sat_i32 (sr_y ?r + sr_height ?r)) VIEWPORT_HEIGHT"
  note D = board_wfD [OF wf]
  have ok: "band_ok stride 0 240 pixels" using fb by (simp add: band_ok_def mult.commute)
  have checks: "(stride < nat VIEWPORT_WIDTH) = False" "(2 ^ 64 \<le> stride * nat VIEWPORT_HEIGHT) = False"
    "(length pixels < stride * nat VIEWPORT_HEIGHT) = False" "validate_texture (sb_texture bd) (sb_region bd) = Inr ()"
    "(sr_width ?r \<le> 0 \<or> sr_height ?r \<le> 0) = False"
    "band_target_new pixels stride 0 (nat VIEWPORT_HEIGHT) = Inr \<lparr>bt_pixels = pixels, bt_stride = stride, bt_y = 0, bt_rows = 240\<rparr>"
    using fb D(1-3) by (simp_all add: band_target_new_def)
  define run where "run = raster_billboard_masked pixels stride (sb_projected bd) (sb_texture bd) (sb_region bd) wire (m, b)"
  have unfolded: "run = (if ?left \<ge> ?right \<or> ?upper \<ge> ?bottom then Some (Inr \<lparr>rs_nearest_samples = 0, rs_bilinear_samples = 0\<rparr>, pixels)
      else Option.bind
        (case m of None \<Rightarrow> Some True
           | Some (occ, index) \<Rightarrow> has_visible_span occ (nat ?upper) (nat ?bottom) (nat ?left) (nat ?right) index)
        (\<lambda>any_visible.
         if \<not> any_visible then Some (Inr \<lparr>rs_nearest_samples = 0, rs_bilinear_samples = 0\<rparr>, pixels)
         else if is_native (sb_projected bd) (sb_region bd) then
           map_option (\<lambda>(samples, target).
                 (Inr \<lparr>rs_nearest_samples = samples, rs_bilinear_samples = 0\<rparr>, bt_pixels target))
             (raster_native \<lparr>bt_pixels = pixels, bt_stride = stride, bt_y = 0, bt_rows = 240\<rparr>
               (sb_projected bd) (sb_texture bd) (sb_region bd) wire (m, b))
         else
           map_option (\<lambda>(samples, framebuffer).
                   (Inr (case pb_filter (sb_projected bd) of
                      FNearest \<Rightarrow> \<lparr>rs_nearest_samples = samples, rs_bilinear_samples = 0\<rparr>
                    | FBilinear \<Rightarrow> \<lparr>rs_nearest_samples = 0, rs_bilinear_samples = samples\<rparr>), framebuffer))
             (dispatch_visible
               \<lparr>rw_origin = 0, rw_stride = stride, rw_left = nat ?left, rw_top = nat ?upper, rw_bottom = nat ?bottom,
                rw_columns = map (column_of (tr_source_x (sb_region bd)))
                  (fst (axis_takes (nat (?right - ?left)) (axis_new (tr_width (sb_region bd)) (sr_width ?r) (?left - sr_x ?r)))),
                rw_y = axis_new (tr_height (sb_region bd)) (sr_height ?r) (?upper - sr_y ?r), rw_region = sb_region bd\<rparr>
               pixels (sb_texture bd) (pb_filter (sb_projected bd)) wire (m, b))))"
    unfolding run_def raster_billboard_masked_def prod.case Let_def by (simp only: checks if_False sum.case)
  show ?thesis
  proof (cases "meets_viewport ?r")
    case False
    then have "?left \<ge> ?right \<or> ?upper \<ge> ?bottom"
      by (auto simp: meets_viewport_def sat_i32_def VIEWPORT_WIDTH_def VIEWPORT_HEIGHT_def)
    then have "run = Some (Inr \<lparr>rs_nearest_samples = 0, rs_bilinear_samples = 0\<rparr>, pixels)" using unfolded by simp
    moreover have "\<not> board_region bd m 0 240 x y" for x y
      using False meets_viewport [of x y ?r] by (auto simp: board_region_def)
    ultimately show ?thesis unfolding run_def by (simp add: shade_none)
  next
    case True
    define left where "left = nat ?left"
    define right where "right = as_usize ?right"
    define upper where "upper = nat ?upper"
    define bottom where "bottom = as_usize ?bottom"
    note C = clip_board [OF wf True, folded left_def right_def upper_def bottom_def]
    have n: "nat ?right = right" "nat ?bottom = bottom" using C(8,9) by (metis nat_int)+
    have lt: "\<not> (?left \<ge> ?right \<or> ?upper \<ge> ?bottom)" using C(1,3,6-9) by linarith
    have region: "left \<le> x \<and> x < right \<and> upper \<le> y \<and> y < bottom \<and> mask_visible m x y \<longleftrightarrow> board_region bd m 0 240 x y" for x y
      using C(5) [of x y] by (auto simp: board_region_def)
    let ?seen = "\<exists>y x. upper \<le> y \<and> y < bottom \<and> left \<le> x \<and> x < right \<and> mask_visible m x y"
    have any: "(case m of None \<Rightarrow> Some True | Some (occ, index) \<Rightarrow> has_visible_span occ upper bottom left right index) = Some ?seen"
    proof (cases m)
      case None
      then show ?thesis using C(1,3) by (auto simp: mask_visible_def)
    next
      case (Some p)
      then show ?thesis
        using m has_visible_span_iff [of "fst p" bottom left right upper "snd p"] C(1,2,4)
        by (cases p) (simp add: mask_wf_def mask_visible_def)
    qed
    show ?thesis
    proof (cases ?seen)
      case False
      then have "run = Some (Inr \<lparr>rs_nearest_samples = 0, rs_bilinear_samples = 0\<rparr>, pixels)"
        unfolding unfolded n left_def [symmetric] upper_def [symmetric] any using lt by simp
      moreover have "\<not> board_region bd m 0 240 x y" for x y using False region [of x y] by blast
      ultimately show ?thesis unfolding run_def by (simp add: shade_none)
    next
      case seen: True
      show ?thesis
      proof (cases "is_native (sb_projected bd) (sb_region bd)")
        case native: True
        let ?t = "\<lparr>bt_pixels = pixels, bt_stride = stride, bt_y = 0, bt_rows = 240\<rparr>"
        obtain k where "raster_native ?t (sb_projected bd) (sb_texture bd) (sb_region bd) wire (m, b) =
            Some (k, ?t\<lparr>bt_pixels := shade stride 0 (board_region bd m 0 240) (shaded wire bd) pixels\<rparr>)"
          using raster_native_shade [OF wf native m, of ?t wire] ok True by auto
        then show ?thesis
          unfolding run_def [symmetric] unfolded n left_def [symmetric] upper_def [symmetric] any using lt seen native by simp
      next
        case scaled: False
        let ?cols = "map (board_column bd) [left..<right]"
        let ?rows = "\<lparr>rw_origin = 0, rw_stride = stride, rw_left = left, rw_top = upper, rw_bottom = bottom, rw_columns = ?cols,
            rw_y = axis_new (tr_height (sb_region bd)) (sr_height ?r) (int upper - sr_y ?r), rw_region = sb_region bd\<rparr>"
        have in_r: "in_rect ?r x y" if "left \<le> x" "x < right" "upper \<le> y" "y < bottom" for x y
          using C(5) [of x y] that by simp
        have corner: "in_rect ?r left upper" "in_rect ?r (right - 1) (bottom - 1)"
          using in_r [of left upper] in_r [of "right - 1" "bottom - 1"] C(1,3) by auto
        have "map (column_of (tr_source_x (sb_region bd)))
            (fst (axis_takes (right - left) (axis_new (tr_width (sb_region bd)) (sr_width ?r) (int left - sr_x ?r)))) =
          map (board_column bd) [left..<left + (right - left)]"
          using corner C(1) by (intro columns_exact [OF wf]) (auto simp: in_rect_def)
        then have cols: "map (column_of (tr_source_x (sb_region bd)))
            (fst (axis_takes (nat (?right - ?left)) (axis_new (tr_width (sb_region bd)) (sr_width ?r) (?left - sr_x ?r)))) = ?cols"
          using C(1) by (simp add: nat_diff_distrib flip: C(6,8))
        have start_y: "axis_new (tr_height (sb_region bd)) (sr_height ?r) (?upper - sr_y ?r) =
            axis_new (tr_height (sb_region bd)) (sr_height ?r) (int upper - sr_y ?r)"
          by (simp only: C(7))
        obtain k where "dispatch_visible ?rows pixels (sb_texture bd) (pb_filter (sb_projected bd)) wire (m, b) =
          Some (k, shade (rw_stride ?rows) (rw_origin ?rows)
            (\<lambda>x y. rw_top ?rows \<le> y \<and> y < rw_bottom ?rows \<and> rw_left ?rows \<le> x \<and> x < rw_left ?rows + length (rw_columns ?rows) \<and>
              mask_visible m x y) (shaded wire bd) pixels)"
        proof (rule exE [OF dispatch_visible_shade [OF wf, of ?rows, where n = 240, OF _ _ _ _ _ m]])
          show "rows_for bd ?rows" using C(1) by (simp add: rows_for_def)
          show "rows_at bd (rw_top ?rows) (rw_y ?rows)" using corner by (auto simp: in_rect_def intro!: rows_at_new [OF wf])
          show "rows_inside bd ?rows" using in_r C(1) by (simp add: rows_inside_def)
        qed (use C ok in auto)
        moreover have "(\<lambda>x y. rw_top ?rows \<le> y \<and> y < rw_bottom ?rows \<and> rw_left ?rows \<le> x \<and> x < rw_left ?rows + length (rw_columns ?rows) \<and>
              mask_visible m x y) = board_region bd m 0 240"
          using region C(1) by (auto simp: fun_eq_iff)
        ultimately have "dispatch_visible ?rows pixels (sb_texture bd) (pb_filter (sb_projected bd)) wire (m, b) =
          Some (k, shade stride 0 (board_region bd m 0 240) (shaded wire bd) pixels)" by simp
        then show ?thesis
          unfolding run_def [symmetric] unfolded n left_def [symmetric] upper_def [symmetric] any cols start_y
          using lt seen scaled by simp
      qed
    qed
  qed
qed

end

end
