(* ===== verification/Scene.thy ===== *)
theory Scene
  imports Raster
begin

text \<open>
  \<open>crates/deskkin-presentation/src/occlusion.rs\<close>, a whole scene: the background behind the boards,
  and \<open>raster_scene\<close>, which draws the boards from the farthest to the nearest over it and skips what
  the occlusion pass found hidden. Reference: a painter that draws every board over every pixel.
\<close>

section \<open>Background\<close>

type_synonym row_colors = "u16 \<times> u16 \<times> u16 \<times> u16"

fun color_list :: "row_colors \<Rightarrow> u16 list" where
  "color_list (a, b, c, d) = [a, b, c, d]"

fun background_fill :: "u16 list \<Rightarrow> row_colors \<Rightarrow> u16 list" where
  "background_fill (_ # _ # _ # _ # pixels) colors = color_list colors @ background_fill pixels colors"
| "background_fill remainder colors = take (length remainder) (color_list colors)"

record background =
  bg_row :: "nat \<Rightarrow> row_colors"
  bg_fill :: "u16 list \<Rightarrow> row_colors \<Rightarrow> u16 list"

text \<open>A closure is a background that fills with the default method.\<close>

definition row_background :: "(nat \<Rightarrow> row_colors) \<Rightarrow> background" where
  "row_background row = \<lparr>bg_row = row, bg_fill = background_fill\<rparr>"

text \<open>The runs of columns without a cutoff, from \<open>column\<close> on.\<close>

function tile_spans :: "u16 list \<Rightarrow> nat \<Rightarrow> (nat \<times> nat) list" where
  "tile_spans cutoffs column =
     (if column < length cutoffs then
        (if cutoffs ! column \<noteq> 0 then tile_spans cutoffs (column + 1)
         else
           (let stop = column + 1 + length (takeWhile (\<lambda>c. c = 0) (drop (column + 1) cutoffs))
            in (column, stop) # tile_spans cutoffs stop))
      else [])"
  by pat_completeness auto
termination
  by (relation "measure (\<lambda>(cutoffs, column). length cutoffs - column)") auto

declare tile_spans.simps [simp del]

text \<open>The array of spans has room for 20; one more is a panic.\<close>

definition block_spans :: "occlusion \<Rightarrow> u32 \<Rightarrow> nat \<Rightarrow> (nat \<times> nat) list option" where
  "block_spans occlusion opaque_tiles band =
     (let tile = tile_pixels (oc_tile occlusion);
          columns = tile_columns (oc_tile occlusion)
      in if opaque_tiles = 0 then Some [(0, nat VIEWPORT_WIDTH)]
         else Option.bind (slice_of (band div tile * columns) (band div tile * columns + columns) (oc_cutoffs occlusion))
           (\<lambda>cutoffs.
             let spans = tile_spans cutoffs 0
             in if length spans > nat VIEWPORT_WIDTH div 16 then None
                else Some (map (\<lambda>(start, stop). (start * tile, stop * tile)) spans)))"

definition paint_row :: "background \<Rightarrow> bool \<Rightarrow> nat \<Rightarrow> nat \<Rightarrow> (nat \<times> nat) list \<Rightarrow> nat \<Rightarrow> u16 list \<Rightarrow> u16 list option" where
  "paint_row background wire stride y0 spans y pixels =
     (let (a, b, c, d) = bg_row background y;
          colors = (wire_order wire a, wire_order wire b, wire_order wire c, wire_order wire d)
      in fold_option (\<lambda>(start, stop).
           update_slice ((y - y0) * stride + start) ((y - y0) * stride + stop) (\<lambda>span. Some (bg_fill background span colors)))
           spans pixels)"

definition paint_background ::
  "band_target \<Rightarrow> occlusion \<Rightarrow> u32 \<Rightarrow> background \<Rightarrow> bool \<Rightarrow> band_target option" where
  "paint_background target occlusion opaque_tiles background wire =
     map_option (\<lambda>pixels. target\<lparr>bt_pixels := pixels\<rparr>)
       (fold_option (\<lambda>(band, stop) pixels.
          Option.bind (block_spans occlusion opaque_tiles band) (\<lambda>spans.
            fold_option (paint_row background wire (bt_stride target) (bt_y target) spans) [band..<stop] pixels))
         (row_blocks (Some (oc_tile occlusion)) (bt_y target) (bt_y target + bt_rows target)) (bt_pixels target))"

section \<open>A scene\<close>

definition misordered :: "scene_billboard list \<Rightarrow> bool" where
  "misordered boards \<longleftrightarrow>
     list_ex (\<lambda>(a, b). pb_depth (sb_projected a) < pb_depth (sb_projected b) \<or>
         pb_depth (sb_projected a) = pb_depth (sb_projected b) \<and> pb_id (sb_projected a) > pb_id (sb_projected b))
       (zip boards (tl boards))"

definition scene_mask_for :: "occlusion \<Rightarrow> u32 \<Rightarrow> nat \<Rightarrow> scene_billboard \<Rightarrow> scene_mask option" where
  "scene_mask_for occlusion opaque_tiles index board =
     (if opaque_tiles = 0 then Some None
      else map_option (\<lambda>hidden. if hidden then Some (occlusion, index) else None) (hides occlusion (board_rect board) index))"

definition count_board :: "scene_billboard \<Rightarrow> raster_stats \<Rightarrow> scene_stats \<Rightarrow> scene_stats" where
  "count_board board result stats =
     (let scaled = \<not> is_native (sb_projected board) (sb_region board) \<and>
            rs_nearest_samples result + rs_bilinear_samples result > 0
      in stats\<lparr>st_scaler_preparations := (if scaled then st_scaler_preparations stats + 1 else st_scaler_preparations stats),
           st_raster := \<lparr>rs_nearest_samples = saturating_add (rs_nearest_samples (st_raster stats)) (rs_nearest_samples result),
                         rs_bilinear_samples = saturating_add (rs_bilinear_samples (st_raster stats)) (rs_bilinear_samples result)\<rparr>\<rparr>)"

fun draw_boards ::
  "nat \<Rightarrow> bool \<Rightarrow> occlusion \<Rightarrow> blitter \<Rightarrow> nat \<Rightarrow> scene_billboard list \<Rightarrow> scene_stats \<Rightarrow> u16 list \<Rightarrow>
   ((raster_error + scene_stats) \<times> u16 list) option" where
  "draw_boards stride wire occlusion blitter index [] stats framebuffer = Some (Inr stats, framebuffer)"
| "draw_boards stride wire occlusion blitter index (board # boards) stats framebuffer =
     Option.bind (scene_mask_for occlusion (st_opaque_tiles stats) index board) (\<lambda>m.
     Option.bind (raster_billboard_masked framebuffer stride (sb_projected board) (sb_texture board) (sb_region board) wire (m, blitter))
       (\<lambda>(result, framebuffer).
          case result of
            Inl e \<Rightarrow> Some (Inl e, framebuffer)
          | Inr result \<Rightarrow>
              draw_boards stride wire occlusion blitter (index + 1) boards (count_board board result stats) framebuffer))"

text \<open>
  The answer comes with the framebuffer and the occlusion storage it leaves behind. A product of
  \<open>stride\<close> that overflows is larger than any framebuffer, so \<open>checked_mul\<close> needs no case of its own.
\<close>

definition raster_scene_with_blitter ::
  "u16 list \<Rightarrow> nat \<Rightarrow> scene_billboard list \<Rightarrow> background \<times> blitter \<Rightarrow> bool \<Rightarrow> occlusion \<Rightarrow>
   ((raster_error + scene_stats) \<times> u16 list \<times> occlusion) option" where
  "raster_scene_with_blitter framebuffer stride boards = (\<lambda>(background, blitter) wire occlusion.
     if stride < nat VIEWPORT_WIDTH \<or> length framebuffer < stride * nat VIEWPORT_HEIGHT
     then Some (Inl InvalidFramebuffer, framebuffer, occlusion)
     else if length boards > 65535 then Some (Inl InvalidOrder, framebuffer, occlusion)
     else if misordered boards then Some (Inl InvalidOrder, framebuffer, occlusion)
     else
       Option.bind (prepare occlusion boards scene_stats_default) (\<lambda>(occlusion, stats).
         case band_target_new framebuffer stride 0 (nat VIEWPORT_HEIGHT) of
           Inl e \<Rightarrow> Some (Inl e, framebuffer, occlusion)
         | Inr target \<Rightarrow>
             Option.bind (paint_background target occlusion (st_opaque_tiles stats) background wire) (\<lambda>target.
               map_option (\<lambda>(result, framebuffer). (result, framebuffer, occlusion))
                 (draw_boards stride wire occlusion blitter 0 boards stats (bt_pixels target)))))"

definition raster_scene ::
  "u16 list \<Rightarrow> nat \<Rightarrow> scene_billboard list \<Rightarrow> background \<Rightarrow> bool \<Rightarrow> occlusion \<Rightarrow>
   ((raster_error + scene_stats) \<times> u16 list \<times> occlusion) option" where
  "raster_scene framebuffer stride boards background wire occlusion =
     raster_scene_with_blitter framebuffer stride boards (background, ScalarBlitter) wire occlusion"

section \<open>The painter\<close>

text \<open>All boards, in order, over the background: no occlusion, no clipping, no spans.\<close>

definition background_pixel :: "bool \<Rightarrow> background \<Rightarrow> nat \<Rightarrow> nat \<Rightarrow> u16" where
  "background_pixel wire background x y = wire_order wire (color_list (bg_row background y) ! (x mod 4))"

fun paint_boards :: "bool \<Rightarrow> scene_billboard list \<Rightarrow> nat \<Rightarrow> nat \<Rightarrow> u16 \<Rightarrow> u16 option" where
  "paint_boards wire [] x y dst = Some dst"
| "paint_boards wire (b # boards) x y dst = Option.bind (board_pixel wire b x y dst) (paint_boards wire boards x y)"

definition painter_pixel :: "bool \<Rightarrow> background \<Rightarrow> scene_billboard list \<Rightarrow> nat \<Rightarrow> nat \<Rightarrow> u16 option" where
  "painter_pixel wire background boards x y = paint_boards wire boards x y (background_pixel wire background x y)"

section \<open>The contract of a background\<close>

locale background_contract =
  fixes bg :: background
  assumes fill: "bg_fill bg pixels colors = map (\<lambda>i. color_list colors ! (i mod 4)) [0..<length pixels]"

lemma length_color_list [simp]: "length (color_list colors) = 4"
  by (cases colors) simp

lemma take_colors: "n < 4 \<Longrightarrow> take n (color_list colors) = map (\<lambda>i. color_list colors ! (i mod 4)) [0..<n]"
  by (auto intro: nth_equalityI)

lemma background_fill_nth:
  "background_fill pixels colors = map (\<lambda>i. color_list colors ! (i mod 4)) [0..<length pixels]"
proof (induction pixels colors rule: background_fill.induct)
  case (1 a b c d pixels colors)
  obtain p q r s where colors: "colors = (p, q, r, s)" by (metis prod_cases4)
  have four: "[0..<4] = [0, 1, 2, 3 :: nat]" by code_simp
  have "[0..<length (a # b # c # d # pixels)] = [0..<4] @ map (\<lambda>i. i + 4) [0..<length pixels]"
    using upt_add_eq_append [of 0 4 "length pixels"] map_add_upt [of 4 "length pixels"]
    by (simp add: numeral_eq_Suc del: upt_Suc)
  then show ?case using 1 unfolding four by (simp add: colors comp_def del: upt_Suc)
qed (simp_all only: background_fill.simps, (rule take_colors, simp)+)

interpretation row_background: background_contract "row_background row" for row
  by unfold_locales (simp add: row_background_def background_fill_nth)

section \<open>Lemmas on the background\<close>

lemma zero_run:
  fixes cutoffs :: "u16 list"
  assumes "column < length cutoffs" and "cutoffs ! column = 0"
  defines "stop \<equiv> column + 1 + length (takeWhile (\<lambda>c. c = 0) (drop (column + 1) cutoffs))"
  shows "column < stop" and "stop \<le> length cutoffs" and "column \<le> z \<Longrightarrow> z < stop \<Longrightarrow> cutoffs ! z = 0"
    and "stop < length cutoffs \<Longrightarrow> cutoffs ! stop \<noteq> 0"
proof -
  let ?w = "takeWhile (\<lambda>c. c = 0) (drop (column + 1) cutoffs)"
  show "column < stop" by (simp add: stop_def)
  have "length ?w \<le> length cutoffs - (column + 1)" using length_takeWhile_le [of "\<lambda>c. c = 0" "drop (column + 1) cutoffs"] by simp
  then show "stop \<le> length cutoffs" using assms(1) by (simp add: stop_def)
  show "cutoffs ! z = 0" if z: "column \<le> z" "z < stop"
  proof (cases "z = column")
    case False
    then have k: "z - (column + 1) < length ?w" using z by (simp add: stop_def)
    then have "?w ! (z - (column + 1)) = 0" using nth_mem [OF k] set_takeWhileD by fastforce
    moreover have "?w ! (z - (column + 1)) = cutoffs ! z"
      using takeWhile_nth [OF k] False z(1) assms(1) by simp
    ultimately show ?thesis by simp
  qed (use assms(2) in simp)
  show "cutoffs ! stop \<noteq> 0" if "stop < length cutoffs"
    using nth_length_takeWhile [of "\<lambda>c. c = 0" "drop (column + 1) cutoffs"] that by (simp add: stop_def)
qed

text \<open>The runs are the stretches without a cutoff, and there are at most half as many as columns.\<close>

lemma tile_spans_ok:
  fixes cutoffs :: "u16 list"
  shows "spans_ok (\<lambda>z. cutoffs ! z = 0) column (length cutoffs) (tile_spans cutoffs column) \<or> length cutoffs < column"
proof (induction cutoffs column rule: tile_spans.induct)
  case (1 cutoffs column)
  note unfold = tile_spans.simps [of cutoffs column]
  consider "length cutoffs \<le> column" | "column < length cutoffs" "cutoffs ! column \<noteq> 0" | "column < length cutoffs" "cutoffs ! column = 0"
    by linarith
  then show ?case
  proof cases
    case 2
    then have "spans_ok (\<lambda>z. cutoffs ! z = 0) (column + 1) (length cutoffs) (tile_spans cutoffs (column + 1))" using "1.IH"(1) by auto
    moreover have "spans_ok v a e spans \<Longrightarrow> \<not> v c \<Longrightarrow> a = c + 1 \<Longrightarrow> spans_ok v c e spans" for v a e spans c
      by (cases "(v, a, e, spans)" rule: spans_ok.cases) (auto simp: less_Suc_eq_le Suc_le_eq nat_less_le)
    ultimately show ?thesis using 2 unfolding unfold by auto
  next
    case 3
    note Z = zero_run [OF 3]
    show ?thesis
      using 3 Z(1-3) "1.IH"(2) [OF 3(1) _ refl] unfolding unfold by (auto simp: Let_def)
  qed (auto simp: unfold)
qed

lemma tile_spans_count: "length (tile_spans cutoffs column) \<le> (length cutoffs - column + 1) div 2"
proof (induction "length cutoffs - column" arbitrary: column rule: less_induct)
  case less
  note unfold = tile_spans.simps [of cutoffs column]
  consider "length cutoffs \<le> column" | "column < length cutoffs" "cutoffs ! column \<noteq> 0" | "column < length cutoffs" "cutoffs ! column = 0"
    by linarith
  then show ?case
  proof cases
    case 2
    then have "length (tile_spans cutoffs (column + 1)) \<le> (length cutoffs - (column + 1) + 1) div 2" by (intro less) simp
    also have "\<dots> \<le> (length cutoffs - column + 1) div 2" by (intro div_le_mono) simp
    finally show ?thesis using 2 unfolding unfold by simp
  next
    case 3
    define stop where "stop = column + 1 + length (takeWhile (\<lambda>c. c = 0) (drop (column + 1) cutoffs))"
    note Z = zero_run [OF 3, folded stop_def]
    have "tile_spans cutoffs column = (column, stop) # tile_spans cutoffs stop" using 3 unfolding unfold stop_def by (simp add: Let_def)
    moreover have "length (tile_spans cutoffs stop) \<le> (length cutoffs - column - 1) div 2"
    proof (cases "stop < length cutoffs")
      case True
      then have "tile_spans cutoffs stop = tile_spans cutoffs (stop + 1)" using Z(4) by (subst tile_spans.simps) simp
      moreover have "length (tile_spans cutoffs (stop + 1)) \<le> (length cutoffs - (stop + 1) + 1) div 2" using Z(1) True by (intro less) simp
      moreover have "(length cutoffs - (stop + 1) + 1) div 2 \<le> (length cutoffs - column - 1) div 2" using Z(1) True by (intro div_le_mono) simp
      ultimately show ?thesis by simp
    qed (subst tile_spans.simps, simp)
    ultimately show ?thesis using 3(1) by simp
  qed (simp add: unfold)
qed

lemma spans_scaled:
  assumes "spans_ok v a n spans" and "0 < p"
  shows "spans_ok (\<lambda>z. v (z div p)) (a * p) (n * p) (map (\<lambda>(s, s'). (s * p, s' * p)) spans)"
  using assms
proof (induction v a n spans rule: spans_ok.induct)
  case (1 v a n)
  then show ?case by (auto simp: div_less_iff_less_mult less_eq_div_iff_mult_less_eq)
next
  case (2 v a n s s' spans)
  then show ?case by (auto simp: div_less_iff_less_mult less_eq_div_iff_mult_less_eq)
qed

text \<open>What the background covers: every pixel, or those no board was found to hide.\<close>

definition bare :: "occlusion \<Rightarrow> u32 \<Rightarrow> nat \<Rightarrow> nat \<Rightarrow> bool" where
  "bare occ opaque_tiles x y \<longleftrightarrow> opaque_tiles = 0 \<or> cutoff occ x y = 0"

lemma block_spans_ok:
  assumes occ: "occlusion_wf occ" and "band < 240"
  shows "\<exists>spans. block_spans occ n band = Some spans \<and> spans_ok (\<lambda>x. bare occ n x band) 0 320 spans \<and>
    (\<forall>(s, s') \<in> set spans. s mod 4 = 0)"
proof (cases "n = 0")
  case True
  then show ?thesis by (simp add: block_spans_def bare_def Let_def)
next
  case False
  let ?p = "tile_pixels (oc_tile occ)" and ?c = "tile_columns (oc_tile occ)"
  let ?a = "band div ?p * ?c"
  have "tile_index (oc_tile occ) 319 band < tile_cells (oc_tile occ)" using assms(2) by (intro tile_index_less) simp_all
  moreover have "319 div ?p + 1 = ?c" "?c * ?p = 320" "?p mod 4 = 0" by (cases "oc_tile occ"; simp add: tile_columns_def)+
  ultimately have fits: "?a + ?c \<le> length (oc_cutoffs occ)" and c: "?c * ?p = 320" and p4: "?p mod 4 = 0"
    using occ by (simp_all add: occlusion_wf_def tile_index_def)
  define cutoffs where "cutoffs = map (\<lambda>k. oc_cutoffs occ ! (?a + k)) [0..<?c]"
  have slice: "slice_of ?a (?a + ?c) (oc_cutoffs occ) = Some cutoffs" using fits by (simp add: slice_of_Some cutoffs_def)
  have len: "length cutoffs = ?c" by (simp add: cutoffs_def)
  have "?c \<le> 40" by (cases "oc_tile occ"; simp add: tile_columns_def)
  then have count: "length (tile_spans cutoffs 0) \<le> 20" using tile_spans_count [of cutoffs 0] len by simp
  let ?spans = "map (\<lambda>(s, s'). (s * ?p, s' * ?p)) (tile_spans cutoffs 0)"
  have "spans_ok (\<lambda>z. cutoffs ! z = 0) 0 ?c (tile_spans cutoffs 0)" using tile_spans_ok [of cutoffs 0] len by simp
  from spans_scaled [OF this tile_pixels_pos(1) [of "oc_tile occ"]]
  have ok: "spans_ok (\<lambda>z. cutoffs ! (z div ?p) = 0) 0 320 ?spans" using c by simp
  have cong: "spans_ok v a e spans \<Longrightarrow> (\<And>z. z < e \<Longrightarrow> v z = v' z) \<Longrightarrow> spans_ok v' a e spans" for v v' a e spans
    by (induction v a e spans rule: spans_ok.induct) auto
  have "spans_ok (\<lambda>x. bare occ n x band) 0 320 ?spans"
  proof (rule cong [OF ok])
    fix z :: nat assume "z < 320"
    then have "z div ?p < ?c" by (cases "oc_tile occ"; simp add: tile_columns_def div_less_iff_less_mult)
    then show "(cutoffs ! (z div ?p) = 0) = bare occ n z band"
      using False by (simp add: bare_def cutoff_def tile_index_def cutoffs_def unat_eq_0)
  qed
  moreover have "\<forall>(s, s') \<in> set ?spans. s mod 4 = 0" using p4 by (auto simp: mod_mult_right_eq [of _ ?p, symmetric])
  moreover have "block_spans occ n band = Some ?spans" using False slice count by (simp add: block_spans_def Let_def)
  ultimately show ?thesis by blast
qed

context background_contract
begin

lemma paint_row_shade:
  assumes s: "spans_ok v 0 320 spans" and aligned: "\<forall>(s, s') \<in> set spans. s mod 4 = 0"
    and ok: "band_ok stride y0 rows pixels" "y0 \<le> y" "y < y0 + rows"
  shows "paint_row bg wire stride y0 spans y pixels =
    Some (shade stride y0 (\<lambda>x y'. y' = y \<and> x < 320 \<and> v x) (\<lambda>x y d. background_pixel wire bg x y) pixels)"
proof -
  obtain a b c d where row: "bg_row bg y = (a, b, c, d)" by (metis prod_cases4)
  let ?colors = "(wire_order wire a, wire_order wire b, wire_order wire c, wire_order wire d)"
  let ?step = "\<lambda>p. update_slice ((y - y0) * stride + fst p) ((y - y0) * stride + snd p) (\<lambda>span. Some (bg_fill bg span ?colors))"
  have wire: "[wire_order wire a, wire_order wire b, wire_order wire c, wire_order wire d] ! (k mod 4) = wire_order wire (color_list (bg_row bg y) ! (k mod 4))" for k
  proof -
    have "k mod 4 < 4" by simp
    then consider "k mod 4 = 0" | "k mod 4 = 1" | "k mod 4 = 2" | "k mod 4 = 3" by linarith
    then show ?thesis by cases (simp_all add: row)
  qed
  have "fold_option ?step spans pixels = Some (shade stride y0 (\<lambda>x y'. \<exists>p \<in> set spans. y' = y \<and> fst p \<le> x \<and> x < snd p)
      (\<lambda>x y d. background_pixel wire bg x y) pixels)"
  proof (rule fold_shade [OF _ _ refl])
    fix p and px :: "u16 list"
    assume p: "p \<in> set spans" and len: "length px = length pixels"
    have bounds: "fst p < snd p" "snd p \<le> 320" using spans_within [OF s] p by (cases p; auto)+
    have stride: "320 \<le> stride" using ok(1) by (simp add: band_ok_def)
    have "fst p mod 4 = 0" using aligned p by auto
    then have phase: "(fst p + k) mod 4 = k mod 4" for k by (metis mod_add_left_eq add_0)
    show "?step p px = Some (shade stride y0 (\<lambda>x y'. y' = y \<and> fst p \<le> x \<and> x < snd p) (\<lambda>x y d. background_pixel wire bg x y) px)"
      using bounds stride ok len band_row_fits [OF ok, of "snd p"]
      by (intro update_slice_shade) (simp_all add: fill background_pixel_def phase wire)
  next
    show "sorted_wrt (\<lambda>p q. \<forall>x y'. y' = y \<and> fst p \<le> x \<and> x < snd p \<longrightarrow> \<not> (y' = y \<and> fst q \<le> x \<and> x < snd q)) spans"
      by (rule sorted_wrt_mono_rel [OF _ spans_sorted [OF s]]) auto
  qed
  moreover have "(\<lambda>x y'. \<exists>p \<in> set spans. y' = y \<and> fst p \<le> x \<and> x < snd p) = (\<lambda>x y'. y' = y \<and> x < 320 \<and> v x)"
    using spans_cover [OF s] by (auto simp: fun_eq_iff)
  ultimately show ?thesis by (simp add: paint_row_def row case_prod_unfold)
qed

lemma paint_background_shade:
  assumes occ: "occlusion_wf occ" and ok: "band_ok (bt_stride t) (bt_y t) (bt_rows t) (bt_pixels t)"
  shows "paint_background t occ n bg wire =
    Some (t\<lparr>bt_pixels := shade (bt_stride t) (bt_y t)
      (\<lambda>x y. x < 320 \<and> bt_y t \<le> y \<and> y < bt_y t + bt_rows t \<and> bare occ n x y)
      (\<lambda>x y d. background_pixel wire bg x y) (bt_pixels t)\<rparr>)"
proof -
  let ?stride = "bt_stride t" and ?y0 = "bt_y t" and ?bottom = "bt_y t + bt_rows t"
  let ?f = "\<lambda>x y d. background_pixel wire bg x y"
  let ?blocks = "row_blocks (Some (oc_tile occ)) ?y0 ?bottom"
  let ?step = "\<lambda>rr pixels. Option.bind (block_spans occ n (fst rr)) (\<lambda>spans.
      fold_option (paint_row bg wire ?stride ?y0 spans) [fst rr..<snd rr] pixels)"
  let ?R = "\<lambda>rr x y. fst rr \<le> y \<and> y < snd rr \<and> x < 320 \<and> bare occ n x (fst rr)"
  note blocks = row_blocks_ok [of "Some (oc_tile occ)" ?y0 ?bottom]
  note B = blocks_sorted [OF blocks]
  have "fold_option ?step ?blocks (bt_pixels t) = Some (shade ?stride ?y0 (\<lambda>x y. \<exists>rr \<in> set ?blocks. ?R rr x y) ?f (bt_pixels t))"
  proof (rule fold_shade [OF _ _ refl])
    fix rr and px :: "u16 list"
    assume rr: "rr \<in> set ?blocks" and len: "length px = length (bt_pixels t)"
    have b: "?y0 \<le> fst rr" "fst rr < snd rr" "snd rr \<le> ?bottom" using B rr by auto
    then have "fst rr < 240" using ok by (simp add: band_ok_def)
    from block_spans_ok [OF occ this, of n] obtain spans where
      spans: "block_spans occ n (fst rr) = Some spans" "spans_ok (\<lambda>x. bare occ n x (fst rr)) 0 320 spans"
        "\<forall>(s, s') \<in> set spans. s mod 4 = 0" by blast
    have "fold_option (paint_row bg wire ?stride ?y0 spans) [fst rr..<snd rr] px =
      Some (shade ?stride ?y0 (\<lambda>x y'. \<exists>y \<in> set [fst rr..<snd rr]. y' = y \<and> x < 320 \<and> bare occ n x (fst rr)) ?f px)"
    proof (rule fold_shade [OF _ _ refl])
      fix y and px' :: "u16 list"
      assume "y \<in> set [fst rr..<snd rr]" "length px' = length px"
      then show "paint_row bg wire ?stride ?y0 spans y px' =
          Some (shade ?stride ?y0 (\<lambda>x y'. y' = y \<and> x < 320 \<and> bare occ n x (fst rr)) ?f px')"
        using b ok len by (intro paint_row_shade [OF spans(2,3), where rows = "bt_rows t"]) (auto simp: band_ok_def)
    qed (auto simp: sorted_wrt_iff_nth_less)
    then show "?step rr px = Some (shade ?stride ?y0 (?R rr) ?f px)" by (simp add: spans(1) conj_assoc)
  next
    show "sorted_wrt (\<lambda>p q. \<forall>x y. ?R p x y \<longrightarrow> \<not> ?R q x y) ?blocks"
      by (rule sorted_wrt_mono_rel [OF _ conjunct1 [OF B]]) auto
  qed
  moreover have "(\<lambda>x y. \<exists>rr \<in> set ?blocks. ?R rr x y) = (\<lambda>x y. x < 320 \<and> ?y0 \<le> y \<and> y < ?bottom \<and> bare occ n x y)"
  proof (intro ext)
    fix x y
    have "bare occ n x (fst rr) = bare occ n x y" if "rr \<in> set ?blocks" "fst rr \<le> y" "y < snd rr" for rr
      using blocks_tile [OF blocks, of "fst rr" "snd rr" y] that by (simp add: bare_def cutoff_def tile_index_def)
    then show "(\<exists>rr \<in> set ?blocks. ?R rr x y) = (x < 320 \<and> ?y0 \<le> y \<and> y < ?bottom \<and> bare occ n x y)"
      using blocks_cover [OF blocks, of y] by blast
  qed
  ultimately show ?thesis by (simp add: paint_background_def case_prod_unfold)
qed

end

section \<open>Skipping what is hidden changes nothing\<close>

text \<open>What drawing with the occlusion makes of a pixel: a board is skipped where it is hidden.\<close>

fun shown_pixel :: "occlusion \<Rightarrow> bool \<Rightarrow> nat \<Rightarrow> scene_billboard list \<Rightarrow> nat \<Rightarrow> nat \<Rightarrow> u16 \<Rightarrow> u16" where
  "shown_pixel occ wire i [] x y d = d"
| "shown_pixel occ wire i (b # boards) x y d =
     shown_pixel occ wire (i + 1) boards x y (if visible occ i x y then shaded wire b x y d else d)"

lemma shown_all:
  "cutoff occ x y \<le> i + 1 \<Longrightarrow> list_all board_wf boards \<Longrightarrow>
   paint_boards wire boards x y d = Some (shown_pixel occ wire i boards x y d)"
proof (induction boards arbitrary: i d)
  case (Cons b boards)
  then show ?case using Cons.IH [of "i + 1"] by (simp add: visible_def board_pixel_total)
qed simp

lemma shown_hidden:
  assumes "cutoff occ x y = j + 1" and "i \<le> j" and "j < i + length boards" and "opaque_at (boards ! (j - i)) x y"
    and "list_all board_wf boards"
  shows "paint_boards wire boards x y d = Some (shown_pixel occ wire i boards x y d')"
  using assms
proof (induction boards arbitrary: i d d')
  case (Cons b boards)
  show ?case
  proof (cases "j = i")
    case True
    then have "shaded wire b x y d = shaded wire b x y d'" using Cons.prems by (intro shaded_opaque) simp_all
    then show ?thesis using Cons.prems(1,5) True shown_all [of occ x y "i + 1" boards wire]
      by (simp add: visible_def board_pixel_total)
  next
    case False
    then have "j - i = Suc (j - (i + 1))" using Cons.prems(2) by simp
    then have "opaque_at (boards ! (j - (i + 1))) x y" using Cons.prems(4) by simp
    then show ?thesis using Cons.prems False Cons.IH [of "i + 1"] by (simp add: visible_def board_pixel_total)
  qed
qed simp

lemma scene_pixel:
  assumes "prepared (oc_tile occ) boards (oc_cutoffs occ, stats)" and "list_all board_wf boards"
    and "x < 320" and "y < 240"
  shows "painter_pixel wire bg boards x y =
    Some (shown_pixel occ wire 0 boards x y (if bare occ (st_opaque_tiles stats) x y then background_pixel wire bg x y else d))"
proof (cases "cutoff occ x y")
  case 0
  then show ?thesis using shown_all [of occ x y 0 boards wire] assms(2) by (simp add: painter_pixel_def bare_def)
next
  case (Suc j)
  then have "cutoff occ x y \<noteq> 0" by simp
  from prepared_cutoff [OF assms(1,3,4) this] Suc have "j < length boards" "opaque_at (boards ! j) x y" by simp_all
  then show ?thesis unfolding painter_pixel_def using Suc assms(2) by (intro shown_hidden) simp_all
qed

lemma shade_compose:
  "shade stride y0 R g (shade stride y0 R f pixels) = shade stride y0 R (\<lambda>x y d. g x y (f x y d)) pixels"
  by (auto simp: nth_shade intro!: nth_equalityI)

lemma shade_if:
  "(\<And>x y. R x y \<longleftrightarrow> P x y \<and> Q x y) \<Longrightarrow> shade stride y0 R f pixels = shade stride y0 P (\<lambda>x y d. if Q x y then f x y d else d) pixels"
  by (auto simp: nth_shade intro!: nth_equalityI)

lemma shade_id: "shade stride y0 P (\<lambda>x y d. d) pixels = pixels"
  by (auto simp: nth_shade intro: nth_equalityI)

lemma shade_cong:
  "(\<And>x y d. P x y \<Longrightarrow> f x y d = g x y d) \<Longrightarrow> shade stride y0 P f pixels = shade stride y0 P g pixels"
  by (auto simp: nth_shade intro!: nth_equalityI)

text \<open>With or without a mask, a board is drawn where it is visible.\<close>

lemma board_region_shade:
  assumes "\<And>x y. x < 320 \<Longrightarrow> y < 240 \<Longrightarrow> in_rect (board_rect b) x y \<Longrightarrow> mask_visible m x y = visible occ i x y"
    and "y0 + rows \<le> 240"
  shows "shade stride y0 (board_region b m y0 rows) (shaded wire b) pixels =
    shade stride y0 (\<lambda>x y. x < 320 \<and> y0 \<le> y \<and> y < y0 + rows) (\<lambda>x y d. if visible occ i x y then shaded wire b x y d else d) pixels"
proof -
  have "shade stride y0 (board_region b m y0 rows) (shaded wire b) pixels =
    shade stride y0 (\<lambda>x y. x < 320 \<and> y0 \<le> y \<and> y < y0 + rows)
      (\<lambda>x y d. if in_rect (board_rect b) x y \<and> mask_visible m x y then shaded wire b x y d else d) pixels"
    by (rule shade_if) (auto simp: board_region_def)
  also have "\<dots> = shade stride y0 (\<lambda>x y. x < 320 \<and> y0 \<le> y \<and> y < y0 + rows) (\<lambda>x y d. if visible occ i x y then shaded wire b x y d else d) pixels"
  proof (rule shade_cong)
    fix x y :: nat and d assume "x < 320 \<and> y0 \<le> y \<and> y < y0 + rows"
    then show "(if in_rect (board_rect b) x y \<and> mask_visible m x y then shaded wire b x y d else d) =
        (if visible occ i x y then shaded wire b x y d else d)"
      using assms shaded_outside [of b x y wire d] by (cases "in_rect (board_rect b) x y") simp_all
  qed
  finally show ?thesis .
qed

lemma scene_mask_for_ok:
  assumes "occlusion_wf occ" and "\<And>x y. n = 0 \<Longrightarrow> x < 320 \<Longrightarrow> y < 240 \<Longrightarrow> cutoff occ x y = 0"
  shows "\<exists>m. scene_mask_for occ n i b = Some m \<and> mask_wf m \<and>
    (\<forall>x < 320. \<forall>y < 240. in_rect (board_rect b) x y \<longrightarrow> mask_visible m x y = visible occ i x y)"
proof -
  obtain h where h: "hides occ (board_rect b) i = Some h"
    "\<not> h \<longrightarrow> (\<forall>x < 320. \<forall>y < 240. in_rect (board_rect b) x y \<longrightarrow> visible occ i x y)"
    using hides_Some [OF assms(1)] by blast
  show ?thesis
  proof (cases "n = 0 \<or> \<not> h")
    case True
    have "scene_mask_for occ n i b = Some None" using True h(1) by (auto simp: scene_mask_for_def)
    moreover have "visible occ i x y" if "x < 320" "y < 240" "in_rect (board_rect b) x y" for x y
      using True h(2) assms(2) that by (auto simp: visible_def)
    ultimately show ?thesis by (simp add: mask_wf_def mask_visible_def)
  next
    case False
    then show ?thesis using h(1) assms(1)
      by (simp add: scene_mask_for_def mask_wf_def mask_visible_def)
  qed
qed

context blitter_contract
begin

lemma draw_boards_shade:
  assumes "list_all board_wf boards" and occ: "occlusion_wf occ"
    and "st_opaque_tiles stats = n" and bare: "\<And>x y. n = 0 \<Longrightarrow> x < 320 \<Longrightarrow> y < 240 \<Longrightarrow> cutoff occ x y = 0"
    and fb: "320 \<le> stride" "stride * 240 < 2 ^ 64" "stride * 240 \<le> length pixels"
  shows "\<exists>stats'. draw_boards stride wire occ b i boards stats pixels =
    Some (Inr stats', shade stride 0 (\<lambda>x y. x < 320 \<and> y < 240) (shown_pixel occ wire i boards) pixels)"
  using assms(1,3,7)
proof (induction boards arbitrary: i stats pixels)
  case Nil
  then show ?case by (simp add: shade_id)
next
  case (Cons bd boards)
  obtain m where m: "scene_mask_for occ n i bd = Some m" "mask_wf m"
    "\<And>x y. x < 320 \<Longrightarrow> y < 240 \<Longrightarrow> in_rect (board_rect bd) x y \<Longrightarrow> mask_visible m x y = visible occ i x y"
    using scene_mask_for_ok [OF occ bare, where n = n and i = i and b = bd] by blast
  obtain st where st: "raster_billboard_masked pixels stride (sb_projected bd) (sb_texture bd) (sb_region bd) wire (m, b) =
      Some (Inr st, shade stride 0 (board_region bd m 0 240) (shaded wire bd) pixels)"
    using raster_billboard_masked_shade [OF _ m(2) fb(1,2) Cons.prems(3)] Cons.prems(1) by fastforce
  let ?one = "shade stride 0 (board_region bd m 0 240) (shaded wire bd) pixels"
  have one: "?one = shade stride 0 (\<lambda>x y. x < 320 \<and> y < 240) (\<lambda>x y d. if visible occ i x y then shaded wire bd x y d else d) pixels"
    using board_region_shade [of bd m occ i 0 240] m(3) by simp
  have "\<exists>stats'. draw_boards stride wire occ b (i + 1) boards (count_board bd st stats) ?one =
      Some (Inr stats', shade stride 0 (\<lambda>x y. x < 320 \<and> y < 240) (shown_pixel occ wire (i + 1) boards) ?one)"
    using Cons.prems by (intro Cons.IH) (simp_all add: count_board_def Let_def)
  then show ?case using m(1) st Cons.prems(2) unfolding one by (auto simp: shade_compose)
qed

end

locale scene_backend = blitter_contract b + background_contract bg for b bg
begin

lemma raster_scene_shade:
  assumes wf: "list_all board_wf boards" and len: "length boards \<le> 65535" and order: "\<not> misordered boards"
    and occ: "occlusion_wf occ" and fb: "320 \<le> stride" "stride * 240 < 2 ^ 64" "stride * 240 \<le> length pixels"
  shows "\<exists>stats drawn occ'. raster_scene_with_blitter pixels stride boards (bg, b) wire occ = Some (Inr stats, drawn, occ') \<and>
    length drawn = length pixels \<and>
    (\<forall>x < 320. \<forall>y < 240. painter_pixel wire bg boards x y = Some (drawn ! (y * stride + x))) \<and>
    (\<forall>i < length pixels. 320 \<le> i mod stride \<or> 240 \<le> i div stride \<longrightarrow> drawn ! i = pixels ! i)"
proof -
  obtain occ' stats where p: "prepare occ boards scene_stats_default = Some (occ', stats)"
    "oc_tile occ' = oc_tile occ" "prepared (oc_tile occ) boards (oc_cutoffs occ', stats)"
    by (rule prepare_prepared [OF wf len occ])
  have prep: "prepared (oc_tile occ') boards (oc_cutoffs occ', stats)" using p by simp
  then have occ': "occlusion_wf occ'" by (simp add: occlusion_wf_def prepared_def)
  let ?n = "st_opaque_tiles stats"
  have none: "cutoff occ' x y = 0" if "?n = 0" "x < 320" "y < 240" for x y
    using prepared_no_tiles [OF prep] that by simp
  let ?t = "\<lparr>bt_pixels = pixels, bt_stride = stride, bt_y = 0, bt_rows = 240\<rparr>"
  let ?V = "\<lambda>x y :: nat. (x :: nat) < 320 \<and> y < 240"
  let ?bg = "\<lambda>x y d. if bare occ' ?n x y then background_pixel wire bg x y else d"
  have t: "band_target_new pixels stride 0 240 = Inr ?t"
    using fb by (simp add: band_target_new_def)
  have "band_ok (bt_stride ?t) (bt_y ?t) (bt_rows ?t) (bt_pixels ?t)" using fb by (simp add: band_ok_def mult.commute)
  from paint_background_shade [OF occ' this, of ?n wire]
  have paint: "paint_background ?t occ' ?n bg wire = Some (?t\<lparr>bt_pixels := shade stride 0
      (\<lambda>x y. x < 320 \<and> y < 240 \<and> bare occ' ?n x y) (\<lambda>x y d. background_pixel wire bg x y) pixels\<rparr>)" by simp
  have backdrop: "shade stride 0 (\<lambda>x y. x < 320 \<and> y < 240 \<and> bare occ' ?n x y) (\<lambda>x y d. background_pixel wire bg x y) pixels =
      shade stride 0 ?V ?bg pixels" by (rule shade_if) simp
  obtain stats' where boards: "draw_boards stride wire occ' b 0 boards stats (shade stride 0 ?V ?bg pixels) =
      Some (Inr stats', shade stride 0 ?V (shown_pixel occ' wire 0 boards) (shade stride 0 ?V ?bg pixels))"
    using draw_boards_shade [OF wf occ' refl none fb(1,2), where pixels = "shade stride 0 ?V ?bg pixels" and wire = wire and i = 0] fb(3) by auto
  define drawn where "drawn = shade stride 0 ?V (\<lambda>x y d. shown_pixel occ' wire 0 boards x y (?bg x y d)) pixels"
  have "raster_scene_with_blitter pixels stride boards (bg, b) wire occ = Some (Inr stats', drawn, occ')"
    using fb len order
    by (simp add: raster_scene_with_blitter_def p(1) t paint backdrop boards del: if_split) (simp add: drawn_def shade_compose)
  moreover have "painter_pixel wire bg boards x y = Some (drawn ! (y * stride + x))" if "x < 320" "y < 240" for x y
  proof -
    have "stride + y * stride \<le> 240 * stride" using mult_le_mono1 [of "Suc y" 240 stride] that(2) by (simp only: mult_Suc)
    then have "y * stride + x < length pixels" using that(1) fb by linarith
    moreover have "(y * stride + x) mod stride = x" "(y * stride + x) div stride = y" using that(1) fb(1) by simp_all
    ultimately show ?thesis
      using scene_pixel [OF prep wf that, of wire bg "pixels ! (y * stride + x)"] that by (simp add: drawn_def nth_shade)
  qed
  moreover have "drawn ! i = pixels ! i" if "i < length pixels" "320 \<le> i mod stride \<or> 240 \<le> i div stride" for i
    using that by (auto simp: drawn_def nth_shade)
  moreover have "length drawn = length pixels" by (simp add: drawn_def)
  ultimately show ?thesis by blast
qed

end

interpretation scalar_scene: scene_backend ScalarBlitter "row_background row" for row ..

section \<open>Property\<close>

text \<open>
  C9: Drawing a scene never panics, and puts on every pixel of the viewport what a painter would who
  draws every board, far to near, over the whole background: skipping hidden boards and hidden
  background, clipping, span writing, coordinate stepping and the copying of unscaled rows change
  nothing. Words of the framebuffer outside the viewport are kept.
\<close>

theorem raster_scene_painter:
  assumes "list_all board_wf boards" and "length boards \<le> 65535" and "\<not> misordered boards"
    and "occlusion_new tile scratch = Inr occ"
    and "320 \<le> stride" and "stride * 240 < 2 ^ 64" and "stride * 240 \<le> length framebuffer"
  shows "\<exists>stats drawn occ'.
    raster_scene framebuffer stride boards (row_background row) wire occ = Some (Inr stats, drawn, occ') \<and>
    length drawn = length framebuffer \<and>
    (\<forall>x < 320. \<forall>y < 240. painter_pixel wire (row_background row) boards x y = Some (drawn ! (y * stride + x))) \<and>
    (\<forall>i < length framebuffer. 320 \<le> i mod stride \<or> 240 \<le> i div stride \<longrightarrow> drawn ! i = framebuffer ! i)"
proof -
  have "occlusion_wf occ" using assms(4) by (auto simp: occlusion_new_def occlusion_wf_def split: if_splits)
  then show ?thesis unfolding raster_scene_def
    using scalar_scene.raster_scene_shade [OF assms(1-3) _ assms(5-7)] by blast
qed

text \<open>A scene of one board of 8x8 pixels, drawn through a texture of one red texel.\<close>

definition red_board :: scene_billboard where
  "red_board =
     \<lparr>sb_projected = \<lparr>pb_id = 1, pb_screen_rect = \<lparr>sr_x = 0, sr_y = 0, sr_width = 8, sr_height = 8\<rparr>, pb_depth = 65536,
                      pb_source = 1, pb_filter = FNearest\<rparr>,
      sb_texture = \<lparr>tx_size = \<lparr>ss_width = 1, ss_height = 1\<rparr>, tx_pixels = [0xF800], tx_coverage = Opaque\<rparr>,
      sb_region = \<lparr>tr_source_x = 0, tr_source_y = 0, tr_width = 1, tr_height = 1, tr_stride = 1\<rparr>\<rparr>"

lemma red_board_wf: "board_wf red_board"
  by (simp add: board_wf_def red_board_def scene_billboard_new_def validate_texture_def mask_sound_def in_i32_def)

lemma red_pixel: "painter_pixel False (row_background row) [red_board] 3 3 = Some 0xF800"
proof -
  have "in_rect (board_rect red_board) 3 3" "pb_filter (sb_projected red_board) = FNearest"
    by (simp_all add: in_rect_def red_board_def)
  from shaded_nearest [OF red_board_wf this refl]
  have "shaded False red_board 3 3 d = 0xF800" for d
    by (simp add: texel_x_def texel_y_def texel_def red_board_def put_pixel_def wire_order_def)
  then show ?thesis by (simp add: painter_pixel_def board_pixel_total [OF red_board_wf])
qed

theorem raster_scene_painter_witness:
  "\<exists>stats drawn occ'.
    raster_scene (replicate 76800 0) 320 [red_board] (row_background (\<lambda>y. (1, 2, 3, 4))) False
      \<lparr>oc_tile = Eight, oc_cutoffs = replicate 1200 0\<rparr> = Some (Inr stats, drawn, occ') \<and>
    drawn ! 963 = 0xF800"
proof -
  let ?fb = "replicate 76800 0 :: u16 list" and ?bg = "\<lambda>y :: nat. (1, 2, 3, 4) :: row_colors"
  have "occlusion_new Eight (replicate 1200 0) = Inr \<lparr>oc_tile = Eight, oc_cutoffs = replicate 1200 0\<rparr>"
    by (simp add: occlusion_new_def tile_cells_def)
  moreover have "list_all board_wf [red_board]" "\<not> misordered [red_board]" "320 * 240 \<le> length ?fb"
    by (simp_all add: red_board_wf misordered_def)
  ultimately obtain stats drawn occ' where
    "raster_scene ?fb 320 [red_board] (row_background ?bg) False \<lparr>oc_tile = Eight, oc_cutoffs = replicate 1200 0\<rparr> =
      Some (Inr stats, drawn, occ')"
    "\<forall>x < 320. \<forall>y < 240. painter_pixel False (row_background ?bg) [red_board] x y = Some (drawn ! (y * 320 + x))"
    using raster_scene_painter [of "[red_board]" Eight "replicate 1200 0"
        "\<lparr>oc_tile = Eight, oc_cutoffs = replicate 1200 0\<rparr>" 320 ?fb ?bg False] by auto
  moreover from this(2) have "painter_pixel False (row_background ?bg) [red_board] 3 3 = Some (drawn ! (3 * 320 + 3))" by simp
  ultimately show ?thesis by (auto simp: red_pixel)
qed

end
