(* ===== verification/Bands.thy ===== *)
theory Bands
  imports Scene
begin

text \<open>
  \<open>crates/deskkin-presentation/src/bands.rs\<close>: a scene prepared once and drawn band by band, as the
  device does with two small buffers. The observers of the drawing phases are left out.
\<close>

section \<open>Preparation\<close>

record prepared_board =
  pr_columns :: "nat \<times> nat"
  pr_left :: nat
  pr_top :: nat
  pr_bottom :: nat
  pr_visible :: bool
  pr_native :: bool
  pr_masked :: bool

record prepared_scene =
  ps_boards :: "scene_billboard list"
  ps_prepared :: "prepared_board list"
  ps_columns :: "column_sample list"
  ps_occlusion :: occlusion
  ps_stats :: scene_stats

text \<open>
  One turn of the loop: the entry of a board, the scratch columns with the board's own written at
  \<open>used\<close>, and the statistics.
\<close>

definition prepare_entry ::
  "occlusion \<Rightarrow> nat \<Rightarrow> scene_billboard \<Rightarrow> nat \<Rightarrow> column_sample list \<Rightarrow> scene_stats \<Rightarrow>
   (raster_error + prepared_board \<times> column_sample list \<times> scene_stats) option" where
  "prepare_entry occlusion index board used columns stats =
     (let r = board_rect board;
          left = nat (clamp 0 VIEWPORT_WIDTH (sr_x r));
          right = nat (clamp 0 VIEWPORT_WIDTH (sat_i32 (sr_x r + sr_width r)));
          upper = nat (clamp 0 VIEWPORT_HEIGHT (sr_y r));
          bottom = nat (clamp 0 VIEWPORT_HEIGHT (sat_i32 (sr_y r + sr_height r)))
      in Option.bind (if st_opaque_tiles stats \<noteq> 0 then hides occlusion r index else Some False) (\<lambda>masked.
         Option.bind
           (if left < right \<and> upper < bottom
            then (if \<not> masked then Some True else has_visible_span occlusion upper bottom left right index)
            else Some False) (\<lambda>visible.
           let native = is_native (sb_projected board) (sb_region board);
               count = (if visible \<and> \<not> native then right - left else 0);
               entry = \<lparr>pr_columns = (used, used + count), pr_left = left, pr_top = upper, pr_bottom = bottom,
                        pr_visible = visible, pr_native = native, pr_masked = masked\<rparr>
           in if count > length columns - used then Some (Inl InsufficientScratch)
              else if count \<noteq> 0 then
                (let samples = map (column_of (tr_source_x (sb_region board)))
                       (fst (axis_takes count (axis_new (tr_width (sb_region board)) (sr_width r) (int left - sr_x r))))
                 in map_option (\<lambda>columns. Inr (entry, columns,
                        stats\<lparr>st_scaler_preparations := st_scaler_preparations stats + 1\<rparr>))
                      (update_slice used (used + count) (\<lambda>_. Some samples) columns))
              else Some (Inr (entry, columns, stats)))))"

fun prepare_entries ::
  "occlusion \<Rightarrow> nat \<Rightarrow> scene_billboard list \<Rightarrow> nat \<Rightarrow> column_sample list \<Rightarrow> scene_stats \<Rightarrow>
   (raster_error + prepared_board list \<times> nat \<times> column_sample list \<times> scene_stats) option" where
  "prepare_entries occlusion index [] used columns stats = Some (Inr ([], used, columns, stats))"
| "prepare_entries occlusion index (board # boards) used columns stats =
     Option.bind (prepare_entry occlusion index board used columns stats) (\<lambda>result.
       case result of
         Inl e \<Rightarrow> Some (Inl e)
       | Inr (entry, columns, stats) \<Rightarrow>
           map_option (\<lambda>result. case result of
                Inl e \<Rightarrow> Inl e
              | Inr (entries, used, columns, stats) \<Rightarrow> Inr (entry # entries, used, columns, stats))
             (prepare_entries occlusion (index + 1) boards (snd (pr_columns entry)) columns stats))"

definition prepared_scene_new ::
  "scene_billboard list \<Rightarrow> occlusion \<Rightarrow> nat \<Rightarrow> column_sample list \<Rightarrow> (raster_error + prepared_scene) option" where
  "prepared_scene_new boards occlusion prepared_len columns =
     (if length boards > 65535 \<or> misordered boards then Some (Inl InvalidOrder)
      else if prepared_len < length boards then Some (Inl InsufficientScratch)
      else
        Option.bind (prepare occlusion boards scene_stats_default) (\<lambda>(occlusion, stats).
          map_option (\<lambda>result. case result of
               Inl e \<Rightarrow> Inl e
             | Inr (entries, used, columns, stats) \<Rightarrow>
                 Inr \<lparr>ps_boards = boards, ps_prepared = entries, ps_columns = take used columns,
                      ps_occlusion = occlusion, ps_stats = stats\<rparr>)
            (prepare_entries occlusion 0 boards 0 columns stats)))"

section \<open>Drawing one band\<close>

text \<open>The sample counters are plain additions; they wrap here where a build with checks would panic.\<close>

definition count_samples :: "texture_filter \<Rightarrow> u32 \<Rightarrow> scene_stats \<Rightarrow> scene_stats" where
  "count_samples sampling samples stats =
     stats\<lparr>st_raster := (case sampling of
         FNearest \<Rightarrow> (st_raster stats)\<lparr>rs_nearest_samples := rs_nearest_samples (st_raster stats) + samples\<rparr>
       | FBilinear \<Rightarrow> (st_raster stats)\<lparr>rs_bilinear_samples := rs_bilinear_samples (st_raster stats) + samples\<rparr>)\<rparr>"

definition raster_entry ::
  "prepared_scene \<Rightarrow> bool \<Rightarrow> blitter \<Rightarrow> nat \<times> scene_billboard \<times> prepared_board \<Rightarrow> band_target \<times> scene_stats \<Rightarrow>
   (band_target \<times> scene_stats) option" where
  "raster_entry self wire blitter = (\<lambda>(index, board, entry) (target, stats).
     (let upper = max (pr_top entry) (bt_y target);
          bottom = min (pr_bottom entry) (bt_y target + bt_rows target);
          m = (if pr_masked entry then Some (ps_occlusion self, index) else None);
          sampling = pb_filter (sb_projected board)
      in if \<not> pr_visible entry \<or> upper \<ge> bottom then Some (target, stats)
         else if pr_native entry then
           map_option (\<lambda>(samples, target). (target, count_samples sampling samples stats))
             (raster_native target (sb_projected board) (sb_texture board) (sb_region board) wire (m, blitter))
         else
           Option.bind (slice_of (fst (pr_columns entry)) (snd (pr_columns entry)) (ps_columns self)) (\<lambda>columns.
             map_option (\<lambda>(samples, pixels). (target\<lparr>bt_pixels := pixels\<rparr>, count_samples sampling samples stats))
               (dispatch_visible
                  \<lparr>rw_origin = bt_y target, rw_stride = bt_stride target, rw_left = pr_left entry, rw_top = upper,
                   rw_bottom = bottom, rw_columns = columns,
                   rw_y = axis_new (tr_height (sb_region board)) (sr_height (board_rect board))
                            (int upper - sr_y (board_rect board)),
                   rw_region = sb_region board\<rparr>
                  (bt_pixels target) (sb_texture board) sampling wire (m, blitter)))))"

definition raster_band ::
  "prepared_scene \<Rightarrow> band_target \<Rightarrow> background \<times> blitter \<Rightarrow> bool \<Rightarrow> (band_target \<times> prepared_scene) option" where
  "raster_band self target = (\<lambda>(background, blitter) wire.
     Option.bind (paint_background target (ps_occlusion self) (st_opaque_tiles (ps_stats self)) background wire) (\<lambda>target.
       map_option (\<lambda>(target, stats). (target, self\<lparr>ps_stats := stats\<rparr>))
         (fold_option (raster_entry self wire blitter)
            (enumerate 0 (zip (ps_boards self) (ps_prepared self))) (target, ps_stats self))))"

section \<open>Lemmas on the preparation\<close>

text \<open>What an entry promises about its board.\<close>

definition entry_ok :: "occlusion \<Rightarrow> nat \<Rightarrow> scene_billboard \<Rightarrow> column_sample list \<Rightarrow> prepared_board \<Rightarrow> bool" where
  "entry_ok occ i b columns e \<longleftrightarrow>
     (if pr_visible e then
        meets_viewport (board_rect b) \<and>
        pr_left e = nat (max (sr_x (board_rect b)) 0) \<and> pr_top e = nat (max (sr_y (board_rect b)) 0) \<and>
        pr_bottom e = as_usize (min (sat_i32 (sr_y (board_rect b) + sr_height (board_rect b))) VIEWPORT_HEIGHT) \<and>
        pr_native e = is_native (sb_projected b) (sb_region b) \<and>
        (\<forall>x < 320. \<forall>y < 240. in_rect (board_rect b) x y \<longrightarrow>
           mask_visible (if pr_masked e then Some (occ, i) else None) x y = visible occ i x y) \<and>
        (\<not> pr_native e \<longrightarrow> slice_of (fst (pr_columns e)) (snd (pr_columns e)) columns =
           Some (map (board_column b) [pr_left e..<as_usize (min (sat_i32 (sr_x (board_rect b) + sr_width (board_rect b))) VIEWPORT_WIDTH)]))
      else (\<forall>x < 320. \<forall>y < 240. in_rect (board_rect b) x y \<longrightarrow> \<not> visible occ i x y))"

lemma clamp_clip:
  assumes "a < lim" and "0 < sat_i32 (a + w)" and "0 < lim" and "lim < 2 ^ 31"
  shows "nat (clamp 0 lim a) = nat (max a 0)" and "nat (clamp 0 lim (sat_i32 (a + w))) = as_usize (min (sat_i32 (a + w)) lim)"
proof -
  show "nat (clamp 0 lim a) = nat (max a 0)" using assms(1) by (simp add: clamp_def max.commute)
  have "0 < min (sat_i32 (a + w)) lim" "min (sat_i32 (a + w)) lim < 2 ^ 31" using assms by auto
  then have "as_usize (min (sat_i32 (a + w)) lim) = nat (min (sat_i32 (a + w)) lim)"
    using as_usize_nat [of "nat (min (sat_i32 (a + w)) lim)"] by (simp add: nat_less_iff)
  then show "nat (clamp 0 lim (sat_i32 (a + w))) = as_usize (min (sat_i32 (a + w)) lim)"
    using \<open>0 < min (sat_i32 (a + w)) lim\<close> by (simp add: clamp_def)
qed

lemma clamp_less:
  assumes "nat (clamp 0 hi a) < nat (clamp 0 hi (sat_i32 s))" and "0 < hi"
  shows "a < hi" and "0 < s"
proof -
  show "a < hi"
  proof (rule ccontr)
    assume "\<not> a < hi"
    then have "clamp 0 hi a = hi" using assms(2) by (simp add: clamp_def)
    moreover have "clamp 0 hi (sat_i32 s) \<le> hi" using assms(2) by (simp add: clamp_def)
    ultimately show False using assms(1) by simp
  qed
  show "0 < s"
  proof (rule ccontr)
    assume "\<not> 0 < s"
    then have "sat_i32 s \<le> 0" by (simp add: sat_i32_def)
    then have "clamp 0 hi (sat_i32 s) = 0" by (simp add: clamp_def)
    then show False using assms(1) by simp
  qed
qed

lemma clamp_meets:
  assumes "nat (clamp 0 VIEWPORT_WIDTH (sr_x r)) < nat (clamp 0 VIEWPORT_WIDTH (sat_i32 (sr_x r + sr_width r)))"
    and "nat (clamp 0 VIEWPORT_HEIGHT (sr_y r)) < nat (clamp 0 VIEWPORT_HEIGHT (sat_i32 (sr_y r + sr_height r)))"
  shows "meets_viewport r"
  using clamp_less [OF assms(1)] clamp_less [OF assms(2)]
  by (simp add: meets_viewport_def VIEWPORT_WIDTH_def VIEWPORT_HEIGHT_def)

lemma update_slice_set:
  assumes "length new = n" and "used + n \<le> length xs"
  shows "update_slice used (used + n) (\<lambda>_. Some new) xs = Some (take used xs @ new @ drop (used + n) xs)"
  using assms by (simp add: update_slice_def slice_of_def)

lemma slice_of_middle: "slice_of used (used + length new) (take used xs @ new @ ys) = Some new" if "used \<le> length xs"
  using that by (simp add: slice_of_def min_def)

lemma length_axis_takes [simp]: "length (fst (axis_takes n a)) = n"
  by (induction n arbitrary: a) (simp_all add: split_beta)

lemma prepare_entry_ok:
  assumes wf: "board_wf bd" and occ: "occlusion_wf occ"
    and bare: "st_opaque_tiles stats = 0 \<longrightarrow> (\<forall>x < 320. \<forall>y < 240. cutoff occ x y = 0)"
    and used: "used \<le> length columns"
  shows "prepare_entry occ i bd used columns stats = Some (Inl InsufficientScratch) \<and> length columns < used + 320 \<or>
    (\<exists>e columns' stats'. prepare_entry occ i bd used columns stats = Some (Inr (e, columns', stats')) \<and>
       st_opaque_tiles stats' = st_opaque_tiles stats \<and> length columns' = length columns \<and>
       take used columns' = take used columns \<and> used \<le> snd (pr_columns e) \<and> snd (pr_columns e) \<le> length columns \<and>
       snd (pr_columns e) \<le> used + 320 \<and> entry_ok occ i bd columns' e)"
proof -
  let ?r = "board_rect bd"
  define left where "left = nat (clamp 0 VIEWPORT_WIDTH (sr_x ?r))"
  define right where "right = nat (clamp 0 VIEWPORT_WIDTH (sat_i32 (sr_x ?r + sr_width ?r)))"
  define upper where "upper = nat (clamp 0 VIEWPORT_HEIGHT (sr_y ?r))"
  define bottom where "bottom = nat (clamp 0 VIEWPORT_HEIGHT (sat_i32 (sr_y ?r + sr_height ?r)))"
  define native where "native = is_native (sb_projected bd) (sb_region bd)"
  obtain masked where masked: "(if st_opaque_tiles stats \<noteq> 0 then hides occ ?r i else Some False) = Some masked"
    "\<forall>x < 320. \<forall>y < 240. in_rect ?r x y \<longrightarrow> mask_visible (if masked then Some (occ, i) else None) x y = visible occ i x y"
  proof (cases "st_opaque_tiles stats = 0")
    case True
    then show ?thesis using that [of False] bare by (simp add: mask_visible_def visible_def)
  next
    case False
    from hides_Some [OF occ, of ?r i] obtain h where "hides occ ?r i = Some h"
      "\<not> h \<longrightarrow> (\<forall>x < 320. \<forall>y < 240. in_rect ?r x y \<longrightarrow> visible occ i x y)" by blast
    then show ?thesis using that [of h] False by (cases h) (simp_all add: mask_visible_def)
  qed
  obtain seen where seen: "(if left < right \<and> upper < bottom
      then (if \<not> masked then Some True else has_visible_span occ upper bottom left right i) else Some False) = Some seen"
    "seen \<Longrightarrow> left < right \<and> upper < bottom"
    "\<not> seen \<Longrightarrow> left < right \<Longrightarrow> upper < bottom \<Longrightarrow> masked \<and>
       (\<forall>x y. upper \<le> y \<longrightarrow> y < bottom \<longrightarrow> left \<le> x \<longrightarrow> x < right \<longrightarrow> \<not> visible occ i x y)"
  proof (cases "left < right \<and> upper < bottom \<and> masked")
    case True
    let ?S = "\<exists>y x. upper \<le> y \<and> y < bottom \<and> left \<le> x \<and> x < right \<and> visible occ i x y"
    have "has_visible_span occ upper bottom left right i = Some ?S"
      using has_visible_span_iff [OF occ, of bottom left right upper i] clamp_viewport True by (simp add: right_def bottom_def)
    then show ?thesis using True by (intro that [of ?S]) (simp, simp, blast)
  next
    case False
    then show ?thesis using that [of "left < right \<and> upper < bottom"] by auto
  qed
  let ?count = "if seen \<and> \<not> native then right - left else 0"
  let ?e = "\<lparr>pr_columns = (used, used + ?count), pr_left = left, pr_top = upper, pr_bottom = bottom,
      pr_visible = seen, pr_native = native, pr_masked = masked\<rparr>"
  let ?samples = "map (column_of (tr_source_x (sb_region bd)))
      (fst (axis_takes ?count (axis_new (tr_width (sb_region bd)) (sr_width ?r) (int left - sr_x ?r))))"
  have run: "prepare_entry occ i bd used columns stats =
      (if ?count > length columns - used then Some (Inl InsufficientScratch)
       else if ?count \<noteq> 0 then map_option (\<lambda>columns. Inr (?e, columns,
               stats\<lparr>st_scaler_preparations := st_scaler_preparations stats + 1\<rparr>))
             (update_slice used (used + ?count) (\<lambda>_. Some ?samples) columns)
       else Some (Inr (?e, columns, stats)))"
    unfolding prepare_entry_def Let_def left_def [symmetric] right_def [symmetric] upper_def [symmetric]
      bottom_def [symmetric] native_def [symmetric] masked(1) bind.bind_lunit seen(1) ..
  have count: "?count \<le> 320" using clamp_viewport(1) [of "sat_i32 (sr_x ?r + sr_width ?r)", folded right_def] by auto
  have ok: "entry_ok occ i bd columns' ?e" if slice: "seen \<Longrightarrow> \<not> native \<Longrightarrow> slice_of used (used + ?count) columns' = Some ?samples" for columns'
  proof (cases seen)
    case True
    then have lt: "left < right" "upper < bottom" using seen(2) by simp_all
    then have meets: "meets_viewport ?r" unfolding left_def right_def upper_def bottom_def by (rule clamp_meets)
    have pos: "0 < sat_i32 (sr_x ?r + sr_width ?r)" "0 < sat_i32 (sr_y ?r + sr_height ?r)"
      using meets by (simp_all add: meets_viewport_def sat_i32_def)
    have lim: "sr_x ?r < VIEWPORT_WIDTH" "sr_y ?r < VIEWPORT_HEIGHT" "0 < VIEWPORT_WIDTH" "0 < VIEWPORT_HEIGHT" "VIEWPORT_WIDTH < 2 ^ 31" "VIEWPORT_HEIGHT < 2 ^ 31"
      using meets by (simp_all add: meets_viewport_def VIEWPORT_WIDTH_def VIEWPORT_HEIGHT_def)
    note X = clamp_clip [OF lim(1) pos(1) lim(3,5), folded left_def right_def]
    note Y = clamp_clip [OF lim(2) pos(2) lim(4,6), folded upper_def bottom_def]
    note C = clip_board [OF wf meets, folded X Y]
    have "?samples = map (board_column bd) [left..<right]" if "\<not> native"
    proof -
      have "in_rect ?r left upper" "in_rect ?r (right - 1) upper" using C(5) [of left upper] C(5) [of "right - 1" upper] C(1-4) lt by auto
      then have "map (column_of (tr_source_x (sb_region bd)))
          (fst (axis_takes (right - left) (axis_new (tr_width (sb_region bd)) (sr_width ?r) (int left - sr_x ?r)))) =
        map (board_column bd) [left..<left + (right - left)]"
        using lt by (intro columns_exact [OF wf]) (auto simp: in_rect_def)
      then show ?thesis using True that lt by simp
    qed
    then show ?thesis using True meets masked(2) slice X Y by (simp add: entry_ok_def native_def)
  next
    case False
    have "\<not> visible occ i x y" if "x < 320" "y < 240" "in_rect ?r x y" for x y
    proof -
      note meets = meets_viewport [OF that]
      have pos: "0 < sat_i32 (sr_x ?r + sr_width ?r)" "0 < sat_i32 (sr_y ?r + sr_height ?r)"
        using meets by (simp_all add: meets_viewport_def sat_i32_def)
      have lim: "sr_x ?r < VIEWPORT_WIDTH" "sr_y ?r < VIEWPORT_HEIGHT" "0 < VIEWPORT_WIDTH" "0 < VIEWPORT_HEIGHT" "VIEWPORT_WIDTH < 2 ^ 31" "VIEWPORT_HEIGHT < 2 ^ 31"
        using meets by (simp_all add: meets_viewport_def VIEWPORT_WIDTH_def VIEWPORT_HEIGHT_def)
      note X = clamp_clip [OF lim(1) pos(1) lim(3,5), folded left_def right_def]
      note Y = clamp_clip [OF lim(2) pos(2) lim(4,6), folded upper_def bottom_def]
      note C = clip_board [OF wf meets, folded X Y]
      show ?thesis using seen(3) [OF False] C(1,3) C(5) [of x y] that by blast
    qed
    then show ?thesis using False by (simp add: entry_ok_def)
  qed
  show ?thesis
  proof (cases "?count > length columns - used")
    case True
    then show ?thesis using run count by simp
  next
    case False
    then have fits: "used + ?count \<le> length columns" using used by simp
    show ?thesis
    proof (cases "?count = 0")
      case True
      have "entry_ok occ i bd columns ?e" using True seen(2) by (intro ok) (auto split: if_splits)
      then show ?thesis using run False True fits count by (intro disjI2 exI [of _ ?e] exI [of _ columns] exI [of _ stats]) simp
    next
      case some: False
      let ?new = "take used columns @ ?samples @ drop (used + ?count) columns"
      have u: "update_slice used (used + ?count) (\<lambda>_. Some ?samples) columns = Some ?new"
        using fits by (intro update_slice_set) simp_all
      have "slice_of used (used + ?count) ?new = Some ?samples"
        using slice_of_middle [OF used, of ?samples "drop (used + ?count) columns"] by simp
      then have "entry_ok occ i bd ?new ?e" by (rule ok)
      moreover have "length ?new = length columns" "take used ?new = take used columns" using fits used by simp_all
      ultimately show ?thesis using run False some fits u count
        by (intro disjI2 exI [of _ ?e] exI [of _ ?new] exI [of _ "stats\<lparr>st_scaler_preparations := st_scaler_preparations stats + 1\<rparr>"]) simp
    qed
  qed
qed

text \<open>An entry only looks at the columns below its own end, so later boards leave it valid.\<close>

lemma slice_of_take: "b \<le> u \<Longrightarrow> u \<le> length xs \<Longrightarrow> slice_of a b (take u xs) = slice_of a b xs"
  by (auto simp: slice_of_def drop_take min_def)

lemma entry_ok_cong:
  assumes "entry_ok occ i b columns e" and "snd (pr_columns e) \<le> u" and "u \<le> length columns" and "u \<le> length columns'"
    and "take u columns' = take u columns"
  shows "entry_ok occ i b columns' e"
proof -
  have "slice_of (fst (pr_columns e)) (snd (pr_columns e)) columns' = slice_of (fst (pr_columns e)) (snd (pr_columns e)) columns"
    using slice_of_take [OF assms(2,3)] slice_of_take [OF assms(2,4)] assms(5) by metis
  then show ?thesis using assms(1) by (simp add: entry_ok_def)
qed

fun entries_ok :: "occlusion \<Rightarrow> nat \<Rightarrow> scene_billboard list \<Rightarrow> column_sample list \<Rightarrow> prepared_board list \<Rightarrow> bool" where
  "entries_ok occ i [] columns [] = True"
| "entries_ok occ i (b # boards) columns (e # entries) = (entry_ok occ i b columns e \<and> entries_ok occ (i + 1) boards columns entries)"
| "entries_ok occ i _ columns _ = False"

lemma prepare_entries_ok:
  assumes "list_all board_wf boards" and occ: "occlusion_wf occ"
    and "st_opaque_tiles stats = 0 \<longrightarrow> (\<forall>x < 320. \<forall>y < 240. cutoff occ x y = 0)"
    and "used \<le> length columns"
  shows "prepare_entries occ i boards used columns stats = Some (Inl InsufficientScratch) \<and>
      length columns < used + 320 * length boards \<or>
    (\<exists>es used' columns' stats'. prepare_entries occ i boards used columns stats = Some (Inr (es, used', columns', stats')) \<and>
       st_opaque_tiles stats' = st_opaque_tiles stats \<and> length columns' = length columns \<and>
       take used columns' = take used columns \<and> used \<le> used' \<and> used' \<le> length columns \<and>
       entries_ok occ i boards (take used' columns') es)"
  using assms(1,3,4)
proof (induction boards arbitrary: i used columns stats)
  case Nil
  then show ?case by simp
next
  case (Cons bd boards)
  have "board_wf bd" using Cons.prems(1) by simp
  from prepare_entry_ok [OF this occ Cons.prems(2,3), where i = i]
  consider "prepare_entry occ i bd used columns stats = Some (Inl InsufficientScratch)" "length columns < used + 320"
    | e columns1 stats1 where "prepare_entry occ i bd used columns stats = Some (Inr (e, columns1, stats1))"
      "st_opaque_tiles stats1 = st_opaque_tiles stats" "length columns1 = length columns" "take used columns1 = take used columns"
      "used \<le> snd (pr_columns e)" "snd (pr_columns e) \<le> length columns" "snd (pr_columns e) \<le> used + 320" "entry_ok occ i bd columns1 e"
    by (elim disjE exE conjE) (rule that; assumption)+
  then show ?case
  proof cases
    case 1
    then show ?thesis by simp
  next
    case 2
    let ?u = "snd (pr_columns e)"
    have "prepare_entries occ (i + 1) boards ?u columns1 stats1 = Some (Inl InsufficientScratch) \<and>
        length columns1 < ?u + 320 * length boards \<or>
      (\<exists>es used' columns' stats'. prepare_entries occ (i + 1) boards ?u columns1 stats1 = Some (Inr (es, used', columns', stats')) \<and>
         st_opaque_tiles stats' = st_opaque_tiles stats1 \<and> length columns' = length columns1 \<and>
         take ?u columns' = take ?u columns1 \<and> ?u \<le> used' \<and> used' \<le> length columns1 \<and>
         entries_ok occ (i + 1) boards (take used' columns') es)"
    proof (rule Cons.IH)
      show "st_opaque_tiles stats1 = 0 \<longrightarrow> (\<forall>x < 320. \<forall>y < 240. cutoff occ x y = 0)"
        using Cons.prems(2) 2(2) by simp
    qed (use Cons.prems(1) 2(3,6) in simp_all)
    then show ?thesis
    proof (elim disjE exE conjE)
      assume "prepare_entries occ (i + 1) boards ?u columns1 stats1 = Some (Inl InsufficientScratch)"
        "length columns1 < ?u + 320 * length boards"
      then show ?thesis using 2 by simp
    next
      fix es used' columns' stats'
      assume r: "prepare_entries occ (i + 1) boards ?u columns1 stats1 = Some (Inr (es, used', columns', stats'))"
        "st_opaque_tiles stats' = st_opaque_tiles stats1" "length columns' = length columns1"
        "take ?u columns' = take ?u columns1" "?u \<le> used'" "used' \<le> length columns1"
        "entries_ok occ (i + 1) boards (take used' columns') es"
      have "take used columns' = take used (take ?u columns')" using 2(5) by (simp add: min_def)
      also have "\<dots> = take used columns" using r(4) 2(4,5) by (simp add: min_def)
      finally have "take used columns' = take used columns" .
      moreover have "entry_ok occ i bd (take used' columns') e"
        using r(3-6) 2(3,6) by (intro entry_ok_cong [OF 2(8) order_refl]) (simp_all add: min_def)
      ultimately show ?thesis using 2(1-3,5) r by simp
    qed
  qed
qed

section \<open>A band of a prepared scene\<close>

text \<open>The rows of a band, and what a prepared scene keeps true from band to band.\<close>

definition band_rows :: "band_target \<Rightarrow> nat \<Rightarrow> nat \<Rightarrow> bool" where
  "band_rows t x y \<longleftrightarrow> x < 320 \<and> bt_y t \<le> y \<and> y < bt_y t + bt_rows t"

definition prepared_ready :: "prepared_scene \<Rightarrow> bool" where
  "prepared_ready self \<longleftrightarrow>
     list_all board_wf (ps_boards self) \<and>
     prepared (oc_tile (ps_occlusion self)) (ps_boards self) (oc_cutoffs (ps_occlusion self), ps_stats self) \<and>
     entries_ok (ps_occlusion self) 0 (ps_boards self) (ps_columns self) (ps_prepared self)"

lemma prepared_ready_wf: "prepared_ready self \<Longrightarrow> occlusion_wf (ps_occlusion self)"
  by (simp add: prepared_ready_def occlusion_wf_def prepared_def)

lemma prepared_ready_stats:
  "prepared_ready self \<Longrightarrow> st_opaque_tiles stats = st_opaque_tiles (ps_stats self) \<Longrightarrow> prepared_ready (self\<lparr>ps_stats := stats\<rparr>)"
  by (simp add: prepared_ready_def prepared_def)

lemma opaque_count_samples [simp]: "st_opaque_tiles (count_samples f n stats) = st_opaque_tiles stats"
  by (simp add: count_samples_def)

text \<open>Boards without a visible pixel in the band leave it as it is.\<close>

lemma shade_unseen:
  assumes "\<And>x y. P x y \<Longrightarrow> in_rect (board_rect b) x y \<Longrightarrow> \<not> visible occ i x y"
  shows "shade stride y0 P (\<lambda>x y d. if visible occ i x y then shaded wire b x y d else d) pixels = pixels"
proof -
  have "shade stride y0 P (\<lambda>x y d. if visible occ i x y then shaded wire b x y d else d) pixels =
      shade stride y0 P (\<lambda>x y d. d) pixels"
  proof (rule shade_cong)
    fix x y :: nat and d assume "P x y"
    then show "(if visible occ i x y then shaded wire b x y d else d) = d"
      using assms [of x y] shaded_outside [of b x y wire d] by (cases "in_rect (board_rect b) x y") simp_all
  qed
  then show ?thesis by (simp add: shade_id)
qed

context blitter_contract
begin

lemma raster_entry_shade:
  assumes wf: "board_wf bd" and occ: "occlusion_wf (ps_occlusion self)"
    and e: "entry_ok (ps_occlusion self) i bd (ps_columns self) e"
    and ok: "band_ok (bt_stride t) (bt_y t) (bt_rows t) (bt_pixels t)"
  shows "\<exists>stats'. raster_entry self wire b (i, bd, e) (t, stats) =
      Some (t\<lparr>bt_pixels := shade (bt_stride t) (bt_y t) (band_rows t)
        (\<lambda>x y d. if visible (ps_occlusion self) i x y then shaded wire bd x y d else d) (bt_pixels t)\<rparr>, stats') \<and>
    st_opaque_tiles stats' = st_opaque_tiles stats"
proof -
  let ?occ = "ps_occlusion self" and ?r = "board_rect bd"
  let ?upper = "max (pr_top e) (bt_y t)" and ?bottom = "min (pr_bottom e) (bt_y t + bt_rows t)"
  let ?m = "if pr_masked e then Some (?occ, i) else None"
  let ?shown = "\<lambda>x y d. if visible ?occ i x y then shaded wire bd x y d else d"
  have rows: "bt_y t + bt_rows t \<le> 240" using ok by (simp add: band_ok_def)
  show ?thesis
  proof (cases "pr_visible e")
    case False
    have "shade (bt_stride t) (bt_y t) (band_rows t) ?shown (bt_pixels t) = bt_pixels t"
      using e False rows by (intro shade_unseen) (simp add: entry_ok_def band_rows_def)
    then show ?thesis using False by (simp add: raster_entry_def)
  next
    case vis: True
    note E = e [unfolded entry_ok_def if_P [OF vis]]
    then have meets: "meets_viewport ?r"
      and seen: "x < 320 \<Longrightarrow> y < 240 \<Longrightarrow> in_rect ?r x y \<Longrightarrow> mask_visible ?m x y = visible ?occ i x y" for x y by blast+
    define right where "right = as_usize (min (sat_i32 (sr_x ?r + sr_width ?r)) VIEWPORT_WIDTH)"
    have edges: "pr_left e = nat (max (sr_x ?r) 0)" "pr_top e = nat (max (sr_y ?r) 0)"
      "pr_bottom e = as_usize (min (sat_i32 (sr_y ?r + sr_height ?r)) VIEWPORT_HEIGHT)"
      "pr_native e = is_native (sb_projected bd) (sb_region bd)" using E by blast+
    note C = clip_board [OF wf meets, folded right_def edges]
    have mwf: "mask_wf ?m" using occ by (simp add: mask_wf_def)
    have region: "shade (bt_stride t) (bt_y t) (board_region bd ?m (bt_y t) (bt_rows t)) (shaded wire bd) (bt_pixels t) =
        shade (bt_stride t) (bt_y t) (band_rows t) ?shown (bt_pixels t)"
      using board_region_shade [of bd ?m ?occ i "bt_y t" "bt_rows t", OF seen rows] by (simp add: band_rows_def [abs_def])
    show ?thesis
    proof (cases "?upper \<ge> ?bottom")
      case True
      have "shade (bt_stride t) (bt_y t) (band_rows t) ?shown (bt_pixels t) = bt_pixels t"
      proof (rule shade_unseen)
        fix x y assume "band_rows t x y" "in_rect ?r x y"
        then show "\<not> visible ?occ i x y" using True C(5) [of x y] rows by (auto simp: band_rows_def)
      qed
      then show ?thesis using True by (simp add: raster_entry_def)
    next
      case band: False
      show ?thesis
      proof (cases "pr_native e")
        case True
        then show ?thesis
          using raster_native_shade [OF wf _ mwf ok meets, of wire] edges(4) vis band region
          by (auto simp: raster_entry_def)
      next
        case scaled: False
        let ?cols = "map (board_column bd) [pr_left e..<right]"
        let ?rows = "\<lparr>rw_origin = bt_y t, rw_stride = bt_stride t, rw_left = pr_left e, rw_top = ?upper, rw_bottom = ?bottom,
            rw_columns = ?cols, rw_y = axis_new (tr_height (sb_region bd)) (sr_height ?r) (int ?upper - sr_y ?r), rw_region = sb_region bd\<rparr>"
        have slice: "slice_of (fst (pr_columns e)) (snd (pr_columns e)) (ps_columns self) = Some ?cols"
          using E scaled unfolding right_def by blast
        have in_r: "in_rect ?r x y" if "pr_left e \<le> x" "x < right" "?upper \<le> y" "y < ?bottom" for x y
          using C(5) [of x y] that by simp
        have corner: "in_rect ?r (pr_left e) ?upper" using in_r [of "pr_left e" ?upper] C(1) band
          by (simp only: order_refl not_le simp_thms True_implies_equals)
        obtain k where "dispatch_visible ?rows (bt_pixels t) (sb_texture bd) (pb_filter (sb_projected bd)) wire (?m, b) =
          Some (k, shade (rw_stride ?rows) (rw_origin ?rows)
            (\<lambda>x y. rw_top ?rows \<le> y \<and> y < rw_bottom ?rows \<and> rw_left ?rows \<le> x \<and> x < rw_left ?rows + length (rw_columns ?rows) \<and>
              mask_visible ?m x y) (shaded wire bd) (bt_pixels t))"
        proof (rule exE [OF dispatch_visible_shade [OF wf, of ?rows, where n = "bt_rows t", OF _ _ _ _ _ mwf]])
          show "rows_for bd ?rows" using C(1) by (simp add: rows_for_def)
          show "rows_at bd (rw_top ?rows) (rw_y ?rows)" using corner by (auto simp: in_rect_def intro!: rows_at_new [OF wf])
          show "rows_inside bd ?rows" using in_r C(1) by (simp add: rows_inside_def)
        qed (use C ok band in auto)
        moreover have "(\<lambda>x y. rw_top ?rows \<le> y \<and> y < rw_bottom ?rows \<and> rw_left ?rows \<le> x \<and> x < rw_left ?rows + length (rw_columns ?rows) \<and>
              mask_visible ?m x y) = board_region bd ?m (bt_y t) (bt_rows t)"
        proof (intro ext)
          fix x y
          show "(rw_top ?rows \<le> y \<and> y < rw_bottom ?rows \<and> rw_left ?rows \<le> x \<and> x < rw_left ?rows + length (rw_columns ?rows) \<and>
              mask_visible ?m x y) = board_region bd ?m (bt_y t) (bt_rows t) x y"
            using C(1) C(5) [of x y] rows by (auto simp: board_region_def)
        qed
        ultimately have "dispatch_visible ?rows (bt_pixels t) (sb_texture bd) (pb_filter (sb_projected bd)) wire (?m, b) =
          Some (k, shade (bt_stride t) (bt_y t) (band_rows t) ?shown (bt_pixels t))" using region by simp
        then show ?thesis using vis band scaled slice by (simp add: raster_entry_def Let_def)
      qed
    qed
  qed
qed

lemma raster_entries_shade:
  assumes "list_all board_wf boards" and occ: "occlusion_wf (ps_occlusion self)"
    and "entries_ok (ps_occlusion self) i boards (ps_columns self) es"
    and "band_ok (bt_stride t) (bt_y t) (bt_rows t) (bt_pixels t)"
  shows "\<exists>stats'. fold_option (raster_entry self wire b) (enumerate i (zip boards es)) (t, stats) =
      Some (t\<lparr>bt_pixels := shade (bt_stride t) (bt_y t) (band_rows t)
        (shown_pixel (ps_occlusion self) wire i boards) (bt_pixels t)\<rparr>, stats') \<and>
    st_opaque_tiles stats' = st_opaque_tiles stats"
  using assms(1,3,4)
proof (induction boards arbitrary: i es t stats)
  case Nil
  then show ?case by (cases es) (simp_all add: shade_id)
next
  case (Cons bd boards)
  then obtain e es' where es: "es = e # es'" by (cases es) auto
  have wf: "board_wf bd" and e: "entry_ok (ps_occlusion self) i bd (ps_columns self) e" using Cons.prems by (simp_all add: es)
  obtain stats1 where one: "raster_entry self wire b (i, bd, e) (t, stats) =
      Some (t\<lparr>bt_pixels := shade (bt_stride t) (bt_y t) (band_rows t)
        (\<lambda>x y d. if visible (ps_occlusion self) i x y then shaded wire bd x y d else d) (bt_pixels t)\<rparr>, stats1)"
    "st_opaque_tiles stats1 = st_opaque_tiles stats"
    using raster_entry_shade [OF wf occ e Cons.prems(3)] by blast
  let ?t = "t\<lparr>bt_pixels := shade (bt_stride t) (bt_y t) (band_rows t)
      (\<lambda>x y d. if visible (ps_occlusion self) i x y then shaded wire bd x y d else d) (bt_pixels t)\<rparr>"
  have "band_rows ?t = band_rows t" by (simp add: band_rows_def [abs_def])
  moreover have "\<exists>stats'. fold_option (raster_entry self wire b) (enumerate (i + 1) (zip boards es')) (?t, stats1) =
      Some (?t\<lparr>bt_pixels := shade (bt_stride ?t) (bt_y ?t) (band_rows ?t)
        (shown_pixel (ps_occlusion self) wire (i + 1) boards) (bt_pixels ?t)\<rparr>, stats') \<and>
      st_opaque_tiles stats' = st_opaque_tiles stats1"
    using Cons.prems by (intro Cons.IH) (simp_all add: es band_ok_def)
  ultimately show ?case using one by (auto simp: es shade_compose)
qed

end

context scene_backend
begin

lemma raster_band_shade:
  assumes ready: "prepared_ready self" and t: "band_target_new pixels stride y0 rows = Inr t"
  shows "\<exists>t' self'. raster_band self t (bg, b) wire = Some (t', self') \<and> prepared_ready self' \<and> ps_boards self' = ps_boards self \<and>
    length (bt_pixels t') = length pixels \<and>
    (\<forall>x < 320. \<forall>y. y0 \<le> y \<and> y < y0 + rows \<longrightarrow>
       painter_pixel wire bg (ps_boards self) x y = Some (bt_pixels t' ! ((y - y0) * stride + x))) \<and>
    (\<forall>i < length pixels. 320 \<le> i mod stride \<or> rows \<le> i div stride \<longrightarrow> bt_pixels t' ! i = pixels ! i)"
proof -
  let ?occ = "ps_occlusion self" and ?boards = "ps_boards self"
  let ?n = "st_opaque_tiles (ps_stats self)"
  let ?bg = "\<lambda>x y d. if bare ?occ ?n x y then background_pixel wire bg x y else d"
  have tt: "t = \<lparr>bt_pixels = pixels, bt_stride = stride, bt_y = y0, bt_rows = rows\<rparr>" and ok: "band_ok stride y0 rows pixels"
    using t by (auto simp: band_target_new_def band_ok_def mult.commute split: if_splits)
  have fits: "320 \<le> stride" "y0 + rows \<le> 240" "rows * stride \<le> length pixels" using ok by (simp_all add: band_ok_def)
  have wf: "list_all board_wf ?boards" and entries: "entries_ok ?occ 0 ?boards (ps_columns self) (ps_prepared self)"
    and prep: "prepared (oc_tile ?occ) ?boards (oc_cutoffs ?occ, ps_stats self)" using ready by (simp_all add: prepared_ready_def)
  note occ = prepared_ready_wf [OF ready]
  have rows: "band_rows (t\<lparr>bt_pixels := p\<rparr>) = band_rows t" for p by (simp add: band_rows_def [abs_def])
  define backdrop where "backdrop = t\<lparr>bt_pixels := shade stride y0 (band_rows t) ?bg pixels\<rparr>"
  have "paint_background t ?occ ?n bg wire = Some (t\<lparr>bt_pixels := shade stride y0
      (\<lambda>x y. x < 320 \<and> y0 \<le> y \<and> y < y0 + rows \<and> bare ?occ ?n x y) (\<lambda>x y d. background_pixel wire bg x y) pixels\<rparr>)"
    using paint_background_shade [OF occ, of t ?n wire] ok by (simp add: tt)
  also have "shade stride y0 (\<lambda>x y. x < 320 \<and> y0 \<le> y \<and> y < y0 + rows \<and> bare ?occ ?n x y) (\<lambda>x y d. background_pixel wire bg x y) pixels =
      shade stride y0 (band_rows t) ?bg pixels" by (rule shade_if) (simp add: band_rows_def tt)
  finally have paint: "paint_background t ?occ ?n bg wire = Some backdrop" by (simp add: backdrop_def)
  have "band_ok (bt_stride backdrop) (bt_y backdrop) (bt_rows backdrop) (bt_pixels backdrop)" using ok by (simp add: backdrop_def tt band_ok_def)
  moreover have same: "bt_stride backdrop = stride" "bt_y backdrop = y0" "band_rows backdrop = band_rows t"
    by (simp_all only: backdrop_def rows) (simp_all add: tt)
  ultimately have "band_ok stride y0 (bt_rows backdrop) (bt_pixels backdrop)" by simp
  from raster_entries_shade [OF wf occ entries, of backdrop, unfolded same, OF this, of wire "ps_stats self"]
  obtain stats' where fold: "fold_option (raster_entry self wire b) (enumerate 0 (zip ?boards (ps_prepared self))) (backdrop, ps_stats self) =
      Some (backdrop\<lparr>bt_pixels := shade stride y0 (band_rows t) (shown_pixel ?occ wire 0 ?boards) (bt_pixels backdrop)\<rparr>, stats')"
    and stats: "st_opaque_tiles stats' = ?n"
    by blast
  define drawn where "drawn = shade stride y0 (band_rows t) (\<lambda>x y d. shown_pixel ?occ wire 0 ?boards x y (?bg x y d)) pixels"
  have last: "backdrop\<lparr>bt_pixels := shade stride y0 (band_rows t) (shown_pixel ?occ wire 0 ?boards) (bt_pixels backdrop)\<rparr> = t\<lparr>bt_pixels := drawn\<rparr>"
    by (simp add: backdrop_def drawn_def shade_compose)
  have run: "raster_band self t (bg, b) wire = Some (t\<lparr>bt_pixels := drawn\<rparr>, self\<lparr>ps_stats := stats'\<rparr>)"
    by (simp add: raster_band_def paint fold last)
  have pixel: "painter_pixel wire bg ?boards x y = Some (drawn ! ((y - y0) * stride + x))" if "x < 320" "y0 \<le> y" "y < y0 + rows" for x y
  proof -
    have "stride + (y - y0) * stride \<le> rows * stride" using mult_le_mono1 [of "Suc (y - y0)" rows stride] that(2,3) by simp
    then have "(y - y0) * stride + x < length pixels" using that(1) fits by linarith
    moreover have "((y - y0) * stride + x) mod stride = x" "((y - y0) * stride + x) div stride = y - y0" using that(1) fits(1) by simp_all
    ultimately show ?thesis
      using scene_pixel [OF prep wf that(1), of y wire bg "pixels ! ((y - y0) * stride + x)"] that fits(2)
      by (simp add: drawn_def nth_shade band_rows_def tt)
  qed
  have "drawn ! i = pixels ! i" if "i < length pixels" "320 \<le> i mod stride \<or> rows \<le> i div stride" for i
    using that by (auto simp: drawn_def nth_shade band_rows_def tt)
  moreover have "length drawn = length pixels" by (simp add: drawn_def)
  ultimately show ?thesis using run pixel prepared_ready_stats [OF ready stats] by auto
qed

end

section \<open>Property\<close>

text \<open>
  A frame drawn in bands: each band is a buffer with its stride, first row and number of rows, drawn
  with the same background one after the other. \<open>None\<close> is a panic or a rejected band.
\<close>

fun draw_bands ::
  "prepared_scene \<Rightarrow> (u16 list \<times> nat \<times> nat \<times> nat) list \<Rightarrow> background \<times> blitter \<Rightarrow> bool \<Rightarrow> u16 list list option" where
  "draw_bands scene [] backend wire = Some []"
| "draw_bands scene ((pixels, stride, y, rows) # bands) backend wire =
     (case band_target_new pixels stride y rows of
        Inl _ \<Rightarrow> None
      | Inr target \<Rightarrow>
          Option.bind (raster_band scene target backend wire) (\<lambda>(target, scene).
            map_option ((#) (bt_pixels target)) (draw_bands scene bands backend wire)))"

definition band_painted :: "bool \<Rightarrow> background \<Rightarrow> scene_billboard list \<Rightarrow> u16 list \<times> nat \<times> nat \<times> nat \<Rightarrow> u16 list \<Rightarrow> bool" where
  "band_painted wire bg boards = (\<lambda>(pixels, stride, y0, rows) drawn.
     length drawn = length pixels \<and>
     (\<forall>x < 320. \<forall>y. y0 \<le> y \<and> y < y0 + rows \<longrightarrow> painter_pixel wire bg boards x y = Some (drawn ! ((y - y0) * stride + x))) \<and>
     (\<forall>i < length pixels. 320 \<le> i mod stride \<or> rows \<le> i div stride \<longrightarrow> drawn ! i = pixels ! i))"

lemma band_painted_pixel:
  "band_painted wire bg boards (pixels, stride, y0, rows) drawn \<Longrightarrow> x < 320 \<Longrightarrow> y0 \<le> y \<Longrightarrow> y < y0 + rows \<Longrightarrow>
   painter_pixel wire bg boards x y = Some (drawn ! ((y - y0) * stride + x))"
  by (simp add: band_painted_def)

definition band_valid :: "u16 list \<times> nat \<times> nat \<times> nat \<Rightarrow> bool" where
  "band_valid = (\<lambda>(pixels, stride, y, rows).
     320 \<le> stride \<and> 0 < rows \<and> y + rows \<le> 240 \<and> stride * rows \<le> length pixels)"

lemma band_valid_new:
  "band_valid (pixels, stride, y, rows) \<Longrightarrow>
   band_target_new pixels stride y rows = Inr \<lparr>bt_pixels = pixels, bt_stride = stride, bt_y = y, bt_rows = rows\<rparr>"
  by (auto simp: band_valid_def band_target_new_def)

lemma prepared_scene_new_ready:
  assumes wf: "list_all board_wf boards" and len: "length boards \<le> 65535" and order: "\<not> misordered boards"
    and occ: "occlusion_wf occ" and room: "length boards \<le> prepared_len"
  shows "prepared_scene_new boards occ prepared_len columns = Some (Inl InsufficientScratch) \<and>
      length columns < 320 * length boards \<or>
    (\<exists>scene. prepared_scene_new boards occ prepared_len columns = Some (Inr scene) \<and>
       prepared_ready scene \<and> ps_boards scene = boards)"
proof -
  obtain occ' stats where p: "prepare occ boards scene_stats_default = Some (occ', stats)"
    "oc_tile occ' = oc_tile occ" "prepared (oc_tile occ) boards (oc_cutoffs occ', stats)"
    by (rule prepare_prepared [OF wf len occ])
  have prep: "prepared (oc_tile occ') boards (oc_cutoffs occ', stats)" using p by simp
  then have occ': "occlusion_wf occ'" by (simp add: occlusion_wf_def prepared_def)
  have none: "st_opaque_tiles stats = 0 \<longrightarrow> (\<forall>x < 320. \<forall>y < 240. cutoff occ' x y = 0)"
    using prepared_no_tiles [OF prep] by blast
  from prepare_entries_ok [OF wf occ' none le0, of 0 columns]
  show ?thesis
  proof (elim disjE exE conjE)
    assume "prepare_entries occ' 0 boards 0 columns stats = Some (Inl InsufficientScratch)" "length columns < 0 + 320 * length boards"
    then show ?thesis using p(1) len order room by (simp add: prepared_scene_new_def)
  next
    fix es used' columns' stats'
    assume r: "prepare_entries occ' 0 boards 0 columns stats = Some (Inr (es, used', columns', stats'))"
      "st_opaque_tiles stats' = st_opaque_tiles stats" "entries_ok occ' 0 boards (take used' columns') es"
    then have "prepared_scene_new boards occ prepared_len columns = Some (Inr \<lparr>ps_boards = boards, ps_prepared = es,
        ps_columns = take used' columns', ps_occlusion = occ', ps_stats = stats'\<rparr>)"
      using p(1) len order room by (simp add: prepared_scene_new_def)
    then show ?thesis using wf prep r(2,3) by (simp add: prepared_ready_def prepared_def)
  qed
qed

context scene_backend
begin

lemma draw_bands_painted:
  assumes "prepared_ready scene" and "list_all band_valid bands"
  shows "\<exists>drawn. draw_bands scene bands (bg, b) wire = Some drawn \<and>
    list_all2 (band_painted wire bg (ps_boards scene)) bands drawn"
  using assms
proof (induction bands arbitrary: scene)
  case Nil
  then show ?case by simp
next
  case (Cons band bands)
  obtain pixels stride y rows where band: "band = (pixels, stride, y, rows)" by (rule prod_cases4)
  have "band_valid (pixels, stride, y, rows)" using Cons.prems(2) by (simp add: band)
  note t = band_valid_new [OF this]
  from raster_band_shade [OF Cons.prems(1) t, of wire] obtain t' scene' where one:
    "raster_band scene \<lparr>bt_pixels = pixels, bt_stride = stride, bt_y = y, bt_rows = rows\<rparr> (bg, b) wire = Some (t', scene')"
    "prepared_ready scene'" "ps_boards scene' = ps_boards scene" "band_painted wire bg (ps_boards scene) band (bt_pixels t')"
    by (auto simp: band_painted_def band)
  moreover obtain drawn where "draw_bands scene' bands (bg, b) wire = Some drawn"
    "list_all2 (band_painted wire bg (ps_boards scene')) bands drawn" using Cons.IH [OF one(2)] Cons.prems(2) by auto
  ultimately show ?case by (simp add: band t)
qed

end

text \<open>
  C10: Preparing an ordered scene never panics and fails only for want of scratch columns, never when there
  are 320 for each board; and then any sequence of bands, of whatever heights and strides, is drawn
  without a panic, every band with the pixels the painter puts on those rows of the whole frame.
\<close>

theorem bands_painter:
  assumes "list_all board_wf boards" and "length boards \<le> 65535" and "\<not> misordered boards"
    and "occlusion_new tile scratch = Inr occ" and "length boards \<le> prepared_len" and "list_all band_valid bands"
  shows "prepared_scene_new boards occ prepared_len columns = Some (Inl InsufficientScratch) \<and>
      length columns < 320 * length boards \<or>
    (\<exists>scene drawn. prepared_scene_new boards occ prepared_len columns = Some (Inr scene) \<and>
       draw_bands scene bands (row_background row, ScalarBlitter) wire = Some drawn \<and>
       list_all2 (band_painted wire (row_background row) boards) bands drawn)"
proof -
  have "occlusion_wf occ" using assms(4) by (auto simp: occlusion_new_def occlusion_wf_def split: if_splits)
  from prepared_scene_new_ready [OF assms(1-3) this assms(5), of columns] show ?thesis
    using scalar_scene.draw_bands_painted [OF _ assms(6)] by blast
qed

text \<open>The red board of one texel in two bands, the second one starting in the middle of the board.\<close>

theorem bands_painter_witness:
  "\<exists>scene first second.
    prepared_scene_new [red_board] \<lparr>oc_tile = Eight, oc_cutoffs = replicate 1200 0\<rparr> 1 (replicate 320 \<lparr>cl_first = 0, cl_fraction = 0\<rparr>) =
      Some (Inr scene) \<and>
    draw_bands scene [(replicate 1280 0, 320, 0, 4), (replicate 1280 0, 320, 3, 4)]
      (row_background (\<lambda>y. (1, 2, 3, 4)), ScalarBlitter) False = Some [first, second] \<and>
    first ! 963 = 0xF800 \<and> second ! 3 = 0xF800"
proof -
  let ?bg = "\<lambda>y :: nat. (1, 2, 3, 4) :: row_colors" and ?columns = "replicate 320 \<lparr>cl_first = 0, cl_fraction = 0\<rparr>"
  let ?bands = "[(replicate 1280 0, 320, 0, 4), (replicate 1280 0, 320, 3, 4)] :: (u16 list \<times> nat \<times> nat \<times> nat) list"
  have "occlusion_new Eight (replicate 1200 0) = Inr \<lparr>oc_tile = Eight, oc_cutoffs = replicate 1200 0\<rparr>"
    by (simp add: occlusion_new_def tile_cells_def)
  moreover have "list_all board_wf [red_board]" "\<not> misordered [red_board]" "list_all band_valid ?bands"
    by (simp_all add: red_board_wf misordered_def band_valid_def)
  ultimately obtain scene drawn where r: "prepared_scene_new [red_board] \<lparr>oc_tile = Eight, oc_cutoffs = replicate 1200 0\<rparr> 1 ?columns = Some (Inr scene)"
    "draw_bands scene ?bands (row_background ?bg, ScalarBlitter) False = Some drawn"
    "list_all2 (band_painted False (row_background ?bg) [red_board]) ?bands drawn"
    using bands_painter [of "[red_board]" Eight "replicate 1200 0" "\<lparr>oc_tile = Eight, oc_cutoffs = replicate 1200 0\<rparr>" 1 ?bands ?columns ?bg False]
    by auto
  then obtain one two where d: "drawn = [one, two]"
    "band_painted False (row_background ?bg) [red_board] (replicate 1280 0, 320, 0, 4) one"
    "band_painted False (row_background ?bg) [red_board] (replicate 1280 0, 320, 3, 4) two"
    by (auto simp: list_all2_Cons1)
  have "painter_pixel False (row_background ?bg) [red_board] 3 3 = Some (one ! ((3 - 0) * 320 + 3))"
    by (rule band_painted_pixel [OF d(2)]) simp_all
  moreover have "painter_pixel False (row_background ?bg) [red_board] 3 3 = Some (two ! ((3 - 3) * 320 + 3))"
    by (rule band_painted_pixel [OF d(3)]) simp_all
  ultimately show ?thesis using r d(1) by (auto simp: red_pixel)
qed

end
