(* ===== verification/Device_Store.thy ===== *)
theory Device_Store
  imports Core_S3
begin

text \<open>
  \<open>apps/core-s3-service/src/lib.rs\<close>, the device's persistent state: an identity and a configuration,
  each published alternately into two slots of the flash store under an intent entry, and the
  commands that change them.

  The store is Zephyr's NVS behind \<open>adapter.c\<close>: a map from record numbers to bytes. Every call may
  fail or may be the last one before the power is lost; a failed or interrupted write may or may not
  have been carried out, a failed deletion has not. Writing the bytes that are already there writes
  nothing and returns zero, which the adapter reports as an error. The radio calls whose results the
  program drops, and the zeroing of buffers, are left out.
\<close>

section \<open>State\<close>

datatype service_status =
  SsSuccess | SsInvalid | SsAlreadyInitialized | SsMissing | SsStoreFailed | SsPeerMismatch | SsBusy

fun service_status_u8 :: "service_status \<Rightarrow> u8" where
  "service_status_u8 SsSuccess = 0"
| "service_status_u8 SsInvalid = 1"
| "service_status_u8 SsAlreadyInitialized = 2"
| "service_status_u8 SsMissing = 3"
| "service_status_u8 SsStoreFailed = 4"
| "service_status_u8 SsPeerMismatch = 5"
| "service_status_u8 SsBusy = 6"

datatype nvs_fault = Works | Fails bool | PowerLost bool

type_synonym nvs = "u16 \<Rightarrow> u8 list option"

record device =
  dv_nvs :: nvs
  dv_on :: bool
  dv_faults :: "nvs_fault list"
  dv_generation :: u64
  dv_peer_state :: peer_state
  dv_peer_id :: "u8 list"
  dv_config_present :: bool
  dv_ui_shell :: u8
  dv_ui_view :: u8
  dv_ui_action :: u8
  dv_valid_result :: u8
  dv_running :: bool
  dv_run_attempt :: u32
  dv_result_attempt :: u32
  dv_frame_attempt :: u32
  dv_completions :: "u8 list list"

text \<open>The answers of the platform that a command may need: a key pair, the status page, the benchmark.\<close>

record device_env =
  de_keypair :: "(u8 list \<times> u8 list) option"
  de_amp_status :: "u8 list \<Rightarrow> u8 list \<Rightarrow> u8 list \<times> nat"
  de_benchmark_started :: bool

definition NVS_RECORD_MAX :: nat where "NVS_RECORD_MAX = NVS_HEADER_LEN + NVS_PAYLOAD_MAX"

type_synonym record_ids = "u16 \<times> u16 \<times> u16"

definition IDENTITY_IDS :: record_ids where "IDENTITY_IDS = (0x100, 0x101, 0x102)"
definition CONFIG_IDS :: record_ids where "CONFIG_IDS = (0x200, 0x201, 0x202)"

fun slot_a :: "record_ids \<Rightarrow> u16" where "slot_a (a, b, i) = a"
fun slot_b :: "record_ids \<Rightarrow> u16" where "slot_b (a, b, i) = b"
fun intent_id :: "record_ids \<Rightarrow> u16" where "intent_id (a, b, i) = i"

section \<open>The flash store\<close>

definition next_fault :: "device \<Rightarrow> nvs_fault \<times> device" where
  "next_fault d =
     (if \<not> dv_on d then (Fails False, d)
      else case dv_faults d of
        [] \<Rightarrow> (Works, d)
      | fault # faults \<Rightarrow>
          (fault, d\<lparr>dv_faults := faults, dv_on := (case fault of PowerLost _ \<Rightarrow> False | _ \<Rightarrow> True)\<rparr>))"

definition nvs_write_readback :: "u16 \<Rightarrow> u8 list \<Rightarrow> (device, service_status, unit) mut_call" where
  "nvs_write_readback record_id bytes d =
     (let (fault, d) = next_fault d;
          written = d\<lparr>dv_nvs := (dv_nvs d)(record_id \<mapsto> bytes)\<rparr>
      in if dv_nvs d record_id = Some bytes then (Inl SsStoreFailed, d)
         else case fault of
           Works \<Rightarrow> (Inr (), written)
         | Fails carried_out \<Rightarrow> (Inl SsStoreFailed, if carried_out then written else d)
         | PowerLost carried_out \<Rightarrow> (Inl SsStoreFailed, if carried_out then written else d))"

definition nvs_delete :: "u16 \<Rightarrow> (device, service_status, unit) mut_call" where
  "nvs_delete record_id d =
     (let (fault, d) = next_fault d;
          deleted = d\<lparr>dv_nvs := (dv_nvs d)(record_id := None)\<rparr>
      in case fault of
           Works \<Rightarrow> (Inr (), deleted)
         | Fails _ \<Rightarrow> (Inl SsStoreFailed, d)
         | PowerLost carried_out \<Rightarrow> (Inl SsStoreFailed, if carried_out then deleted else d))"

definition read_slot :: "u16 \<Rightarrow> nat \<Rightarrow> (device, service_status, u8 list option) mut_call" where
  "read_slot record_id capacity d =
     (let (fault, d) = next_fault d
      in if fault \<noteq> Works then (Inl SsStoreFailed, d)
         else case dv_nvs d record_id of
           None \<Rightarrow> (Inr None, d)
         | Some bytes \<Rightarrow> if length bytes \<le> capacity then (Inr (Some bytes), d) else (Inl SsStoreFailed, d))"

section \<open>Two slots and an intent\<close>

definition canonical_record :: "record_ids \<Rightarrow> (device, service_status, record_ref option) mut_call" where
  "canonical_record ids =
     try_then (read_slot (intent_id ids) 8) (\<lambda>intent.
       if intent \<noteq> None then return_err SsStoreFailed
       else try_then (read_slot (slot_a ids) NVS_RECORD_MAX) (\<lambda>first.
            try_then (read_slot (slot_b ids) NVS_RECORD_MAX) (\<lambda>second d.
              (map_err (\<lambda>_. SsStoreFailed) (select_slot first second), d))))"

definition publish_record ::
  "record_ids \<Rightarrow> u64 \<Rightarrow> u64 \<Rightarrow> record_state \<Rightarrow> u8 list \<Rightarrow> (device, service_status, unit) mut_call" where
  "publish_record ids current_sequence generation state payload =
     (case checked_add current_sequence 1 of
        None \<Rightarrow> return_err SsStoreFailed
      | Some sequence \<Rightarrow>
          (case encode_record sequence generation state payload (replicate NVS_RECORD_MAX 0) of
             (Inl _, _) \<Rightarrow> return_err SsInvalid
           | (Inr len, encoded) \<Rightarrow>
               try_then (nvs_write_readback (intent_id ids) (to_be_bytes sequence)) (\<lambda>_.
               try_then (nvs_write_readback (if sequence mod 2 = 1 then slot_a ids else slot_b ids) (take len encoded)) (\<lambda>_.
                 nvs_delete (intent_id ids)))))"

section \<open>Identity\<close>

fun status_of :: "service_status + unit \<Rightarrow> service_status" where
  "status_of (Inl e) = e"
| "status_of (Inr _) = SsSuccess"

definition identity_init :: "device_env \<Rightarrow> device \<Rightarrow> service_status \<times> device" where
  "identity_init env d =
     (case canonical_record IDENTITY_IDS d of
        (Inl e, d) \<Rightarrow> (e, d)
      | (Inr (Some _), d) \<Rightarrow> (SsAlreadyInitialized, d)
      | (Inr None, d) \<Rightarrow>
          (case de_keypair env of
             None \<Rightarrow> (SsStoreFailed, d)
           | Some (private_key, public_key) \<Rightarrow>
               (case publish_record IDENTITY_IDS 0 1 (Identity PsUnpaired) (private_key @ public_key) d of
                  (Inl e, d) \<Rightarrow> (e, d)
                | (Inr _, d) \<Rightarrow> (SsSuccess, d\<lparr>dv_generation := 1\<rparr>))))"

record revocation =
  rv_sequence :: u64
  rv_generation :: u64
  rv_local_identity :: "u8 list"

definition exact_peer :: "u8 list \<Rightarrow> record_ref \<Rightarrow> bool" where
  "exact_peer peer_id r \<longleftrightarrow>
     (case rr_state r of Identity _ \<Rightarrow> True | _ \<Rightarrow> False) \<and> 96 \<le> length (rr_payload r) \<and> slice 64 32 (rr_payload r) = peer_id"

definition clear_peer :: "u64 \<Rightarrow> device \<Rightarrow> device" where
  "clear_peer generation d = d\<lparr>dv_generation := generation, dv_peer_state := PsUnpaired, dv_peer_id := replicate 32 0\<rparr>"

definition revocation_completed :: "u8 list \<Rightarrow> record_ref \<Rightarrow> u8 list option \<Rightarrow> bool" where
  "revocation_completed peer_id target previous \<longleftrightarrow>
     rr_state target = Identity PsUnpaired \<and> length (rr_payload target) = 64 \<and>
     (case previous of
        None \<Rightarrow> False
      | Some bytes \<Rightarrow>
          (case decode_record bytes of
             Inl _ \<Rightarrow> False
           | Inr r \<Rightarrow> rr_generation r = rr_generation target \<and> rr_state r = Identity PsRevoking \<and> exact_peer peer_id r))"

definition recover_identity_intent :: "u8 list \<Rightarrow> (device, service_status, service_status option) mut_call" where
  "recover_identity_intent peer_id =
     try_then (read_slot (intent_id IDENTITY_IDS) 8) (\<lambda>intent.
       case intent of
         None \<Rightarrow> return_ok None
       | Some intent \<Rightarrow>
           if length intent \<noteq> 8 then return_err SsStoreFailed
           else
             (let sequence = from_be_bytes intent :: u64
              in try_then (read_slot (slot_a IDENTITY_IDS) NVS_RECORD_MAX) (\<lambda>first.
                 try_then (read_slot (slot_b IDENTITY_IDS) NVS_RECORD_MAX) (\<lambda>second.
                   let (target, previous) = (if sequence mod 2 = 1 then (first, second) else (second, first))
                   in case target of
                        None \<Rightarrow> return_err SsStoreFailed
                      | Some bytes \<Rightarrow>
                          (case decode_record bytes of
                             Inl _ \<Rightarrow> return_err SsStoreFailed
                           | Inr target \<Rightarrow>
                               if publication_sequence target \<noteq> sequence then return_err SsStoreFailed
                               else if \<not> revocation_completed peer_id target previous \<and> \<not> exact_peer peer_id target
                               then return_err SsPeerMismatch
                               else try_then (nvs_delete (intent_id IDENTITY_IDS)) (\<lambda>_ d.
                                 if revocation_completed peer_id target previous
                                 then (Inr (Some SsSuccess), clear_peer (rr_generation target) d)
                                 else (Inr None, d)))))))"

definition begin_identity_unpair :: "u8 list \<Rightarrow> (device, service_status, revocation) mut_call" where
  "begin_identity_unpair peer_id =
     (if length peer_id \<noteq> 32 then return_err SsInvalid
      else try_then (recover_identity_intent peer_id) (\<lambda>recovered.
        case recovered of
          Some status \<Rightarrow> return_err status
        | None \<Rightarrow>
            try_then (canonical_record IDENTITY_IDS) (\<lambda>found.
              case found of
                None \<Rightarrow> return_err SsMissing
              | Some r \<Rightarrow>
                  if rr_state r \<notin> {Identity PsPending, Identity PsCommitting, Identity PsPaired, Identity PsRevoking} \<or>
                     length (rr_payload r) < 96 \<or> slice 64 32 (rr_payload r) \<noteq> peer_id
                  then return_err SsPeerMismatch
                  else
                    (let recovering = (rr_state r = Identity PsRevoking)
                     in case (if recovering then Some (rr_generation r) else checked_add (rr_generation r) 1) of
                          None \<Rightarrow> return_err SsStoreFailed
                        | Some generation \<Rightarrow>
                            try_then
                              (if recovering then return_ok ()
                               else publish_record IDENTITY_IDS (publication_sequence r) generation (Identity PsRevoking) (rr_payload r))
                              (\<lambda>_ d.
                                (Inr \<lparr>rv_sequence = publication_sequence r + (if recovering then 0 else 1),
                                      rv_generation = generation, rv_local_identity = take 64 (rr_payload r)\<rparr>,
                                 d\<lparr>dv_generation := generation, dv_peer_state := PsRevoking, dv_ui_view := 0\<rparr>))))))"

definition finish_identity_unpair :: "revocation \<Rightarrow> device \<Rightarrow> service_status \<times> device" where
  "finish_identity_unpair revocation d =
     (case publish_record IDENTITY_IDS (rv_sequence revocation) (rv_generation revocation) (Identity PsUnpaired)
             (rv_local_identity revocation) d of
        (Inl e, d) \<Rightarrow> (e, d)
      | (Inr _, d) \<Rightarrow> (SsSuccess, clear_peer (rv_generation revocation) d))"

definition identity_unpair :: "u8 list \<Rightarrow> device \<Rightarrow> service_status \<times> device" where
  "identity_unpair peer_id d =
     (case begin_identity_unpair peer_id d of
        (Inl status, d) \<Rightarrow> (status, d)
      | (Inr revocation, d) \<Rightarrow> finish_identity_unpair revocation d)"

section \<open>Configuration\<close>

definition parse_config :: "u8 list \<Rightarrow> wifi_config option" where
  "parse_config payload =
     (case payload of
        [] \<Rightarrow> None
      | ssid_length # remaining \<Rightarrow>
          if length remaining < unat ssid_length + 1 then None
          else
            (let ssid = take (unat ssid_length) remaining;
                 remaining = drop (unat ssid_length) remaining;
                 password_length = unat (hd remaining);
                 remaining = tl remaining
             in if length remaining \<noteq> password_length + 6 then None
                else
                  (let tail = drop password_length remaining;
                       config = \<lparr>wc_ssid = ssid, wc_passphrase = take password_length remaining, wc_host_ipv4 = take 4 tail\<rparr>
                   in if \<not> is_ok (wifi_validate config) \<or> (from_be_bytes [tail ! 4, tail ! 5] :: u16) \<noteq> 39042 then None
                      else Some config)))"

definition wifi_provision :: "u8 list \<Rightarrow> device \<Rightarrow> service_status \<times> device" where
  "wifi_provision payload d =
     (if parse_config payload = None then (SsInvalid, d)
      else case canonical_record CONFIG_IDS d of
        (Inl e, d) \<Rightarrow> (e, d)
      | (Inr found, d) \<Rightarrow>
          (case publish_record CONFIG_IDS (case found of None \<Rightarrow> 0 | Some r \<Rightarrow> publication_sequence r) 1 ConfigPresent payload d of
             (Inl e, d) \<Rightarrow> (e, d)
           | (Inr _, d) \<Rightarrow> (SsSuccess, d\<lparr>dv_config_present := True\<rparr>)))"

definition clear_config :: "device \<Rightarrow> service_status \<times> device" where
  "clear_config d =
     (case canonical_record CONFIG_IDS d of
        (Inl e, d) \<Rightarrow> (e, d)
      | (Inr None, d) \<Rightarrow> (SsMissing, d)
      | (Inr (Some r), d) \<Rightarrow>
          (case publish_record CONFIG_IDS (publication_sequence r) (rr_generation r) ConfigCleared [] d of
             (Inl e, d) \<Rightarrow> (e, d)
           | (Inr _, d) \<Rightarrow> (SsSuccess, d\<lparr>dv_config_present := False\<rparr>)))"

section \<open>Loading\<close>

record stored_identity =
  si_sequence :: u64
  si_generation :: u64
  si_state :: peer_state
  si_payload :: "u8 list"
  si_payload_length :: nat

definition stored_of :: "record_ref \<Rightarrow> stored_identity option" where
  "stored_of r =
     (case rr_state r of
        Identity state \<Rightarrow>
          if 64 \<le> length (rr_payload r) \<and> length (rr_payload r) \<le> 112
          then Some \<lparr>si_sequence = publication_sequence r, si_generation = rr_generation r, si_state = state,
                     si_payload = rr_payload r @ replicate (112 - length (rr_payload r)) 0,
                     si_payload_length = length (rr_payload r)\<rparr>
          else None
      | _ \<Rightarrow> None)"

definition load_identity :: "device \<Rightarrow> stored_identity option \<times> device" where
  "load_identity d =
     (case canonical_record IDENTITY_IDS d of
        (Inr (Some r), d) \<Rightarrow> (stored_of r, d)
      | (_, d) \<Rightarrow> (None, d))"

definition load_config :: "device \<Rightarrow> wifi_config option \<times> device" where
  "load_config d =
     (case canonical_record CONFIG_IDS d of
        (Inr (Some r), d) \<Rightarrow> (if rr_state r \<noteq> ConfigPresent then None else parse_config (rr_payload r), d)
      | (_, d) \<Rightarrow> (None, d))"

definition store_identity_snapshot :: "stored_identity \<Rightarrow> device \<Rightarrow> device" where
  "store_identity_snapshot identity d =
     d\<lparr>dv_peer_state := si_state identity,
       dv_peer_id := (if 96 \<le> length (si_payload identity) then slice 64 32 (si_payload identity) else replicate 32 0)\<rparr>"

definition publish_peer :: "peer_state \<Rightarrow> stored_identity \<Rightarrow> device \<Rightarrow> stored_identity option \<times> device" where
  "publish_peer state identity d =
     (case publish_record IDENTITY_IDS (si_sequence identity) (si_generation identity) (Identity state)
             (take (si_payload_length identity) (si_payload identity)) d of
        (Inl _, d) \<Rightarrow> (None, d)
      | (Inr _, d) \<Rightarrow>
          (let identity = identity\<lparr>si_sequence := si_sequence identity + 1, si_state := state\<rparr>
           in (Some identity, store_identity_snapshot identity (d\<lparr>dv_generation := si_generation identity\<rparr>))))"

section \<open>Lemmas on the flash store\<close>

lemma exact_peer_iff:
  "exact_peer p r \<longleftrightarrow> (\<exists>state. rr_state r = Identity state) \<and> 96 \<le> length (rr_payload r) \<and> slice 64 32 (rr_payload r) = p"
  by (auto simp: exact_peer_def split: record_state.split)

text \<open>What a call of the store leaves alone: everything but the store itself and its pending faults.\<close>

definition volatile :: "device \<Rightarrow> device" where
  "volatile d = d\<lparr>dv_nvs := (\<lambda>_. None), dv_faults := [], dv_on := True\<rparr>"

definition quiet :: "device \<Rightarrow> bool" where
  "quiet d \<longleftrightarrow> dv_on d \<and> dv_faults d = []"

lemma volatile_updates [simp]:
  "volatile (d\<lparr>dv_nvs := m\<rparr>) = volatile d" "volatile (d\<lparr>dv_faults := f\<rparr>) = volatile d" "volatile (d\<lparr>dv_on := b\<rparr>) = volatile d"
  by (simp_all add: volatile_def)

lemma next_fault_quiet [simp]: "quiet d \<Longrightarrow> next_fault d = (Works, d)"
  by (simp add: next_fault_def quiet_def)

lemma next_fault_frame:
  "next_fault d = (fault, d') \<Longrightarrow> dv_nvs d' = dv_nvs d \<and> volatile d' = volatile d"
  by (auto simp: next_fault_def split: if_splits list.splits)

lemma nvs_write_readback_cases:
  obtains (worked) d' where "nvs_write_readback k bytes d = (Inr (), d')" "dv_nvs d' = (dv_nvs d)(k \<mapsto> bytes)" "volatile d' = volatile d"
      "dv_nvs d k \<noteq> Some bytes" "quiet d \<Longrightarrow> quiet d'"
  | (lost) d' where "nvs_write_readback k bytes d = (Inl SsStoreFailed, d')" "dv_nvs d' = dv_nvs d" "volatile d' = volatile d"
      "\<not> quiet d \<or> dv_nvs d k = Some bytes"
  | (unreported) d' where "nvs_write_readback k bytes d = (Inl SsStoreFailed, d')" "dv_nvs d' = (dv_nvs d)(k \<mapsto> bytes)"
      "volatile d' = volatile d" "\<not> quiet d" "dv_nvs d k \<noteq> Some bytes"
proof -
  obtain fault d1 where f: "next_fault d = (fault, d1)" by fastforce
  note frame = next_fault_frame [OF f]
  have q: "quiet d \<Longrightarrow> fault = Works \<and> d1 = d" using f by simp
  show thesis
  proof (cases "dv_nvs d k = Some bytes")
    case True
    then show thesis using lost f frame by (simp add: nvs_write_readback_def)
  next
    case False
    show thesis
    proof (cases fault)
      case Works
      then show thesis using worked f frame q False by (simp add: nvs_write_readback_def quiet_def)
    next
      case (Fails b)
      then show thesis using lost unreported f frame q False by (cases b) (auto simp: nvs_write_readback_def)
    next
      case (PowerLost b)
      then show thesis using lost unreported f frame q False by (cases b) (auto simp: nvs_write_readback_def)
    qed
  qed
qed

lemma nvs_delete_cases:
  obtains (worked) d' where "nvs_delete k d = (Inr (), d')" "dv_nvs d' = (dv_nvs d)(k := None)" "volatile d' = volatile d" "quiet d \<Longrightarrow> quiet d'"
  | (lost) d' where "nvs_delete k d = (Inl SsStoreFailed, d')" "dv_nvs d' = dv_nvs d" "volatile d' = volatile d" "\<not> quiet d"
  | (unreported) d' where "nvs_delete k d = (Inl SsStoreFailed, d')" "dv_nvs d' = (dv_nvs d)(k := None)"
      "volatile d' = volatile d" "\<not> dv_on d'" "\<not> quiet d"
proof -
  obtain fault d1 where f: "next_fault d = (fault, d1)" by fastforce
  note frame = next_fault_frame [OF f]
  have q: "quiet d \<Longrightarrow> fault = Works \<and> d1 = d" using f by simp
  have off: "\<not> dv_on d1" if "fault = PowerLost b" for b using f that by (auto simp: next_fault_def split: if_splits list.splits)
  show thesis
  proof (cases fault)
    case Works
    then show thesis using worked f frame q by (simp add: nvs_delete_def quiet_def)
  next
    case (Fails b)
    then show thesis using lost f frame q by (auto simp: nvs_delete_def)
  next
    case (PowerLost b)
    then show thesis using lost unreported f frame q off by (cases b) (auto simp: nvs_delete_def)
  qed
qed

lemma read_slot_cases:
  obtains (worked) d' where "read_slot k n d = (Inr (dv_nvs d k), d')" "dv_nvs d' = dv_nvs d" "volatile d' = volatile d" "quiet d \<Longrightarrow> d' = d"
      "\<forall>bytes. dv_nvs d k = Some bytes \<longrightarrow> length bytes \<le> n"
  | (failed) d' where "read_slot k n d = (Inl SsStoreFailed, d')" "dv_nvs d' = dv_nvs d" "volatile d' = volatile d"
      "\<not> quiet d \<or> (\<exists>bytes. dv_nvs d k = Some bytes \<and> n < length bytes)"
proof -
  obtain fault d1 where f: "next_fault d = (fault, d1)" by fastforce
  note frame = next_fault_frame [OF f]
  have q: "quiet d \<Longrightarrow> fault = Works \<and> d1 = d" using f by simp
  show thesis
  proof (cases "fault = Works \<and> (\<forall>bytes. dv_nvs d k = Some bytes \<longrightarrow> length bytes \<le> n)")
    case True
    show thesis by (rule worked [of d1]) (use f frame q True in \<open>auto simp: read_slot_def split: option.split\<close>)
  next
    case False
    show thesis by (rule failed [of d1]) (use f frame q False in \<open>auto simp: read_slot_def split: option.split\<close>)
  qed
qed

section \<open>The ledger\<close>

text \<open>
  The store as a history: all records ever published, the newest first, of which the two slots hold
  the newest two. \<open>Sound\<close>: no intent is open. \<open>Unwritten\<close>: the intent of the next record is open
  and its slot still holds an old record. \<open>Unfinished\<close>: the newest record is written and its intent
  still open.
\<close>

fun ledger_ok :: "record_ref list \<Rightarrow> bool" where
  "ledger_ok [] \<longleftrightarrow> True"
| "ledger_ok (r # hs) \<longleftrightarrow> record_wf r \<and> unat (publication_sequence r) = Suc (length hs) \<and> ledger_ok hs"

definition slot_for :: "record_ids \<Rightarrow> nat \<Rightarrow> u16" where
  "slot_for ids n = (if odd n then slot_a ids else slot_b ids)"

definition latest :: "record_ref list \<Rightarrow> record_ref option" where
  "latest hs = (case hs of [] \<Rightarrow> None | r # _ \<Rightarrow> Some r)"

definition holds :: "record_ids \<Rightarrow> nvs \<Rightarrow> record_ref list \<Rightarrow> bool" where
  "holds ids nvs hs \<longleftrightarrow>
     nvs (slot_for ids (length hs)) = map_option record_bytes (latest hs) \<and>
     nvs (slot_for ids (Suc (length hs))) = map_option record_bytes (latest (tl hs))"

datatype phase = Sound | Unwritten | Unfinished

definition open_intent :: "phase \<Rightarrow> record_ref list \<Rightarrow> u8 list option" where
  "open_intent ph hs =
     (case ph of
        Sound \<Rightarrow> None
      | Unwritten \<Rightarrow> Some (to_be_bytes (of_nat (Suc (length hs)) :: u64))
      | Unfinished \<Rightarrow> Some (to_be_bytes (of_nat (length hs) :: u64)))"

definition ids_wf :: "record_ids \<Rightarrow> bool" where
  "ids_wf ids \<longleftrightarrow> distinct [slot_a ids, slot_b ids, intent_id ids]"

definition ledger :: "record_ids \<Rightarrow> nvs \<Rightarrow> phase \<Rightarrow> record_ref list \<Rightarrow> bool" where
  "ledger ids nvs ph hs \<longleftrightarrow>
     ledger_ok hs \<and> holds ids nvs hs \<and> nvs (intent_id ids) = open_intent ph hs \<and>
     (ph = Unfinished \<longrightarrow> hs \<noteq> []) \<and> (ph = Unwritten \<longrightarrow> Suc (length hs) < 2 ^ 64)"

lemma ids_wf [simp]: "ids_wf IDENTITY_IDS" "ids_wf CONFIG_IDS"
  by (simp_all add: ids_wf_def IDENTITY_IDS_def CONFIG_IDS_def)

lemma slot_for_distinct:
  "ids_wf ids \<Longrightarrow> slot_for ids n \<noteq> slot_for ids (Suc n)" "ids_wf ids \<Longrightarrow> slot_for ids n \<noteq> intent_id ids"
  by (cases ids; auto simp: slot_for_def ids_wf_def)+

lemma slot_for_Suc2 [simp]: "slot_for ids (Suc (Suc n)) = slot_for ids n"
  by (simp add: slot_for_def)

lemma ledger_ok_length: "ledger_ok hs \<Longrightarrow> length hs < 2 ^ 64"
proof (cases hs)
  case (Cons r rs)
  assume "ledger_ok hs"
  then have "unat (publication_sequence r) = length hs" by (simp add: Cons)
  then show ?thesis using unsigned_less [of "publication_sequence r", where ?'a = nat] by simp
qed simp

lemma length_record_max: "record_wf r \<Longrightarrow> length (record_bytes r) \<le> NVS_RECORD_MAX"
  by (simp add: length_record_bytes record_wf_def NVS_RECORD_MAX_def NVS_HEADER_LEN_def)

text \<open>The two slots of a ledger select its newest record.\<close>

lemma select_slot_newer:
  assumes "record_wf r" and "record_wf q" and "publication_sequence q < publication_sequence r"
  shows "select_slot (Some (record_bytes r)) (Some (record_bytes q)) = Inr (Some r)"
    and "select_slot (Some (record_bytes q)) (Some (record_bytes r)) = Inr (Some r)"
  using assms less_not_sym by (auto simp: select_slot_def decode_record_bytes)

lemma select_slot_one:
  assumes "record_wf r"
  shows "select_slot (Some (record_bytes r)) None = Inr (Some r)" and "select_slot None (Some (record_bytes r)) = Inr (Some r)"
  using assms by (simp_all add: select_slot_def decode_record_bytes)

lemma ledger_select:
  assumes "ledger_ok hs" and "holds ids nvs hs" and "ids_wf ids"
  shows "select_slot (nvs (slot_a ids)) (nvs (slot_b ids)) = Inr (latest hs)"
proof -
  have ab: "nvs (slot_a ids) = (if odd (length hs) then map_option record_bytes (latest hs) else map_option record_bytes (latest (tl hs)))"
    "nvs (slot_b ids) = (if odd (length hs) then map_option record_bytes (latest (tl hs)) else map_option record_bytes (latest hs))"
    using assms(2) by (auto simp: holds_def slot_for_def)
  consider "hs = []" | r where "hs = [r]" | r q rs where "hs = r # q # rs" by (metis list.exhaust)
  then show ?thesis
  proof cases
    case 1
    then show ?thesis using ab by (simp add: latest_def select_slot_def)
  next
    case 2
    then show ?thesis using ab assms(1) by (simp add: latest_def select_slot_one)
  next
    case 3
    then have "publication_sequence q < publication_sequence r" using assms(1) by (simp add: word_less_nat_alt)
    then show ?thesis using ab assms(1) 3 by (auto simp: latest_def select_slot_newer)
  qed
qed

lemma ledger_lengths:
  assumes "ledger_ok hs" and "holds ids nvs hs"
  shows "nvs (slot_a ids) = Some bytes \<Longrightarrow> length bytes \<le> NVS_RECORD_MAX"
    and "nvs (slot_b ids) = Some bytes \<Longrightarrow> length bytes \<le> NVS_RECORD_MAX"
proof -
  have "\<forall>r. latest hs = Some r \<longrightarrow> record_wf r" "\<forall>r. latest (tl hs) = Some r \<longrightarrow> record_wf r"
    using assms(1) by (cases hs; simp add: latest_def; cases "tl hs"; simp)+
  moreover have "Some bytes = map_option record_bytes m \<longleftrightarrow> (\<exists>r. m = Some r \<and> bytes = record_bytes r)" for m
    by (cases m) auto
  ultimately show "nvs (slot_a ids) = Some bytes \<Longrightarrow> length bytes \<le> NVS_RECORD_MAX"
    "nvs (slot_b ids) = Some bytes \<Longrightarrow> length bytes \<le> NVS_RECORD_MAX"
    using assms(2) length_record_max by (auto simp: holds_def slot_for_def split: if_splits)
qed

lemma canonical_record_ledger:
  assumes l: "ledger ids (dv_nvs d) ph hs" and ids: "ids_wf ids"
  obtains (failed) d' where "canonical_record ids d = (Inl SsStoreFailed, d')" "dv_nvs d' = dv_nvs d" "volatile d' = volatile d"
      "\<not> quiet d \<or> ph \<noteq> Sound"
  | (found) d' where "canonical_record ids d = (Inr (latest hs), d')" "dv_nvs d' = dv_nvs d" "volatile d' = volatile d"
      "ph = Sound" "quiet d \<Longrightarrow> d' = d"
proof -
  have ok: "ledger_ok hs" "holds ids (dv_nvs d) hs" and intent: "dv_nvs d (intent_id ids) = open_intent ph hs"
    using l by (simp_all add: ledger_def)
  note sel = ledger_select [OF ok ids] and len = ledger_lengths [OF ok]
  show thesis
  proof (cases rule: read_slot_cases [of "intent_id ids" 8 d])
    case (failed d1)
    then show thesis using that(1) [of d1] intent by (cases ph) (auto simp: canonical_record_def try_then_def open_intent_def)
  next
    case i: (worked d1)
    show thesis
    proof (cases "ph = Sound")
      case False
      then have "dv_nvs d (intent_id ids) \<noteq> None" using intent by (cases ph) (simp_all add: open_intent_def)
      then show thesis using that(1) [of d1] i False by (auto simp: canonical_record_def try_then_def return_err_def)
    next
      case True
      then have none: "dv_nvs d (intent_id ids) = None" using intent by (simp add: open_intent_def)
      show thesis
      proof (cases rule: read_slot_cases [of "slot_a ids" NVS_RECORD_MAX d1])
        case (failed d2)
        then show thesis using that(1) [of d2] i none len(1) by (auto simp: canonical_record_def try_then_def)
      next
        case a: (worked d2)
        show thesis
        proof (cases rule: read_slot_cases [of "slot_b ids" NVS_RECORD_MAX d2])
          case (failed d3)
          then show thesis using that(1) [of d3] i a none len(2) by (auto simp: canonical_record_def try_then_def)
        next
          case b: (worked d3)
          then show thesis using that(2) [of d3] i a none sel True by (auto simp: canonical_record_def try_then_def)
        qed
      qed
    qed
  qed
qed

lemma record_bytes_inj: "record_wf r \<Longrightarrow> record_wf q \<Longrightarrow> record_bytes r = record_bytes q \<Longrightarrow> r = q"
  using decode_record_bytes by (metis sum.inject(2))

text \<open>What publishing does once the number is known to be free: the intent, the slot, the intent again.\<close>

lemma publish_record_eq:
  assumes "checked_add current 1 = Some sequence" and "length payload \<le> 160"
  shows "publish_record ids current generation state payload =
    try_then (nvs_write_readback (intent_id ids) (to_be_bytes sequence)) (\<lambda>_.
    try_then (nvs_write_readback (slot_for ids (unat sequence))
      (record_bytes \<lparr>publication_sequence = sequence, rr_generation = generation, rr_state = state, rr_payload = payload\<rparr>)) (\<lambda>_.
      nvs_delete (intent_id ids)))"
proof -
  have "sequence mod 2 = 1 \<longleftrightarrow> odd (unat sequence)"
    by (simp add: word_unat_eq_iff unat_mod odd_iff_mod_2_eq_one)
  then have "(if sequence mod 2 = 1 then slot_a ids else slot_b ids) = slot_for ids (unat sequence)"
    by (simp add: slot_for_def)
  then show ?thesis using assms
    by (simp add: publish_record_def encode_record_eq NVS_RECORD_MAX_def NVS_HEADER_LEN_def NVS_PAYLOAD_MAX_def length_record_bytes)
qed

lemma holds_push:
  assumes "holds ids nvs hs" and "ids_wf ids"
  shows "holds ids (nvs(slot_for ids (Suc (length hs)) \<mapsto> record_bytes r)) (r # hs)"
  using assms slot_for_distinct(1) [OF assms(2), of "length hs"] by (simp add: holds_def latest_def)

lemma holds_intent: "ids_wf ids \<Longrightarrow> holds ids (nvs(intent_id ids := v)) hs = holds ids nvs hs"
  using slot_for_distinct(2) [of ids] by (simp add: holds_def)

lemma publish_record_ledger:
  fixes generation state payload
  assumes l: "ledger ids (dv_nvs d) Sound hs" and ids: "ids_wf ids" and seq: "unat current = length hs" and room: "length payload \<le> 160"
    and r_def: "r = \<lparr>publication_sequence = current + 1, rr_generation = generation, rr_state = state, rr_payload = payload\<rparr>"
  obtains (published) d' where "publish_record ids current generation state payload d = (Inr (), d')"
      "ledger ids (dv_nvs d') Sound (r # hs)" "volatile d' = volatile d" "quiet d \<Longrightarrow> quiet d'"
      "\<And>k. k \<notin> {slot_a ids, slot_b ids, intent_id ids} \<Longrightarrow> dv_nvs d' k = dv_nvs d k"
  | (failed) d' ph hs' where "publish_record ids current generation state payload d = (Inl SsStoreFailed, d')"
      "ledger ids (dv_nvs d') ph hs'" "volatile d' = volatile d"
      "(ph, hs') \<in> {(Sound, hs), (Unwritten, hs), (Unfinished, r # hs)} \<or> (ph, hs') = (Sound, r # hs) \<and> \<not> dv_on d'"
      "\<not> quiet d \<or> Suc (length hs) = 2 ^ 64" "\<And>k. k \<notin> {slot_a ids, slot_b ids, intent_id ids} \<Longrightarrow> dv_nvs d' k = dv_nvs d k"
proof (cases "checked_add current 1")
  case None
  then have "current = - 1" by (simp add: checked_add_1_None)
  then have "Suc (length hs) = 2 ^ 64" using seq by (simp add: unsigned_minus_1_eq_mask mask_eq_exp_minus_1 flip: seq)
  then show thesis using failed [of d Sound hs] l None by (simp add: publish_record_def return_err_def)
next
  case (Some sequence)
  have sq: "sequence = current + 1" "unat sequence = Suc (length hs)"
    using checked_add_Some_eq [OF Some] checked_add_1_Some(1) [OF Some] seq by simp_all
  have small: "Suc (length hs) < 2 ^ 64" using unsigned_less [of sequence, where ?'a = nat] sq(2) by simp
  have of_nat: "(of_nat (Suc (length hs)) :: u64) = sequence" 
  proof -
    have "of_nat (unat sequence) = sequence" by simp
    then show ?thesis by (simp only: sq(2))
  qed
  have ok: "ledger_ok hs" "holds ids (dv_nvs d) hs" and none: "dv_nvs d (intent_id ids) = None"
    using l by (simp_all add: ledger_def open_intent_def)
  have wf: "record_wf r" using room by (simp add: r_def record_wf_def NVS_PAYLOAD_MAX_def)
  have ok': "ledger_ok (r # hs)" using ok(1) wf sq by (simp add: r_def)
  let ?slot = "slot_for ids (Suc (length hs))" and ?i = "intent_id ids"
  have ne: "?slot \<noteq> ?i" using slot_for_distinct(2) [OF ids] by simp
  have known: "?slot \<in> {slot_a ids, slot_b ids, ?i}" by (simp add: slot_for_def)
  have old: "dv_nvs d ?slot \<noteq> Some (record_bytes r)"
  proof
    assume "dv_nvs d ?slot = Some (record_bytes r)"
    then have "map_option record_bytes (latest (tl hs)) = Some (record_bytes r)" using ok(2) by (simp add: holds_def)
    then obtain q where q: "latest (tl hs) = Some q" "record_bytes q = record_bytes r" by blast
    then obtain p rs where hs: "hs = p # q # rs" by (cases hs; cases "tl hs") (auto simp: latest_def)
    then have "q = r" using ok(1) wf q(2) by (intro record_bytes_inj) simp_all
    then show False using ok(1) ok' by (simp add: hs)
  qed
  note eq = publish_record_eq [OF Some room, of ids generation state, unfolded sq(2), folded r_def [folded sq(1)]]
  have other: "k \<noteq> ?slot \<and> k \<noteq> ?i" if "k \<notin> {slot_a ids, slot_b ids, ?i}" for k using known that by blast
  let ?b = "to_be_bytes sequence"
  show thesis
  proof (cases rule: nvs_write_readback_cases [of ?i ?b d])
    case (lost d1)
    then show thesis using failed [of d1 Sound hs] l none by (simp add: eq try_then_def)
  next
    case (unreported d1)
    have "ledger ids (dv_nvs d1) Unwritten hs"
      using l unreported(2) ids small of_nat by (simp add: ledger_def holds_intent open_intent_def del: of_nat_Suc)
    then show thesis using failed [of d1 Unwritten hs] unreported by (simp add: eq try_then_def)
  next
    case i: (worked d1)
    have unwritten: "ledger ids (dv_nvs d1) Unwritten hs"
      using l i(2) ids small of_nat by (simp add: ledger_def holds_intent open_intent_def del: of_nat_Suc)
    have after: "ledger ids ((dv_nvs d1)(?slot \<mapsto> record_bytes r)) Unfinished (r # hs)"
      using ok ok' holds_push [OF _ ids, of "dv_nvs d1" hs r] i(2) ids ne of_nat
      by (simp add: ledger_def holds_intent open_intent_def del: of_nat_Suc)
    have slot1: "dv_nvs d1 ?slot \<noteq> Some (record_bytes r)" using old i(2) ne by simp
    show thesis
    proof (cases rule: nvs_write_readback_cases [of ?slot "record_bytes r" d1])
      case (lost d2)
      show thesis
        by (rule failed [of d2 Unwritten hs]) (use unwritten i slot1 lost other in \<open>auto simp: eq try_then_def\<close>)
    next
      case (unreported d2)
      show thesis
        by (rule failed [of d2 Unfinished "r # hs"]) (use after i unreported other in \<open>auto simp: eq try_then_def\<close>)
    next
      case w: (worked d2)
      have fin: "ledger ids ((dv_nvs d2)(?i := None)) Sound (r # hs)"
        using after w(2) ids by (simp add: ledger_def holds_intent open_intent_def)
      show thesis
      proof (cases rule: nvs_delete_cases [of ?i d2])
        case (worked d3)
        show thesis by (rule published [of d3]) (use fin i w worked other in \<open>auto simp: eq try_then_def\<close>)
      next
        case (lost d3)
        show thesis
          by (rule failed [of d3 Unfinished "r # hs"]) (use after i w lost other in \<open>auto simp: eq try_then_def\<close>)
      next
        case (unreported d3)
        show thesis
          by (rule failed [of d3 Sound "r # hs"]) (use fin i w unreported other in \<open>auto simp: eq try_then_def\<close>)
      qed
    qed
  qed
qed

text \<open>While the intent of the same number is open, nothing is published.\<close>

lemma publish_record_blocked:
  assumes "dv_nvs d (intent_id ids) = Some (to_be_bytes (current + 1))" and "length payload \<le> 160"
  obtains d' where "publish_record ids current generation state payload d = (Inl SsStoreFailed, d')"
    "dv_nvs d' = dv_nvs d" "volatile d' = volatile d"
proof (cases "checked_add current 1")
  case None
  then show thesis using that [of d] by (simp add: publish_record_def return_err_def)
next
  case (Some sequence)
  then have sq: "sequence = current + 1" by (rule checked_add_Some_eq)
  show thesis
  proof (cases rule: nvs_write_readback_cases [of "intent_id ids" "to_be_bytes sequence" d])
    case (lost d')
    then show thesis using that [of d'] by (simp add: publish_record_eq [OF Some assms(2)] try_then_def)
  qed (use assms(1) sq in simp_all)
qed

section \<open>Frames\<close>

lemma canonical_record_frame:
  assumes "canonical_record ids d = (x, d')"
  shows "dv_nvs d' = dv_nvs d \<and> volatile d' = volatile d \<and> (dv_nvs d (intent_id ids) \<noteq> None \<longrightarrow> x = Inl SsStoreFailed)"
proof (cases rule: read_slot_cases [of "intent_id ids" 8 d])
  case (failed d1)
  then show ?thesis using assms by (auto simp: canonical_record_def try_then_def)
next
  case i: (worked d1)
  show ?thesis
  proof (cases "dv_nvs d (intent_id ids)")
    case (Some bytes)
    then show ?thesis using i assms by (auto simp: canonical_record_def try_then_def return_err_def)
  next
    case None
    show ?thesis
    proof (cases rule: read_slot_cases [of "slot_a ids" NVS_RECORD_MAX d1])
      case (failed d2)
      then show ?thesis using i assms None by (auto simp: canonical_record_def try_then_def)
    next
      case a: (worked d2)
      show ?thesis
        by (cases rule: read_slot_cases [of "slot_b ids" NVS_RECORD_MAX d2])
          (use i a assms None in \<open>auto simp: canonical_record_def try_then_def\<close>)
    qed
  qed
qed

lemma nvs_write_readback_frame:
  "nvs_write_readback k bytes d = (x, d') \<Longrightarrow> volatile d' = volatile d \<and> (\<forall>j. j \<noteq> k \<longrightarrow> dv_nvs d' j = dv_nvs d j)"
  by (cases rule: nvs_write_readback_cases [of k bytes d]) auto

lemma nvs_delete_frame:
  "nvs_delete k d = (x, d') \<Longrightarrow> volatile d' = volatile d \<and> (\<forall>j. j \<noteq> k \<longrightarrow> dv_nvs d' j = dv_nvs d j)"
  by (cases rule: nvs_delete_cases [of k d]) auto

lemma publish_record_frame:
  assumes "publish_record ids current generation state payload d = (x, d')"
    and k: "k \<notin> {slot_a ids, slot_b ids, intent_id ids}"
  shows "volatile d' = volatile d \<and> dv_nvs d' k = dv_nvs d k"
proof (cases "checked_add current 1")
  case None
  then show ?thesis using assms by (simp add: publish_record_def return_err_def)
next
  case (Some sequence)
  show ?thesis
  proof (cases "length payload \<le> 160")
    case False
    then show ?thesis using assms Some by (simp add: publish_record_def return_err_def encode_record_eq)
  next
    case True
    have slot: "k \<noteq> slot_for ids n" for n using k by (auto simp: slot_for_def)
    note run = assms(1) [unfolded publish_record_eq [OF Some True] try_then_def]
    show ?thesis
      using run k slot by (auto split: prod.splits sum.splits dest!: nvs_write_readback_frame nvs_delete_frame)
  qed
qed

end
