(* ===== verification/Device_Identity.thy ===== *)
theory Device_Identity
  imports Device_Store
begin

text \<open>
  The identity of the device over any faults of its store: every record ever published follows from
  the one before it, and what each operation makes of the ledger.
\<close>

section \<open>The order of identity records\<close>

definition with_peer :: "record_ref \<Rightarrow> bool" where
  "with_peer r \<longleftrightarrow> rr_state r \<in> {Identity PsPending, Identity PsCommitting, Identity PsPaired}"

text \<open>
  An identity starts unpaired with generation one and keeps its keys. Pairing goes through its three
  states with one peer and one generation; only a revocation of exactly that state takes the next
  generation, and after it the peer is forgotten.
\<close>

fun follows :: "record_ref \<Rightarrow> record_ref option \<Rightarrow> bool" where
  "follows r None \<longleftrightarrow> rr_state r = Identity PsUnpaired \<and> rr_generation r = 1 \<and> length (rr_payload r) = 64"
| "follows r (Some q) \<longleftrightarrow>
     take 64 (rr_payload r) = take 64 (rr_payload q) \<and>
     (case rr_state r of
        Identity PsPending \<Rightarrow> rr_state q = Identity PsUnpaired \<and> rr_generation r = rr_generation q \<and> length (rr_payload r) = 112
      | Identity PsCommitting \<Rightarrow> rr_state q = Identity PsPending \<and> rr_generation r = rr_generation q \<and> rr_payload r = rr_payload q
      | Identity PsPaired \<Rightarrow> rr_state q = Identity PsCommitting \<and> rr_generation r = rr_generation q \<and> rr_payload r = rr_payload q
      | Identity PsRevoking \<Rightarrow>
          with_peer q \<and> unat (rr_generation r) = Suc (unat (rr_generation q)) \<and> rr_payload r = rr_payload q
      | Identity PsUnpaired \<Rightarrow> rr_state q = Identity PsRevoking \<and> rr_generation r = rr_generation q \<and> length (rr_payload r) = 64
      | _ \<Rightarrow> False)"

fun chain :: "record_ref list \<Rightarrow> bool" where
  "chain [] \<longleftrightarrow> True"
| "chain (r # hs) \<longleftrightarrow> follows r (latest hs) \<and> chain hs"

lemma latest_simps [simp]: "latest [] = None" "latest (r # hs) = Some r"
  by (simp_all add: latest_def)

text \<open>What the chain makes sure of in every record.\<close>

definition sound_payload :: "record_ref \<Rightarrow> bool" where
  "sound_payload r \<longleftrightarrow>
     (case rr_state r of
        Identity PsUnpaired \<Rightarrow> length (rr_payload r) = 64
      | Identity _ \<Rightarrow> length (rr_payload r) = 112
      | _ \<Rightarrow> False)"

lemma chain_payload: "chain (r # hs) \<Longrightarrow> sound_payload r"
proof (induction hs arbitrary: r)
  case Nil
  then show ?case by (simp add: sound_payload_def)
next
  case (Cons q hs)
  then have "sound_payload q" "follows r (Some q)" by simp_all
  then show ?case
    by (auto simp: sound_payload_def with_peer_def split: record_state.splits peer_state.splits)
qed

lemma chain_state: "chain (r # hs) \<Longrightarrow> \<exists>state. rr_state r = Identity state"
  using chain_payload [of r hs] by (auto simp: sound_payload_def split: record_state.splits)

text \<open>Generations never fall, and rise only at a revocation.\<close>

lemma chain_generation:
  "chain (r # hs) \<Longrightarrow> \<forall>q \<in> set hs. rr_generation q \<le> rr_generation r"
proof (induction hs arbitrary: r)
  case Nil
  then show ?case by simp
next
  case (Cons q hs)
  then have "rr_generation q \<le> rr_generation r"
    by (auto simp: word_le_nat_alt split: record_state.splits peer_state.splits)
  moreover have "\<forall>p \<in> set hs. rr_generation p \<le> rr_generation q" using Cons by simp
  ultimately show ?case by (auto intro: order_trans)
qed

lemma chain_keys: "chain (r # hs) \<Longrightarrow> q \<in> set hs \<Longrightarrow> take 64 (rr_payload q) = take 64 (rr_payload r)"
proof (induction hs arbitrary: r)
  case (Cons p hs)
  then have "take 64 (rr_payload p) = take 64 (rr_payload r)" by simp
  then show ?case using Cons by auto
qed simp

section \<open>The ledger of the identity\<close>

definition identity_ledger :: "device \<Rightarrow> phase \<Rightarrow> record_ref list \<Rightarrow> bool" where
  "identity_ledger d ph hs \<longleftrightarrow> ledger IDENTITY_IDS (dv_nvs d) ph hs \<and> chain hs"

lemma identity_ledger_same: "identity_ledger d ph hs \<Longrightarrow> dv_nvs d' = dv_nvs d \<Longrightarrow> identity_ledger d' ph hs"
  by (simp add: identity_ledger_def)

text \<open>How an operation may leave the ledger: untouched, with its intent closed, or with one more record.\<close>

definition ledger_next :: "phase \<times> record_ref list \<Rightarrow> phase \<times> record_ref list \<Rightarrow> bool" where
  "ledger_next = (\<lambda>(ph, hs) (ph', hs').
     hs' = hs \<or> (\<exists>r. hs' = r # hs \<and> follows r (latest hs)))"

lemma publish_identity:
  assumes l: "identity_ledger d Sound hs" and seq: "unat current = length hs"
    and r: "follows r (latest hs)" "r = \<lparr>publication_sequence = current + 1, rr_generation = generation, rr_state = state, rr_payload = payload\<rparr>"
    and room: "length payload \<le> 160"
  obtains (published) d' where "publish_record IDENTITY_IDS current generation state payload d = (Inr (), d')"
      "identity_ledger d' Sound (r # hs)" "volatile d' = volatile d" "quiet d \<Longrightarrow> quiet d'"
  | (failed) d' ph hs' where "publish_record IDENTITY_IDS current generation state payload d = (Inl SsStoreFailed, d')"
      "identity_ledger d' ph hs'" "volatile d' = volatile d" "hs' \<in> {hs, r # hs}" "\<not> quiet d \<or> Suc (length hs) = 2 ^ 64"
proof -
  have l': "ledger IDENTITY_IDS (dv_nvs d) Sound hs" "chain hs" using l by (simp_all add: identity_ledger_def)
  from l'(1) ids_wf(1) seq room r(2) show thesis
  proof (cases rule: publish_record_ledger)
    case (published d')
    then show thesis using that(1) [of d'] l'(2) r by (simp add: identity_ledger_def)
  next
    case (failed d' ph hs')
    then show thesis using that(2) [of d' ph hs'] l'(2) r by (auto simp: identity_ledger_def)
  qed
qed

lemma canonical_identity:
  assumes l: "identity_ledger d ph hs"
  obtains (failed) d' where "canonical_record IDENTITY_IDS d = (Inl SsStoreFailed, d')" "identity_ledger d' ph hs" "volatile d' = volatile d"
      "\<not> quiet d \<or> ph \<noteq> Sound"
  | (found) d' where "canonical_record IDENTITY_IDS d = (Inr (latest hs), d')" "identity_ledger d' ph hs" "volatile d' = volatile d"
      "ph = Sound" "quiet d \<Longrightarrow> d' = d"
proof -
  have l': "ledger IDENTITY_IDS (dv_nvs d) ph hs" using l by (simp add: identity_ledger_def)
  from l' ids_wf(1) show thesis
  proof (cases rule: canonical_record_ledger)
    case (failed d')
    then show thesis using that(1) [of d'] identity_ledger_same [OF l, of d'] by simp
  next
    case (found d')
    then show thesis using that(2) [of d'] identity_ledger_same [OF l, of d'] by simp
  qed
qed

lemma ledger_latest:
  assumes "identity_ledger d ph hs" and "latest hs = Some r"
  shows "hs = r # tl hs" and "unat (publication_sequence r) = length hs" and "sound_payload r" and "length (rr_payload r) \<le> 112"
proof -
  show hs: "hs = r # tl hs" using assms(2) by (cases hs) simp_all
  have "ledger_ok hs" "chain hs" using assms(1) by (simp_all add: identity_ledger_def ledger_def)
  then show "unat (publication_sequence r) = length hs" "sound_payload r"
    using hs chain_payload [of r "tl hs"] by (metis ledger_ok.simps(2) length_Cons, metis)
  then show "length (rr_payload r) \<le> 112"
    by (auto simp: sound_payload_def split: record_state.splits peer_state.splits)
qed

section \<open>Creation\<close>

definition env_wf :: "device_env \<Rightarrow> bool" where
  "env_wf env \<longleftrightarrow> (\<forall>sk pk. de_keypair env = Some (sk, pk) \<longrightarrow> length sk = 32 \<and> length pk = 32)"

lemma identity_init_ledger:
  assumes l: "identity_ledger d ph hs" and env: "env_wf env"
  obtains status d' ph' hs' where "identity_init env d = (status, d')" "identity_ledger d' ph' hs'"
    "hs' = hs \<or> (\<exists>r. hs' = r # hs \<and> hs = [])"
    "ph \<noteq> Sound \<Longrightarrow> status = SsStoreFailed \<and> ph' = ph \<and> hs' = hs \<and> volatile d' = volatile d"
    "status = SsSuccess \<Longrightarrow> ph' = Sound \<and> (\<exists>r. hs' = [r]) \<and> dv_generation d' = 1"
    "quiet d \<Longrightarrow> ph = Sound \<Longrightarrow> hs = [] \<Longrightarrow> de_keypair env \<noteq> None \<Longrightarrow> status = SsSuccess"
using l
proof (cases rule: canonical_identity)
  case (failed d1)
  then show thesis using that [of SsStoreFailed d1 ph hs] by (auto simp: identity_init_def)
next
  case (found d1)
  show thesis
  proof (cases "latest hs")
    case (Some r)
    then have "hs \<noteq> []" by auto
    then show thesis using Some found that [of SsAlreadyInitialized d1 ph hs] by (auto simp: identity_init_def)
  next
    case None
    then have hs: "hs = []" by (cases hs) simp_all
    show thesis
    proof (cases "de_keypair env")
      case None
      then show thesis using found hs that [of SsStoreFailed d1 ph hs] by (simp add: identity_init_def)
    next
      case (Some pair)
      obtain sk pk where pair: "pair = (sk, pk)" by (cases pair)
      have len: "length sk = 32" "length pk = 32" using env Some pair by (auto simp: env_wf_def)
      let ?r = "\<lparr>publication_sequence = 0 + 1, rr_generation = 1, rr_state = Identity PsUnpaired, rr_payload = sk @ pk\<rparr>"
      have "identity_ledger d1 Sound hs" "unat (0 :: u64) = length hs" "follows ?r (latest hs)" "?r = ?r" "length (sk @ pk) \<le> 160"
        using found hs len by simp_all
      then show thesis
      proof (cases rule: publish_identity)
        case (published d2)
        then show thesis
          using found hs Some pair that [of SsSuccess "d2\<lparr>dv_generation := 1\<rparr>" Sound "[?r]"] by (simp add: identity_init_def identity_ledger_def)
      next
        case (failed d2 ph2 hs2)
        then show thesis
          using found hs Some pair that [of SsStoreFailed d2 ph2 hs2] by (auto simp: identity_init_def)
      qed
    qed
  qed
qed

section \<open>Recovery\<close>

lemma odd_word: "(w :: u64) mod 2 = 1 \<longleftrightarrow> odd (unat w)"
  by (simp add: word_unat_eq_iff unat_mod odd_iff_mod_2_eq_one)

definition recover_target :: "u8 list \<Rightarrow> u8 list option \<Rightarrow> record_ref \<Rightarrow> (device, service_status, service_status option) mut_call" where
  "recover_target peer_id previous target =
     (if \<not> revocation_completed peer_id target previous \<and> \<not> exact_peer peer_id target
      then return_err SsPeerMismatch
      else try_then (nvs_delete (intent_id IDENTITY_IDS)) (\<lambda>_ d.
        if revocation_completed peer_id target previous
        then (Inr (Some SsSuccess), clear_peer (rr_generation target) d)
        else (Inr None, d)))"

lemma recover_reads:
  assumes l: "identity_ledger d ph hs"
  obtains (failed) d' where "recover_identity_intent p d = (Inl SsStoreFailed, d')" "dv_nvs d' = dv_nvs d" "volatile d' = volatile d"
      "\<not> quiet d \<or> ph = Unwritten"
  | (closed) d' where "recover_identity_intent p d = (Inr None, d')" "dv_nvs d' = dv_nvs d" "volatile d' = volatile d"
      "ph = Sound" "quiet d \<Longrightarrow> quiet d'"
  | (unfinished) r rs d' where "recover_identity_intent p d = recover_target p (map_option record_bytes (latest rs)) r d'"
      "dv_nvs d' = dv_nvs d" "volatile d' = volatile d" "ph = Unfinished" "hs = r # rs" "quiet d \<Longrightarrow> quiet d'"
proof -
  have L: "ledger_ok hs" "holds IDENTITY_IDS (dv_nvs d) hs" and intent: "dv_nvs d (intent_id IDENTITY_IDS) = open_intent ph hs"
    using l by (simp_all add: identity_ledger_def ledger_def)
  note len = ledger_lengths [OF L]
  let ?i = "intent_id IDENTITY_IDS" and ?a = "slot_a IDENTITY_IDS" and ?b = "slot_b IDENTITY_IDS"
  show thesis
  proof (cases rule: read_slot_cases [of ?i 8 d])
    case (failed d1)
    have "length bytes \<le> 8" if "open_intent ph hs = Some bytes" for bytes
      using that by (cases ph) (auto simp: open_intent_def)
    then have "\<not> quiet d" using failed(4) intent by auto
    then show thesis using that(1) [of d1] failed by (simp add: recover_identity_intent_def try_then_def)
  next
    case i: (worked d1)
    show thesis
    proof (cases "ph = Sound")
      case True
      then show thesis using that(2) [of d1] i intent by (simp add: recover_identity_intent_def try_then_def open_intent_def return_ok_def)
    next
      case ph: False
      define n where "n = (if ph = Unwritten then Suc (length hs) else length hs)"
      define sequence where "sequence = (of_nat n :: u64)"
      have open_i: "dv_nvs d ?i = Some (to_be_bytes sequence)" using intent ph by (cases ph) (simp_all add: open_intent_def sequence_def n_def del: of_nat_Suc)
      have "n < 2 ^ 64" using l ledger_ok_length [OF L(1)] by (auto simp: n_def identity_ledger_def ledger_def)
      then have seq: "unat sequence = n" by (simp add: sequence_def unat_of_nat)
      show thesis
      proof (cases rule: read_slot_cases [of ?a NVS_RECORD_MAX d1])
        case (failed d2)
        then have "\<not> quiet d" using len(1) i by auto
        then show thesis using that(1) [of d2] i failed open_i by (simp add: recover_identity_intent_def try_then_def Let_def)
      next
        case a: (worked d2)
        show thesis
        proof (cases rule: read_slot_cases [of ?b NVS_RECORD_MAX d2])
          case (failed d3)
          then have "\<not> quiet d" using len(2) i a by auto
          then show thesis using that(1) [of d3] i a failed open_i by (simp add: recover_identity_intent_def try_then_def Let_def)
        next
          case b: (worked d3)
          have same: "dv_nvs d3 = dv_nvs d" "volatile d3 = volatile d" "quiet d \<Longrightarrow> d3 = d" using i a b by auto
          let ?target = "dv_nvs d (slot_for IDENTITY_IDS n)" and ?previous = "dv_nvs d (slot_for IDENTITY_IDS (Suc n))"
          have slots: "(if sequence mod 2 = 1 then (dv_nvs d ?a, dv_nvs d ?b) else (dv_nvs d ?b, dv_nvs d ?a)) = (?target, ?previous)"
            by (simp add: odd_word seq slot_for_def)
          have run: "recover_identity_intent p d = (case ?target of
              None \<Rightarrow> return_err SsStoreFailed
            | Some bytes \<Rightarrow> (case decode_record bytes of
                Inl _ \<Rightarrow> return_err SsStoreFailed
              | Inr target \<Rightarrow> if publication_sequence target \<noteq> sequence then return_err SsStoreFailed
                  else recover_target p ?previous target)) d3"
            unfolding recover_target_def using i a b open_i slots
            by (simp add: recover_identity_intent_def try_then_def [abs_def] Let_def)
          show thesis
          proof (cases "ph = Unwritten")
            case True
            have "?target = map_option record_bytes (latest (tl hs))" using L(2) True by (simp add: holds_def n_def)
            moreover have "publication_sequence q \<noteq> sequence" "record_wf q" if lq: "latest (tl hs) = Some q" for q
            proof -
              obtain r rs where hs: "hs = r # q # rs" using lq by (cases hs; cases "tl hs") auto
              then have "unat (publication_sequence q) = Suc (length rs)" "record_wf q" using L(1) by simp_all
              then show "publication_sequence q \<noteq> sequence" "record_wf q" using seq True hs by (auto simp: n_def)
            qed
            ultimately have "recover_identity_intent p d = (Inl SsStoreFailed, d3)"
              unfolding run by (cases "latest (tl hs)") (simp_all add: return_err_def decode_record_bytes)
            then show thesis using that(1) [of d3] same True by simp
          next
            case False
            then have fin: "ph = Unfinished" using ph by (cases ph) simp_all
            then obtain r rs where hs: "hs = r # rs" using l by (cases hs) (simp_all add: identity_ledger_def ledger_def)
            have n: "n = length hs" using fin by (simp add: n_def)
            have "?target = Some (record_bytes r)" "?previous = map_option record_bytes (latest rs)"
              using L(2) by (simp_all add: holds_def n hs)
            moreover have "publication_sequence r = sequence" "record_wf r"
              using L(1) seq by (simp_all add: hs n word_unat_eq_iff)
            ultimately have "recover_identity_intent p d = recover_target p (map_option record_bytes (latest rs)) r d3"
              unfolding run by (simp add: decode_record_bytes)
            then show thesis using that(3) [of rs r d3] same fin hs by auto
          qed
        qed
      qed
    qed
  qed
qed

lemma volatile_clear_peer: "volatile (clear_peer g d) = clear_peer g (volatile d)"
  by (cases d) (simp add: clear_peer_def volatile_def)

text \<open>Recovery closes an open intent or leaves everything; it adds no record.\<close>

lemma recover_ledger:
  assumes l: "identity_ledger d ph hs"
  obtains (failed) status d' ph' where "recover_identity_intent p d = (Inl status, d')" "identity_ledger d' ph' hs" "volatile d' = volatile d"
      "status \<noteq> SsSuccess" "ph' = ph \<or> ph' = Sound"
      "\<not> quiet d \<or> ph = Unwritten \<or> (\<exists>r rs. ph = Unfinished \<and> hs = r # rs \<and>
         \<not> revocation_completed p r (map_option record_bytes (latest rs)) \<and> \<not> exact_peer p r)"
  | (closed) d' where "recover_identity_intent p d = (Inr None, d')" "identity_ledger d' Sound hs" "volatile d' = volatile d"
      "quiet d \<Longrightarrow> quiet d'" "ph = Sound \<or> ph = Unfinished"
  | (completed) r rs d' where "recover_identity_intent p d = (Inr (Some SsSuccess), d')" "identity_ledger d' Sound hs"
      "volatile d' = volatile (clear_peer (rr_generation r) d)" "ph = Unfinished" "hs = r # rs"
      "revocation_completed p r (map_option record_bytes (latest rs))" "quiet d \<Longrightarrow> quiet d'"
proof (cases rule: recover_reads [OF l, of p, case_names failed closed unfinished])
  case (failed d')
  then show thesis using that(1) [of SsStoreFailed d' ph] identity_ledger_same [OF l, of d'] by simp
next
  case (closed d')
  then show thesis using that(2) [of d'] identity_ledger_same [OF l, of d'] by simp
next
  case (unfinished r rs d1)
  let ?c = "revocation_completed p r (map_option record_bytes (latest rs))"
  have l1: "identity_ledger d1 Unfinished hs" using identity_ledger_same [OF l, of d1] unfinished by simp
  then have shut: "identity_ledger d2 Sound hs" if "dv_nvs d2 = (dv_nvs d1)(intent_id IDENTITY_IDS := None)" for d2
    using that by (simp add: identity_ledger_def ledger_def holds_intent open_intent_def)
  show thesis
  proof (cases "\<not> ?c \<and> \<not> exact_peer p r")
    case True
    then show thesis using that(1) [of SsPeerMismatch d1 ph] unfinished l1 by (auto simp: recover_target_def return_err_def)
  next
    case fits: False
    show thesis
    proof (cases rule: nvs_delete_cases [of "intent_id IDENTITY_IDS" d1])
      case (worked d2)
      show thesis
      proof (cases ?c)
        case True
        have "recover_identity_intent p d = (Inr (Some SsSuccess), clear_peer (rr_generation r) d2)"
          using unfinished(1) worked(1) True by (simp add: recover_target_def try_then_def)
        moreover have "identity_ledger (clear_peer (rr_generation r) d2) Sound hs"
          using shut [of "clear_peer (rr_generation r) d2"] worked(2) by (simp add: clear_peer_def)
        moreover have "volatile (clear_peer (rr_generation r) d2) = volatile (clear_peer (rr_generation r) d)"
          using worked(3) unfinished(3) by (simp add: volatile_clear_peer)
        moreover have "quiet (clear_peer (rr_generation r) d2)" if "quiet d"
          using worked(4) unfinished(6) that by (simp add: clear_peer_def quiet_def)
        ultimately show thesis using that(3) [of "clear_peer (rr_generation r) d2" r rs] unfinished(4,5) True by blast
      next
        case False
        then show thesis using that(2) [of d2] unfinished worked shut [of d2] fits by (auto simp: recover_target_def try_then_def)
      qed
    next
      case (lost d2)
      then show thesis using that(1) [of SsStoreFailed d2 ph] unfinished lost identity_ledger_same [OF l1, of d2] fits
        by (auto simp: recover_target_def try_then_def)
    next
      case (unreported d2)
      then show thesis using that(1) [of SsStoreFailed d2 Sound] unfinished shut [of d2] fits
        by (auto simp: recover_target_def try_then_def)
    qed
  qed
qed

section \<open>Revocation\<close>

lemma exact_peer_sound: "sound_payload r \<Longrightarrow> exact_peer p r \<Longrightarrow> rr_state r \<noteq> Identity PsUnpaired \<and> length (rr_payload r) = 112"
  by (auto simp: exact_peer_iff sound_payload_def split: record_state.splits peer_state.splits)

text \<open>The ledgers from which a command naming \<open>p\<close> can revoke.\<close>

definition recoverable :: "u8 list \<Rightarrow> phase \<Rightarrow> record_ref list \<Rightarrow> bool" where
  "recoverable p ph hs \<longleftrightarrow>
     ph \<noteq> Unwritten \<and> Suc (length hs) < 2 ^ 64 \<and>
     (case hs of
        [] \<Rightarrow> False
      | r # rs \<Rightarrow>
          exact_peer p r \<and> unat (rr_generation r) < 2 ^ 64 - 1 \<or>
          ph = Unfinished \<and> revocation_completed p r (map_option record_bytes (latest rs)))"

definition revoking_state :: "u64 \<Rightarrow> device \<Rightarrow> device" where
  "revoking_state generation d = d\<lparr>dv_generation := generation, dv_peer_state := PsRevoking, dv_ui_view := 0\<rparr>"

lemma revoking_state_simps [simp]:
  "dv_nvs (revoking_state g d) = dv_nvs d" "quiet (revoking_state g d) = quiet d"
  "volatile (revoking_state g d) = revoking_state g (volatile d)"
  by (cases d; simp add: revoking_state_def quiet_def volatile_def)+

lemma clear_peer_simps [simp]:
  "dv_nvs (clear_peer g d) = dv_nvs d" "quiet (clear_peer g d) = quiet d"
  by (simp_all add: clear_peer_def quiet_def)

definition revocation_of :: "record_ref \<Rightarrow> revocation" where
  "revocation_of r = \<lparr>rv_sequence = publication_sequence r, rv_generation = rr_generation r, rv_local_identity = take 64 (rr_payload r)\<rparr>"

text \<open>An open intent that recovery closes without finishing a revocation belongs to the named peer.\<close>

lemma recover_closed_exact:
  assumes "identity_ledger d Unfinished (r # rs)" and "recover_identity_intent p d = (Inr None, d1)"
  shows "\<not> revocation_completed p r (map_option record_bytes (latest rs)) \<and> exact_peer p r"
  using assms(1)
proof (cases rule: recover_reads [where p = p])
  case (unfinished r' rs' d')
  then show ?thesis using assms(2)
    by (auto simp: recover_target_def try_then_def return_err_def split: if_splits prod.splits sum.splits)
qed (use assms(2) in simp_all)

text \<open>What \<open>begin_identity_unpair\<close> does with the canonical record.\<close>

definition begin_record :: "u8 list \<Rightarrow> record_ref \<Rightarrow> (device, service_status, revocation) mut_call" where
  "begin_record p r =
     (if \<not> exact_peer p r \<or> rr_state r = Identity PsUnpaired then return_err SsPeerMismatch
      else if rr_state r = Identity PsRevoking then (\<lambda>d. (Inr (revocation_of r), revoking_state (rr_generation r) d))
      else case checked_add (rr_generation r) 1 of
        None \<Rightarrow> return_err SsStoreFailed
      | Some generation \<Rightarrow>
          try_then (publish_record IDENTITY_IDS (publication_sequence r) generation (Identity PsRevoking) (rr_payload r))
            (\<lambda>_ d. (Inr \<lparr>rv_sequence = publication_sequence r + 1, rv_generation = generation, rv_local_identity = take 64 (rr_payload r)\<rparr>,
                    revoking_state generation d)))"

lemma begin_identity_unpair_eq:
  assumes "length p = 32" and "recover_identity_intent p d = (Inr None, d1)"
    and "canonical_record IDENTITY_IDS d1 = (Inr (Some r), d2)" and "sound_payload r"
  shows "begin_identity_unpair p d = begin_record p r d2"
proof -
  have "(rr_state r \<notin> {Identity PsPending, Identity PsCommitting, Identity PsPaired, Identity PsRevoking} \<or>
      length (rr_payload r) < 96 \<or> slice 64 32 (rr_payload r) \<noteq> p) \<longleftrightarrow> \<not> exact_peer p r \<or> rr_state r = Identity PsUnpaired"
    using assms(4) by (auto simp: exact_peer_iff sound_payload_def split: record_state.splits peer_state.splits)
  then show ?thesis using assms(1-3)
    by (auto simp: begin_identity_unpair_def begin_record_def try_then_def return_ok_def return_err_def revoking_state_def
        revocation_of_def Let_def split: option.split sum.split)
qed

lemma begin_record_ledger:
  assumes l: "identity_ledger d Sound (r # rs)"
  obtains (failed) status d' ph' hs' where "begin_record p r d = (Inl status, d')" "identity_ledger d' ph' hs'" "volatile d' = volatile d"
      "status \<noteq> SsSuccess" "hs' = r # rs \<or> (\<exists>q. hs' = q # r # rs)"
      "\<not> quiet d \<or> \<not> exact_peer p r \<or> rr_generation r = - 1 \<or> Suc (Suc (length rs)) = 2 ^ 64"
  | (begun) q qs d' where "begin_record p r d = (Inr (revocation_of q), d')" "identity_ledger d' Sound (q # qs)"
      "volatile d' = volatile (revoking_state (rr_generation q) d)" "rr_state q = Identity PsRevoking" "exact_peer p q"
      "q # qs = r # rs \<or> qs = r # rs" "quiet d \<Longrightarrow> quiet d'"
proof -
  have r: "unat (publication_sequence r) = length (r # rs)" "sound_payload r" "length (rr_payload r) \<le> 160"
    using ledger_latest [OF l, of r] by simp_all
  show thesis
  proof (cases "\<not> exact_peer p r \<or> rr_state r = Identity PsUnpaired")
    case True
    then have "\<not> exact_peer p r" using exact_peer_sound [OF r(2)] by blast
    then show thesis using that(1) [of SsPeerMismatch d Sound "r # rs"] l by (simp add: begin_record_def return_err_def)
  next
    case ok: False
    show thesis
    proof (cases "rr_state r = Identity PsRevoking")
      case True
      then show thesis using that(2) [of r "revoking_state (rr_generation r) d" rs] ok l by (simp add: begin_record_def identity_ledger_def)
    next
      case fresh: False
      show thesis
      proof (cases "checked_add (rr_generation r) 1")
        case None
        then have "begin_record p r d = (Inl SsStoreFailed, d)" using ok fresh by (simp add: begin_record_def return_err_def)
        moreover have "rr_generation r = - 1" using None by (simp add: checked_add_1_None)
        ultimately show thesis using that(1) [of SsStoreFailed d Sound "r # rs"] l by simp
      next
        case (Some generation)
        let ?q = "\<lparr>publication_sequence = publication_sequence r + 1, rr_generation = generation, rr_state = Identity PsRevoking, rr_payload = rr_payload r\<rparr>"
        have "with_peer r"
          using ok fresh r(2) by (auto simp: with_peer_def sound_payload_def split: record_state.splits peer_state.splits)
        then have "follows ?q (latest (r # rs))" using checked_add_1_Some(1) [OF Some] by simp
        from l r(1) this refl r(3) show thesis
        proof (cases rule: publish_identity)
          case (published d1)
          have "exact_peer p ?q" using ok by (auto simp: exact_peer_iff)
          then show thesis
            using that(2) [of ?q "revoking_state generation d1" "r # rs"] published Some ok fresh
            by (simp add: begin_record_def try_then_def revocation_of_def identity_ledger_def)
        next
          case (failed d1 ph1 hs1)
          then show thesis using that(1) [of SsStoreFailed d1 ph1 hs1] Some ok fresh
            by (auto simp: begin_record_def try_then_def)
        qed
      qed
    qed
  qed
qed

lemma begin_ledger:
  assumes l: "identity_ledger d ph hs"
  obtains (failed) status d' ph' hs' where "begin_identity_unpair p d = (Inl status, d')" "identity_ledger d' ph' hs'"
      "volatile d' = volatile d" "status \<noteq> SsSuccess" "hs' = hs \<or> (\<exists>q. hs' = q # hs)"
      "\<not> quiet d \<or> length p \<noteq> 32 \<or> \<not> recoverable p ph hs"
  | (completed) r rs d' where "begin_identity_unpair p d = (Inl SsSuccess, d')" "identity_ledger d' Sound hs" "hs = r # rs"
      "volatile d' = volatile (clear_peer (rr_generation r) d)" "revocation_completed p r (map_option record_bytes (latest rs))"
  | (begun) q qs d' where "begin_identity_unpair p d = (Inr (revocation_of q), d')" "identity_ledger d' Sound (q # qs)"
      "volatile d' = volatile (revoking_state (rr_generation q) d)" "rr_state q = Identity PsRevoking" "exact_peer p q"
      "q # qs = hs \<or> qs = hs" "quiet d \<Longrightarrow> quiet d'"
proof (cases "length p = 32")
  case False
  then show thesis using that(1) [of SsInvalid d ph hs] l by (simp add: begin_identity_unpair_def return_err_def)
next
  case p: True
  from l show thesis
  proof (cases rule: recover_ledger [where p = p])
    case (failed status d1 ph1)
    have "\<not> quiet d \<or> \<not> recoverable p ph hs" using failed(6) by (auto simp: recoverable_def)
    then show thesis using that(1) [of status d1 ph1 hs] failed p by (simp add: begin_identity_unpair_def try_then_def)
  next
    case (completed r rs d1)
    then show thesis using that(2) [of d1 r rs] p by (simp add: begin_identity_unpair_def try_then_def return_err_def)
  next
    case (closed d1)
    from closed(2) show thesis
    proof (cases rule: canonical_identity)
      case (failed d2)
      have "\<not> quiet d" using failed(4) closed(4) by blast
      then show thesis using that(1) [of SsStoreFailed d2 Sound hs] failed closed p
        by (simp add: begin_identity_unpair_def try_then_def)
    next
      case (found d2)
      show thesis
      proof (cases hs)
        case Nil
        then have "\<not> recoverable p ph hs" by (simp add: recoverable_def)
        then show thesis using that(1) [of SsMissing d2 Sound hs] found closed p Nil
          by (simp add: begin_identity_unpair_def try_then_def return_err_def)
      next
        case (Cons r rs)
        have snd: "sound_payload r" using ledger_latest(3) [OF found(2), of r] Cons by simp
        have canon: "canonical_record IDENTITY_IDS d1 = (Inr (Some r), d2)" using found(1) Cons by simp
        note eq = begin_identity_unpair_eq [OF p closed(1) canon snd]
        have "identity_ledger d2 Sound (r # rs)" using found(2) Cons by simp
        then show thesis
        proof (cases rule: begin_record_ledger [where p = p])
          case (failed status d3 ph3 hs3)
          have "\<not> quiet d \<or> \<not> recoverable p ph hs"
          proof (rule ccontr)
            assume "\<not> ?thesis"
            then have q: "quiet d" and rec: "recoverable p ph hs" by simp_all
            then have "quiet d2" using closed(4) found(5) by simp
            then have or: "\<not> exact_peer p r \<or> rr_generation r = - 1" using failed(6) rec Cons by (simp add: recoverable_def)
            show False
            proof (cases "exact_peer p r")
              case True
              then have "rr_generation r = - 1" using or by simp
              then have "\<not> unat (rr_generation r) < 2 ^ 64 - 1" by (simp add: unsigned_minus_1_eq_mask mask_eq_exp_minus_1)
              then have "revocation_completed p r (map_option record_bytes (latest rs))" using rec Cons by (simp add: recoverable_def)
              then show False using exact_peer_sound [OF snd True] by (simp add: revocation_completed_def)
            next
              case False
              then have "ph = Unfinished" "revocation_completed p r (map_option record_bytes (latest rs))" using rec Cons by (simp_all add: recoverable_def)
              then show False using recover_closed_exact [of d r rs p d1] l closed(1) False Cons by simp
            qed
          qed
          then show thesis using that(1) [of status d3 ph3 hs3] failed eq found(3) closed(3) Cons by auto
        next
          case (begun q qs d3)
          then show thesis using that(3) [of q d3 qs] eq found(3,5) closed(3,4) Cons by auto
        qed
      qed
    qed
  qed
qed

lemma finish_ledger:
  assumes l: "identity_ledger d Sound (q # qs)" and rev: "rr_state q = Identity PsRevoking"
  obtains (failed) d' ph' hs' where "finish_identity_unpair (revocation_of q) d = (SsStoreFailed, d')" "identity_ledger d' ph' hs'"
      "volatile d' = volatile d" "hs' = q # qs \<or> (\<exists>u. hs' = u # q # qs)" "\<not> quiet d \<or> Suc (Suc (length qs)) = 2 ^ 64"
  | (revoked) u d' where "finish_identity_unpair (revocation_of q) d = (SsSuccess, d')" "identity_ledger d' Sound (u # q # qs)"
      "volatile d' = volatile (clear_peer (rr_generation q) d)" "rr_state u = Identity PsUnpaired" "rr_generation u = rr_generation q"
      "quiet d \<Longrightarrow> quiet d'"
proof -
  have q: "unat (publication_sequence q) = length (q # qs)" "length (rr_payload q) = 112"
    using ledger_latest(2,3) [OF l, of q] rev by (simp_all add: sound_payload_def)
  let ?u = "\<lparr>publication_sequence = publication_sequence q + 1, rr_generation = rr_generation q, rr_state = Identity PsUnpaired,
    rr_payload = take 64 (rr_payload q)\<rparr>"
  have "follows ?u (latest (q # qs))" "length (take 64 (rr_payload q)) \<le> 160" using rev q(2) by simp_all
  from l q(1) this(1) refl this(2) show thesis
  proof (cases rule: publish_identity)
    case (published d1)
    then show thesis using that(2) [of "clear_peer (rr_generation q) d1" ?u]
      by (simp add: finish_identity_unpair_def revocation_of_def identity_ledger_def volatile_clear_peer)
  next
    case (failed d1 ph1 hs1)
    then show thesis using that(1) [of d1 ph1 hs1] by (auto simp: finish_identity_unpair_def revocation_of_def)
  qed
qed

section \<open>Pairing\<close>

text \<open>The identity a pairing session carries agrees with the newest record.\<close>

definition current_identity :: "stored_identity \<Rightarrow> record_ref list \<Rightarrow> bool" where
  "current_identity identity hs \<longleftrightarrow>
     (\<exists>q. latest hs = Some q \<and> si_sequence identity = publication_sequence q \<and> si_generation identity = rr_generation q \<and>
        rr_state q = Identity (si_state identity) \<and> length (si_payload identity) = 112 \<and> si_payload_length identity = 112 \<and>
        take 64 (si_payload identity) = take 64 (rr_payload q) \<and>
        (si_state identity \<noteq> PsUnpaired \<longrightarrow> si_payload identity = rr_payload q))"

definition pairing_steps :: "(peer_state \<times> peer_state) set" where
  "pairing_steps = {(PsUnpaired, PsPending), (PsPending, PsCommitting), (PsCommitting, PsPaired)}"

lemma publish_peer_ledger:
  assumes l: "identity_ledger d Sound hs" and now: "current_identity identity hs" and steps: "(si_state identity, state) \<in> pairing_steps"
  obtains (failed) d' ph' hs' where "publish_peer state identity d = (None, d')" "identity_ledger d' ph' hs'" "hs' = hs \<or> (\<exists>q. hs' = q # hs)"
      "\<not> quiet d \<or> Suc (length hs) = 2 ^ 64"
  | (published) identity' q d' where "publish_peer state identity d = (Some identity', d')" "identity_ledger d' Sound (q # hs)"
      "current_identity identity' (q # hs)" "si_state identity' = state" "rr_payload q = si_payload identity"
      "si_payload identity' = si_payload identity" "quiet d \<Longrightarrow> quiet d'"
proof -
  obtain p where p: "latest hs = Some p" "si_sequence identity = publication_sequence p" "si_generation identity = rr_generation p"
    "rr_state p = Identity (si_state identity)" "length (si_payload identity) = 112" "si_payload_length identity = 112"
    "take 64 (si_payload identity) = take 64 (rr_payload p)" "si_state identity \<noteq> PsUnpaired \<longrightarrow> si_payload identity = rr_payload p"
    using now by (auto simp: current_identity_def)
  have seq: "unat (si_sequence identity) = length hs" using ledger_latest(2) [OF l p(1)] p(2) by simp
  let ?q = "\<lparr>publication_sequence = si_sequence identity + 1, rr_generation = si_generation identity, rr_state = Identity state, rr_payload = si_payload identity\<rparr>"
  have "follows ?q (latest hs)" "length (si_payload identity) \<le> 160" using steps p by (auto simp: pairing_steps_def)
  from l seq this(1) refl this(2) show thesis
  proof (cases rule: publish_identity)
    case (published d1)
    let ?identity = "identity\<lparr>si_sequence := si_sequence identity + 1, si_state := state\<rparr>"
    let ?d = "store_identity_snapshot ?identity (d1\<lparr>dv_generation := si_generation identity\<rparr>)"
    have "publish_peer state identity d = (Some ?identity, ?d)" using published p(5,6) by (simp add: publish_peer_def Let_def)
    moreover have "identity_ledger ?d Sound (?q # hs)" using published by (simp add: identity_ledger_def store_identity_snapshot_def)
    moreover have "current_identity ?identity (?q # hs)" using p by (simp add: current_identity_def)
    moreover have "quiet ?d" if "quiet d" using published(4) that by (simp add: quiet_def store_identity_snapshot_def)
    ultimately show thesis using that(2) [of ?identity ?d ?q] by simp
  next
    case (failed d1 ph1 hs1)
    then show thesis using that(1) [of d1 ph1 hs1] p(5,6) by (auto simp: publish_peer_def)
  qed
qed

end
