(* ===== verification/Device_Control.thy ===== *)
theory Device_Control
  imports Device_Identity
begin

text \<open>
  \<open>apps/core-s3-service/src/lib.rs\<close>, control frames: the commands the worker executes between
  sessions, the ones it answers inside a session, the completions it publishes, and its start.
\<close>

section \<open>Completions\<close>

definition STATUS_RESPONSE_SIZE :: nat where "STATUS_RESPONSE_SIZE = 236"

definition put_at :: "nat \<Rightarrow> 'a list \<Rightarrow> 'a list \<Rightarrow> 'a list" where
  "put_at i new xs = take i xs @ new @ drop (i + length new) xs"

text \<open>The page of the display processor, with the fields this processor owns written over it.\<close>

definition status_page :: "device_env \<Rightarrow> u8 list \<Rightarrow> u64 \<Rightarrow> device \<Rightarrow> u8 list \<Rightarrow> u8 list" where
  "status_page env command_id generation d buffer =
     (let (buffer, len) = de_amp_status env command_id buffer
      in if len \<ge> 27
         then take len (put_at 80 [min (dv_ui_view d) 2 OR push_bit 7 (min (dv_valid_result d) 1)]
                (put_at 26 [min (dv_ui_shell d) 4] (put_at 18 (to_be_bytes generation) buffer)))
         else take len buffer)"

definition publish_completion :: "u8 list \<Rightarrow> device \<Rightarrow> device" where
  "publish_completion bytes d = d\<lparr>dv_completions := dv_completions d @ [bytes]\<rparr>"

definition publish_control_completion :: "device_env \<Rightarrow> control_frame option \<Rightarrow> service_status \<Rightarrow> device \<Rightarrow> device" where
  "publish_control_completion env control status d =
     (case control of
        None \<Rightarrow> publish_completion [1, service_status_u8 status] d
      | Some control \<Rightarrow>
          (let (identity, d) = load_identity d;
               generation = (case identity of None \<Rightarrow> 0 | Some identity \<Rightarrow> si_generation identity);
               head = [1, service_status_u8 status] @ cf_command_id control @ to_be_bytes generation
           in publish_completion
                (case cf_command control of
                   CmdIdentityList \<Rightarrow>
                     (case identity of
                        None \<Rightarrow> head
                      | Some identity \<Rightarrow>
                          head @ [peer_state_u8 (si_state identity)] @
                          (if 96 \<le> si_payload_length identity \<and> si_state identity \<noteq> PsUnpaired
                           then slice 64 32 (si_payload identity) else []))
                 | CmdStatus \<Rightarrow>
                     status_page env (cf_command_id control) generation d (head @ replicate (STATUS_RESPONSE_SIZE - 26) 0)
                 | CmdRun \<Rightarrow> head @ to_be_bytes (dv_run_attempt d)
                 | _ \<Rightarrow> head) d))"

definition publish_basic_completion :: "u8 list \<Rightarrow> service_status \<Rightarrow> device \<Rightarrow> device" where
  "publish_basic_completion command_id status d =
     publish_completion ([1, service_status_u8 status] @ command_id @ to_be_bytes (dv_generation d)) d"

text \<open>
  The answer to the three reading commands, given at once from the state in memory. The fields a
  status page would have without the display processor are never reached.
\<close>

definition control_snapshot :: "device_env \<Rightarrow> u8 list \<Rightarrow> device \<Rightarrow> u8 list" where
  "control_snapshot env input d =
     (if length input > 188 then []
      else case decode_control input of
        Inl _ \<Rightarrow> []
      | Inr control \<Rightarrow>
          (let head = [1, service_status_u8 SsSuccess] @ cf_command_id control @ to_be_bytes (dv_generation d)
           in if cf_payload control \<noteq> [] then []
              else case cf_command control of
                CmdIdentityList \<Rightarrow>
                  head @ [peer_state_u8 (dv_peer_state d)] @ (if dv_peer_state d = PsUnpaired then [] else dv_peer_id d)
              | CmdWifiStatus \<Rightarrow> head @ [of_bool (dv_config_present d)]
              | CmdStatus \<Rightarrow>
                  status_page env (cf_command_id control) (dv_generation d) d (head @ replicate (STATUS_RESPONSE_SIZE - 26) 0)
              | _ \<Rightarrow> []))"

section \<open>Commands between sessions\<close>

definition is_mutation :: "control_command \<Rightarrow> bool" where
  "is_mutation command \<longleftrightarrow> command \<in> {CmdIdentityInit, CmdIdentityUnpair, CmdWifiProvision, CmdWifiClear}"

definition handle_control :: "device_env \<Rightarrow> control_frame \<Rightarrow> device \<Rightarrow> service_status \<times> device" where
  "handle_control env frame d =
     (let (identity, d) = load_identity d;
          generation = (case identity of None \<Rightarrow> 0 | Some identity \<Rightarrow> si_generation identity);
          no_payload = (cf_payload frame = [])
      in if is_mutation (cf_command frame) \<and> cf_owner_generation frame \<noteq> generation then (SsInvalid, d)
         else case cf_command frame of
           CmdIdentityInit \<Rightarrow> if no_payload then identity_init env d else (SsInvalid, d)
         | CmdIdentityList \<Rightarrow> (SsSuccess, d)
         | CmdWifiStatus \<Rightarrow> (SsSuccess, d)
         | CmdStatus \<Rightarrow> (SsSuccess, d)
         | CmdWifiProvision \<Rightarrow> wifi_provision (cf_payload frame) d
         | CmdWifiClear \<Rightarrow> if no_payload then clear_config d else (SsInvalid, d)
         | CmdRun \<Rightarrow>
             if no_payload then
               (let attempt = dv_run_attempt d + 1;
                    d = d\<lparr>dv_running := True, dv_run_attempt := attempt, dv_valid_result := 0, dv_result_attempt := 0, dv_frame_attempt := 0\<rparr>
                in if attempt = 0 then (SsInvalid, d) else (SsSuccess, d\<lparr>dv_ui_action := 4\<rparr>))
             else (SsInvalid, d)
         | CmdShutdown \<Rightarrow>
             if no_payload then (SsSuccess, d\<lparr>dv_running := False, dv_ui_action := 5, dv_valid_result := 0, dv_ui_view := 0\<rparr>)
             else (SsInvalid, d)
         | CmdWorldBenchmarkStart \<Rightarrow> (if no_payload \<and> de_benchmark_started env then SsSuccess else SsInvalid, d)
         | CmdIdentityUnpair \<Rightarrow> identity_unpair (cf_payload frame) d)"

definition refresh_setup_shell :: "device \<Rightarrow> device" where
  "refresh_setup_shell d =
     (let (identity, d) = load_identity d;
          (config, d) = load_config d
      in d\<lparr>dv_ui_shell := (case identity of
               Some identity \<Rightarrow>
                 if config \<noteq> None \<and> si_state identity = PsUnpaired then 1
                 else if config \<noteq> None \<and> si_state identity = PsPaired then 4 else 0
             | None \<Rightarrow> 0)\<rparr>)"

text \<open>One command taken from the queue by the idle worker.\<close>

definition worker_command :: "device_env \<Rightarrow> u8 list \<Rightarrow> device \<Rightarrow> device" where
  "worker_command env bytes d =
     (let (control, status, d) = (case decode_control bytes of
            Inl _ \<Rightarrow> (None, SsInvalid, d)
          | Inr control \<Rightarrow> (Some control, handle_control env control d));
          d = publish_control_completion env control status d
      in if dv_ui_shell d < 3 then refresh_setup_shell d else d)"

section \<open>Commands inside a session\<close>

datatype active_control = AcShutdown "u8 list" | AcUnpair "u8 list" revocation

definition poll_active_control :: "device_env \<Rightarrow> u8 list option \<Rightarrow> device \<Rightarrow> active_control option \<times> device" where
  "poll_active_control env queued d =
     (case queued of
        None \<Rightarrow> (None, d)
      | Some bytes \<Rightarrow>
          (case decode_control bytes of
             Inl _ \<Rightarrow> (None, publish_control_completion env None SsInvalid d)
           | Inr control \<Rightarrow>
               (let busy = (None, publish_control_completion env (Some control) SsBusy d)
                in case cf_command control of
                     CmdShutdown \<Rightarrow>
                       if cf_payload control = [] then (Some (AcShutdown (cf_command_id control)), d\<lparr>dv_ui_action := 5\<rparr>) else busy
                   | CmdIdentityUnpair \<Rightarrow>
                       if cf_owner_generation control \<noteq> dv_generation d
                       then (None, publish_control_completion env (Some control) SsInvalid d)
                       else (case begin_identity_unpair (cf_payload control) d of
                               (Inr revocation, d) \<Rightarrow> (Some (AcUnpair (cf_command_id control) revocation), d)
                             | (Inl status, d) \<Rightarrow> (None, publish_control_completion env (Some control) status d))
                   | CmdWorldBenchmarkStart \<Rightarrow>
                       if cf_payload control = []
                       then (None, publish_control_completion env (Some control) (if de_benchmark_started env then SsSuccess else SsInvalid) d)
                       else busy
                   | _ \<Rightarrow> busy)))"

fun finish_active_control :: "active_control \<Rightarrow> device \<Rightarrow> device" where
  "finish_active_control (AcShutdown command_id) d = publish_basic_completion command_id SsSuccess d"
| "finish_active_control (AcUnpair command_id revocation) d =
     (case finish_identity_unpair revocation d of
        (status, d) \<Rightarrow>
          publish_basic_completion command_id status (if status = SsSuccess then d\<lparr>dv_ui_shell := 1\<rparr> else d))"

section \<open>Start\<close>

definition power_on :: "nvs \<Rightarrow> nvs_fault list \<Rightarrow> device" where
  "power_on nvs faults =
     \<lparr>dv_nvs = nvs, dv_on = True, dv_faults = faults, dv_generation = 0, dv_peer_state = PsUnpaired, dv_peer_id = replicate 32 0,
      dv_config_present = False, dv_ui_shell = 0, dv_ui_view = 0, dv_ui_action = 0, dv_valid_result = 0, dv_running = True,
      dv_run_attempt = 0, dv_result_attempt = 0, dv_frame_attempt = 0, dv_completions = []\<rparr>"

definition worker_start :: "device \<Rightarrow> device" where
  "worker_start d =
     (let (identity, d) = load_identity d;
          d = (case identity of None \<Rightarrow> d | Some identity \<Rightarrow> store_identity_snapshot identity (d\<lparr>dv_generation := si_generation identity\<rparr>));
          d = refresh_setup_shell d;
          (config, d) = load_config d
      in d\<lparr>dv_config_present := config \<noteq> None\<rparr>)"

definition service_ui_command :: "u8 \<Rightarrow> device \<Rightarrow> device" where
  "service_ui_command command d = (if 1 \<le> command \<and> command \<le> 3 then d\<lparr>dv_ui_action := command\<rparr> else d)"

definition service_shell :: "device \<Rightarrow> u8" where
  "service_shell d = min (dv_ui_shell d) 4"

definition service_availability :: "device \<Rightarrow> u8" where
  "service_availability d = saturating_add (min (dv_ui_view d) 2) 1"

definition service_valid_result :: "device \<Rightarrow> u8" where
  "service_valid_result d = min (dv_valid_result d) 1"

section \<open>Pairing attempts\<close>

text \<open>
  What a pairing session does to the store: \<open>connect_once\<close> loads an unpaired identity, \<open>pair_session\<close>
  takes the peer's key and the transaction into it and publishes the three states one after the
  other; the session may end after any of them.
\<close>

definition pairing_identity :: "u8 list \<Rightarrow> u8 list \<Rightarrow> stored_identity \<Rightarrow> stored_identity" where
  "pairing_identity remote transaction identity =
     identity\<lparr>si_payload := put_at 96 transaction (put_at 64 remote (si_payload identity)), si_payload_length := 112\<rparr>"

fun publish_states :: "peer_state list \<Rightarrow> stored_identity \<Rightarrow> device \<Rightarrow> device" where
  "publish_states [] identity d = d"
| "publish_states (state # states) identity d =
     (case publish_peer state identity d of
        (None, d) \<Rightarrow> d
      | (Some identity, d) \<Rightarrow> publish_states states identity d)"

definition pairing_attempt :: "u8 list \<Rightarrow> u8 list \<Rightarrow> nat \<Rightarrow> device \<Rightarrow> device" where
  "pairing_attempt remote transaction n d =
     (let (identity, d) = load_identity d;
          (config, d) = load_config d
      in case (identity, config) of
           (Some identity, Some _) \<Rightarrow>
             if si_state identity = PsUnpaired
             then publish_states (take n [PsPending, PsCommitting, PsPaired]) (pairing_identity remote transaction identity) d
             else d
         | _ \<Rightarrow> d)"

section \<open>Runs\<close>

text \<open>
  Every event brings the faults its store calls will meet. Between sessions the worker takes one
  command, in a session with a paired host it polls one; a pairing attempt is not interrupted by
  commands of its own. A device without power only restarts.
\<close>

datatype device_event =
  DevStart "nvs_fault list"
| DevCommand device_env "nvs_fault list" "u8 list"
| DevSessionCommand device_env "nvs_fault list" "u8 list"
| DevPairing "nvs_fault list" "u8 list" "u8 list" nat

fun device_step :: "device_event \<Rightarrow> device \<Rightarrow> device" where
  "device_step (DevStart faults) d = worker_start (power_on (dv_nvs d) faults)"
| "device_step (DevCommand env faults bytes) d =
     (if dv_on d then worker_command env bytes (d\<lparr>dv_faults := faults\<rparr>) else d)"
| "device_step (DevSessionCommand env faults bytes) d =
     (if dv_on d then
        (case poll_active_control env (Some bytes) (d\<lparr>dv_faults := faults\<rparr>) of
           (None, d) \<Rightarrow> d
         | (Some active, d) \<Rightarrow> refresh_setup_shell (finish_active_control active d))
      else d)"
| "device_step (DevPairing faults remote transaction n) d =
     (if dv_on d then pairing_attempt remote transaction n (d\<lparr>dv_faults := faults\<rparr>) else d)"

fun event_wf :: "device_event \<Rightarrow> bool" where
  "event_wf (DevStart faults) \<longleftrightarrow> True"
| "event_wf (DevCommand env faults bytes) \<longleftrightarrow> env_wf env"
| "event_wf (DevSessionCommand env faults bytes) \<longleftrightarrow> True"
| "event_wf (DevPairing faults remote transaction n) \<longleftrightarrow> length remote = 32 \<and> length transaction = 16"

section \<open>What the operations make of the identity\<close>

lemma load_identity_ledger:
  assumes l: "identity_ledger d ph hs"
  obtains r d' where "load_identity d = (r, d')" "dv_nvs d' = dv_nvs d" "identity_ledger d' ph hs" "volatile d' = volatile d"
    "r = None \<or> ph = Sound \<and> r = Option.bind (latest hs) stored_of"
    "quiet d \<Longrightarrow> ph = Sound \<Longrightarrow> r = Option.bind (latest hs) stored_of \<and> d' = d"
  using l
proof (cases rule: canonical_identity)
  case (failed d')
  then show thesis using that [of None d'] canonical_record_frame [OF failed(1)] by (auto simp: load_identity_def)
next
  case (found d')
  then show thesis using that [of "Option.bind (latest hs) stored_of" d'] canonical_record_frame [OF found(1)]
    by (cases "latest hs") (auto simp: load_identity_def)
qed

lemma load_identity_frame: "load_identity d = (r, d') \<Longrightarrow> dv_nvs d' = dv_nvs d \<and> volatile d' = volatile d"
  by (auto simp: load_identity_def split: prod.splits sum.splits option.splits dest: canonical_record_frame)

lemma load_config_frame: "load_config d = (r, d') \<Longrightarrow> dv_nvs d' = dv_nvs d \<and> volatile d' = volatile d"
  by (auto simp: load_config_def split: prod.splits sum.splits option.splits dest: canonical_record_frame)

lemma config_ids_other: "k \<in> {0x100, 0x101, 0x102} \<Longrightarrow> k \<notin> {slot_a CONFIG_IDS, slot_b CONFIG_IDS, intent_id CONFIG_IDS}"
  by (auto simp: CONFIG_IDS_def)

lemma identity_ledger_other:
  assumes "identity_ledger d ph hs" and "\<And>k. k \<in> {0x100, 0x101, 0x102} \<Longrightarrow> dv_nvs d' k = dv_nvs d k"
  shows "identity_ledger d' ph hs"
  using assms by (simp add: identity_ledger_def ledger_def holds_def slot_for_def IDENTITY_IDS_def)

lemma config_frame:
  assumes "k \<in> {0x100, 0x101, 0x102}"
  shows "wifi_provision payload d = (x, d') \<Longrightarrow> dv_nvs d' k = dv_nvs d k" and "clear_config d = (x, d') \<Longrightarrow> dv_nvs d' k = dv_nvs d k"
  using config_ids_other [OF assms]
  by (auto simp: wifi_provision_def clear_config_def split: if_splits prod.splits sum.splits option.splits
      dest!: canonical_record_frame publish_record_frame [where k = k])

text \<open>Completions and the setup page only read the store.\<close>

lemma publish_completion_nvs [simp]: "dv_nvs (publish_completion bytes d) = dv_nvs d"
  by (simp add: publish_completion_def)

lemma publish_control_completion_nvs [simp]: "dv_nvs (publish_control_completion env control status d) = dv_nvs d"
  by (auto simp: publish_control_completion_def Let_def split: option.split prod.split dest: load_identity_frame)

lemma publish_basic_completion_nvs [simp]: "dv_nvs (publish_basic_completion command_id status d) = dv_nvs d"
  by (simp add: publish_basic_completion_def)

lemma refresh_setup_shell_nvs [simp]: "dv_nvs (refresh_setup_shell d) = dv_nvs d"
  by (auto simp: refresh_setup_shell_def Let_def split: prod.split dest!: load_identity_frame load_config_frame)

lemma worker_start_nvs [simp]: "dv_nvs (worker_start d) = dv_nvs d"
  by (auto simp: worker_start_def Let_def store_identity_snapshot_def split: prod.split option.split
      dest!: load_identity_frame load_config_frame)

text \<open>The open intents no command can close: the record was never written, or it is the first one.\<close>

definition stuck :: "phase \<Rightarrow> record_ref list \<Rightarrow> bool" where
  "stuck ph hs \<longleftrightarrow> ph = Unwritten \<or> ph = Unfinished \<and> length hs = 1"

lemma begin_stuck:
  assumes l: "identity_ledger d ph hs" and st: "stuck ph hs"
  obtains status d' where "begin_identity_unpair p d = (Inl status, d')" "status \<noteq> SsSuccess" "dv_nvs d' = dv_nvs d"
proof (cases "length p = 32")
  case False
  then show thesis using that [of SsInvalid d] by (simp add: begin_identity_unpair_def return_err_def)
next
  case p: True
  from l show thesis
  proof (cases rule: recover_reads [where p = p])
    case (failed d')
    then show thesis using that [of SsStoreFailed d'] p by (simp add: begin_identity_unpair_def try_then_def)
  next
    case (closed d')
    then show thesis using st by (simp add: stuck_def)
  next
    case (unfinished r rs d')
    then have rs: "rs = []" using st by (simp add: stuck_def)
    then have "rr_state r = Identity PsUnpaired" "length (rr_payload r) = 64" using l unfinished(5) by (simp_all add: identity_ledger_def)
    then have "\<not> exact_peer p r" "\<not> revocation_completed p r (map_option record_bytes (latest rs))"
      by (simp_all add: exact_peer_iff revocation_completed_def rs)
    then have "recover_identity_intent p d = (Inl SsPeerMismatch, d')"
      using unfinished(1) by (simp add: recover_target_def return_err_def)
    then show thesis using that [of SsPeerMismatch d'] unfinished(2) p by (simp add: begin_identity_unpair_def try_then_def)
  qed
qed

lemma volatile_generation: "volatile d' = volatile d \<Longrightarrow> dv_generation d' = dv_generation d"
  by (cases d; cases d') (simp add: volatile_def)

lemma clear_peer_generation [simp]: "dv_generation (clear_peer g d) = g"
  by (simp add: clear_peer_def)

lemma identity_unpair_ledger:
  assumes l: "identity_ledger d ph hs"
  obtains status d' ph' ps where "identity_unpair p d = (status, d')" "identity_ledger d' ph' (ps @ hs)"
    "stuck ph hs \<Longrightarrow> ph' = ph \<and> ps = [] \<and> status \<noteq> SsSuccess"
    "status = SsSuccess \<Longrightarrow> ph' = Sound \<and> (\<exists>u q qs. ps @ hs = u # q # qs \<and> rr_state u = Identity PsUnpaired \<and> dv_generation d' = rr_generation u)"
    "quiet d \<Longrightarrow> length p = 32 \<Longrightarrow> recoverable p ph hs \<Longrightarrow> Suc (Suc (length hs)) < 2 ^ 64 \<Longrightarrow> status = SsSuccess"
    "length ps \<le> 2"
proof (cases "stuck ph hs")
  case True
  obtain status d' where "begin_identity_unpair p d = (Inl status, d')" "status \<noteq> SsSuccess" "dv_nvs d' = dv_nvs d"
    by (rule begin_stuck [OF l True])
  moreover have "\<not> recoverable p ph hs"
  proof
    assume rec: "recoverable p ph hs"
    then obtain r where hs: "ph = Unfinished" "hs = [r]" using True by (auto simp: stuck_def recoverable_def length_Suc_conv)
    then have "rr_state r = Identity PsUnpaired" "length (rr_payload r) = 64" using l by (simp_all add: identity_ledger_def)
    then show False using rec by (simp add: recoverable_def hs exact_peer_iff revocation_completed_def)
  qed
  ultimately show thesis using that [of status d' ph "[]"] identity_ledger_same [OF l] by (simp add: identity_unpair_def)
next
  case False
  from l show thesis
  proof (cases rule: begin_ledger [where p = p])
    case (failed status d1 ph1 hs1)
    obtain ps where "hs1 = ps @ hs" "length ps \<le> 2" using failed(5)
      by (elim disjE exE) (use append_Nil append_Cons in \<open>fastforce+\<close>)
    then show thesis using that [of status d1 ph1 ps] failed False by (simp add: identity_unpair_def)
  next
    case (completed r rs d1)
    have "rr_state r = Identity PsUnpaired" "rs \<noteq> []" using completed(5) by (auto simp: revocation_completed_def)
    then obtain q qs where "rs = q # qs" by (cases rs) simp_all
    then show thesis using that [of SsSuccess d1 Sound "[]"] completed False \<open>rr_state r = _\<close> volatile_generation [OF completed(4)]
      by (simp add: identity_unpair_def)
  next
    case (begun q qs d1)
    obtain ps where ps: "q # qs = ps @ hs" "length ps \<le> 1" using begun(6)
      by (elim disjE) (use append_Nil append_Cons in \<open>fastforce+\<close>)
    from begun(2,4) show thesis
    proof (cases rule: finish_ledger)
      case (failed d2 ph2 hs2)
      obtain os where "hs2 = os @ hs" "length os \<le> 2" using failed(4) ps
        by (elim disjE exE) (use append_Cons in \<open>fastforce+\<close>)
      moreover have "\<not> quiet d \<or> \<not> Suc (Suc (length hs)) < 2 ^ 64"
        using failed(5) begun(6,7) by (auto dest!: arg_cong [where f = length])
      ultimately show thesis using that [of SsStoreFailed d2 ph2 os] failed begun(1) False by (simp add: identity_unpair_def)
    next
      case (revoked u d2)
      have eq: "u # q # qs = (u # ps) @ hs" "length (u # ps) \<le> 2" using ps by simp_all
      have "identity_unpair p d = (SsSuccess, d2)" using begun(1) revoked(1) by (simp add: identity_unpair_def)
      moreover have "identity_ledger d2 Sound ((u # ps) @ hs)" using revoked(2) eq by simp
      moreover have "dv_generation d2 = rr_generation u" using volatile_generation [OF revoked(3)] revoked(5) by simp
      ultimately show thesis using that [of SsSuccess d2 Sound "u # ps"] False revoked(4) eq by (metis (no_types))
    qed
  qed
qed

section \<open>What the events make of the identity\<close>

text \<open>The ledger after an event: the same history or a longer one, and no change at all when it is stuck.\<close>

definition grows :: "phase \<Rightarrow> record_ref list \<Rightarrow> device \<Rightarrow> bool" where
  "grows ph hs d' \<longleftrightarrow> (\<exists>ph' ps. identity_ledger d' ph' (ps @ hs) \<and> (stuck ph hs \<longrightarrow> ph' = ph \<and> ps = []))"

lemma grows_same: "identity_ledger d ph hs \<Longrightarrow> dv_nvs d' = dv_nvs d \<Longrightarrow> grows ph hs d'"
  unfolding grows_def using identity_ledger_same by (intro exI [of _ ph] exI [of _ "[]"]) simp

lemma grows_nvs: "grows ph hs d \<Longrightarrow> dv_nvs d' = dv_nvs d \<Longrightarrow> grows ph hs d'"
  unfolding grows_def using identity_ledger_same by blast

lemma growsI: "identity_ledger d' ph' hs' \<Longrightarrow> hs' = hs \<or> (\<exists>q. hs' = q # hs) \<Longrightarrow> \<not> stuck ph hs \<Longrightarrow> grows ph hs d'"
  unfolding grows_def by (metis append_Cons append_Nil)

lemma grows_other:
  assumes "identity_ledger d ph hs" and "\<And>k. k \<in> {0x100, 0x101, 0x102} \<Longrightarrow> dv_nvs d' k = dv_nvs d k"
  shows "grows ph hs d'"
  using identity_ledger_other [OF assms] unfolding grows_def by (intro exI [of _ ph] exI [of _ "[]"]) simp

lemma identity_init_grows:
  assumes l: "identity_ledger d ph hs" and env: "env_wf env"
  shows "grows ph hs (snd (identity_init env d))"
  using l env
proof (cases rule: identity_init_ledger)
  case (1 status d' ph' hs')
  show ?thesis
  proof (cases "ph = Sound")
    case True
    then show ?thesis using 1(1-3) by (auto simp: stuck_def intro: growsI)
  next
    case False
    then have "identity_ledger d' ph hs" using 1(2,4) by simp
    then show ?thesis using 1(1) unfolding grows_def by (intro exI [of _ ph] exI [of _ "[]"]) simp
  qed
qed

lemma identity_unpair_grows:
  assumes "identity_ledger d ph hs"
  shows "grows ph hs (snd (identity_unpair p d))"
  by (rule identity_unpair_ledger [OF assms, of p]) (auto simp: grows_def)

lemma handle_control_grows:
  assumes l: "identity_ledger d ph hs" and env: "env_wf env"
  shows "grows ph hs (snd (handle_control env control d))"
proof -
  obtain identity d1 where load: "load_identity d = (identity, d1)" "dv_nvs d1 = dv_nvs d" "identity_ledger d1 ph hs"
    using l by (rule load_identity_ledger)
  note same = grows_same [OF load(3)]
  have other: "grows ph hs (snd (wifi_provision payload d1))" "grows ph hs (snd (clear_config d1))" for payload
    using config_frame by (cases "wifi_provision payload d1"; cases "clear_config d1"; force intro!: grows_other [OF load(3)])+
  note init = identity_init_grows [OF load(3) env] and unpair = identity_unpair_grows [OF load(3)]
  show ?thesis
    using same init unpair other
    by (cases "cf_command control") (simp_all add: handle_control_def load(1) Let_def)
qed

lemma worker_command_grows:
  assumes "identity_ledger d ph hs" and "env_wf env"
  shows "grows ph hs (worker_command env bytes d)"
proof (cases "decode_control bytes")
  case (Inl e)
  then show ?thesis using assms(1) by (auto simp: worker_command_def Let_def intro!: grows_same)
next
  case (Inr control)
  obtain status d' where r: "handle_control env control d = (status, d')" by fastforce
  have "grows ph hs d'" using handle_control_grows [OF assms, of control] by (simp add: r)
  then show ?thesis by (rule grows_nvs) (simp add: worker_command_def Inr r Let_def)
qed

lemma poll_finish_grows:
  assumes l: "identity_ledger d ph hs" and poll: "poll_active_control env (Some bytes) d = (active, d')"
  shows "grows ph hs (case active of None \<Rightarrow> d' | Some active \<Rightarrow> refresh_setup_shell (finish_active_control active d'))"
proof (cases "decode_control bytes")
  case (Inl e)
  then show ?thesis using l poll by (auto simp: poll_active_control_def intro!: grows_same)
next
  case (Inr control)
  show ?thesis
  proof (cases "cf_command control = CmdIdentityUnpair \<and> cf_owner_generation control = dv_generation d")
    case False
    then have "dv_nvs d' = dv_nvs d \<and> (active = None \<or> active = Some (AcShutdown (cf_command_id control)))"
      using poll Inr by (cases "cf_command control") (auto simp: poll_active_control_def Let_def split: if_splits)
    then show ?thesis using l by (auto intro!: grows_same)
  next
    case True
    show ?thesis
    proof (cases "stuck ph hs")
      case st: True
      obtain status d1 where b: "begin_identity_unpair (cf_payload control) d = (Inl status, d1)" "dv_nvs d1 = dv_nvs d"
        using begin_stuck [OF l st] by metis
      then have "active = None" "dv_nvs d' = dv_nvs d"
        using poll Inr True by (auto simp: poll_active_control_def)
      then show ?thesis using l by (auto intro!: grows_same)
    next
      case st: False
      from l show ?thesis
      proof (cases rule: begin_ledger [where p = "cf_payload control"])
        case (failed status d1 ph1 hs1)
        then have "active = None" "dv_nvs d' = dv_nvs d1" using poll Inr True by (auto simp: poll_active_control_def)
        moreover have "grows ph hs d1" using failed(2,5) st by (rule growsI)
        ultimately show ?thesis using grows_nvs by simp
      next
        case (completed r rs d1)
        then have "active = None" "dv_nvs d' = dv_nvs d1" using poll Inr True by (auto simp: poll_active_control_def)
        moreover have "grows ph hs d1" by (rule growsI [OF completed(2) disjI1 [OF refl] st])
        ultimately show ?thesis using grows_nvs by simp
      next
        case (begun q qs d1)
        then have a: "active = Some (AcUnpair (cf_command_id control) (revocation_of q))" "d' = d1"
          using poll Inr True by (auto simp: poll_active_control_def)
        obtain ps where ps: "q # qs = ps @ hs" using begun(6) by (metis append_Cons append_Nil)
        obtain status d2 where f: "finish_identity_unpair (revocation_of q) d1 = (status, d2)" by fastforce
        have "grows ph hs d2"
          using begun(2,4)
        proof (cases rule: finish_ledger)
          case (failed d3 ph3 hs3)
          then obtain os where "hs3 = os @ hs" using ps by (metis append_Cons append_assoc append_Nil)
          then show ?thesis using failed(1,2) f st by (auto simp: grows_def)
        next
          case (revoked u d3)
          then have "identity_ledger d2 Sound ((u # ps) @ hs)" using f ps by simp
          then show ?thesis using st unfolding grows_def by blast
        qed
        then show ?thesis by (rule grows_nvs) (simp add: a f)
      qed
    qed
  qed
qed

lemma publish_states_ledger:
  assumes "identity_ledger d Sound hs" and "current_identity identity hs" and "set (zip (si_state identity # states) states) \<subseteq> pairing_steps"
  shows "\<exists>ph' ps. identity_ledger (publish_states states identity d) ph' (ps @ hs)"
  using assms
proof (induction states arbitrary: identity d hs)
  case Nil
  then show ?case by (auto intro!: exI [of _ Sound] exI [of _ "[]"])
next
  case (Cons state states)
  have "(si_state identity, state) \<in> pairing_steps" using Cons.prems(3) by simp
  from Cons.prems(1,2) this show ?case
  proof (cases rule: publish_peer_ledger)
    case (failed d1 ph1 hs1)
    then obtain ps where "hs1 = ps @ hs" by (metis append_Cons append_Nil)
    then show ?thesis using failed(1,2) by auto
  next
    case (published identity1 q d1)
    then obtain ph' ps where "identity_ledger (publish_states states identity1 d1) ph' (ps @ q # hs)"
      using Cons.IH [of d1 "q # hs" identity1] Cons.prems(3) by auto
    then show ?thesis using published(1) by (intro exI [of _ ph'] exI [of _ "ps @ [q]"]) simp
  qed
qed

lemma take_states: "set (zip (PsUnpaired # take n [PsPending, PsCommitting, PsPaired]) (take n [PsPending, PsCommitting, PsPaired])) \<subseteq> pairing_steps"
proof -
  consider "n = 0" | "n = 1" | "n = 2" | "3 \<le> n" by linarith
  then show ?thesis by cases (simp_all add: pairing_steps_def numeral_2_eq_2)
qed

lemma pairing_identity_current:
  assumes l: "identity_ledger d Sound hs" and "Option.bind (latest hs) stored_of = Some identity" and "si_state identity = PsUnpaired"
    and "length remote = 32" and "length transaction = 16"
  shows "current_identity (pairing_identity remote transaction identity) hs"
proof -
  obtain r where r: "latest hs = Some r" "stored_of r = Some identity" using assms(2) by (cases "latest hs") simp_all
  then have state: "rr_state r = Identity PsUnpaired" and i: "si_sequence identity = publication_sequence r" "si_generation identity = rr_generation r"
      "si_payload identity = rr_payload r @ replicate (112 - length (rr_payload r)) 0"
    using assms(3) by (auto simp: stored_of_def split: record_state.splits if_splits)
  have "length (rr_payload r) = 64" using ledger_latest(3) [OF l r(1)] state by (simp add: sound_payload_def)
  then show ?thesis using r(1) state i assms(3-5)
    by (auto simp: current_identity_def pairing_identity_def put_at_def)
qed

lemma pairing_attempt_grows:
  assumes l: "identity_ledger d ph hs" and len: "length remote = 32" "length transaction = 16"
  shows "grows ph hs (pairing_attempt remote transaction n d)"
proof -
  obtain identity d1 where load: "load_identity d = (identity, d1)" "dv_nvs d1 = dv_nvs d" "identity_ledger d1 ph hs"
      "identity = None \<or> ph = Sound \<and> identity = Option.bind (latest hs) stored_of"
    using l by (rule load_identity_ledger)
  obtain config d2 where conf: "load_config d1 = (config, d2)" by fastforce
  have l2: "identity_ledger d2 ph hs" using identity_ledger_same [OF load(3)] load_config_frame [OF conf] by simp
  show ?thesis
  proof (cases "\<exists>i c. identity = Some i \<and> config = Some c \<and> si_state i = PsUnpaired")
    case False
    then have "pairing_attempt remote transaction n d = d2"
      by (auto simp: pairing_attempt_def load(1) conf split: option.split)
    then show ?thesis using grows_same [OF l2, of d2] by simp
  next
    case True
    then obtain i c where i: "identity = Some i" "config = Some c" "si_state i = PsUnpaired" by blast
    then have ph: "ph = Sound" "Option.bind (latest hs) stored_of = Some i" using load(4) by simp_all
    then have "current_identity (pairing_identity remote transaction i) hs"
      using l2 i(3) len by (intro pairing_identity_current [of d2]) simp_all
    moreover have "identity_ledger d2 Sound hs" "si_state (pairing_identity remote transaction i) = PsUnpaired"
      using l2 ph(1) i(3) by (simp_all add: pairing_identity_def)
    ultimately obtain ph' ps where
      "identity_ledger (publish_states (take n [PsPending, PsCommitting, PsPaired]) (pairing_identity remote transaction i) d2) ph' (ps @ hs)"
      using publish_states_ledger [of d2 hs "pairing_identity remote transaction i" "take n [PsPending, PsCommitting, PsPaired]"]
        take_states [of n] by metis
    then show ?thesis using i ph(1) by (auto simp: pairing_attempt_def load(1) conf grows_def stuck_def)
  qed
qed

lemma device_step_grows:
  assumes "identity_ledger d ph hs" and "event_wf e"
  shows "grows ph hs (device_step e d)"
proof (cases e)
  case (DevStart faults)
  then show ?thesis using grows_same [OF assms(1)] by (simp add: power_on_def)
next
  case (DevCommand env faults bytes)
  have "identity_ledger (d\<lparr>dv_faults := faults\<rparr>) ph hs" using assms(1) by (simp add: identity_ledger_def)
  then show ?thesis using DevCommand assms grows_same [OF assms(1)] worker_command_grows by simp
next
  case (DevSessionCommand env faults bytes)
  have l: "identity_ledger (d\<lparr>dv_faults := faults\<rparr>) ph hs" using assms(1) by (simp add: identity_ledger_def)
  obtain active d' where "poll_active_control env (Some bytes) (d\<lparr>dv_faults := faults\<rparr>) = (active, d')" by fastforce
  then show ?thesis using DevSessionCommand grows_same [OF assms(1)] poll_finish_grows [OF l] by (auto split: option.split)
next
  case (DevPairing faults remote transaction n)
  have "identity_ledger (d\<lparr>dv_faults := faults\<rparr>) ph hs" using assms(1) by (simp add: identity_ledger_def)
  then show ?thesis using DevPairing assms grows_same [OF assms(1)] pairing_attempt_grows by simp
qed

lemma device_run_grows:
  assumes "identity_ledger d ph hs" and "list_all event_wf es"
  shows "grows ph hs (fold device_step es d)"
  using assms
proof (induction es arbitrary: d ph hs)
  case Nil
  then show ?case using grows_same [of d ph hs d] by simp
next
  case (Cons e es)
  then have "grows ph hs (device_step e d)" by (intro device_step_grows) simp_all
  then obtain ph1 ps1 where one: "identity_ledger (device_step e d) ph1 (ps1 @ hs)" "stuck ph hs \<longrightarrow> ph1 = ph \<and> ps1 = []"
    by (auto simp: grows_def)
  have "grows ph1 (ps1 @ hs) (fold device_step es (device_step e d))" using Cons.IH [OF one(1)] Cons.prems(2) by simp
  then show ?case using one(2) unfolding grows_def
    by (metis append_Nil append_assoc fold_simps(2))
qed

end
