(* ===== verification/Device_Runs.thy ===== *)
theory Device_Runs
  imports Device_Control
begin

text \<open>
  What the store of a device promises over every run of the service, started on erased flash: what a
  restart reads back, what an acknowledged revocation rules out, what a retry after an interruption
  reaches, and which interruptions no later command repairs.
\<close>

section \<open>Runs from erased flash\<close>

definition device_run :: "device_event list \<Rightarrow> device" where
  "device_run es = fold device_step es (power_on (\<lambda>_. None) [])"

text \<open>What the worker would read after a restart on which every call of the store works.\<close>

definition restored :: "device \<Rightarrow> stored_identity option" where
  "restored d = fst (load_identity (power_on (dv_nvs d) []))"

definition peer_states :: "peer_state set" where
  "peer_states = {PsPending, PsCommitting, PsPaired}"

lemma quiet_power_on [simp]: "quiet (power_on nvs [])" "dv_nvs (power_on nvs faults) = nvs"
  by (simp_all add: quiet_def power_on_def)

lemma restored_ledger:
  assumes "identity_ledger d ph hs"
  shows "restored d = (if ph = Sound then Option.bind (latest hs) stored_of else None)"
proof -
  have l: "identity_ledger (power_on (dv_nvs d) []) ph hs" using identity_ledger_same [OF assms] by simp
  show ?thesis by (rule load_identity_ledger [OF l]) (auto simp: restored_def)
qed

lemma erased_ledger: "identity_ledger (power_on (\<lambda>_. None) faults) Sound []"
  by (simp add: identity_ledger_def ledger_def holds_def open_intent_def)

lemma device_run_append: "device_run (es @ es') = fold device_step es' (device_run es)"
  by (simp add: device_run_def)

lemma device_run_ledger:
  assumes "list_all event_wf es"
  obtains ph hs where "identity_ledger (device_run es) ph hs"
  using device_run_grows [OF erased_ledger assms, of "[]"] by (auto simp: grows_def device_run_def)

lemma restored_some:
  assumes l: "identity_ledger d ph hs" and some: "restored d = Some a"
  obtains r rs where "ph = Sound" "hs = r # rs" "rr_state r = Identity (si_state a)" "si_sequence a = publication_sequence r"
    "si_generation a = rr_generation r" "si_payload_length a = length (rr_payload r)" "length (rr_payload r) \<in> {64, 112}"
    "si_payload a = rr_payload r @ replicate (112 - length (rr_payload r)) 0" "stored_of r = Some a"
proof -
  have ph: "ph = Sound" "Option.bind (latest hs) stored_of = Some a"
    using some restored_ledger [OF l] by (auto split: if_splits)
  then obtain r where r: "latest hs = Some r" "stored_of r = Some a" by (cases "latest hs") simp_all
  have "length (rr_payload r) \<in> {64, 112}"
    using ledger_latest(3) [OF l r(1)] by (auto simp: sound_payload_def split: record_state.splits peer_state.splits)
  then show thesis using that [of r "tl hs"] ph r ledger_latest(1) [OF l r(1)]
    by (auto simp: stored_of_def split: record_state.splits if_splits)
qed

text \<open>Within one generation a peer is never exchanged.\<close>

lemma follows_peer: "follows r (Some q) \<Longrightarrow> with_peer q \<Longrightarrow> rr_generation r = rr_generation q \<Longrightarrow> with_peer r \<and> rr_payload r = rr_payload q"
  by (auto simp: with_peer_def split: record_state.splits peer_state.splits)

lemma chain_peer:
  "chain (r # hs) \<Longrightarrow> q \<in> set hs \<Longrightarrow> with_peer q \<Longrightarrow> rr_generation q = rr_generation r \<Longrightarrow> with_peer r \<and> rr_payload r = rr_payload q"
proof (induction hs arbitrary: r)
  case (Cons p hs)
  have f: "follows r (Some p)" "chain (p # hs)" using Cons.prems(1) by simp_all
  show ?case
  proof (cases "q = p")
    case True
    then show ?thesis using follows_peer [OF f(1)] Cons.prems(3,4) by simp
  next
    case False
    then have q: "q \<in> set hs" using Cons.prems(2) by simp
    have "rr_generation q \<le> rr_generation p" "rr_generation p \<le> rr_generation r"
      using q chain_generation [OF f(2)] chain_generation [OF Cons.prems(1)] by simp_all
    then have g: "rr_generation q = rr_generation p" "rr_generation r = rr_generation p" using Cons.prems(4) by simp_all
    then have "with_peer p \<and> rr_payload p = rr_payload q" using Cons.IH [OF f(2) q Cons.prems(3)] by simp
    then show ?thesis using follows_peer [OF f(1)] g(2) by simp
  qed
qed simp

lemma ledger_older:
  assumes l: "identity_ledger d ph (r # ps @ q # hs)"
  shows "publication_sequence q < publication_sequence r" and "rr_generation q \<le> rr_generation r"
    and "take 64 (rr_payload q) = take 64 (rr_payload r)"
    and "with_peer q \<Longrightarrow> rr_generation q = rr_generation r \<Longrightarrow> with_peer r \<and> rr_payload r = rr_payload q"
proof -
  have c: "chain (r # ps @ q # hs)" and ok: "ledger_ok (r # ps @ q # hs)"
    using l by (simp_all add: identity_ledger_def ledger_def)
  have "ledger_ok (ps @ q # hs) \<Longrightarrow> unat (publication_sequence q) = Suc (length hs)" by (induction ps) simp_all
  then show "publication_sequence q < publication_sequence r" using ok by (simp add: word_less_nat_alt)
  show "rr_generation q \<le> rr_generation r" using chain_generation [OF c] by simp
  show "take 64 (rr_payload q) = take 64 (rr_payload r)" using chain_keys [OF c, of q] by simp
  show "with_peer q \<Longrightarrow> rr_generation q = rr_generation r \<Longrightarrow> with_peer r \<and> rr_payload r = rr_payload q"
    using chain_peer [OF c, of q] by simp
qed

section \<open>What a restart reads back\<close>

text \<open>
  C3: Two restarts of a device read back the same identity, or the later one is newer: the sequence has
  grown, the generation has not fallen, the key pair is the same, and while the generation stays a
  peer that was pending, committing or paired is neither exchanged nor dropped. Between them may lie
  any commands, pairings, failed store calls and power losses.
\<close>

theorem restored_identity_never_rolls_back:
  assumes "list_all event_wf (es @ es')" and "restored (device_run es) = Some a" and "restored (device_run (es @ es')) = Some b"
  shows "a = b \<or>
    si_sequence a < si_sequence b \<and> si_generation a \<le> si_generation b \<and>
    take 64 (si_payload a) = take 64 (si_payload b) \<and>
    (si_state a \<in> peer_states \<and> si_generation a = si_generation b \<longrightarrow> si_state b \<in> peer_states \<and> si_payload a = si_payload b)"
proof -
  obtain ph hs where l: "identity_ledger (device_run es) ph hs" by (rule device_run_ledger [of es]) (use assms(1) in simp)
  obtain ph' ps where l': "identity_ledger (device_run (es @ es')) ph' (ps @ hs)"
    using device_run_grows [OF l, of es'] assms(1) by (auto simp: grows_def device_run_append)
  obtain q rs where a: "hs = q # rs" "rr_state q = Identity (si_state a)" "si_sequence a = publication_sequence q"
      "si_generation a = rr_generation q" "length (rr_payload q) \<in> {64, 112}"
      "si_payload a = rr_payload q @ replicate (112 - length (rr_payload q)) 0" "stored_of q = Some a"
    by (rule restored_some [OF l assms(2)]) blast
  obtain r rs' where b: "ps @ hs = r # rs'" "rr_state r = Identity (si_state b)" "si_sequence b = publication_sequence r"
      "si_generation b = rr_generation r" "length (rr_payload r) \<in> {64, 112}"
      "si_payload b = rr_payload r @ replicate (112 - length (rr_payload r)) 0" "stored_of r = Some b"
    by (rule restored_some [OF l' assms(3)]) blast
  show ?thesis
  proof (cases ps)
    case Nil
    then show ?thesis using a b by simp
  next
    case (Cons r' os)
    then have "identity_ledger (device_run (es @ es')) ph' (r # os @ q # rs)" using l' a(1) b(1) by simp
    note older = ledger_older [OF this]
    have peer: "with_peer q \<longleftrightarrow> si_state a \<in> peer_states" "with_peer r \<longleftrightarrow> si_state b \<in> peer_states"
      using a(2) b(2) by (auto simp: with_peer_def peer_states_def)
    show ?thesis using older(1-3) older(4) peer a(3-6) b(3-6) by auto
  qed
qed

section \<open>Acknowledged revocations\<close>

lemma stored_of_unpaired:
  assumes l: "identity_ledger d ph (u # hs)" and u: "rr_state u = Identity PsUnpaired"
  shows "\<exists>i. stored_of u = Some i \<and> si_state i = PsUnpaired \<and> si_payload_length i = 64 \<and> si_generation i = rr_generation u"
proof -
  have "length (rr_payload u) = 64" using ledger_latest(3) [OF l, of u] u by (simp add: sound_payload_def)
  then show ?thesis using u by (simp add: stored_of_def)
qed

lemma ledger_after_unpaired:
  assumes l: "identity_ledger d ph (u # ps @ q # hs)" and u: "rr_state u = Identity PsUnpaired" and q: "with_peer q"
  shows "rr_generation q < rr_generation u"
proof -
  have "rr_generation q \<noteq> rr_generation u" using ledger_older(4) [OF l q] u by (auto simp: with_peer_def)
  then show ?thesis using ledger_older(2) [OF l] by simp
qed

lemma append_later: "xs @ q # rs = u # qs \<Longrightarrow> u \<noteq> q \<Longrightarrow> \<exists>us. qs = us @ q # rs"
  by (cases xs) auto

text \<open>
  C4: An unpair command that is acknowledged has put an unpaired record with a younger generation than
  any earlier pairing into the store, and no later restart, whatever happens in between, reads back
  that generation or an older one.
\<close>

theorem unpair_acknowledged:
  assumes "list_all event_wf (es @ es' @ later)"
    and "restored (device_run es) = Some a" and "si_state a \<in> peer_states"
    and "identity_unpair p ((device_run (es @ es'))\<lparr>dv_faults := faults\<rparr>) = (SsSuccess, d)"
  shows "(\<exists>i. restored d = Some i \<and> si_state i = PsUnpaired \<and> si_payload_length i = 64 \<and>
            si_generation i = dv_generation d \<and> si_generation a < si_generation i) \<and>
    (\<forall>b. restored (fold device_step later d) = Some b \<longrightarrow> si_generation a < si_generation b)"
proof -
  obtain ph hs where l: "identity_ledger (device_run es) ph hs" by (rule device_run_ledger [of es]) (use assms(1) in simp)
  obtain q rs where a: "hs = q # rs" "rr_state q = Identity (si_state a)" "si_generation a = rr_generation q"
    by (rule restored_some [OF l assms(2)]) blast
  have q: "with_peer q" using a(2) assms(3) by (auto simp: with_peer_def peer_states_def)
  obtain ph1 ps where l1: "identity_ledger (device_run (es @ es')) ph1 (ps @ hs)"
    using device_run_grows [OF l, of es'] assms(1) by (auto simp: grows_def device_run_append)
  have l2: "identity_ledger ((device_run (es @ es'))\<lparr>dv_faults := faults\<rparr>) ph1 (ps @ hs)" using identity_ledger_same [OF l1] by simp
  obtain u qs os where u: "identity_ledger d Sound (u # qs)" "os @ ps @ hs = u # qs"
      "rr_state u = Identity PsUnpaired" "dv_generation d = rr_generation u"
    by (rule identity_unpair_ledger [OF l2, of p]) (use assms(4) in auto)
  have "u \<noteq> q" using u(3) q by (auto simp: with_peer_def)
  then obtain us where us: "qs = us @ q # rs" using append_later [of "os @ ps" q rs u qs] u(2) a(1) by auto
  have lt: "si_generation a < rr_generation u" using ledger_after_unpaired [of d Sound u us q rs] u(1,3) q us a(3) by simp
  have now: "\<exists>i. restored d = Some i \<and> si_state i = PsUnpaired \<and> si_payload_length i = 64 \<and>
      si_generation i = dv_generation d \<and> si_generation a < si_generation i"
    using stored_of_unpaired [OF u(1,3)] restored_ledger [OF u(1)] u(4) lt by auto
  have "si_generation a < si_generation b" if b: "restored (fold device_step later d) = Some b" for b
  proof -
    obtain ph3 vs where l3: "identity_ledger (fold device_step later d) ph3 (vs @ u # qs)"
      using device_run_grows [OF u(1), of later] assms(1) by (auto simp: grows_def)
    obtain r ts where r: "vs @ u # qs = r # ts" "si_generation b = rr_generation r"
      by (rule restored_some [OF l3 b]) blast
    have "rr_generation u \<le> rr_generation r"
    proof (cases vs)
      case Nil
      then show ?thesis using r(1) by simp
    next
      case (Cons v vs')
      then have "identity_ledger (fold device_step later d) ph3 (r # vs' @ u # qs)" using l3 r(1) by simp
      then show ?thesis by (rule ledger_older)
    qed
    then show ?thesis using lt r(2) by simp
  qed
  then show ?thesis using now by blast
qed

section \<open>Torn publications\<close>

text \<open>An intent is open and neither slot holds the record it announces.\<close>

definition torn :: "nvs \<Rightarrow> bool" where
  "torn nvs \<longleftrightarrow>
     (case nvs (intent_id IDENTITY_IDS) of
        None \<Rightarrow> False
      | Some intent \<Rightarrow>
          list_all (\<lambda>k. case nvs k of
              None \<Rightarrow> True
            | Some bytes \<Rightarrow>
                (case decode_record bytes of Inl _ \<Rightarrow> True | Inr r \<Rightarrow> publication_sequence r \<noteq> from_be_bytes intent))
            [slot_a IDENTITY_IDS, slot_b IDENTITY_IDS])"

lemma torn_ledger:
  assumes l: "identity_ledger d ph hs"
  shows "torn (dv_nvs d) \<longleftrightarrow> ph = Unwritten"
proof -
  have ok: "ledger_ok hs" and h: "holds IDENTITY_IDS (dv_nvs d) hs" and i: "dv_nvs d (intent_id IDENTITY_IDS) = open_intent ph hs"
    and ph: "ph = Unfinished \<longrightarrow> hs \<noteq> []" "ph = Unwritten \<longrightarrow> Suc (length hs) < 2 ^ 64"
    using l by (simp_all add: identity_ledger_def ledger_def)
  have slots: "\<forall>r. latest hs = Some r \<longrightarrow> record_wf r \<and> unat (publication_sequence r) = length hs"
    "\<forall>r. latest (tl hs) = Some r \<longrightarrow> record_wf r \<and> unat (publication_sequence r) = length hs - 1"
    using ok by (cases hs; cases "tl hs"; auto simp: latest_def)+
  show ?thesis
  proof (cases ph)
    case Sound
    then show ?thesis using i by (simp add: torn_def open_intent_def)
  next
    case Unwritten
    have new: "publication_sequence r \<noteq> of_nat (Suc (length hs))" if "unat (publication_sequence r) \<le> length hs" for r
    proof -
      have "unat (of_nat (Suc (length hs)) :: u64) = Suc (length hs)"
        using ph(2) Unwritten by (simp add: unat_of_nat del: of_nat_Suc)
      then show ?thesis using that by force
    qed
    have entry: "publication_sequence r \<noteq> of_nat (Suc (length hs))"
      if "dv_nvs d (slot_for IDENTITY_IDS n) = Some bytes" "n \<in> {length hs, Suc (length hs)}" "decode_record bytes = Inr r" for n bytes r
    proof (rule new)
      show "unat (publication_sequence r) \<le> length hs"
        using that h slots by (auto simp: holds_def decode_record_bytes)
    qed
    have "{slot_a IDENTITY_IDS, slot_b IDENTITY_IDS} = {slot_for IDENTITY_IDS (length hs), slot_for IDENTITY_IDS (Suc (length hs))}"
      by (auto simp: slot_for_def)
    then have "\<forall>k \<in> {slot_a IDENTITY_IDS, slot_b IDENTITY_IDS}. \<forall>bytes r. dv_nvs d k = Some bytes \<longrightarrow>
        decode_record bytes = Inr r \<longrightarrow> publication_sequence r \<noteq> of_nat (Suc (length hs))"
      using entry by auto
    then show ?thesis using i Unwritten by (simp add: torn_def open_intent_def split: option.split sum.split)
  next
    case Unfinished
    then obtain r where r: "latest hs = Some r" using ph(1) by (cases hs) simp_all
    then have wf: "record_wf r" "unat (publication_sequence r) = length hs" using slots by simp_all
    have "publication_sequence r = of_nat (unat (publication_sequence r))" by simp
    then have "publication_sequence r = of_nat (length hs)" by (simp only: wf(2))
    moreover have "dv_nvs d (slot_for IDENTITY_IDS (length hs)) = Some (record_bytes r)" "decode_record (record_bytes r) = Inr r"
      using h r wf(1) by (simp_all add: holds_def decode_record_bytes)
    ultimately show ?thesis using i Unfinished by (auto simp: torn_def open_intent_def slot_for_def split: if_splits)
  qed
qed

text \<open>
  C6: An identity publication that ends between its intent and its record is never repaired: from then
  on, through any commands and restarts, the identity reads as missing and the three store entries
  of the identity stay as they are.
\<close>

theorem torn_publication_is_final:
  assumes "list_all event_wf (es @ later)" and "torn (dv_nvs (device_run es))"
  shows "restored (device_run (es @ later)) = None \<and>
    (\<forall>k \<in> {slot_a IDENTITY_IDS, slot_b IDENTITY_IDS, intent_id IDENTITY_IDS}.
       dv_nvs (device_run (es @ later)) k = dv_nvs (device_run es) k)"
proof -
  obtain ph hs where l: "identity_ledger (device_run es) ph hs" by (rule device_run_ledger [of es]) (use assms(1) in simp)
  then have ph: "ph = Unwritten" using torn_ledger assms(2) by blast
  then have l': "identity_ledger (device_run (es @ later)) ph hs"
    using device_run_grows [OF l, of later] assms(1) by (auto simp: grows_def stuck_def device_run_append)
  have "restored (device_run (es @ later)) = None" using restored_ledger [OF l'] ph by simp
  moreover have "dv_nvs (device_run (es @ later)) k = dv_nvs (device_run es) k"
    if "k \<in> {slot_for IDENTITY_IDS (length hs), slot_for IDENTITY_IDS (Suc (length hs)), intent_id IDENTITY_IDS}" for k
    using l l' that by (auto simp: identity_ledger_def ledger_def holds_def)
  ultimately show ?thesis by (auto simp: slot_for_def split: if_splits)
qed

section \<open>Interrupted revocations\<close>

lemma exact_peer_later:
  assumes "follows r (Some q)" and "exact_peer p q" and "with_peer q \<or> rr_state q = Identity PsRevoking"
  shows "exact_peer p r \<and> (with_peer r \<or> rr_state r = Identity PsRevoking) \<or>
    rr_state r = Identity PsUnpaired \<and> rr_state q = Identity PsRevoking \<and> rr_generation r = rr_generation q \<and> length (rr_payload r) = 64"
  using assms by (auto simp: with_peer_def exact_peer_iff split: record_state.splits peer_state.splits)

lemma exact_peer_unpaired: "exact_peer p r \<Longrightarrow> 96 \<le> length (rr_payload r)"
  by (simp add: exact_peer_iff)

text \<open>One or two records after a paired one: the peer is still named, or its revocation is finished.\<close>

lemma after_peer:
  assumes c: "chain (ps @ r # rs)" and e: "exact_peer p r" "with_peer r" and n: "length ps \<le> 2"
  obtains (named) v vs where "ps @ r # rs = v # vs" "exact_peer p v"
  | (finished) u q qs where "ps @ r # rs = u # q # qs" "rr_state u = Identity PsUnpaired" "rr_state q = Identity PsRevoking"
      "exact_peer p q" "rr_generation u = rr_generation q" "length (rr_payload u) = 64"
proof -
  consider "ps = []" | v where "ps = [v]" | u v where "ps = [u, v]"
    using n by (cases ps; cases "tl ps") auto
  then show thesis
  proof cases
    case 1
    then show thesis using named e by simp
  next
    case 2
    then have "exact_peer p v \<or> rr_state r = Identity PsRevoking" using exact_peer_later [of v r p] c e by auto
    then show thesis using named 2 e(2) by (auto simp: with_peer_def)
  next
    case 3
    then have f: "follows v (Some r)" "follows u (Some v)" using c by simp_all
    have "rr_state r \<noteq> Identity PsRevoking" using e(2) by (auto simp: with_peer_def)
    then have v: "exact_peer p v" "with_peer v \<or> rr_state v = Identity PsRevoking" using exact_peer_later [OF f(1) e(1)] e(2) by auto
    then show thesis using exact_peer_later [OF f(2) v] named [of u "v # r # rs"] finished [of u v "r # rs"] 3 by auto
  qed
qed

lemma unpair_already:
  assumes l: "identity_ledger d Sound (u # hs)" and u: "rr_state u = Identity PsUnpaired" and q: "quiet d" and p: "length p = 32"
  shows "\<exists>d'. identity_unpair p d = (SsPeerMismatch, d') \<and> dv_nvs d' = dv_nvs d"
  using l
proof (cases rule: recover_reads [where p = p])
  case (closed d1)
  have l1: "identity_ledger d1 Sound (u # hs)" using identity_ledger_same [OF l closed(2)] .
  show ?thesis
    using l1
  proof (cases rule: canonical_identity)
    case (found d2)
    have "sound_payload u" using ledger_latest(3) [OF l, of u] by simp
    then have "begin_identity_unpair p d = begin_record p u d2"
      using begin_identity_unpair_eq [OF p closed(1)] found(1) by simp
    then show ?thesis using found(5) closed(2,5) q u by (simp add: identity_unpair_def begin_record_def return_err_def)
  qed (use closed(5) q in simp)
qed (use q in simp_all)

lemma generation_step: "follows r (Some q) \<Longrightarrow> unat (rr_generation r) \<le> Suc (unat (rr_generation q))"
  by (auto split: record_state.splits peer_state.splits)

lemma generation_steps: "chain (ps @ q # rs) \<Longrightarrow> ps @ q # rs = v # vs \<Longrightarrow> unat (rr_generation v) \<le> unat (rr_generation q) + length ps"
proof (induction ps arbitrary: v vs)
  case (Cons p ps)
  obtain w ws where w: "ps @ q # rs = w # ws" by (cases ps) simp_all
  then have "unat (rr_generation p) \<le> Suc (unat (rr_generation w))" using Cons.prems(1) generation_step by simp
  moreover have "unat (rr_generation w) \<le> unat (rr_generation q) + length ps" using Cons.IH Cons.prems(1) w by simp
  ultimately show ?case using Cons.prems(2) by simp
qed simp

lemma unpair_torn:
  assumes l: "identity_ledger d Unwritten hs" and p: "length p = 32"
  shows "\<exists>d'. identity_unpair p d = (SsStoreFailed, d')"
  using l by (cases rule: recover_reads [where p = p]) (use p in \<open>simp_all add: identity_unpair_def begin_identity_unpair_def try_then_def\<close>)

lemma restored_unpaired:
  assumes l: "identity_ledger d Sound (u # qs)" and u: "rr_state u = Identity PsUnpaired"
    and q: "os @ q # rs = u # qs" "with_peer q"
  shows "\<exists>i. restored d = Some i \<and> si_state i = PsUnpaired \<and> si_payload_length i = 64 \<and> rr_generation q < si_generation i"
proof -
  have "u \<noteq> q" using u q(2) by (auto simp: with_peer_def)
  then obtain us where "qs = us @ q # rs" using append_later [OF q(1)] by blast
  then have "rr_generation q < rr_generation u" using ledger_after_unpaired [OF _ u q(2), of d Sound us rs] l by simp
  then show ?thesis using stored_of_unpaired [OF l u] restored_ledger [OF l] by auto
qed

lemma after_peer_recoverable:
  assumes l: "identity_ledger d ph (ps @ r # rs)" and e: "exact_peer p r" "with_peer r" and n: "length ps \<le> 2"
    and room: "Suc (length (ps @ r # rs)) < 2 ^ 64" "unat (rr_generation r) + 3 < 2 ^ 64" and ph: "ph \<noteq> Unwritten"
  obtains (recoverable) "recoverable p ph (ps @ r # rs)"
  | (unpaired) u qs where "ph = Sound" "ps @ r # rs = u # qs" "rr_state u = Identity PsUnpaired"
proof -
  have c: "chain (ps @ r # rs)" and ok: "ledger_ok (ps @ r # rs)" using l by (simp_all add: identity_ledger_def ledger_def)
  from c e n show thesis
  proof (cases rule: after_peer)
    case (named v vs)
    have "unat (rr_generation v) < 2 ^ 64 - 1" using generation_steps [OF c named(1)] n room(2) by simp
    then show thesis using recoverable ph named room(1) by (simp add: recoverable_def)
  next
    case (finished u q qs)
    have "revocation_completed p u (Some (record_bytes q))"
      using finished ok by (simp add: revocation_completed_def decode_record_bytes)
    then show thesis using recoverable unpaired ph finished room(1) by (cases ph) (simp_all add: recoverable_def)
  qed
qed

text \<open>
  C5: An unpair command met by any failures or a power loss can be repeated after a restart: unless the
  interrupted publication was torn, the repetition is answered with success, or with a mismatch
  when the revocation had already reached the store, and the device is unpaired with a younger
  generation. After a torn publication the repetition fails.
\<close>

theorem unpair_retry:
  assumes "list_all event_wf es" and "restored (device_run es) = Some a" and "si_state a \<in> peer_states"
    and "slice 64 32 (si_payload a) = p" and "unat (si_sequence a) + 5 < 2 ^ 64" and "unat (si_generation a) + 4 < 2 ^ 64"
    and "identity_unpair p ((device_run es)\<lparr>dv_faults := faults\<rparr>) = (first, d)"
    and "identity_unpair p (power_on (dv_nvs d) []) = (second, d')"
  shows "if torn (dv_nvs d) then second = SsStoreFailed
    else second \<in> {SsSuccess, SsPeerMismatch} \<and>
      (\<exists>i. restored d' = Some i \<and> si_state i = PsUnpaired \<and> si_payload_length i = 64 \<and> si_generation a < si_generation i)"
proof -
  obtain ph hs where l: "identity_ledger (device_run es) ph hs" by (rule device_run_ledger [OF assms(1)])
  obtain r rs where a: "ph = Sound" "hs = r # rs" "rr_state r = Identity (si_state a)" "si_sequence a = publication_sequence r"
      "si_generation a = rr_generation r" "length (rr_payload r) \<in> {64, 112}"
      "si_payload a = rr_payload r @ replicate (112 - length (rr_payload r)) 0"
    by (rule restored_some [OF l assms(2)]) blast
  have r: "with_peer r" "length (rr_payload r) = 112" "unat (publication_sequence r) = Suc (length rs)"
    using a(3) assms(3) ledger_latest(2,3) [OF l, of r] a(2)
    by (auto simp: with_peer_def peer_states_def sound_payload_def)
  then have e: "exact_peer p r" "length p = 32" using a(3,7) assms(4) by (auto simp: exact_peer_iff slice_def)
  have l0: "identity_ledger ((device_run es)\<lparr>dv_faults := faults\<rparr>) Sound hs" using identity_ledger_same [OF l] a(1) by simp
  obtain ph1 ps where l1: "identity_ledger d ph1 (ps @ r # rs)" and ps: "length ps \<le> 2"
    by (rule identity_unpair_ledger [OF l0, of p]) (use assms(7) a(2) in auto)
  have l2: "identity_ledger (power_on (dv_nvs d) []) ph1 (ps @ r # rs)" using identity_ledger_same [OF l1] by simp
  have room: "Suc (Suc (length (ps @ r # rs))) < 2 ^ 64" "unat (rr_generation r) + 3 < 2 ^ 64"
    using assms(5,6) a(4,5) r(3) ps by simp_all
  show ?thesis
  proof (cases "ph1 = Unwritten")
    case True
    then show ?thesis using unpair_torn [of "power_on (dv_nvs d) []"] l2 e(2) torn_ledger [OF l1] assms(8) by fastforce
  next
    case False
    have "second \<in> {SsSuccess, SsPeerMismatch} \<and>
      (\<exists>i. restored d' = Some i \<and> si_state i = PsUnpaired \<and> si_payload_length i = 64 \<and> si_generation a < si_generation i)"
      using l2 e(1) r(1) ps Suc_lessD [OF room(1)] room(2) False
    proof (cases rule: after_peer_recoverable)
      case recoverable
      obtain os u qs where u: "second = SsSuccess" "identity_ledger d' Sound (u # qs)" "rr_state u = Identity PsUnpaired"
          "os @ ps @ r # rs = u # qs"
        by (rule identity_unpair_ledger [OF l2, of p]) (use assms(8) recoverable e(2) room(1) in auto)
      then show ?thesis using restored_unpaired [of d' u qs "os @ ps" r rs] r(1) a(5) by simp
    next
      case (unpaired u qs)
      have l3: "identity_ledger (power_on (dv_nvs d) []) Sound (u # qs)" using l2 unpaired by simp
      then have "second = SsPeerMismatch \<and> dv_nvs d' = dv_nvs d" using unpair_already [OF l3 unpaired(3) _ e(2)] assms(8) by simp
      moreover from this have "identity_ledger d' Sound (u # qs)" using identity_ledger_same [OF l3, of d'] by simp
      ultimately show ?thesis using restored_unpaired [of d' u qs ps r rs] unpaired r(1) a(5) by simp
    qed
    then show ?thesis using torn_ledger [OF l1] False by simp
  qed
qed

section \<open>Stale generations\<close>

lemma canonical_quiet:
  assumes "quiet d" and "quiet e" and "dv_nvs d = dv_nvs e"
  shows "fst (canonical_record ids d) = fst (canonical_record ids e)" and "snd (canonical_record ids d) = d"
  using assms by (auto simp: canonical_record_def try_then_def read_slot_def return_err_def split: option.splits sum.splits)

lemma load_identity_quiet:
  assumes "quiet d"
  shows "load_identity d = (restored d, d)"
proof -
  let ?e = "power_on (dv_nvs d) []"
  obtain x where x: "canonical_record IDENTITY_IDS d = (x, d)" "canonical_record IDENTITY_IDS ?e = (x, ?e)"
    using canonical_quiet [of d ?e IDENTITY_IDS] canonical_quiet(2) [of ?e ?e IDENTITY_IDS] assms
    by (metis prod.collapse quiet_power_on)
  then show ?thesis by (auto simp: load_identity_def restored_def split: sum.split option.split)
qed







lemma quiet_updates [simp]:
  "quiet (d\<lparr>dv_ui_shell := u\<rparr>) = quiet d" "quiet (d\<lparr>dv_config_present := b\<rparr>) = quiet d"
  "quiet (publish_completion bytes d) = quiet d"
  by (simp_all add: quiet_def publish_completion_def)






section \<open>A working store\<close>

text \<open>Both ledgers are sound and no fault is pending: what every command then achieves.\<close>

definition settled :: "device \<Rightarrow> record_ref list \<Rightarrow> record_ref list \<Rightarrow> bool" where
  "settled d hi hc \<longleftrightarrow> quiet d \<and> identity_ledger d Sound hi \<and> ledger CONFIG_IDS (dv_nvs d) Sound hc"

lemma settled_same: "settled d hi hc \<Longrightarrow> dv_nvs d' = dv_nvs d \<Longrightarrow> quiet d' \<Longrightarrow> settled d' hi hc"
  by (auto simp: settled_def intro: identity_ledger_same)

lemma settled_update [simp]:
  "settled (d\<lparr>dv_generation := g\<rparr>) hi hc = settled d hi hc" "settled (d\<lparr>dv_config_present := b\<rparr>) hi hc = settled d hi hc"
  "settled (d\<lparr>dv_ui_shell := u\<rparr>) hi hc = settled d hi hc" "settled (store_identity_snapshot i d) hi hc = settled d hi hc"
  "settled (publish_completion bytes d) hi hc = settled d hi hc"
  by (simp_all add: settled_def quiet_def identity_ledger_def store_identity_snapshot_def publish_completion_def)

lemma settled_load: "settled d hi hc \<Longrightarrow> load_identity d = (Option.bind (latest hi) stored_of, d)"
  using load_identity_quiet [of d] restored_ledger [of d Sound hi] by (simp add: settled_def)

lemma settled_canonical:
  assumes "settled d hi hc"
  shows "canonical_record CONFIG_IDS d = (Inr (latest hc), d)"
proof -
  have l: "ledger CONFIG_IDS (dv_nvs d) Sound hc" and q: "quiet d" using assms by (simp_all add: settled_def)
  show ?thesis by (cases rule: canonical_record_ledger [OF l ids_wf(2)]) (use q in simp_all)
qed

lemma settled_load_config:
  assumes "settled d hi hc"
  shows "load_config d =
    (case latest hc of None \<Rightarrow> None | Some r \<Rightarrow> if rr_state r \<noteq> ConfigPresent then None else parse_config (rr_payload r), d)"
  using settled_canonical [OF assms] by (simp add: load_config_def split: option.split)

lemma ledger_frame:
  assumes "ledger ids nvs ph hs" and "\<And>k. k \<in> {slot_a ids, slot_b ids, intent_id ids} \<Longrightarrow> nvs' k = nvs k"
  shows "ledger ids nvs' ph hs"
  using assms by (simp add: ledger_def holds_def slot_for_def)

lemma ids_apart: "{slot_a IDENTITY_IDS, slot_b IDENTITY_IDS, intent_id IDENTITY_IDS} \<inter> {slot_a CONFIG_IDS, slot_b CONFIG_IDS, intent_id CONFIG_IDS} = {}"
  by (simp add: IDENTITY_IDS_def CONFIG_IDS_def)

lemma settled_completion:
  assumes "settled d hi hc"
  shows "settled (publish_control_completion env control status d) hi hc"
  using assms settled_load [OF assms] by (auto simp: publish_control_completion_def Let_def split: option.split)

lemma settled_shell: "settled d hi hc \<Longrightarrow> settled (refresh_setup_shell d) hi hc"
  by (simp add: refresh_setup_shell_def settled_load settled_load_config)

lemma settled_start:
  assumes "settled d hi hc"
  shows "settled (worker_start d) hi hc"
proof -
  have "settled (case load_config (refresh_setup_shell d') of (config, d) \<Rightarrow> d\<lparr>dv_config_present := config \<noteq> None\<rparr>) hi hc"
    if "settled d' hi hc" for d'
    using settled_shell [OF that] settled_load_config [OF settled_shell [OF that]] by simp
  then show ?thesis using assms settled_load [OF assms] by (simp add: worker_start_def Let_def split: option.split)
qed

lemma settled_command:
  assumes "decode_control bytes = Inr frame" and "handle_control env frame d = (status, d')" and "settled d' hi hc"
  shows "settled (worker_command env bytes d) hi hc"
  using assms settled_completion settled_shell by (simp add: worker_command_def Let_def)

text \<open>Publishing in a working store, over the capacity of the sequence number only.\<close>

lemma settled_identity:
  assumes st: "settled d hi hc" and seq: "unat current = length hi" and room: "length payload \<le> 160" "Suc (length hi) < 2 ^ 64"
    and f: "follows r (latest hi)" "r = \<lparr>publication_sequence = current + 1, rr_generation = generation, rr_state = state, rr_payload = payload\<rparr>"
  shows "\<exists>d'. publish_record IDENTITY_IDS current generation state payload d = (Inr (), d') \<and> settled d' (r # hi) hc"
proof -
  have l: "identity_ledger d Sound hi" and q: "quiet d" and c: "ledger CONFIG_IDS (dv_nvs d) Sound hc" using st by (simp_all add: settled_def)
  from l seq f room(1) show ?thesis
  proof (cases rule: publish_identity)
    case (published d')
    have "dv_nvs d' k = dv_nvs d k" if "k \<in> {slot_a CONFIG_IDS, slot_b CONFIG_IDS, intent_id CONFIG_IDS}" for k
      using publish_record_frame [OF published(1), of k] ids_apart that by auto
    then have "ledger CONFIG_IDS (dv_nvs d') Sound hc" by (rule ledger_frame [OF c])
    then show ?thesis using published q by (auto simp: settled_def)
  qed (use q room(2) in simp)
qed

lemma settled_config:
  assumes st: "settled d hi hc" and seq: "unat current = length hc" and room: "length payload \<le> 160" "Suc (length hc) < 2 ^ 64"
  shows "\<exists>d'. publish_record CONFIG_IDS current generation state payload d = (Inr (), d') \<and>
    settled d' hi (\<lparr>publication_sequence = current + 1, rr_generation = generation, rr_state = state, rr_payload = payload\<rparr> # hc)"
proof -
  have l: "identity_ledger d Sound hi" and q: "quiet d" and c: "ledger CONFIG_IDS (dv_nvs d) Sound hc" using st by (simp_all add: settled_def)
  from c ids_wf(2) seq room(1) refl show ?thesis
  proof (cases rule: publish_record_ledger [where generation = generation and state = state])
    case (published d')
    have "dv_nvs d' k = dv_nvs d k" if "k \<in> {slot_a IDENTITY_IDS, slot_b IDENTITY_IDS, intent_id IDENTITY_IDS}" for k
      using publish_record_frame [OF published(1), of k] ids_apart that by auto
    moreover have "ledger IDENTITY_IDS (dv_nvs d) Sound hi" using l by (simp add: identity_ledger_def)
    ultimately have "ledger IDENTITY_IDS (dv_nvs d') Sound hi" by (metis ledger_frame)
    then show ?thesis using published q l by (auto simp: settled_def identity_ledger_def)
  qed (use q room(2) in simp)
qed

lemma settled_latest_sequence: "settled d hi hc \<Longrightarrow> latest hc = Some r \<Longrightarrow> unat (publication_sequence r) = length hc"
  by (cases hc) (simp_all add: settled_def ledger_def)

lemma settled_provision:
  assumes st: "settled d hi hc" and p: "parse_config payload \<noteq> None" "length payload \<le> 160" and room: "Suc (length hc) < 2 ^ 64"
  shows "\<exists>d' r. wifi_provision payload d = (SsSuccess, d') \<and> settled d' hi (r # hc) \<and> rr_state r = ConfigPresent \<and> rr_payload r = payload"
proof -
  let ?current = "case latest hc of None \<Rightarrow> 0 | Some r \<Rightarrow> publication_sequence r"
  have "unat ?current = length hc"
    using settled_latest_sequence [OF st] by (cases hc) simp_all
  then obtain d1 where "publish_record CONFIG_IDS ?current 1 ConfigPresent payload d = (Inr (), d1)"
    "settled d1 hi (\<lparr>publication_sequence = ?current + 1, rr_generation = 1, rr_state = ConfigPresent, rr_payload = payload\<rparr> # hc)"
    using settled_config [OF st _ p(2) room] by blast
  then show ?thesis using p(1) settled_canonical [OF st] by (simp add: wifi_provision_def) (metis record_ref.select_convs(3,4))
qed

lemma settled_init:
  assumes st: "settled d [] hc" and key: "de_keypair env = Some (sk, pk)" and env: "env_wf env"
  shows "\<exists>d' r. identity_init env d = (SsSuccess, d') \<and> settled d' [r] hc \<and> rr_state r = Identity PsUnpaired \<and>
    rr_generation r = 1 \<and> rr_payload r = sk @ pk \<and> publication_sequence r = 1"
proof -
  let ?r = "\<lparr>publication_sequence = 0 + 1, rr_generation = 1, rr_state = Identity PsUnpaired, rr_payload = sk @ pk\<rparr>"
  have len: "length sk = 32" "length pk = 32" using env key by (simp_all add: env_wf_def)
  then obtain d1 where "publish_record IDENTITY_IDS 0 1 (Identity PsUnpaired) (sk @ pk) d = (Inr (), d1)" "settled d1 [?r] hc"
    using settled_identity [OF st, of 0 "sk @ pk" ?r] by auto
  moreover have "canonical_record IDENTITY_IDS d = (Inr None, d)"
    using st canonical_record_ledger [of IDENTITY_IDS d Sound "[]"] by (auto simp: settled_def identity_ledger_def)
  ultimately show ?thesis using key by (intro exI [of _ "d1\<lparr>dv_generation := 1\<rparr>"] exI [of _ ?r]) (simp add: identity_init_def)
qed

lemma publish_peer_some:
  "publish_peer state identity d = (Some identity', d') \<Longrightarrow>
     identity' = identity\<lparr>si_sequence := si_sequence identity + 1, si_state := state\<rparr>"
  by (auto simp: publish_peer_def Let_def split: prod.splits sum.splits)

lemma publish_peer_generation: "publish_peer state identity d = (Some identity', d') \<Longrightarrow> dv_generation d' = si_generation identity"
  by (auto simp: publish_peer_def Let_def store_identity_snapshot_def split: prod.splits sum.splits)

lemma publish_peer_config:
  assumes "publish_peer state identity d = (x, d')" and k: "k \<in> {slot_a CONFIG_IDS, slot_b CONFIG_IDS, intent_id CONFIG_IDS}"
  shows "dv_nvs d' k = dv_nvs d k"
proof -
  have "k \<notin> {slot_a IDENTITY_IDS, slot_b IDENTITY_IDS, intent_id IDENTITY_IDS}" using k ids_apart by blast
  then show ?thesis using assms(1) publish_record_frame [where k = k]
    by (fastforce simp: publish_peer_def Let_def store_identity_snapshot_def split: prod.splits sum.splits)
qed

lemma settled_peer:
  assumes st: "settled d hi hc" and now: "current_identity identity hi" and step: "(si_state identity, state) \<in> pairing_steps"
    and room: "Suc (length hi) < 2 ^ 64"
  shows "\<exists>q d'. publish_peer state identity d = (Some (identity\<lparr>si_sequence := si_sequence identity + 1, si_state := state\<rparr>), d') \<and>
    settled d' (q # hi) hc \<and> current_identity (identity\<lparr>si_sequence := si_sequence identity + 1, si_state := state\<rparr>) (q # hi)"
proof -
  have l: "identity_ledger d Sound hi" and q: "quiet d" and c: "ledger CONFIG_IDS (dv_nvs d) Sound hc" using st by (simp_all add: settled_def)
  from l now step show ?thesis
  proof (cases rule: publish_peer_ledger)
    case (published identity' r d')
    have "ledger CONFIG_IDS (dv_nvs d') Sound hc" using ledger_frame [OF c] publish_peer_config [OF published(1)] by simp
    then show ?thesis using published q publish_peer_some [OF published(1)] by (auto simp: settled_def)
  qed (use q room in simp)
qed

lemma settled_pairing:
  assumes st: "settled d hi hc" and i: "Option.bind (latest hi) stored_of = Some i" "si_state i = PsUnpaired"
    and conf: "fst (load_config d) \<noteq> None" and len: "length remote = 32" "length transaction = 16" and room: "Suc (Suc (Suc (length hi))) < 2 ^ 64"
  shows "\<exists>ps. settled (pairing_attempt remote transaction 3 d) (ps @ hi) hc \<and> length ps = 3 \<and>
    current_identity ((pairing_identity remote transaction i)\<lparr>si_sequence := si_sequence i + 3, si_state := PsPaired\<rparr>) (ps @ hi) \<and>
    dv_generation (pairing_attempt remote transaction 3 d) = si_generation i"
proof -
  let ?i = "pairing_identity remote transaction i"
  have "identity_ledger d Sound hi" using st by (simp add: settled_def)
  then have now: "current_identity ?i hi" by (rule pairing_identity_current) (use i len in simp_all)
  have state: "si_state ?i = PsUnpaired" "si_sequence ?i = si_sequence i" using i(2) by (simp_all add: pairing_identity_def)
  obtain q1 d1 where 1: "publish_peer PsPending ?i d = (Some (?i\<lparr>si_sequence := si_sequence i + 1, si_state := PsPending\<rparr>), d1)"
      "settled d1 (q1 # hi) hc" "current_identity (?i\<lparr>si_sequence := si_sequence i + 1, si_state := PsPending\<rparr>) (q1 # hi)"
    using settled_peer [OF st now, of PsPending] state room by (auto simp: pairing_steps_def)
  obtain q2 d2 where 2: "publish_peer PsCommitting (?i\<lparr>si_sequence := si_sequence i + 1, si_state := PsPending\<rparr>) d1 =
        (Some (?i\<lparr>si_sequence := si_sequence i + 2, si_state := PsCommitting\<rparr>), d2)"
      "settled d2 (q2 # q1 # hi) hc" "current_identity (?i\<lparr>si_sequence := si_sequence i + 2, si_state := PsCommitting\<rparr>) (q2 # q1 # hi)"
    using settled_peer [OF 1(2,3), of PsCommitting] room by (auto simp: pairing_steps_def add.assoc)
  obtain q3 d3 where 3: "publish_peer PsPaired (?i\<lparr>si_sequence := si_sequence i + 2, si_state := PsCommitting\<rparr>) d2 =
        (Some (?i\<lparr>si_sequence := si_sequence i + 3, si_state := PsPaired\<rparr>), d3)"
      "settled d3 (q3 # q2 # q1 # hi) hc" "current_identity (?i\<lparr>si_sequence := si_sequence i + 3, si_state := PsPaired\<rparr>) (q3 # q2 # q1 # hi)"
    using settled_peer [OF 2(2,3), of PsPaired] room by (auto simp: pairing_steps_def add.assoc)
  obtain c where "load_config d = (Some c, d)" using conf settled_load_config [OF st] by auto
  then have "pairing_attempt remote transaction 3 d = d3"
    using settled_load [OF st] i 1(1) 2(1) 3(1) by (simp add: pairing_attempt_def)
  moreover have "dv_generation d3 = si_generation i"
    using publish_peer_generation [OF 3(1)] by (simp add: pairing_identity_def)
  ultimately show ?thesis using 3(2,3) by (intro exI [of _ "[q3, q2, q1]"]) simp
qed

lemma current_restored:
  assumes "settled d hi hc" and now: "current_identity i hi" and "si_state i \<noteq> PsUnpaired"
  shows "restored d = Some i"
proof -
  have l: "identity_ledger d Sound hi" using assms(1) by (simp add: settled_def)
  obtain q where q: "latest hi = Some q" "si_sequence i = publication_sequence q" "si_generation i = rr_generation q"
      "rr_state q = Identity (si_state i)" "length (si_payload i) = 112" "si_payload_length i = 112" "si_payload i = rr_payload q"
    using now assms(3) by (auto simp: current_identity_def)
  then have "stored_of q = Some i" by (simp add: stored_of_def flip: q(2,3))
  then show ?thesis using restored_ledger [OF l] q(1) by simp
qed

section \<open>The intent of a configuration\<close>

text \<open>No command of the service reads or deletes it, so the configuration stays behind it.\<close>

definition config_keys :: "u16 set" where
  "config_keys = {slot_a CONFIG_IDS, slot_b CONFIG_IDS, intent_id CONFIG_IDS}"

lemma config_keys_other:
  assumes "k \<in> config_keys"
  shows "k \<notin> {slot_a IDENTITY_IDS, slot_b IDENTITY_IDS, intent_id IDENTITY_IDS}"
  using assms ids_apart by (auto simp: config_keys_def)

lemma read_slot_nvs: "read_slot j n d = (x, d') \<Longrightarrow> dv_nvs d' = dv_nvs d"
  by (cases rule: read_slot_cases [of j n d]) auto

lemma identity_config:
  assumes k: "k \<in> config_keys"
  shows "recover_identity_intent p d = (x, d') \<Longrightarrow> dv_nvs d' k = dv_nvs d k"
    and "publish_record IDENTITY_IDS c g state payload d = (y, d') \<Longrightarrow> dv_nvs d' k = dv_nvs d k"
    and "canonical_record ids d = (z, d') \<Longrightarrow> dv_nvs d' k = dv_nvs d k"
proof -
  note other = config_keys_other [OF k]
  show "recover_identity_intent p d = (x, d') \<Longrightarrow> dv_nvs d' k = dv_nvs d k"
    using other
    by (auto simp: recover_identity_intent_def try_then_def return_ok_def return_err_def Let_def clear_peer_def
        split: prod.splits sum.splits option.splits if_splits dest!: read_slot_nvs nvs_delete_frame)
  show "publish_record IDENTITY_IDS c g state payload d = (y, d') \<Longrightarrow> dv_nvs d' k = dv_nvs d k"
    using publish_record_frame [OF _ other] by blast
  show "canonical_record ids d = (z, d') \<Longrightarrow> dv_nvs d' k = dv_nvs d k"
    using canonical_record_frame by simp
qed

lemma identity_commands_config:
  assumes k: "k \<in> config_keys"
  shows "finish_identity_unpair r d = (w, d') \<Longrightarrow> dv_nvs d' k = dv_nvs d k"
    and "begin_identity_unpair p d = (x, d') \<Longrightarrow> dv_nvs d' k = dv_nvs d k"
    and "identity_init env d = (y, d') \<Longrightarrow> dv_nvs d' k = dv_nvs d k"
    and "publish_peer state i d = (z, d') \<Longrightarrow> dv_nvs d' k = dv_nvs d k"
proof -
  note part = identity_config [OF k]
  show "finish_identity_unpair r d = (w, d') \<Longrightarrow> dv_nvs d' k = dv_nvs d k"
    by (auto simp: finish_identity_unpair_def clear_peer_def split: prod.splits sum.splits dest!: part(2))
  show "begin_identity_unpair p d = (x, d') \<Longrightarrow> dv_nvs d' k = dv_nvs d k"
    by (auto simp: begin_identity_unpair_def try_then_def return_ok_def return_err_def Let_def
        split: prod.splits sum.splits option.splits if_splits dest!: part)
  show "identity_init env d = (y, d') \<Longrightarrow> dv_nvs d' k = dv_nvs d k"
    by (auto simp: identity_init_def split: prod.splits sum.splits option.splits dest!: part)
  show "publish_peer state i d = (z, d') \<Longrightarrow> dv_nvs d' k = dv_nvs d k"
    using publish_peer_config k by (simp add: config_keys_def)
qed

lemma identity_unpair_config:
  assumes k: "k \<in> config_keys"
  shows "dv_nvs (snd (identity_unpair p d)) k = dv_nvs d k"
proof -
  have "dv_nvs (snd (finish_identity_unpair r d)) k = dv_nvs d k" for r d
    using identity_commands_config(1) [OF k] by (metis prod.collapse)
  then show ?thesis by (auto simp: identity_unpair_def split: prod.split sum.split dest!: identity_commands_config(2) [OF k])
qed

lemma publish_states_config:
  assumes k: "k \<in> config_keys"
  shows "dv_nvs (publish_states states i d) k = dv_nvs d k"
  by (induction states i d rule: publish_states.induct)
    (auto split: prod.split option.split dest!: identity_commands_config(4) [OF k])

text \<open>While the intent is open, the two commands of the configuration do nothing.\<close>

lemma config_blocked:
  assumes "dv_nvs d (intent_id CONFIG_IDS) \<noteq> None"
  shows "dv_nvs (snd (wifi_provision payload d)) = dv_nvs d" and "dv_nvs (snd (clear_config d)) = dv_nvs d"
    and "fst (load_config d) = None"
proof -
  obtain d' where "canonical_record CONFIG_IDS d = (Inl SsStoreFailed, d')" "dv_nvs d' = dv_nvs d"
    using canonical_record_frame [of CONFIG_IDS d] assms by (metis prod.collapse)
  then show "dv_nvs (snd (wifi_provision payload d)) = dv_nvs d" and "dv_nvs (snd (clear_config d)) = dv_nvs d"
    and "fst (load_config d) = None"
    by (simp_all add: wifi_provision_def clear_config_def load_config_def)
qed

lemma handle_control_config:
  assumes k: "k \<in> config_keys" and pending: "dv_nvs d (intent_id CONFIG_IDS) \<noteq> None"
  shows "dv_nvs (snd (handle_control env control d)) k = dv_nvs d k"
proof -
  obtain i d1 where l: "load_identity d = (i, d1)" "dv_nvs d1 = dv_nvs d" using load_identity_frame by (cases "load_identity d") blast
  have "dv_nvs (snd (identity_init env d1)) k = dv_nvs d1 k"
    using identity_commands_config(3) [OF k] by (cases "identity_init env d1") simp
  then show ?thesis
    using l config_blocked [of d1] pending identity_unpair_config [OF k]
    by (cases "cf_command control") (simp_all add: handle_control_def Let_def)
qed

lemma device_step_config:
  assumes k: "k \<in> config_keys" and pending: "dv_nvs d (intent_id CONFIG_IDS) \<noteq> None"
  shows "dv_nvs (device_step e d) k = dv_nvs d k"
proof (cases e)
  case (DevStart faults)
  then show ?thesis by simp
next
  case (DevCommand env faults bytes)
  let ?d = "d\<lparr>dv_faults := faults\<rparr>"
  have "dv_nvs (snd (handle_control env control ?d)) k = dv_nvs d k" for control
    using handle_control_config [OF k, of ?d] pending by simp
  then show ?thesis using DevCommand
    by (auto simp: worker_command_def Let_def split: sum.split prod.split) (metis snd_conv)+
next
  case (DevSessionCommand env faults bytes)
  let ?d = "d\<lparr>dv_faults := faults\<rparr>"
  obtain active d' where p: "poll_active_control env (Some bytes) ?d = (active, d')" by fastforce
  then have "dv_nvs d' k = dv_nvs d k"
    by (auto simp: poll_active_control_def Let_def split: sum.splits control_command.splits if_splits prod.splits
        dest!: identity_commands_config(2) [OF k])
  moreover have "dv_nvs (finish_active_control a d') k = dv_nvs d' k" for a
    by (cases a) (auto split: prod.split dest!: identity_commands_config(1) [OF k])
  ultimately show ?thesis using DevSessionCommand p by (auto split: option.split)
next
  case (DevPairing faults remote transaction n)
  then show ?thesis
    by (auto simp: pairing_attempt_def publish_states_config [OF k] split: prod.split option.split
        dest!: load_identity_frame load_config_frame)
qed

text \<open>
  C7: Once the intent of a configuration is left open, no event closes it: the configuration stays
  missing and its three store entries stay as they are, restarts and new provisioning included.
\<close>

theorem config_intent_is_final:
  assumes "dv_nvs d (intent_id CONFIG_IDS) \<noteq> None"
  shows "fst (load_config (fold device_step es d)) = None \<and>
    (\<forall>k \<in> {slot_a CONFIG_IDS, slot_b CONFIG_IDS, intent_id CONFIG_IDS}. dv_nvs (fold device_step es d) k = dv_nvs d k)"
proof -
  have "\<forall>k \<in> config_keys. dv_nvs (fold device_step es d) k = dv_nvs d k"
    using assms
  proof (induction es arbitrary: d)
    case (Cons e es)
    then have "\<forall>k \<in> config_keys. dv_nvs (device_step e d) k = dv_nvs d k" using device_step_config by blast
    moreover from this have "dv_nvs (device_step e d) (intent_id CONFIG_IDS) \<noteq> None"
      using Cons.prems by (simp add: config_keys_def)
    ultimately show ?case using Cons.IH [of "device_step e d"] by simp
  qed simp
  then show ?thesis using config_blocked(3) assms by (simp add: config_keys_def)
qed

section \<open>Sample runs\<close>

text \<open>A device that is initialised, provisioned and paired.\<close>

definition sample_env :: device_env where
  "sample_env = \<lparr>de_keypair = Some (replicate 32 1, replicate 32 2), de_amp_status = (\<lambda>_ buffer. (buffer, 0)), de_benchmark_started = False\<rparr>"

definition sample_control :: "control_command \<Rightarrow> u64 \<Rightarrow> u8 list \<Rightarrow> control_frame" where
  "sample_control command generation payload =
     \<lparr>cf_command = command, cf_command_id = replicate 16 5, cf_owner_generation = generation, cf_payload = payload\<rparr>"

definition sample_config :: "u8 list" where
  "sample_config = [1, 97, 8] @ replicate 8 97 @ [192, 168, 0, 1, 0x98, 0x82]"

definition sample_run :: "device_event list" where
  "sample_run =
     [DevStart [],
      DevCommand sample_env [] (control_bytes (sample_control CmdIdentityInit 0 [])),
      DevCommand sample_env [] (control_bytes (sample_control CmdWifiProvision 1 sample_config)),
      DevPairing [] (replicate 32 7) (replicate 16 9) 3]"

lemma sample_frames:
  "length payload \<le> 160 \<Longrightarrow> decode_control (control_bytes (sample_control command generation payload)) = Inr (sample_control command generation payload)"
  by (rule decode_control_bytes) (simp add: sample_control_def)

lemma sample_config_parses: "parse_config sample_config \<noteq> None" "length sample_config = 17"
  by code_simp+

lemma sample_wf: "list_all event_wf sample_run" "env_wf sample_env"
  by (simp_all add: sample_run_def sample_env_def env_wf_def)

lemma device_run_snoc: "device_run (es @ [e]) = device_step e (device_run es)"
  by (simp add: device_run_def)

lemma settled_on: "settled d hi hc \<Longrightarrow> dv_on d \<and> d\<lparr>dv_faults := []\<rparr> = d"
  by (simp add: settled_def quiet_def)

lemma sample_paired:
  "\<exists>hi hc a. settled (device_run sample_run) hi hc \<and> length hi = 4 \<and> restored (device_run sample_run) = Some a \<and>
     si_state a = PsPaired \<and> si_generation a = 1 \<and> si_sequence a = 4 \<and> slice 64 32 (si_payload a) = replicate 32 7 \<and>
     dv_generation (device_run sample_run) = 1"
proof -
  let ?init = "sample_control CmdIdentityInit 0 []" and ?conf = "sample_control CmdWifiProvision 1 sample_config"
  define d0 where "d0 = device_step (DevStart []) (power_on (\<lambda>_. None) [])"
  have "settled (power_on (\<lambda>_. None) []) [] []"
    using erased_ledger by (simp add: settled_def ledger_def holds_def open_intent_def)
  then have 0: "settled d0 [] []"
    using settled_start by (simp add: d0_def)
  obtain d1 r where i: "identity_init sample_env d0 = (SsSuccess, d1)" "settled d1 [r] []" "rr_state r = Identity PsUnpaired"
      "rr_generation r = 1" "rr_payload r = replicate 32 1 @ replicate 32 2" "publication_sequence r = 1"
    using settled_init [OF 0 _ sample_wf(2)] by (auto simp: sample_env_def)
  have h: "handle_control sample_env ?init d0 = (SsSuccess, d1)"
    using settled_load [OF 0] i(1) by (simp add: handle_control_def sample_control_def)
  define d2 where "d2 = worker_command sample_env (control_bytes ?init) d0"
  have 2: "settled d2 [r] []" unfolding d2_def by (rule settled_command [OF sample_frames h i(2)]) simp
  have stored: "stored_of r = Some \<lparr>si_sequence = 1, si_generation = 1, si_state = PsUnpaired,
      si_payload = replicate 32 1 @ replicate 32 2 @ replicate 48 0, si_payload_length = 64\<rparr>"
    by (simp add: stored_of_def i(3-6))
  obtain d3 c where c: "wifi_provision sample_config d2 = (SsSuccess, d3)" "settled d3 [r] [c]" "rr_state c = ConfigPresent" "rr_payload c = sample_config"
    using settled_provision [OF 2 sample_config_parses(1)] sample_config_parses(2) by auto
  have h2: "handle_control sample_env ?conf d2 = (SsSuccess, d3)"
    using settled_load [OF 2] c(1) stored by (simp add: handle_control_def sample_control_def)
  define d4 where "d4 = worker_command sample_env (control_bytes ?conf) d2"
  have 4: "settled d4 [r] [c]" unfolding d4_def
    by (rule settled_command [OF sample_frames h2 c(2)]) (simp add: sample_config_parses(2))
  let ?i = "(pairing_identity (replicate 32 7) (replicate 16 9) \<lparr>si_sequence = 1, si_generation = 1, si_state = PsUnpaired,
      si_payload = replicate 32 1 @ replicate 32 2 @ replicate 48 0, si_payload_length = 64\<rparr>)\<lparr>si_sequence := 1 + 3, si_state := PsPaired\<rparr>"
  have "fst (load_config d4) \<noteq> None" using settled_load_config [OF 4] c(3,4) sample_config_parses(1) by simp
  then obtain ps where ps: "settled (pairing_attempt (replicate 32 7) (replicate 16 9) 3 d4) (ps @ [r]) [c]" "length ps = 3"
      "current_identity ?i (ps @ [r])" "dv_generation (pairing_attempt (replicate 32 7) (replicate 16 9) 3 d4) = 1"
    using settled_pairing [OF 4, of _ "replicate 32 7" "replicate 16 9"] stored by auto
  have run: "device_run sample_run = pairing_attempt (replicate 32 7) (replicate 16 9) 3 d4"
    using settled_on [OF 0] settled_on [OF 2] settled_on [OF 4]
    by (simp add: device_run_def sample_run_def d4_def d2_def flip: d0_def del: device_step.simps(1)) 
  have "restored (device_run sample_run) = Some ?i"
    unfolding run by (rule current_restored [OF ps(1,3)]) simp
  then show ?thesis using ps run
    by (intro exI [of _ "ps @ [r]"] exI [of _ "[c]"] exI [of _ ?i]) (simp add: pairing_identity_def put_at_def slice_def)
qed

lemma sample_revocable: "\<exists>d. identity_unpair (replicate 32 7) (device_run sample_run) = (SsSuccess, d)"
proof -
  obtain hi hc a where a: "settled (device_run sample_run) hi hc" "length hi = 4" "restored (device_run sample_run) = Some a"
      "si_state a = PsPaired" "si_generation a = 1" "slice 64 32 (si_payload a) = replicate 32 7"
    using sample_paired by blast
  have l: "identity_ledger (device_run sample_run) Sound hi" "quiet (device_run sample_run)" using a(1) by (simp_all add: settled_def)
  obtain r rs where r: "hi = r # rs" "rr_state r = Identity PsPaired" "rr_generation r = 1"
      "si_payload a = rr_payload r @ replicate (112 - length (rr_payload r)) 0"
    by (rule restored_some [OF l(1) a(3)]) (use a(4,5) in auto)
  have "length (rr_payload r) = 112" using ledger_latest(3) [OF l(1), of r] r(1,2) by (simp add: sound_payload_def)
  then have rec: "recoverable (replicate 32 7) Sound hi"
    using r a(2,6) by (simp add: recoverable_def exact_peer_iff slice_def)
  obtain status d where "identity_unpair (replicate 32 7) (device_run sample_run) = (status, d)" "status = SsSuccess"
    by (rule identity_unpair_ledger [OF l(1), of "replicate 32 7"]) (use rec a(2) l(2) in simp)
  then show ?thesis by blast
qed

text \<open>Power lost at the record of the first publication: seven calls for reading and the intent work.\<close>

definition sample_loss :: device_event where
  "sample_loss = DevCommand sample_env (replicate 7 Works @ [PowerLost False]) (control_bytes (sample_control CmdIdentityInit 0 []))"

lemma sample_torn: "event_wf sample_loss" "torn (dv_nvs (device_run [sample_loss]))"
proof -
  let ?frame = "sample_control CmdIdentityInit 0 []"
  let ?d = "\<lambda>n. (power_on (\<lambda>_. None) [])\<lparr>dv_faults := replicate n Works @ [PowerLost False]\<rparr>"
  let ?r = "\<lparr>publication_sequence = 1, rr_generation = 1, rr_state = Identity PsUnpaired, rr_payload = replicate 32 1 @ replicate 32 2\<rparr>"
  show "event_wf sample_loss" using sample_wf by (simp add: sample_loss_def)
  have read: "canonical_record IDENTITY_IDS (?d (Suc (Suc (Suc n)))) = (Inr None, ?d n)" for n
    by (simp add: canonical_record_def read_slot_def next_fault_def try_then_def power_on_def select_slot_def)
  have load: "load_identity (?d 7) = (None, ?d 4)" using read [of 4] by (simp add: load_identity_def)
  have "publish_record IDENTITY_IDS 0 1 (Identity PsUnpaired) (replicate 32 1 @ replicate 32 2) (?d 1) =
      (Inl SsStoreFailed, (?d 0)\<lparr>dv_faults := [], dv_on := False, dv_nvs := [intent_id IDENTITY_IDS \<mapsto> to_be_bytes (1 :: u64)]\<rparr>)"
    using publish_record_eq [of 0 1 "replicate 32 1 @ replicate 32 2" IDENTITY_IDS 1 "Identity PsUnpaired"]
    by (simp add: checked_add_def try_then_def nvs_write_readback_def next_fault_def power_on_def slot_for_def IDENTITY_IDS_def)
  then have "dv_nvs (snd (handle_control sample_env ?frame (?d 7))) = [intent_id IDENTITY_IDS \<mapsto> to_be_bytes (1 :: u64)]"
    using read [of 1] load by (simp add: handle_control_def sample_control_def identity_init_def sample_env_def eval_nat_numeral)
  then have "dv_nvs (device_run [sample_loss]) = [intent_id IDENTITY_IDS \<mapsto> to_be_bytes (1 :: u64)]"
    by (cases "handle_control sample_env ?frame (?d 7)")
      (simp add: device_run_def sample_loss_def worker_command_def sample_frames Let_def power_on_def)
  then show "torn (dv_nvs (device_run [sample_loss]))" by (simp add: torn_def IDENTITY_IDS_def)
qed



section \<open>Witnesses\<close>

theorem restored_identity_never_rolls_back_witness:
  "\<exists>a. restored (device_run sample_run) = Some a \<and> restored (device_run (sample_run @ [DevStart []])) = Some a"
proof -
  obtain hi hc a where a: "settled (device_run sample_run) hi hc" "restored (device_run sample_run) = Some a"
    using sample_paired by blast
  have "restored (device_run (sample_run @ [DevStart []])) = Some a"
    using a(2) by (simp add: device_run_snoc restored_def)
  then show ?thesis
    using a(2) restored_identity_never_rolls_back [of sample_run "[DevStart []]" a a] sample_wf by auto
qed

theorem unpair_acknowledged_witness:
  "\<exists>d i. identity_unpair (replicate 32 7) (device_run sample_run) = (SsSuccess, d) \<and>
     restored d = Some i \<and> si_state i = PsUnpaired \<and> 1 < si_generation i"
proof -
  obtain hi hc a where a: "settled (device_run sample_run) hi hc" "length hi = 4" "restored (device_run sample_run) = Some a"
      "si_state a = PsPaired" "si_generation a = 1" "slice 64 32 (si_payload a) = replicate 32 7"
    using sample_paired by blast
  obtain d where d: "identity_unpair (replicate 32 7) (device_run sample_run) = (SsSuccess, d)"
    using sample_revocable by blast
  then have "identity_unpair (replicate 32 7) ((device_run (sample_run @ []))\<lparr>dv_faults := []\<rparr>) = (SsSuccess, d)"
    using settled_on [OF a(1)] by simp
  from unpair_acknowledged [OF _ a(3) _ this, of "[]"] show ?thesis using d a(4,5) sample_wf by (auto simp: peer_states_def)
qed

theorem torn_publication_is_final_witness:
  "restored (device_run ([sample_loss] @ sample_run)) = None"
  using torn_publication_is_final [of "[sample_loss]" sample_run] sample_torn sample_wf by simp

lemma sample_interrupted:
  assumes "quiet d"
  shows "identity_unpair (replicate 32 7) (d\<lparr>dv_faults := [PowerLost False]\<rparr>) = (SsStoreFailed, d\<lparr>dv_on := False\<rparr>)"
  using assms by (cases d) (simp add: identity_unpair_def begin_identity_unpair_def recover_identity_intent_def try_then_def read_slot_def
      next_fault_def quiet_def)

theorem unpair_retry_witness:
  "\<exists>status d i. identity_unpair (replicate 32 7) (power_on (dv_nvs (device_run sample_run)) []) = (status, d) \<and>
     status \<in> {SsSuccess, SsPeerMismatch} \<and> restored d = Some i \<and> si_state i = PsUnpaired \<and> 1 < si_generation i"
proof -
  obtain hi hc a where a: "settled (device_run sample_run) hi hc" "restored (device_run sample_run) = Some a"
      "si_state a = PsPaired" "si_generation a = 1" "si_sequence a = 4" "slice 64 32 (si_payload a) = replicate 32 7"
    using sample_paired by blast
  then have q: "quiet (device_run sample_run)" "\<not> torn (dv_nvs (device_run sample_run))"
    using torn_ledger [of "device_run sample_run" Sound hi] by (simp_all add: settled_def)
  obtain status d where s: "identity_unpair (replicate 32 7) (power_on (dv_nvs (device_run sample_run)) []) = (status, d)" by fastforce
  from unpair_retry [OF sample_wf(1) a(2) _ a(6) _ _ sample_interrupted [OF q(1)], of status d] show ?thesis
    using a(3-5) q(2) s by (auto simp: peer_states_def)
qed



theorem config_intent_is_final_witness:
  "fst (load_config (fold device_step sample_run (power_on [intent_id CONFIG_IDS \<mapsto> to_be_bytes (1 :: u64)] []))) = None"
  using config_intent_is_final [of "power_on [intent_id CONFIG_IDS \<mapsto> to_be_bytes (1 :: u64)] []" sample_run] by simp

end
