(* ===== verification/Session_Wire.thy ===== *)
theory Session_Wire
  imports Protocol_Codec
begin

text \<open>
  \<open>apps/desktop-host/src/lib.rs\<close>, the byte transport of a session: reads and writes with a
  deadline, length-prefixed frames, and sealed messages. The kernel is an argument: its \<open>n\<close>th
  answer says what the clock shows before and after the call and how many bytes it moved. The
  Noise transport is an argument too, as a pair of functions of the message counter.
\<close>

section \<open>Errors\<close>

datatype session_error =
  SxNonLoopback | SxNonPrivateLan | SxIo | SxNoise | SxProtocol | SxIdentity | SxPairingTimeout
| SxIncompatible | SxAuthorizationDenied | SxSessionBusy | SxQueueFull | SxEndOfStream
| SxFrameOversize | SxTimeout | SxPairingRejected | SxPairingIncomplete | SxStoreFailed

text \<open>The classified errors of \<open>local-run-recorder\<close>.\<close>

datatype error_kind =
  EtReadUnavailable | EtTimerArmUnavailable | EtCancelled | EtTimeout | EtCrash | EtScenarioFailed
| EtConnectionLost | EtVersionMismatch | EtPermissionDenied | EtSessionBusy | EtRequestTimeout
| EtQueueFull | EtEndOfStream | EtFrameOversize | EtMalformedFrame | EtHandshakeTimeout
| EtAuthenticationFailed | EtPairingExpired | EtIdentityStore | EtPreauthCapacity | EtOwnerLost
| EtRevocationRecoveryRequired | EtInvalidAddress | EtPairingRejected | EtPairingIncomplete
| EtStoreFailed | EtStoreStalled | EtOwnerBusy | EtProfileMismatch | EtStaleGeneration
| EtShutdownRejected | EtLockTimeout | EtProfileDecryptFailed | EtProfileSchemaInvalid
| EtWifiAssociation | EtDhcpTimeout | EtTcpConnect | EtNoise | EtAvailabilityTimeout
| EtConnectorUnavailable | EtRecordingDegraded

fun error_type :: "session_error \<Rightarrow> error_kind" where
  "error_type SxPairingTimeout = EtPairingExpired"
| "error_type SxIncompatible = EtVersionMismatch"
| "error_type SxAuthorizationDenied = EtPermissionDenied"
| "error_type SxSessionBusy = EtSessionBusy"
| "error_type SxQueueFull = EtQueueFull"
| "error_type SxEndOfStream = EtEndOfStream"
| "error_type SxFrameOversize = EtFrameOversize"
| "error_type SxTimeout = EtRequestTimeout"
| "error_type SxProtocol = EtMalformedFrame"
| "error_type SxNoise = EtAuthenticationFailed"
| "error_type SxIdentity = EtIdentityStore"
| "error_type SxPairingRejected = EtPairingRejected"
| "error_type SxPairingIncomplete = EtPairingIncomplete"
| "error_type SxStoreFailed = EtStoreFailed"
| "error_type SxNonLoopback = EtInvalidAddress"
| "error_type SxNonPrivateLan = EtInvalidAddress"
| "error_type SxIo = EtConnectionLost"

section \<open>The kernel and an endpoint\<close>

text \<open>
  \<open>IoMoved n\<close>: at most \<open>n + 1\<close> bytes are moved. \<open>IoNothing\<close>: the call succeeds and moves no byte; a
  read does that only where the bytes of the peer end, which is \<open>ep_in\<close> running out, so for a read
  this answer counts as a failure. Times are nanoseconds.
\<close>

datatype io_answer = IoMoved nat | IoNothing | IoTimedOut | IoFailed
datatype io_turn = Turn (turn_before: nat) (turn_answer: io_answer) (turn_after: nat)

type_synonym kernel_run = "nat \<Rightarrow> io_turn"

record endpoint =
  ep_in :: "u8 list"
  ep_out :: "u8 list"
  ep_turn :: nat
  ep_sent :: nat
  ep_received :: nat

definition TWO_SECONDS :: nat where "TWO_SECONDS = 2000000000"

text \<open>
  \<open>checked_duration_since\<close> fails once the deadline has passed; at the deadline itself it is
  zero, which \<open>set_read_timeout\<close> and \<open>set_write_timeout\<close> refuse.
\<close>

definition remaining_error :: "nat \<Rightarrow> nat \<Rightarrow> session_error option" where
  "remaining_error deadline now =
     (if deadline < now then Some SxTimeout else if deadline = now then Some SxIo else None)"

function read_exact_deadline :: "kernel_run \<Rightarrow> nat \<Rightarrow> nat \<Rightarrow> u8 list \<Rightarrow> (endpoint, session_error, u8 list) mut_call" where
  "read_exact_deadline os deadline need done_bytes ep =
     (if need = 0 then (Inr done_bytes, ep)
      else
        case os (ep_turn ep) of Turn before answer after \<Rightarrow>
        let ep = ep\<lparr>ep_turn := Suc (ep_turn ep)\<rparr> in
        case remaining_error deadline before of Some e \<Rightarrow> (Inl e, ep) | None \<Rightarrow>
        case answer of
          IoTimedOut \<Rightarrow> (Inl SxTimeout, ep)
        | IoFailed \<Rightarrow> (Inl SxIo, ep)
        | IoNothing \<Rightarrow> (Inl SxIo, ep)
        | IoMoved n \<Rightarrow>
            let got = take (min (Suc n) need) (ep_in ep) in
            if got = [] then (Inl SxEndOfStream, ep)
            else read_exact_deadline os (min deadline (after + TWO_SECONDS)) (need - length got)
                   (done_bytes @ got) (ep\<lparr>ep_in := drop (length got) (ep_in ep)\<rparr>))"
  by pat_completeness auto

termination
  by (relation "measure (\<lambda>(os, deadline, need, done_bytes, ep). need)") auto

function write_all :: "kernel_run \<Rightarrow> nat \<Rightarrow> u8 list \<Rightarrow> (endpoint, session_error, unit) mut_call" where
  "write_all os deadline buffer ep =
     (if buffer = [] then (Inr (), ep)
      else
        case os (ep_turn ep) of Turn before answer after \<Rightarrow>
        let ep = ep\<lparr>ep_turn := Suc (ep_turn ep)\<rparr> in
        case remaining_error deadline before of Some e \<Rightarrow> (Inl e, ep) | None \<Rightarrow>
        case answer of
          IoNothing \<Rightarrow> (Inl SxEndOfStream, ep)
        | IoTimedOut \<Rightarrow> (Inl SxTimeout, ep)
        | IoFailed \<Rightarrow> (Inl SxIo, ep)
        | IoMoved n \<Rightarrow>
            write_all os deadline (drop (Suc n) buffer) (ep\<lparr>ep_out := ep_out ep @ take (Suc n) buffer\<rparr>))"
  by pat_completeness auto

termination
  by (relation "measure (\<lambda>(os, deadline, buffer, ep). length buffer)") auto

declare read_exact_deadline.simps [simp del] write_all.simps [simp del]

definition write_all_until :: "kernel_run \<Rightarrow> nat \<Rightarrow> nat \<Rightarrow> u8 list \<Rightarrow> (endpoint, session_error, unit) mut_call" where
  "write_all_until os now deadline buffer = write_all os (min deadline (now + TWO_SECONDS)) buffer"

text \<open>\<open>timeout\<close> is what the socket reports as its configured timeout.\<close>

definition write_all_deadline :: "kernel_run \<Rightarrow> nat \<Rightarrow> nat option \<Rightarrow> u8 list \<Rightarrow> (endpoint, session_error, unit) mut_call" where
  "write_all_deadline os now timeout buffer =
     write_all_until os now (now + (case timeout of Some t \<Rightarrow> t | None \<Rightarrow> TWO_SECONDS)) buffer"

section \<open>Frames\<close>

definition frame :: "u8 list \<Rightarrow> session_error + u8 list" where
  "frame value = res_bind (map_err (\<lambda>_. SxProtocol) (encode_frame_length (length value))) (\<lambda>len. Inr (len @ value))"

definition write_frame :: "kernel_run \<Rightarrow> nat \<Rightarrow> nat option \<Rightarrow> u8 list \<Rightarrow> (endpoint, session_error, unit) mut_call" where
  "write_frame os now timeout value ep =
     (case frame value of Inl e \<Rightarrow> (Inl e, ep) | Inr bytes \<Rightarrow> write_all_deadline os now timeout bytes ep)"

definition write_frame_until :: "kernel_run \<Rightarrow> nat \<Rightarrow> nat \<Rightarrow> u8 list \<Rightarrow> (endpoint, session_error, unit) mut_call" where
  "write_frame_until os now deadline value ep =
     (case frame value of Inl e \<Rightarrow> (Inl e, ep) | Inr bytes \<Rightarrow> write_all_until os now deadline bytes ep)"

definition read_frame_until :: "kernel_run \<Rightarrow> nat \<Rightarrow> nat \<Rightarrow> (endpoint, session_error, u8 list) mut_call" where
  "read_frame_until os limit deadline =
     try_then (read_exact_deadline os deadline 2 []) (\<lambda>header ep.
       let len = decode_frame_length header in
       if len > limit then (Inl SxFrameOversize, ep)
       else read_exact_deadline os deadline len [] ep)"

definition read_frame :: "kernel_run \<Rightarrow> nat \<Rightarrow> nat option \<Rightarrow> nat \<Rightarrow> (endpoint, session_error, u8 list) mut_call" where
  "read_frame os now timeout limit =
     read_frame_until os limit (now + (case timeout of Some t \<Rightarrow> t | None \<Rightarrow> TWO_SECONDS))"

section \<open>Sealed messages\<close>

text \<open>
  The Noise transport: \<open>seal n\<close> is the ciphertext of the \<open>n\<close>th message, \<open>unseal n\<close> the
  attempt to open one. A message is rejected when the caller's buffer lacks room for its tag.
\<close>

type_synonym sealing = "nat \<Rightarrow> u8 list \<Rightarrow> u8 list"
type_synonym unsealing = "nat \<Rightarrow> u8 list \<Rightarrow> u8 list option"

definition transport_write :: "sealing \<Rightarrow> nat \<Rightarrow> u8 list \<Rightarrow> (endpoint, session_error, u8 list) mut_call" where
  "transport_write seal room plain ep =
     (if length plain + 16 > room then (Inl SxNoise, ep)
      else (Inr (seal (ep_sent ep) plain), ep\<lparr>ep_sent := Suc (ep_sent ep)\<rparr>))"

definition transport_read :: "unsealing \<Rightarrow> u8 list \<Rightarrow> (endpoint, session_error, u8 list) mut_call" where
  "transport_read unseal encrypted ep =
     (case unseal (ep_received ep) encrypted of
        None \<Rightarrow> (Inl SxNoise, ep)
      | Some plain \<Rightarrow> (Inr plain, ep\<lparr>ep_received := Suc (ep_received ep)\<rparr>))"

definition write_message_in ::
  "nat \<Rightarrow> nat \<Rightarrow> sealing \<Rightarrow> kernel_run \<Rightarrow> nat \<Rightarrow> nat option \<Rightarrow> message \<Rightarrow> (endpoint, session_error, unit) mut_call" where
  "write_message_in plain_room sealed_room seal os now timeout m ep =
     (case Message_encode m (replicate plain_room 0) of
        (Inl _, _) \<Rightarrow> (Inl SxProtocol, ep)
      | (Inr encoded, _) \<Rightarrow>
          try_then (transport_write seal sealed_room encoded) (write_frame os now timeout) ep)"

definition write_message :: "sealing \<Rightarrow> kernel_run \<Rightarrow> nat \<Rightarrow> nat option \<Rightarrow> message \<Rightarrow> (endpoint, session_error, unit) mut_call" where
  "write_message = write_message_in 256 512"

definition write_message_shared :: "sealing \<Rightarrow> kernel_run \<Rightarrow> nat \<Rightarrow> nat option \<Rightarrow> message \<Rightarrow> (endpoint, session_error, unit) mut_call" where
  "write_message_shared = write_message_in APPLICATION_FRAME_MAX (APPLICATION_FRAME_MAX + 16)"

definition read_message_until :: "unsealing \<Rightarrow> kernel_run \<Rightarrow> nat \<Rightarrow> (endpoint, session_error, message) mut_call" where
  "read_message_until unseal os deadline =
     try_then (read_frame_until os APPLICATION_FRAME_MAX deadline) (\<lambda>encrypted.
     try_then (transport_read unseal encrypted) (\<lambda>plain ep.
       (map_err (\<lambda>_. SxProtocol) (Message_decode plain), ep)))"

definition read_message :: "unsealing \<Rightarrow> kernel_run \<Rightarrow> nat \<Rightarrow> nat option \<Rightarrow> (endpoint, session_error, message) mut_call" where
  "read_message unseal os now timeout =
     try_then (read_frame os now timeout APPLICATION_FRAME_MAX) (\<lambda>encrypted.
     try_then (transport_read unseal encrypted) (\<lambda>plain ep.
       (map_err (\<lambda>_. SxProtocol) (Message_decode plain), ep)))"

text \<open>The shared transport is the same behind a lock.\<close>

definition read_message_shared :: "unsealing \<Rightarrow> kernel_run \<Rightarrow> nat \<Rightarrow> nat option \<Rightarrow> (endpoint, session_error, message) mut_call" where
  "read_message_shared unseal os now timeout =
     try_then (read_frame os now timeout APPLICATION_FRAME_MAX) (\<lambda>encrypted.
     try_then (transport_read unseal encrypted) (\<lambda>plain ep.
       (map_err (\<lambda>_. SxProtocol) (Message_decode plain), ep)))"

section \<open>Lemmas\<close>

text \<open>The errors a call to the kernel can end with while the wire still holds bytes.\<close>

abbreviation call_errors :: "session_error set" where
  "call_errors \<equiv> {SxTimeout, SxIo}"

definition write_errors :: "session_error set" where
  "write_errors = {SxTimeout, SxIo, SxEndOfStream}"

lemma write_errors_mem [simp]: "SxTimeout \<in> write_errors" "SxIo \<in> write_errors" "SxEndOfStream \<in> write_errors"
  by (simp_all add: write_errors_def)

lemma remaining_error_range: "remaining_error d t = Some e \<Longrightarrow> e \<in> call_errors"
  by (auto simp: remaining_error_def split: if_splits)

text \<open>A kernel that always answers at once, and moves something.\<close>

definition prompt :: "kernel_run \<Rightarrow> bool" where
  "prompt os \<longleftrightarrow> (\<forall>i. \<exists>n. os i = Turn 0 (IoMoved n) 0)"

lemma prompt_turn: "prompt os \<Longrightarrow> os i = Turn t0 a t1 \<Longrightarrow> t0 = 0 \<and> (\<exists>n. a = IoMoved n) \<and> t1 = 0"
  unfolding prompt_def by (metis io_turn.inject)

lemma remaining_error_late: "remaining_error d t = Some e \<Longrightarrow> d \<le> t"
  by (simp add: remaining_error_def split: if_splits)

lemma read_exact_spec:
  assumes "need \<le> length (ep_in ep)"
  shows "\<exists>r ep'. read_exact_deadline os deadline need acc ep = (r, ep') \<and>
     ep_turn ep' \<le> ep_turn ep + need \<and>
     (r = Inr (acc @ take need (ep_in ep)) \<and>
        ep' = ep\<lparr>ep_in := drop need (ep_in ep), ep_turn := ep_turn ep'\<rparr> \<or>
      (\<exists>e \<in> call_errors. r = Inl e) \<and> \<not> (prompt os \<and> 0 < deadline))"
  using assms
proof (induction os deadline need acc ep rule: read_exact_deadline.induct)
  case (1 os deadline need acc ep)
  show ?case
  proof (cases "need = 0")
    case True
    then show ?thesis using read_exact_deadline.simps [of os deadline need acc ep] by simp
  next
    case need: False
    obtain t0 a t1 where turn: "os (ep_turn ep) = Turn t0 a t1" by (cases "os (ep_turn ep)")
    let ?ep = "ep\<lparr>ep_turn := Suc (ep_turn ep)\<rparr>"
    note unfold = read_exact_deadline.simps [of os deadline need acc ep]
    note prompt0 = prompt_turn [of os "ep_turn ep", OF _ turn]
    show ?thesis
    proof (cases "remaining_error deadline t0")
      case (Some e)
      then have "\<not> (prompt os \<and> 0 < deadline)" using prompt0 remaining_error_late [OF Some] by auto
      then show ?thesis using need turn Some remaining_error_range [OF Some] by (simp add: unfold Let_def)
    next
      case none: None
      show ?thesis
      proof (cases a)
        case (IoMoved n)
        let ?got = "take (min (Suc n) need) (ep_in ep)"
        let ?k = "min (Suc n) need"
        have k: "0 < ?k" "?k \<le> need" "?k \<le> length (ep_in ep)" using need 1(2) by auto
        then have len: "length ?got = ?k" and kz: "(min (Suc n) need = 0) = False" by simp_all
        then have ne: "?got \<noteq> []" using k by (metis length_0_conv less_irrefl)
        have eq: "read_exact_deadline os deadline need acc ep =
            read_exact_deadline os (min deadline (t1 + TWO_SECONDS)) (need - ?k) (acc @ ?got)
              (?ep\<lparr>ep_in := drop ?k (ep_in ep)\<rparr>)"
          unfolding unfold using need turn none IoMoved ne len by (simp add: Let_def kz)
        have "\<exists>r ep'. read_exact_deadline os (min deadline (t1 + TWO_SECONDS)) (need - ?k) (acc @ ?got)
              (?ep\<lparr>ep_in := drop ?k (ep_in ep)\<rparr>) = (r, ep') \<and>
            ep_turn ep' \<le> Suc (ep_turn ep) + (need - ?k) \<and>
            (r = Inr ((acc @ ?got) @ take (need - ?k) (drop ?k (ep_in ep))) \<and>
               ep' = ep\<lparr>ep_in := drop (need - ?k) (drop ?k (ep_in ep)), ep_turn := ep_turn ep'\<rparr> \<or>
             (\<exists>e \<in> call_errors. r = Inl e) \<and> \<not> (prompt os \<and> 0 < min deadline (t1 + TWO_SECONDS)))"
          using 1(1) [OF need turn refl none IoMoved refl] ne 1(2) k by (simp add: len)
        moreover have "?got @ take (need - ?k) (drop ?k (ep_in ep)) = take need (ep_in ep)"
          using k(2) by (metis append_take_drop_id le_add_diff_inverse take_add)
        moreover have "drop (need - ?k) (drop ?k (ep_in ep)) = drop need (ep_in ep)"
          using k(2) by simp
        moreover have "Suc (ep_turn ep) + (need - ?k) \<le> ep_turn ep + need" using k by linarith
        ultimately show ?thesis unfolding eq using prompt0 by (fastforce simp: TWO_SECONDS_def)
      qed (use prompt0 need turn none in \<open>auto simp: unfold Let_def\<close>)
    qed
  qed
qed

lemma write_all_spec:
  "\<exists>r ep'. write_all os deadline buffer ep = (r, ep') \<and> ep_turn ep' \<le> ep_turn ep + length buffer \<and>
     (r = Inr () \<and> ep' = ep\<lparr>ep_out := ep_out ep @ buffer, ep_turn := ep_turn ep'\<rparr> \<or>
      (\<exists>e \<in> write_errors. \<exists>k < length buffer. r = Inl e \<and>
         ep' = ep\<lparr>ep_out := ep_out ep @ take k buffer, ep_turn := ep_turn ep'\<rparr>) \<and>
      \<not> (prompt os \<and> 0 < deadline))"
proof (induction os deadline buffer ep rule: write_all.induct)
  case (1 os deadline buffer ep)
  show ?case
  proof (cases "buffer = []")
    case True
    then show ?thesis using write_all.simps [of os deadline buffer ep] by simp
  next
    case ne: False
    obtain t0 a t1 where turn: "os (ep_turn ep) = Turn t0 a t1" by (cases "os (ep_turn ep)")
    let ?ep = "ep\<lparr>ep_turn := Suc (ep_turn ep)\<rparr>"
    note unfold = write_all.simps [of os deadline buffer ep]
    note prompt0 = prompt_turn [of os "ep_turn ep", OF _ turn]
    have stop: ?thesis if "write_all os deadline buffer ep = (Inl e, ?ep)" "e \<in> write_errors"
      "\<not> (prompt os \<and> 0 < deadline)" for e
    proof -
      have "0 < length buffer" using ne by simp
      moreover have "?ep = ep\<lparr>ep_out := ep_out ep @ take 0 buffer, ep_turn := ep_turn ?ep\<rparr>" by simp
      moreover have "ep_turn ?ep \<le> ep_turn ep + length buffer" using ne by (cases buffer) auto
      ultimately show ?thesis using that by blast
    qed
    show ?thesis
    proof (cases "remaining_error deadline t0")
      case (Some e)
      then have "\<not> (prompt os \<and> 0 < deadline)" using prompt0 remaining_error_late [OF Some] by auto
      then show ?thesis using ne turn Some remaining_error_range [OF Some]
        by (intro stop [of e]) (auto simp: unfold Let_def)
    next
      case none: None
      show ?thesis
      proof (cases a)
        case (IoMoved n)
        have eq: "write_all os deadline buffer ep =
            write_all os deadline (drop (Suc n) buffer) (?ep\<lparr>ep_out := ep_out ep @ take (Suc n) buffer\<rparr>)"
          unfolding unfold using ne turn none IoMoved by (simp add: Let_def)
        from 1 [OF ne turn refl none IoMoved]
        obtain r ep' where ih: "write_all os deadline (drop (Suc n) buffer) (?ep\<lparr>ep_out := ep_out ep @ take (Suc n) buffer\<rparr>) = (r, ep')"
          and turns: "ep_turn ep' \<le> Suc (ep_turn ep) + length (drop (Suc n) buffer)"
          and cases: "r = Inr () \<and> ep' = ep\<lparr>ep_out := (ep_out ep @ take (Suc n) buffer) @ drop (Suc n) buffer, ep_turn := ep_turn ep'\<rparr> \<or>
            (\<exists>e \<in> write_errors. \<exists>k < length (drop (Suc n) buffer). r = Inl e \<and>
              ep' = ep\<lparr>ep_out := (ep_out ep @ take (Suc n) buffer) @ take k (drop (Suc n) buffer), ep_turn := ep_turn ep'\<rparr>) \<and>
            \<not> (prompt os \<and> 0 < deadline)"
          by auto
        have "ep_turn ep' \<le> ep_turn ep + length buffer" using turns ne by (cases buffer) auto
        moreover have "take (Suc n) buffer @ take k (drop (Suc n) buffer) = take (Suc n + k) buffer" for k
          by (simp only: take_add)
        moreover have "k < length (drop (Suc n) buffer) \<Longrightarrow> Suc n + k < length buffer" for k by simp
        ultimately show ?thesis unfolding eq ih using cases by (auto simp del: take_Suc drop_Suc) 
      next
        case IoNothing
        then show ?thesis using prompt0 ne turn none by (intro stop [of SxEndOfStream]) (auto simp: unfold Let_def)
      next
        case IoTimedOut
        then show ?thesis using prompt0 ne turn none by (intro stop [of SxTimeout]) (auto simp: unfold Let_def)
      next
        case IoFailed
        then show ?thesis using prompt0 ne turn none by (intro stop [of SxIo]) (auto simp: unfold Let_def)
      qed
    qed
  qed
qed

text \<open>One frame, read back from the wire it was written to.\<close>

lemma frame_bytes:
  assumes "length value \<le> APPLICATION_FRAME_MAX"
  shows "frame value = Inr (to_be_bytes (of_nat (length value) :: u16) @ value)"
    and "length (to_be_bytes (of_nat (length value) :: u16)) = 2"
    and "decode_frame_length (to_be_bytes (of_nat (length value) :: u16)) = length value"
  using assms frame_length_round_trip [of "length value"]
  by (simp_all add: frame_def APPLICATION_FRAME_MAX_def)

lemma read_frame_until_spec:
  assumes "length value \<le> APPLICATION_FRAME_MAX" and "frame value = Inr bytes" and "ep_in ep = bytes @ rest"
  shows "\<exists>r ep'. read_frame_until os APPLICATION_FRAME_MAX deadline ep = (r, ep') \<and>
     ep_turn ep' \<le> ep_turn ep + length bytes \<and>
     (r = Inr value \<and> ep' = ep\<lparr>ep_in := rest, ep_turn := ep_turn ep'\<rparr> \<or>
      (\<exists>e \<in> call_errors. r = Inl e) \<and> \<not> (prompt os \<and> 0 < deadline))"
proof -
  let ?h = "to_be_bytes (of_nat (length value) :: u16)"
  note fb = frame_bytes [OF assms(1)]
  have bytes: "bytes = ?h @ value" using assms(2) fb(1) by simp
  then have wire: "ep_in ep = ?h @ value @ rest" using assms(3) by simp
  then have "2 \<le> length (ep_in ep)" using fb(2) by simp
  from read_exact_spec [OF this, of os deadline "[]"] obtain r1 ep1 where
    h: "read_exact_deadline os deadline 2 [] ep = (r1, ep1)" "ep_turn ep1 \<le> ep_turn ep + 2"
    and hc: "r1 = Inr (take 2 (ep_in ep)) \<and> ep1 = ep\<lparr>ep_in := drop 2 (ep_in ep), ep_turn := ep_turn ep1\<rparr> \<or>
      (\<exists>e \<in> call_errors. r1 = Inl e) \<and> \<not> (prompt os \<and> 0 < deadline)"
    by auto
  from hc show ?thesis
  proof
    assume "(\<exists>e \<in> call_errors. r1 = Inl e) \<and> \<not> (prompt os \<and> 0 < deadline)"
    then show ?thesis using h bytes fb(2) by (auto simp: read_frame_until_def try_then_def)
  next
    assume ok: "r1 = Inr (take 2 (ep_in ep)) \<and> ep1 = ep\<lparr>ep_in := drop 2 (ep_in ep), ep_turn := ep_turn ep1\<rparr>"
    then obtain t where ep1: "ep1 = ep\<lparr>ep_in := drop 2 (ep_in ep), ep_turn := t\<rparr>" by blast
    have r1: "r1 = Inr ?h" and in1: "ep_in ep1 = value @ rest" using ok wire fb(2) unfolding ep1 by simp_all
    have eq: "read_frame_until os APPLICATION_FRAME_MAX deadline ep = read_exact_deadline os deadline (length value) [] ep1"
      using h r1 fb(3) assms(1) by (simp add: read_frame_until_def try_then_def Let_def)
    have "length value \<le> length (ep_in ep1)" using in1 by simp
    from read_exact_spec [OF this, of os deadline "[]"] obtain r2 ep2 where
      v: "read_exact_deadline os deadline (length value) [] ep1 = (r2, ep2)" "ep_turn ep2 \<le> ep_turn ep1 + length value"
      and vc: "r2 = Inr value \<and> ep2 = ep1\<lparr>ep_in := rest, ep_turn := ep_turn ep2\<rparr> \<or>
        (\<exists>e \<in> call_errors. r2 = Inl e) \<and> \<not> (prompt os \<and> 0 < deadline)"
      using in1 by auto
    have "ep2 = ep1\<lparr>ep_in := rest, ep_turn := ep_turn ep2\<rparr> \<Longrightarrow> ep2 = ep\<lparr>ep_in := rest, ep_turn := ep_turn ep2\<rparr>"
      unfolding ep1 by simp
    then show ?thesis unfolding eq v using v(2) vc h(2) bytes fb(2) by auto
  qed
qed

text \<open>The bytes on the wire for a list of messages sealed from counter \<open>n\<close> on.\<close>

fun sealed_frames :: "sealing \<Rightarrow> nat \<Rightarrow> message list \<Rightarrow> u8 list" where
  "sealed_frames seal n [] = []"
| "sealed_frames seal n (m # ms) =
     (let c = seal n (message_bytes m)
      in to_be_bytes (of_nat (length c) :: u16) @ c @ sealed_frames seal (Suc n) ms)"

fun write_messages :: "sealing \<Rightarrow> kernel_run \<Rightarrow> nat \<Rightarrow> nat option \<Rightarrow> message list \<Rightarrow> (endpoint, session_error, unit) mut_call" where
  "write_messages seal os now timeout [] = return_ok ()"
| "write_messages seal os now timeout (m # ms) =
     try_then (write_message seal os now timeout m) (\<lambda>_. write_messages seal os now timeout ms)"

fun read_messages :: "unsealing \<Rightarrow> kernel_run \<Rightarrow> nat \<Rightarrow> nat \<Rightarrow> (endpoint, session_error, message list) mut_call" where
  "read_messages unseal os deadline 0 = return_ok []"
| "read_messages unseal os deadline (Suc k) =
     try_then (read_message_until unseal os deadline) (\<lambda>m.
     try_then (read_messages unseal os deadline k) (\<lambda>ms. return_ok (m # ms)))"

section \<open>The laws of a sealed transport\<close>

text \<open>
  What the session code relies on of a transport: a message sealed under a counter opens under
  the same counter, and the seal adds a tag of sixteen bytes.
\<close>

definition transport_laws :: "sealing \<Rightarrow> unsealing \<Rightarrow> bool" where
  "transport_laws seal unseal \<longleftrightarrow>
     (\<forall>n plain. unseal n (seal n plain) = Some plain \<and> length (seal n plain) = length plain + 16)"

lemma unseal_seal: "transport_laws seal unseal \<Longrightarrow> unseal n (seal n plain) = Some plain"
  and seal_length: "transport_laws seal unseal \<Longrightarrow> length (seal n plain) = length plain + 16"
  by (simp_all add: transport_laws_def)

lemma sealed_fits: "transport_laws seal unseal \<Longrightarrow> message_wf m \<Longrightarrow> length (seal n (message_bytes m)) \<le> APPLICATION_FRAME_MAX"
  using encoded_len_bounds(2) [of m] by (simp add: seal_length APPLICATION_FRAME_MAX_def)

lemma read_message_until_spec:
  assumes laws: "transport_laws seal unseal" and wf: "message_wf m" and wire: "ep_in ep = sealed_frames seal (ep_received ep) [m] @ rest"
  shows "\<exists>r ep'. read_message_until unseal os deadline ep = (r, ep') \<and>
     (r = Inr m \<and> ep_in ep' = rest \<and> ep_received ep' = Suc (ep_received ep) \<or>
      (\<exists>e \<in> call_errors. r = Inl e) \<and> \<not> (prompt os \<and> 0 < deadline))"
proof -
  let ?c = "seal (ep_received ep) (message_bytes m)"
  note fit = sealed_fits [OF laws wf, of "ep_received ep"]
  have "ep_in ep = (to_be_bytes (of_nat (length ?c) :: u16) @ ?c) @ rest"
    using wire by (simp add: Let_def)
  from read_frame_until_spec [OF fit frame_bytes(1) [OF fit] this, of os deadline]
  obtain r ep1 where f: "read_frame_until os APPLICATION_FRAME_MAX deadline ep = (r, ep1)"
    and c: "r = Inr ?c \<and> ep1 = ep\<lparr>ep_in := rest, ep_turn := ep_turn ep1\<rparr> \<or>
      (\<exists>e \<in> call_errors. r = Inl e) \<and> \<not> (prompt os \<and> 0 < deadline)" by auto
  from c show ?thesis
  proof
    assume ok: "r = Inr ?c \<and> ep1 = ep\<lparr>ep_in := rest, ep_turn := ep_turn ep1\<rparr>"
    then obtain t where ep1: "ep1 = ep\<lparr>ep_in := rest, ep_turn := t\<rparr>" by blast
    show ?thesis using f ok unfolding ep1
      by (simp add: read_message_until_def try_then_def transport_read_def unseal_seal [OF laws] Message_decode_bytes [OF wf])
  next
    assume "(\<exists>e \<in> call_errors. r = Inl e) \<and> \<not> (prompt os \<and> 0 < deadline)"
    then show ?thesis using f by (auto simp: read_message_until_def try_then_def)
  qed
qed

lemma read_messages_spec:
  assumes laws: "transport_laws seal unseal" and "list_all message_wf ms" and "ep_in ep = sealed_frames seal (ep_received ep) ms @ rest"
  shows "\<exists>r ep'. read_messages unseal os deadline (length ms) ep = (r, ep') \<and>
     (r = Inr ms \<and> ep_in ep' = rest \<or>
      (\<exists>e \<in> call_errors. r = Inl e) \<and> \<not> (prompt os \<and> 0 < deadline))"
  using assms(2,3)
proof (induction ms arbitrary: ep)
  case Nil
  then show ?case by (simp add: return_ok_def)
next
  case (Cons m ms)
  have wf: "message_wf m" "list_all message_wf ms" using Cons.prems(1) by simp_all
  have "ep_in ep = sealed_frames seal (ep_received ep) [m] @ (sealed_frames seal (Suc (ep_received ep)) ms @ rest)"
    using Cons.prems(2) by (simp add: Let_def)
  from read_message_until_spec [OF laws wf(1) this, of os deadline]
  obtain r ep1 where m: "read_message_until unseal os deadline ep = (r, ep1)"
    and c: "r = Inr m \<and> ep_in ep1 = sealed_frames seal (Suc (ep_received ep)) ms @ rest \<and> ep_received ep1 = Suc (ep_received ep) \<or>
      (\<exists>e \<in> call_errors. r = Inl e) \<and> \<not> (prompt os \<and> 0 < deadline)" by blast
  from c show ?case
  proof
    assume ok: "r = Inr m \<and> ep_in ep1 = sealed_frames seal (Suc (ep_received ep)) ms @ rest \<and> ep_received ep1 = Suc (ep_received ep)"
    then have "ep_in ep1 = sealed_frames seal (ep_received ep1) ms @ rest" by simp
    from Cons.IH [OF wf(2) this] m ok show ?thesis by (auto simp: try_then_def return_ok_def)
  next
    assume "(\<exists>e \<in> call_errors. r = Inl e) \<and> \<not> (prompt os \<and> 0 < deadline)"
    then show ?thesis using m by (auto simp: try_then_def)
  qed
qed

lemma write_message_spec:
  assumes laws: "transport_laws seal unseal" and wf: "message_wf m"
  shows "\<exists>r ep'. write_message seal os now timeout m ep = (r, ep') \<and>
     (r = Inr () \<and> ep_out ep' = ep_out ep @ sealed_frames seal (ep_sent ep) [m] \<and> ep_sent ep' = Suc (ep_sent ep) \<or>
      (\<exists>e \<in> write_errors. r = Inl e) \<and> \<not> (prompt os \<and> 0 < now + (case timeout of Some t \<Rightarrow> t | None \<Rightarrow> TWO_SECONDS)))"
proof -
  let ?c = "seal (ep_sent ep) (message_bytes m)"
  let ?d = "now + (case timeout of Some t \<Rightarrow> t | None \<Rightarrow> TWO_SECONDS)"
  note fit = sealed_fits [OF laws wf, of "ep_sent ep"]
  have enc: "Message_encode m (replicate 256 0) = (Inr (message_bytes m), message_bytes m @ replicate (256 - encoded_len m) 0)"
    using encoded_len_bounds(2) [of m] length_message_bytes [OF wf]
    by (simp add: Message_encode_def Let_def APPLICATION_FRAME_MAX_def message_bytes_def)
  have eq: "write_message seal os now timeout m ep =
      write_all os (min ?d (now + TWO_SECONDS)) (to_be_bytes (of_nat (length ?c) :: u16) @ ?c) (ep\<lparr>ep_sent := Suc (ep_sent ep)\<rparr>)"
    using encoded_len_bounds(2) [of m] length_message_bytes [OF wf] seal_length [OF laws]
    by (simp add: write_message_def write_message_in_def enc try_then_def transport_write_def write_frame_def
        frame_bytes(1) [OF fit] write_all_deadline_def write_all_until_def)
  from write_all_spec [of os "min ?d (now + TWO_SECONDS)" "to_be_bytes (of_nat (length ?c) :: u16) @ ?c" "ep\<lparr>ep_sent := Suc (ep_sent ep)\<rparr>"]
  obtain r ep' where w: "write_all os (min ?d (now + TWO_SECONDS)) (to_be_bytes (of_nat (length ?c) :: u16) @ ?c) (ep\<lparr>ep_sent := Suc (ep_sent ep)\<rparr>) = (r, ep')"
    and c: "r = Inr () \<and> ep' = ep\<lparr>ep_sent := Suc (ep_sent ep), ep_out := ep_out ep @ to_be_bytes (of_nat (length ?c) :: u16) @ ?c, ep_turn := ep_turn ep'\<rparr> \<or>
      (\<exists>e \<in> write_errors. r = Inl e) \<and> \<not> (prompt os \<and> 0 < min ?d (now + TWO_SECONDS))"
    by auto
  from c show ?thesis
  proof
    assume ok: "r = Inr () \<and> ep' = ep\<lparr>ep_sent := Suc (ep_sent ep), ep_out := ep_out ep @ to_be_bytes (of_nat (length ?c) :: u16) @ ?c, ep_turn := ep_turn ep'\<rparr>"
    then obtain t where "ep' = ep\<lparr>ep_sent := Suc (ep_sent ep), ep_out := ep_out ep @ to_be_bytes (of_nat (length ?c) :: u16) @ ?c, ep_turn := t\<rparr>" by blast
    then show ?thesis using ok w unfolding eq by (simp add: Let_def)
  next
    assume "(\<exists>e \<in> write_errors. r = Inl e) \<and> \<not> (prompt os \<and> 0 < min ?d (now + TWO_SECONDS))"
    then show ?thesis unfolding eq w by (auto simp: TWO_SECONDS_def)
  qed
qed

lemma write_messages_spec:
  assumes laws: "transport_laws seal unseal" and "list_all message_wf ms"
    and "write_messages seal os now timeout ms ep = (Inr (), ep')"
  shows "ep_out ep' = ep_out ep @ sealed_frames seal (ep_sent ep) ms"
  using assms(2,3)
proof (induction ms arbitrary: ep)
  case Nil
  then show ?case by (simp add: return_ok_def)
next
  case (Cons m ms)
  have wf: "message_wf m" "list_all message_wf ms" using Cons.prems(1) by simp_all
  from write_message_spec [OF laws wf(1), of os now timeout ep] Cons.prems(2)
  obtain ep1 where m: "write_message seal os now timeout m ep = (Inr (), ep1)"
    "ep_out ep1 = ep_out ep @ sealed_frames seal (ep_sent ep) [m]" "ep_sent ep1 = Suc (ep_sent ep)"
    by (auto simp: try_then_def)
  then have "write_messages seal os now timeout ms ep1 = (Inr (), ep')"
    using Cons.prems(2) by (simp add: try_then_def)
  from Cons.IH [OF wf(2) this] m show ?case by (simp add: Let_def)
qed

section \<open>Properties\<close>

text \<open>
  C29: Messages cross a link whatever the chunking: when one side has written a list of
  messages, the other reads exactly these messages, in order, and leaves the rest of the wire
  alone, unless a call to its kernel fails or runs out of time; and with a kernel that answers
  at once it does read them.
\<close>

theorem messages_cross_link:
  assumes "transport_laws seal unseal" and "list_all message_wf ms"
    and "write_messages seal os now timeout ms sender = (Inr (), sender')" and "ep_out sender = []"
    and "ep_in receiver = ep_out sender' @ rest" and "ep_received receiver = ep_sent sender"
  shows "case read_messages unseal os' deadline (length ms) receiver of
     (Inr read, receiver') \<Rightarrow> read = ms \<and> ep_in receiver' = rest
   | (Inl e, _) \<Rightarrow> e \<in> {SxTimeout, SxIo} \<and> (prompt os' \<longrightarrow> deadline = 0)"
proof -
  have "ep_in receiver = sealed_frames seal (ep_received receiver) ms @ rest"
    using write_messages_spec [OF assms(1-3)] assms(4-6) by simp
  from read_messages_spec [OF assms(1,2) this, of os' deadline] show ?thesis by auto
qed

definition example_seal :: sealing where
  "example_seal n plain = plain @ replicate 16 (of_nat n)"

definition example_unseal :: unsealing where
  "example_unseal n sealed =
     (if drop (length sealed - 16) sealed = replicate 16 (of_nat n) then Some (take (length sealed - 16) sealed) else None)"

lemma example_laws: "transport_laws example_seal example_unseal"
  by (simp add: transport_laws_def example_seal_def example_unseal_def)

definition example_os :: kernel_run where
  "example_os i = Turn 0 (IoMoved (i mod 3)) 0"

lemma prompt_example: "prompt example_os"
  by (auto simp: prompt_def example_os_def)

definition example_endpoint :: "u8 list \<Rightarrow> endpoint" where
  "example_endpoint wire = \<lparr>ep_in = wire, ep_out = [], ep_turn = 0, ep_sent = 0, ep_received = 0\<rparr>"

theorem messages_cross_link_witness:
  "fst (read_messages example_unseal example_os 5 1
     (example_endpoint (ep_out (snd (write_messages example_seal example_os 0 None [Close CUnpaired] (example_endpoint [])))))) =
   Inr [Close CUnpaired]"
proof -
  let ?s = "snd (write_messages example_seal example_os 0 None [Close CUnpaired] (example_endpoint []))"
  have "fst (write_messages example_seal example_os 0 None [Close CUnpaired] (example_endpoint [])) = Inr ()"
    using write_message_spec [OF example_laws, of "Close CUnpaired" example_os 0 None "example_endpoint []"] prompt_example
    by (auto simp: try_then_def return_ok_def TWO_SECONDS_def)
  then have w: "write_messages example_seal example_os 0 None [Close CUnpaired] (example_endpoint []) = (Inr (), ?s)"
    by (metis prod.collapse)
  from messages_cross_link [OF example_laws _ w, of "example_endpoint (ep_out ?s)" "[]" example_os 5] prompt_example
  show ?thesis by (auto simp: example_endpoint_def split: prod.splits sum.splits)
qed

text \<open>
  C30: Reading terminates: filling a buffer takes at most one call to the kernel per byte,
  whatever the kernel answers, and ends with exactly the next bytes of the wire unless a call
  fails or the deadline passes, which a prompt kernel excludes.
\<close>

theorem read_exact_terminates:
  assumes "need \<le> length (ep_in ep)"
  shows "case read_exact_deadline os deadline need [] ep of (r, ep') \<Rightarrow>
     ep_turn ep' \<le> ep_turn ep + need \<and>
     (case r of Inr got \<Rightarrow> got @ ep_in ep' = ep_in ep \<and> length got = need
      | Inl e \<Rightarrow> e \<in> {SxTimeout, SxIo} \<and> (prompt os \<longrightarrow> deadline = 0))"
proof -
  from read_exact_spec [OF assms, of os deadline "[]"] obtain r ep' where
    e: "read_exact_deadline os deadline need [] ep = (r, ep')" "ep_turn ep' \<le> ep_turn ep + need"
    and c: "r = Inr (take need (ep_in ep)) \<and> ep' = ep\<lparr>ep_in := drop need (ep_in ep), ep_turn := ep_turn ep'\<rparr> \<or>
      (\<exists>e \<in> call_errors. r = Inl e) \<and> \<not> (prompt os \<and> 0 < deadline)" by auto
  from c show ?thesis
  proof
    assume ok: "r = Inr (take need (ep_in ep)) \<and> ep' = ep\<lparr>ep_in := drop need (ep_in ep), ep_turn := ep_turn ep'\<rparr>"
    then obtain t where "ep' = ep\<lparr>ep_in := drop need (ep_in ep), ep_turn := t\<rparr>" by blast
    then show ?thesis using e ok assms by simp
  qed (use e in auto)
qed

theorem read_exact_terminates_witness:
  "case read_exact_deadline example_os 5 2 [] (example_endpoint [1, 2, 3]) of (r, ep') \<Rightarrow>
     ep_turn ep' \<le> 2 \<and> is_ok r"
  using read_exact_terminates [of 2 "example_endpoint [1, 2, 3]" example_os 5] prompt_example
  by (auto simp: example_endpoint_def split: prod.splits sum.splits)

end
