(* ===== verification/Identity_Store.thy ===== *)
theory Identity_Store
  imports Prelude
begin

text \<open>
  \<open>apps/desktop-host/src/lib.rs\<close>, identity: the hexadecimal form of keys, the peer state and
  its legal transitions, and the persistent identity with its pairing and revocation. The file
  system's answers are an argument (\<open>store_env\<close>) of every operation: whether the directory
  check passes, whether the file can be read, and where a publication stops, so that every
  failure and every interruption of the two-step revocation is a run of the model.
\<close>

section \<open>Hexadecimal\<close>

definition HEX_DIGITS :: string where "HEX_DIGITS = ''0123456789abcdef''"

fun hex :: "u8 list \<Rightarrow> string" where
  "hex [] = []"
| "hex (b # bytes) = HEX_DIGITS ! unat (drop_bit 4 b) # HEX_DIGITS ! unat (b AND 15) # hex bytes"

datatype store_error =
  SeMissing | SeAlreadyInitialized | SeInvalid | SeNotPrivate | SeUnknownEntry | SePeerMismatch
| SeGenerationExhausted | SeLockTimeout | SeRevokedRecoveryRequired | SeIo

definition lower_hex :: "char \<Rightarrow> bool" where
  "lower_hex c \<longleftrightarrow> c \<in> set HEX_DIGITS"

definition validate_hex :: "string \<Rightarrow> nat \<Rightarrow> store_error + unit" where
  "validate_hex value bytes =
     (if length value \<noteq> bytes * 2 \<or> \<not> list_all lower_hex value then Inl SeInvalid else Inr ())"

text \<open>The digit of a character that passed the validation: its index in the digit table.\<close>

definition hex_digit :: "char \<Rightarrow> nat" where
  "hex_digit c = length (takeWhile (\<lambda>d. d \<noteq> c) HEX_DIGITS)"

fun hex_pairs :: "string \<Rightarrow> u8 list" where
  "hex_pairs (a # b # rest) = of_nat (16 * hex_digit a + hex_digit b) # hex_pairs rest"
| "hex_pairs _ = []"

definition decode_hex :: "string \<Rightarrow> store_error + u8 list" where
  "decode_hex value = res_bind (validate_hex value (length value div 2)) (\<lambda>_. Inr (hex_pairs value))"

definition constant_time_eq :: "u8 list \<Rightarrow> u8 list \<Rightarrow> bool" where
  "constant_time_eq left right \<longleftrightarrow> length left = length right \<and>
     fold (\<lambda>(a, b) difference. difference OR (a XOR b)) (zip left right) 0 = 0"

section \<open>Peer state\<close>

datatype peer_status =
  Unpaired
| Pending string string
| Committing string string
| Paired string string
| Revoking string string

fun validate_peer :: "peer_status \<Rightarrow> store_error + unit" where
  "validate_peer Unpaired = Inr ()"
| "validate_peer (Pending key tx) = res_bind (validate_hex key 32) (\<lambda>_. validate_hex tx 16)"
| "validate_peer (Committing key tx) = res_bind (validate_hex key 32) (\<lambda>_. validate_hex tx 16)"
| "validate_peer (Paired key tx) = res_bind (validate_hex key 32) (\<lambda>_. validate_hex tx 16)"
| "validate_peer (Revoking key tx) = res_bind (validate_hex key 32) (\<lambda>_. validate_hex tx 16)"

fun valid_peer_transition :: "peer_status \<Rightarrow> peer_status \<Rightarrow> bool" where
  "valid_peer_transition Unpaired (Pending _ _) \<longleftrightarrow> True"
| "valid_peer_transition (Pending k t) (Committing k' t') \<longleftrightarrow> k = k' \<and> t = t'"
| "valid_peer_transition (Committing k t) (Paired k' t') \<longleftrightarrow> k = k' \<and> t = t'"
| "valid_peer_transition _ _ \<longleftrightarrow> False"

section \<open>The store\<close>

record identity =
  id_schema_major :: u8
  id_local_private_key :: string
  id_local_public_key :: string
  id_generation :: u64
  id_peer :: peer_status

text \<open>The canonical file as parsed, and whether a temporary file lies beside it.\<close>

record identity_store =
  st_canonical :: "identity option"
  st_temporary :: bool

text \<open>
  Where a publication stops: before the rename, between rename and sync, or not at all. A rename
  whose directory could not be synced stays: failures and interruptions of the process are
  modelled, not a loss of power that would bring the old file back.
\<close>

datatype publish_outcome = StopsBefore store_error bool | RenamedUnsynced | Published

record store_env =
  se_prepare :: "store_error option"
  se_lock :: "store_error option"
  se_read :: "store_error option"
  se_temporary :: "(store_error \<times> bool) option"
  se_publish :: "publish_outcome list"
  se_joined :: bool

definition read_unlocked :: "(u8 list \<Rightarrow> u8 list) \<Rightarrow> store_env \<Rightarrow> identity_store \<Rightarrow> store_error + identity" where
  "read_unlocked dh env self =
     (case se_prepare env of Some e \<Rightarrow> Inl e | None \<Rightarrow>
      case st_canonical self of None \<Rightarrow> Inl SeMissing | Some value \<Rightarrow>
      case se_read env of Some e \<Rightarrow> Inl e | None \<Rightarrow>
        if id_schema_major value \<noteq> 1 then Inl SeInvalid
        else
          res_bind (validate_hex (id_local_private_key value) 32) (\<lambda>_.
          res_bind (validate_hex (id_local_public_key value) 32) (\<lambda>_.
          res_bind (decode_hex (id_local_private_key value)) (\<lambda>private.
          res_bind (decode_hex (id_local_public_key value)) (\<lambda>public.
            if \<not> constant_time_eq (dh private) public then Inl SeInvalid
            else res_bind (validate_peer (id_peer value)) (\<lambda>_. Inr value))))))"

definition read_identity :: "(u8 list \<Rightarrow> u8 list) \<Rightarrow> store_env \<Rightarrow> (identity_store, store_error, identity) mut_call" where
  "read_identity dh env self =
     (case se_prepare env of Some e \<Rightarrow> (Inl e, self) | None \<Rightarrow>
      case se_lock env of Some e \<Rightarrow> (Inl e, self) | None \<Rightarrow>
      case read_unlocked dh env self of Inl e \<Rightarrow> (Inl e, self) | Inr value \<Rightarrow>
        if st_temporary self then
          (case se_temporary env of Some (e, tmp) \<Rightarrow> (Inl e, self\<lparr>st_temporary := tmp\<rparr>)
           | None \<Rightarrow> (Inr value, self\<lparr>st_temporary := False\<rparr>))
        else (Inr value, self))"

definition paired_generation :: "(u8 list \<Rightarrow> u8 list) \<Rightarrow> store_env \<Rightarrow> (identity_store, store_error, u64) mut_call" where
  "paired_generation dh env =
     try_then (read_identity dh env) (\<lambda>identity self.
       case id_peer identity of
         Paired _ _ \<Rightarrow> (Inr (id_generation identity), self)
       | _ \<Rightarrow> (Inl SePeerMismatch, self))"

fun publish_locked :: "publish_outcome \<Rightarrow> identity \<Rightarrow> (identity_store, store_error, unit) mut_call" where
  "publish_locked (StopsBefore e tmp) value self = (Inl e, self\<lparr>st_temporary := tmp\<rparr>)"
| "publish_locked RenamedUnsynced value self =
     (Inl SeIo, self\<lparr>st_canonical := Some value, st_temporary := False\<rparr>)"
| "publish_locked Published value self =
     (Inr (), self\<lparr>st_canonical := Some value, st_temporary := False\<rparr>)"

definition nth_publish :: "store_env \<Rightarrow> nat \<Rightarrow> publish_outcome" where
  "nth_publish env n = (if n < length (se_publish env) then se_publish env ! n else Published)"

text \<open>\<open>publish\<close>, for a first identity: the existence check is repeated under the lock.\<close>

definition publish_first ::
  "(u8 list \<Rightarrow> u8 list) \<Rightarrow> store_env \<Rightarrow> identity \<Rightarrow> (identity_store, store_error, unit) mut_call" where
  "publish_first dh env value self =
     (case se_prepare env of Some e \<Rightarrow> (Inl e, self) | None \<Rightarrow>
      case se_lock env of Some e \<Rightarrow> (Inl e, self) | None \<Rightarrow>
        if st_canonical self \<noteq> None then
          (case read_unlocked dh env self of
             Inl e \<Rightarrow> (Inl e, self)
           | Inr _ \<Rightarrow> (Inl SeAlreadyInitialized, self))
        else publish_locked (nth_publish env 0) value self)"

definition init_inner ::
  "(u8 list \<Rightarrow> u8 list) \<Rightarrow> u8 list \<times> u8 list \<Rightarrow> store_env \<Rightarrow> (identity_store, store_error, string) mut_call" where
  "init_inner dh pair env self =
     (case se_prepare env of Some e \<Rightarrow> (Inl e, self) | None \<Rightarrow>
      if st_canonical self \<noteq> None then
        (case read_identity dh env self of
           (Inl e, self) \<Rightarrow> (Inl e, self)
         | (Inr _, self) \<Rightarrow> (Inl SeAlreadyInitialized, self))
      else
        (let value = \<lparr>id_schema_major = 1, id_local_private_key = hex (fst pair),
                      id_local_public_key = hex (snd pair), id_generation = 0, id_peer = Unpaired\<rparr>
         in case publish_first dh env value self of
              (Inl e, self) \<Rightarrow> (Inl e, self)
            | (Inr _, self) \<Rightarrow> (Inr (id_local_public_key value), self)))"

definition set_peer ::
  "(u8 list \<Rightarrow> u8 list) \<Rightarrow> store_env \<Rightarrow> peer_status \<Rightarrow> (identity_store, store_error, unit) mut_call" where
  "set_peer dh env peer self =
     (case validate_peer peer of Inl e \<Rightarrow> (Inl e, self) | Inr _ \<Rightarrow>
      case se_prepare env of Some e \<Rightarrow> (Inl e, self) | None \<Rightarrow>
      case se_lock env of Some e \<Rightarrow> (Inl e, self) | None \<Rightarrow>
      case read_unlocked dh env self of Inl e \<Rightarrow> (Inl e, self) | Inr identity \<Rightarrow>
        if \<not> valid_peer_transition (id_peer identity) peer then (Inl SeInvalid, self)
        else publish_locked (nth_publish env 0) (identity\<lparr>id_peer := peer\<rparr>) self)"

fun peer_key :: "peer_status \<Rightarrow> (string \<times> string) option" where
  "peer_key Unpaired = None"
| "peer_key (Pending k t) = Some (k, t)"
| "peer_key (Committing k t) = Some (k, t)"
| "peer_key (Paired k t) = Some (k, t)"
| "peer_key (Revoking k t) = Some (k, t)"

fun is_revoking :: "peer_status \<Rightarrow> bool" where
  "is_revoking (Revoking _ _) \<longleftrightarrow> True"
| "is_revoking _ \<longleftrightarrow> False"

definition finish_unpair :: "publish_outcome \<Rightarrow> identity \<Rightarrow> (identity_store, store_error, unit) mut_call" where
  "finish_unpair outcome identity self =
     (case publish_locked outcome (identity\<lparr>id_peer := Unpaired\<rparr>) self of
        (Inl _, self) \<Rightarrow> (Inl SeRevokedRecoveryRequired, self)
      | (Inr _, self) \<Rightarrow> (Inr (), self))"

text \<open>
  \<open>unpair_with_hook_inner\<close>: the hook runs once the revoking state is renamed into place; its
  answer is \<open>se_joined\<close>. A failure before the rename is reported as it is, one after it as
  \<open>RevokedRecoveryRequired\<close>.
\<close>

definition unpair_inner ::
  "(u8 list \<Rightarrow> u8 list) \<Rightarrow> store_env \<Rightarrow> string \<Rightarrow> (identity_store, store_error, unit) mut_call" where
  "unpair_inner dh env remote self =
     (case se_prepare env of Some e \<Rightarrow> (Inl e, self) | None \<Rightarrow>
      case se_lock env of Some e \<Rightarrow> (Inl e, self) | None \<Rightarrow>
      case read_unlocked dh env self of Inl e \<Rightarrow> (Inl e, self) | Inr identity \<Rightarrow>
      case peer_key (id_peer identity) of None \<Rightarrow> (Inl SePeerMismatch, self) | Some (actual, tx) \<Rightarrow>
        if actual \<noteq> remote then (Inl SePeerMismatch, self)
        else if is_revoking (id_peer identity) then finish_unpair (nth_publish env 0) identity self
        else
          (case checked_add (id_generation identity) 1 of
             None \<Rightarrow> (Inl SeGenerationExhausted, self)
           | Some generation \<Rightarrow>
               (let identity = identity\<lparr>id_generation := generation, id_peer := Revoking remote tx\<rparr>
                in case publish_locked (nth_publish env 0) identity self of
                     (Inl e, self) \<Rightarrow>
                       (if nth_publish env 0 = RenamedUnsynced then (Inl SeRevokedRecoveryRequired, self)
                        else (Inl e, self))
                   | (Inr _, self) \<Rightarrow>
                       (if \<not> se_joined env then (Inl SeRevokedRecoveryRequired, self)
                        else finish_unpair (nth_publish env 1) identity self))))"

text \<open>One request to the store, with the answers of the file system.\<close>

datatype store_call =
  ScInit "u8 list \<times> u8 list" | ScRead | ScSetPeer peer_status | ScUnpair string

fun store_step :: "(u8 list \<Rightarrow> u8 list) \<Rightarrow> identity_store \<Rightarrow> store_env \<times> store_call \<Rightarrow> identity_store" where
  "store_step dh s (env, ScInit pair) = snd (init_inner dh pair env s)"
| "store_step dh s (env, ScRead) = snd (read_identity dh env s)"
| "store_step dh s (env, ScSetPeer peer) = snd (set_peer dh env peer s)"
| "store_step dh s (env, ScUnpair remote) = snd (unpair_inner dh env remote s)"

section \<open>Lemmas on hexadecimal\<close>

lemma hex_digit_table:
  assumes "d < 16"
  shows "HEX_DIGITS ! d \<in> set HEX_DIGITS \<and> hex_digit (HEX_DIGITS ! d) = d"
proof -
  have "list_all (\<lambda>d. HEX_DIGITS ! d \<in> set HEX_DIGITS \<and> hex_digit (HEX_DIGITS ! d) = d) [0..<16]"
    by code_simp
  then show ?thesis using assms by (simp add: list_all_iff)
qed

lemma lower_hex_digit:
  assumes "lower_hex c"
  shows "hex_digit c < 16 \<and> HEX_DIGITS ! hex_digit c = c"
  using assms unfolding lower_hex_def by (auto simp: HEX_DIGITS_def hex_digit_def)

lemma nibbles: "unat (drop_bit 4 (b :: u8)) = unat b div 16" "unat (b AND 15) = unat b mod 16"
proof -
  show "unat (drop_bit 4 b) = unat b div 16" by (simp add: unsigned_drop_bit_eq drop_bit_eq_div unat_div)
  have "(15 :: u8) = mask 4" by (simp add: mask_eq_exp_minus_1)
  then have "b AND 15 = take_bit 4 b" by (simp add: take_bit_eq_mask)
  then show "unat (b AND 15) = unat b mod 16" by (simp add: unsigned_take_bit_eq take_bit_eq_mod unat_mod)
qed

lemma nibbles_less: "unat (b :: u8) div 16 < 16" "unat (b :: u8) mod 16 < 16"
  using unsigned_less [of b, where ?'a = nat] by (simp_all add: div_less_iff_less_mult)

lemma length_hex [simp]: "length (hex bs) = length bs * 2"
  by (induction bs) simp_all

lemma hex_lower: "list_all lower_hex (hex bs)"
  by (induction bs) (simp_all add: nibbles lower_hex_def hex_digit_table nibbles_less)

lemma hex_pairs_hex: "hex_pairs (hex bs) = bs"
proof (induction bs)
  case (Cons b bs)
  have "(of_nat (16 * (unat b div 16) + unat b mod 16) :: u8) = b" by simp
  then show ?case using Cons by (simp add: nibbles hex_digit_table nibbles_less del: of_nat_add of_nat_mult)
qed simp

lemma hex_hex_pairs: "even (length s) \<Longrightarrow> list_all lower_hex s \<Longrightarrow> hex (hex_pairs s) = s"
proof (induction s rule: hex_pairs.induct)
  case (1 a b rest)
  then have a: "hex_digit a < 16" "HEX_DIGITS ! hex_digit a = a" and b: "hex_digit b < 16" "HEX_DIGITS ! hex_digit b = b"
    using lower_hex_digit by auto
  have "unat (of_nat (16 * hex_digit a + hex_digit b) :: u8) = 16 * hex_digit a + hex_digit b"
    using a b by (simp add: unat_of_nat del: of_nat_add of_nat_mult)
  then show ?case using 1 a b by (simp add: nibbles del: of_nat_add of_nat_mult)
qed simp_all

interpretation hex_codec: codec hex decode_hex "\<lambda>_. True"
proof
  fix bs
  show "decode_hex (hex bs) = Inr bs"
    by (simp add: decode_hex_def validate_hex_def hex_lower hex_pairs_hex)
next
  fix s bs
  assume "decode_hex s = Inr bs"
  then have s: "length s = length s div 2 * 2" "list_all lower_hex s" "bs = hex_pairs s"
    by (auto simp: decode_hex_def validate_hex_def split: if_splits)
  have "even (length s)" using s(1) by (metis dvd_triv_right)
  then show "True \<and> hex bs = s" using hex_hex_pairs s by simp
qed

section \<open>Lemmas on the comparison\<close>

lemma or_zero_iff: "(a :: u8) OR b = 0 \<longleftrightarrow> a = 0 \<and> b = 0"
  by (auto simp: bit_eq_iff bit_or_iff)

lemma xor_zero_iff: "(a :: u8) XOR b = 0 \<longleftrightarrow> a = b"
  by (auto simp: bit_eq_iff bit_xor_iff)

lemma fold_difference:
  "fold (\<lambda>(a, b) difference. difference OR (a XOR b)) zs d = (0 :: u8) \<longleftrightarrow>
     d = 0 \<and> (\<forall>(a, b) \<in> set zs. a = b)"
  by (induction zs arbitrary: d) (auto simp: or_zero_iff xor_zero_iff)

lemma zip_all_equal: "length l = length r \<Longrightarrow> (\<forall>(a, b) \<in> set (zip l r). a = b) \<longleftrightarrow> l = r"
  by (induction l r rule: list_induct2) auto

lemma constant_time_eq_iff: "constant_time_eq left right \<longleftrightarrow> left = right"
  by (cases "length left = length right") (auto simp: constant_time_eq_def fold_difference zip_all_equal)

section \<open>Lemmas on the store\<close>

lemma read_unlocked_value: "read_unlocked dh env s = Inr value \<Longrightarrow> st_canonical s = Some value"
  by (auto simp: read_unlocked_def res_bind_Inr_iff split: option.splits if_splits)

lemma read_identity_canonical: "st_canonical (snd (read_identity dh env s)) = st_canonical s"
  by (auto simp: read_identity_def split: option.splits sum.splits)

lemma publish_canonical:
  "st_canonical (snd (publish_locked p value s)) = st_canonical s \<or>
   st_canonical (snd (publish_locked p value s)) = Some value"
  by (cases p) simp_all

text \<open>
  What one request may do to the pairing on disk: nothing, a legal transition at the same
  generation, a revocation one generation on, the end of a revocation, or the first identity.
\<close>

inductive pairing_move :: "(u64 \<times> peer_status) option \<Rightarrow> (u64 \<times> peer_status) option \<Rightarrow> bool" where
  same: "pairing_move p p"
| fresh: "pairing_move None (Some (0, Unpaired))"
| advance: "valid_peer_transition p q \<Longrightarrow> pairing_move (Some (g, p)) (Some (g, q))"
| revoke: "peer_key p = Some (k, t) \<Longrightarrow> \<not> is_revoking p \<Longrightarrow> checked_add g 1 = Some g' \<Longrightarrow>
    pairing_move (Some (g, p)) (Some (g', Revoking k t))"
| revoked: "peer_key p = Some (k, t) \<Longrightarrow> \<not> is_revoking p \<Longrightarrow> checked_add g 1 = Some g' \<Longrightarrow>
    pairing_move (Some (g, p)) (Some (g', Unpaired))"
| finish: "pairing_move (Some (g, Revoking k t)) (Some (g, Unpaired))"

definition pairing_of :: "identity_store \<Rightarrow> (u64 \<times> peer_status) option" where
  "pairing_of s = map_option (\<lambda>i. (id_generation i, id_peer i)) (st_canonical s)"

lemma pairing_of_read: "pairing_of (snd (read_identity dh env s)) = pairing_of s"
  by (simp add: pairing_of_def read_identity_canonical)

lemma pairing_of_publish:
  "pairing_of (snd (publish_locked p value s)) = pairing_of s \<or>
   pairing_of (snd (publish_locked p value s)) = Some (id_generation value, id_peer value)"
  using publish_canonical [of p "value" s] by (auto simp: pairing_of_def)

lemma set_peer_move: "pairing_move (pairing_of s) (pairing_of (snd (set_peer dh env peer s)))"
proof (cases "snd (set_peer dh env peer s) = s")
  case False
  then obtain i where i: "st_canonical s = Some i" "valid_peer_transition (id_peer i) peer"
    "snd (set_peer dh env peer s) = snd (publish_locked (nth_publish env 0) (i\<lparr>id_peer := peer\<rparr>) s)"
    by (auto simp: set_peer_def dest!: read_unlocked_value split: sum.splits option.splits if_splits)
  have "pairing_of (snd (publish_locked (nth_publish env 0) (i\<lparr>id_peer := peer\<rparr>) s)) \<in>
      {pairing_of s, Some (id_generation i, peer)}"
    using pairing_of_publish [of "nth_publish env 0" "i\<lparr>id_peer := peer\<rparr>" s] by auto
  with i show ?thesis
    by (auto simp: pairing_of_def intro: pairing_move.intros)
qed (simp add: pairing_move.same)

lemma init_move: "pairing_move (pairing_of s) (pairing_of (snd (init_inner dh pair env s)))"
proof (cases "st_canonical s")
  case None
  let ?v = "\<lparr>id_schema_major = 1, id_local_private_key = hex (fst pair),
      id_local_public_key = hex (snd pair), id_generation = 0, id_peer = Unpaired\<rparr>"
  have "pairing_of s = None" using None by (simp add: pairing_of_def)
  moreover have "pairing_of (snd (init_inner dh pair env s)) \<in> {pairing_of s, Some (0, Unpaired)}"
    using None pairing_of_publish [of "nth_publish env 0" ?v s]
    by (auto simp: init_inner_def publish_first_def Let_def split: option.splits prod.splits sum.splits)
  ultimately show ?thesis by (auto intro: pairing_move.intros)
next
  case (Some i)
  then have "pairing_of (snd (init_inner dh pair env s)) = pairing_of s"
    using pairing_of_read [of dh env s]
    by (auto simp: init_inner_def split: option.splits prod.splits sum.splits)
  then show ?thesis by (simp add: pairing_move.same)
qed

lemma finish_unpair_pairing:
  "pairing_of (snd (finish_unpair p i s)) \<in> {pairing_of s, Some (id_generation i, Unpaired)}"
  using pairing_of_publish [of p "i\<lparr>id_peer := Unpaired\<rparr>" s]
  by (auto simp: finish_unpair_def split: prod.splits sum.splits)

lemma unpair_move: "pairing_move (pairing_of s) (pairing_of (snd (unpair_inner dh env remote s)))"
proof (cases "snd (unpair_inner dh env remote s) = s")
  case True
  then show ?thesis by (simp add: pairing_move.same)
next
  case False
  then obtain i where r: "read_unlocked dh env s = Inr i"
    and e: "se_prepare env = None" "se_lock env = None"
    by (auto simp: unpair_inner_def split: sum.splits option.splits)
  from False r e obtain tx where k: "peer_key (id_peer i) = Some (remote, tx)"
    by (auto simp: unpair_inner_def split: sum.splits option.splits if_splits)
  have c: "st_canonical s = Some i" using r by (rule read_unlocked_value)
  then have ps: "pairing_of s = Some (id_generation i, id_peer i)" by (simp add: pairing_of_def)
  show ?thesis
  proof (cases "is_revoking (id_peer i)")
    case True
    then obtain a b where rv: "id_peer i = Revoking a b" by (cases "id_peer i") auto
    have "unpair_inner dh env remote s = finish_unpair (nth_publish env 0) i s"
      using r e k True by (simp add: unpair_inner_def)
    then show ?thesis
      using finish_unpair_pairing [of "nth_publish env 0" i s] ps rv
      by (auto intro: pairing_move.intros)
  next
    case nr: False
    with False r e k obtain g where g: "checked_add (id_generation i) 1 = Some g"
      by (auto simp: unpair_inner_def split: option.splits)
    let ?i = "i\<lparr>id_generation := g, id_peer := Revoking remote tx\<rparr>"
    obtain res s1 where pub: "publish_locked (nth_publish env 0) ?i s = (res, s1)" by fastforce
    have s1: "pairing_of s1 \<in> {pairing_of s, Some (g, Revoking remote tx)}"
      using pairing_of_publish [of "nth_publish env 0" ?i s] pub by simp
    have "snd (unpair_inner dh env remote s) \<in> {s1, snd (finish_unpair (nth_publish env 1) ?i s1)}"
      using r e k nr g pub by (auto simp: unpair_inner_def Let_def split: sum.splits)
    then have "pairing_of (snd (unpair_inner dh env remote s)) \<in>
        {pairing_of s, Some (g, Revoking remote tx), Some (g, Unpaired)}"
      using s1 finish_unpair_pairing [of "nth_publish env 1" ?i s1] by auto
    then show ?thesis using ps k nr g by (auto intro: pairing_move.intros)
  qed
qed

lemma store_step_move: "pairing_move (pairing_of s) (pairing_of (store_step dh s c))"
  by (cases "(dh, s, c)" rule: store_step.cases)
    (simp_all add: init_move set_peer_move unpair_move pairing_of_read pairing_move.same)

text \<open>Every request keeps what holds of the pairing of one generation, or leaves the generation behind.\<close>

definition store_run :: "(u8 list \<Rightarrow> u8 list) \<Rightarrow> (store_env \<times> store_call) list \<Rightarrow> identity_store \<Rightarrow> identity_store" where
  "store_run dh cs s = fold (\<lambda>c s. store_step dh s c) cs s"

definition passed :: "u64 \<Rightarrow> (u64 \<times> peer_status) option \<Rightarrow> bool" where
  "passed g p \<longleftrightarrow> (\<exists>g' q. p = Some (g', q) \<and> unat g < unat g')"

inductive_cases pairing_moveE: "pairing_move p q"

lemma generation_after:
  "pairing_move (Some (g, p)) q \<Longrightarrow> \<exists>g' p'. q = Some (g', p') \<and> unat g \<le> unat g'"
  by (erule pairing_moveE) (auto dest: checked_add_Some)

lemma passed_move: "pairing_move p q \<Longrightarrow> passed g p \<Longrightarrow> passed g q"
proof -
  assume m: "pairing_move p q" and "passed g p"
  then obtain g' r where p: "p = Some (g', r)" "unat g < unat g'" by (auto simp: passed_def)
  with m obtain h r' where "q = Some (h, r')" "unat g' \<le> unat h" using generation_after by blast
  with p(2) show "passed g q" by (auto simp: passed_def)
qed

lemma paired_move:
  "pairing_move (Some (g, Paired k t)) q \<Longrightarrow> q = Some (g, Paired k t) \<or> passed g q"
  by (erule pairing_moveE) (auto simp: passed_def dest: checked_add_Some)

lemma passed_run: "passed g (pairing_of s) \<Longrightarrow> passed g (pairing_of (store_run dh cs s))"
  unfolding store_run_def
  by (induction cs arbitrary: s) (auto intro: passed_move [OF store_step_move])

lemma paired_run:
  assumes "pairing_of s = Some (g, Paired k t)"
  shows "pairing_of (store_run dh cs s) = Some (g, Paired k t) \<or> passed g (pairing_of (store_run dh cs s))"
  using assms
proof (induction cs arbitrary: s)
  case Nil
  then show ?case by (simp add: store_run_def)
next
  case (Cons c cs)
  have run: "store_run dh (c # cs) s = store_run dh cs (store_step dh s c)" by (simp add: store_run_def)
  have "pairing_move (Some (g, Paired k t)) (pairing_of (store_step dh s c))"
    using store_step_move [of s dh c] Cons.prems by simp
  then show ?case
    unfolding run using paired_move Cons.IH passed_run by blast
qed

lemma paired_generation_pairing:
  assumes "fst (paired_generation dh env s) = Inr g"
  shows "\<exists>k t. pairing_of s = Some (g, Paired k t)"
proof -
  from assms obtain i s' where "read_identity dh env s = (Inr i, s')" "\<exists>k t. id_peer i = Paired k t"
    "id_generation i = g"
    by (auto simp: paired_generation_def try_then_def split: prod.splits sum.splits peer_status.splits)
  moreover then have "st_canonical s = Some i"
    by (auto simp: read_identity_def dest!: read_unlocked_value split: option.splits sum.splits if_splits)
  ultimately show ?thesis by (auto simp: pairing_of_def)
qed

definition identity_ok :: "(u8 list \<Rightarrow> u8 list) \<Rightarrow> identity \<Rightarrow> bool" where
  "identity_ok dh i \<longleftrightarrow> id_schema_major i = 1 \<and>
     is_ok (validate_hex (id_local_private_key i) 32) \<and> is_ok (validate_hex (id_local_public_key i) 32) \<and>
     decode_hex (id_local_public_key i) = map_err id (res_bind (decode_hex (id_local_private_key i)) (\<lambda>p. Inr (dh p))) \<and>
     is_ok (decode_hex (id_local_private_key i)) \<and> is_ok (validate_peer (id_peer i))"

lemma read_unlocked_iff:
  "read_unlocked dh env s = Inr i \<longleftrightarrow>
     se_prepare env = None \<and> se_read env = None \<and> st_canonical s = Some i \<and> identity_ok dh i"
proof (cases "st_canonical s")
  case (Some v)
  show ?thesis
    unfolding read_unlocked_def identity_ok_def constant_time_eq_iff Some
    by (cases "validate_hex (id_local_private_key v) 32"; cases "validate_hex (id_local_public_key v) 32";
        cases "decode_hex (id_local_private_key v)"; cases "decode_hex (id_local_public_key v)";
        cases "validate_peer (id_peer v)"; cases "se_prepare env"; cases "se_read env") auto
qed (auto simp: read_unlocked_def split: option.splits)

lemma validate_errors:
  "validate_hex v n = Inl e \<Longrightarrow> e = SeInvalid" "decode_hex v = Inl e \<Longrightarrow> e = SeInvalid"
  "validate_peer p = Inl e \<Longrightarrow> e = SeInvalid"
proof -
  have hex: "validate_hex v n = Inl e \<Longrightarrow> e = SeInvalid" for v n
    by (auto simp: validate_hex_def split: if_splits)
  have bind: "res_bind (validate_hex v n) k = Inl e \<longleftrightarrow> validate_hex v n = Inl e \<or> is_ok (validate_hex v n) \<and> k () = Inl e"
    for v n and k :: "unit \<Rightarrow> store_error + 'a"
    by (cases "validate_hex v n") auto
  show "validate_hex v n = Inl e \<Longrightarrow> e = SeInvalid" by (rule hex)
  show "decode_hex v = Inl e \<Longrightarrow> e = SeInvalid" by (auto simp: decode_hex_def bind dest: hex)
  show "validate_peer p = Inl e \<Longrightarrow> e = SeInvalid" by (cases p) (auto simp: bind dest: hex)
qed

text \<open>The file system reports no error that only the revocation itself reports.\<close>

definition plain_env :: "store_env \<Rightarrow> bool" where
  "plain_env env \<longleftrightarrow> se_prepare env \<noteq> Some SeRevokedRecoveryRequired \<and>
     se_lock env \<noteq> Some SeRevokedRecoveryRequired \<and> se_read env \<noteq> Some SeRevokedRecoveryRequired \<and>
     (\<forall>p \<in> set (se_publish env). \<forall>tmp. p \<noteq> StopsBefore SeRevokedRecoveryRequired tmp)"

lemma read_unlocked_plain:
  assumes "plain_env env"
  shows "read_unlocked dh env s \<noteq> Inl SeRevokedRecoveryRequired"
proof
  assume *: "read_unlocked dh env s = Inl SeRevokedRecoveryRequired"
  with assms obtain v where v: "se_prepare env = None" "se_read env = None" "st_canonical s = Some v"
    by (auto simp: read_unlocked_def plain_env_def split: option.splits)
  with * show False
    unfolding read_unlocked_def
    by (cases "validate_hex (id_local_private_key v) 32"; cases "validate_hex (id_local_public_key v) 32";
        cases "decode_hex (id_local_private_key v)"; cases "decode_hex (id_local_public_key v)";
        cases "validate_peer (id_peer v)")
      (auto dest: validate_errors split: if_splits)
qed

lemma nth_publish_plain: "plain_env env \<Longrightarrow> nth_publish env n \<noteq> StopsBefore SeRevokedRecoveryRequired tmp"
  by (auto simp: plain_env_def nth_publish_def)

text \<open>What an unpairing request leaves on disk, by its answer.\<close>

definition next_generation :: "identity \<Rightarrow> u64" where
  "next_generation i = (if is_revoking (id_peer i) then id_generation i else id_generation i + 1)"

lemma publish_result:
  "publish_locked p i s = (Inr (), s1) \<Longrightarrow> st_canonical s1 = Some i"
  "publish_locked p i s = (Inl e, s1) \<Longrightarrow> st_canonical s1 = (if p = RenamedUnsynced then Some i else st_canonical s)"
  by (cases p; auto)+

lemma finish_unpair_cases:
  "finish_unpair p i s = (Inr (), s1) \<Longrightarrow> st_canonical s1 = Some (i\<lparr>id_peer := Unpaired\<rparr>)"
  "finish_unpair p i s = (Inl e, s1) \<Longrightarrow> e = SeRevokedRecoveryRequired \<and>
     (st_canonical s1 = st_canonical s \<or> st_canonical s1 = Some (i\<lparr>id_peer := Unpaired\<rparr>))"
  by (auto simp: finish_unpair_def dest: publish_result split: prod.splits sum.splits if_splits)

definition revoking_form :: "identity \<Rightarrow> string \<Rightarrow> string \<Rightarrow> identity" where
  "revoking_form i remote tx = i\<lparr>id_generation := next_generation i, id_peer := Revoking remote tx\<rparr>"

lemma unpair_cases:
  assumes "unpair_inner dh env remote s = (r, s')" and "plain_env env"
  shows "(\<exists>e. r = Inl e \<and> e \<noteq> SeRevokedRecoveryRequired \<and> st_canonical s' = st_canonical s) \<or>
    (\<exists>i tx. read_unlocked dh env s = Inr i \<and> peer_key (id_peer i) = Some (remote, tx) \<and>
       (is_revoking (id_peer i) \<or> checked_add (id_generation i) 1 \<noteq> None) \<and>
       (r = Inr () \<and> st_canonical s' = Some ((revoking_form i remote tx)\<lparr>id_peer := Unpaired\<rparr>) \<or>
        r = Inl SeRevokedRecoveryRequired \<and>
        st_canonical s' \<in> {Some (revoking_form i remote tx), Some ((revoking_form i remote tx)\<lparr>id_peer := Unpaired\<rparr>)}))"
proof (cases "se_prepare env = None \<and> se_lock env = None \<and> (\<exists>i. read_unlocked dh env s = Inr i \<and>
    (\<exists>tx. peer_key (id_peer i) = Some (remote, tx)))")
  case False
  then have "s' = s \<and> (\<exists>e. r = Inl e \<and> e \<noteq> SeRevokedRecoveryRequired)"
    using assms read_unlocked_plain [OF assms(2), of dh s]
    by (auto simp: unpair_inner_def plain_env_def split: option.splits sum.splits if_splits)
  then show ?thesis by auto
next
  case True
  then obtain i tx where e: "se_prepare env = None" "se_lock env = None"
    and r: "read_unlocked dh env s = Inr i" and k: "peer_key (id_peer i) = Some (remote, tx)" by blast
  have c: "st_canonical s = Some i" using r by (rule read_unlocked_value)
  show ?thesis
  proof (cases "is_revoking (id_peer i)")
    case True
    then have form: "revoking_form i remote tx = i"
      using k by (cases "id_peer i") (auto simp: revoking_form_def next_generation_def)
    have "finish_unpair (nth_publish env 0) i s = (r, s')"
      using assms(1) e r k True by (simp add: unpair_inner_def)
    then show ?thesis
      using finish_unpair_cases [of "nth_publish env 0" i s] r k True c form by (cases r) auto
  next
    case nr: False
    show ?thesis
    proof (cases "checked_add (id_generation i) 1")
      case None
      then show ?thesis using assms(1) e r k nr by (auto simp: unpair_inner_def)
    next
      case (Some g)
      define i' where "i' = i\<lparr>id_generation := g, id_peer := Revoking remote tx\<rparr>"
      have form: "revoking_form i remote tx = i'"
        using checked_add_Some_eq [OF Some] nr by (simp add: revoking_form_def next_generation_def i'_def)
      obtain q s1 where pub: "publish_locked (nth_publish env 0) i' s = (q, s1)" by fastforce
      have u: "unpair_inner dh env remote s =
          (case publish_locked (nth_publish env 0) i' s of
             (Inl e, self) \<Rightarrow> (if nth_publish env 0 = RenamedUnsynced then (Inl SeRevokedRecoveryRequired, self) else (Inl e, self))
           | (Inr _, self) \<Rightarrow> (if \<not> se_joined env then (Inl SeRevokedRecoveryRequired, self)
               else finish_unpair (nth_publish env 1) i' self))"
        using e r k nr Some unfolding i'_def by (simp add: unpair_inner_def Let_def)
      show ?thesis
      proof (cases q)
        case (Inl e)
        show ?thesis
        proof (cases "nth_publish env 0 = RenamedUnsynced")
          case True
          then have "r = Inl SeRevokedRecoveryRequired" "st_canonical s' = Some i'"
            using assms(1) u pub Inl by auto
          then show ?thesis using r k Some form by auto
        next
          case False
          then have "r = Inl e" "st_canonical s' = st_canonical s"
            using assms(1) u pub Inl publish_result(2) [of "nth_publish env 0" i' s e s1] by auto
          moreover have "e \<noteq> SeRevokedRecoveryRequired"
            using pub Inl False nth_publish_plain [OF assms(2), of 0] by (cases "nth_publish env 0") auto
          ultimately show ?thesis by blast
        qed
      next
        case (Inr x)
        then have s1: "st_canonical s1 = Some i'" using pub publish_result(1) [of "nth_publish env 0" i' s s1] by simp
        show ?thesis
        proof (cases "se_joined env")
          case True
          then have "finish_unpair (nth_publish env 1) i' s1 = (r, s')" using assms(1) u pub Inr by simp
          then show ?thesis
            using finish_unpair_cases [of "nth_publish env 1" i' s1] s1 r k Some form by (cases r) auto
        next
          case False
          then show ?thesis using assms(1) u pub Inr s1 r k Some form by auto
        qed
      qed
    qed
  qed
qed

text \<open>After an unpairing that succeeded or must be recovered, the store is past the generation.\<close>

lemma unpair_passes:
  assumes "plain_env env" and "pairing_of s = Some (g, Paired k t)"
    and "unpair_inner dh env remote s = (r, s')" and "r = Inr () \<or> r = Inl SeRevokedRecoveryRequired"
  shows "passed g (pairing_of s')"
proof -
  from unpair_cases [OF assms(3,1)] assms(4)
  obtain i tx where i: "read_unlocked dh env s = Inr i"
    "is_revoking (id_peer i) \<or> checked_add (id_generation i) 1 \<noteq> None"
    "st_canonical s' \<in> {Some (revoking_form i remote tx), Some ((revoking_form i remote tx)\<lparr>id_peer := Unpaired\<rparr>)}"
    by auto
  have "st_canonical s = Some i" using i(1) by (rule read_unlocked_value)
  then have g: "id_generation i = g" "id_peer i = Paired k t" using assms(2) by (auto simp: pairing_of_def)
  then obtain g' where g': "checked_add g 1 = Some g'" using i(2) by auto
  then have "id_generation (revoking_form i remote tx) = g'"
    using g checked_add_Some_eq [OF g'] by (simp add: revoking_form_def next_generation_def)
  then show ?thesis using i(3) checked_add_Some [OF g'] by (auto simp: passed_def pairing_of_def)
qed

section \<open>An example store\<close>

definition example_identity :: "u64 \<Rightarrow> peer_status \<Rightarrow> identity" where
  "example_identity g peer = \<lparr>id_schema_major = 1, id_local_private_key = hex (replicate 32 7),
     id_local_public_key = hex (replicate 32 7), id_generation = g, id_peer = peer\<rparr>"

definition example_env :: "bool \<Rightarrow> store_env" where
  "example_env joined = \<lparr>se_prepare = None, se_lock = None, se_read = None, se_temporary = None,
     se_publish = [], se_joined = joined\<rparr>"

definition example_key :: string where "example_key = hex (replicate 32 1)"
definition example_tx :: string where "example_tx = hex (replicate 16 2)"

definition example_store :: "u64 \<Rightarrow> peer_status \<Rightarrow> identity_store" where
  "example_store g peer = \<lparr>st_canonical = Some (example_identity g peer), st_temporary = False\<rparr>"

text \<open>
  Requests that end the example pairing, the first try failing before its record is renamed
  into place, and make a new one with another key.
\<close>

definition example_other_key :: string where "example_other_key = hex (replicate 32 5)"
definition example_other_tx :: string where "example_other_tx = hex (replicate 16 6)"

definition example_repairing :: "(store_env \<times> store_call) list" where
  "example_repairing =
     [((example_env True)\<lparr>se_publish := [StopsBefore SeIo True]\<rparr>, ScUnpair example_key),
      (example_env True, ScUnpair example_other_key),
      (example_env True, ScUnpair example_key),
      (example_env True, ScSetPeer (Pending example_other_key example_other_tx)),
      (example_env True, ScSetPeer (Committing example_other_key example_other_tx)),
      (example_env True, ScSetPeer (Paired example_other_key example_other_tx))]"

lemma plain_example_env: "plain_env (example_env j)"
  by (simp add: plain_env_def example_env_def)

lemma pairing_of_example: "pairing_of (example_store g p) = Some (g, p)"
  by (simp add: pairing_of_def example_store_def example_identity_def)

lemma read_example:
  "read_unlocked (\<lambda>x. x) (example_env j) (example_store g (Paired example_key example_tx)) =
     Inr (example_identity g (Paired example_key example_tx))"
proof -
  have "read_unlocked (\<lambda>x. x) (example_env True) (example_store 3 (Paired example_key example_tx)) =
      Inr (example_identity 3 (Paired example_key example_tx))"
    by code_simp
  then have "identity_ok (\<lambda>x. x) (example_identity 3 (Paired example_key example_tx))"
    by (simp add: read_unlocked_iff)
  then show ?thesis
    by (simp add: read_unlocked_iff example_env_def example_store_def identity_ok_def example_identity_def)
qed

lemma example_keys:
  "validate_hex example_key 32 = Inr ()" "validate_hex example_tx 16 = Inr ()"
  "validate_hex example_other_key 32 = Inr ()" "validate_hex example_other_tx 16 = Inr ()"
  "example_other_key \<noteq> example_key"
proof -
  show "example_other_key \<noteq> example_key"
    using hex_pairs_hex [of "replicate 32 1"] hex_pairs_hex [of "replicate 32 5"]
    by (auto simp: example_key_def example_other_key_def)
qed (simp_all add: validate_hex_def example_key_def example_tx_def example_other_key_def
    example_other_tx_def hex_lower del: hex.simps)

lemma example_identity_sound: "identity_ok (\<lambda>x. x) (example_identity g p) \<longleftrightarrow> is_ok (validate_peer p)"
  using read_example [of True 3]
  by (auto simp: read_unlocked_iff identity_ok_def example_identity_def)

lemma example_read:
  "st_canonical s = Some (example_identity g p) \<Longrightarrow> is_ok (validate_peer p) \<Longrightarrow>
     se_prepare env = None \<Longrightarrow> se_read env = None \<Longrightarrow>
     read_unlocked (\<lambda>x. x) env s = Inr (example_identity g p)"
  by (simp add: read_unlocked_iff example_identity_sound)

lemma example_repaired:
  "pairing_of (store_run (\<lambda>x. x) example_repairing (example_store 3 (Paired example_key example_tx)))
     = Some (4, Paired example_other_key example_other_tx)"
  by (simp add: example_repairing_def store_run_def example_store_def example_env_def unpair_inner_def
      set_peer_def example_read example_keys example_keys(5) [symmetric] nth_publish_def finish_unpair_def
      checked_add_def pairing_of_def example_identity_def Let_def)

lemma unpair_example:
  "unpair_inner (\<lambda>x. x) (example_env True) example_key (example_store 3 (Paired example_key example_tx)) =
      (Inr (), example_store 4 Unpaired)"
  "unpair_inner (\<lambda>x. x) (example_env False) example_key (example_store 3 (Paired example_key example_tx)) =
      (Inl SeRevokedRecoveryRequired, example_store 4 (Revoking example_key example_tx))"
  unfolding unpair_inner_def read_example
  by (simp_all add: example_env_def example_store_def example_identity_def checked_add_def nth_publish_def finish_unpair_def)

section \<open>Properties\<close>

text \<open>
  C31: Revocation cuts sessions. Once an unpairing request has been answered with success, or
  with the demand to recover it, the pairing generation it found is never again the one a
  session check accepts, whatever requests, file-system failures and interruptions follow.
\<close>

theorem revocation_cuts_sessions:
  assumes "plain_env env" and "pairing_of s = Some (g, Paired k t)"
    and "unpair_inner dh env remote s = (r, s')" and "r = Inr () \<or> r = Inl SeRevokedRecoveryRequired"
  shows "fst (paired_generation dh env' (store_run dh cs s')) \<noteq> Inr g"
proof
  assume "fst (paired_generation dh env' (store_run dh cs s')) = Inr g"
  then obtain k' t' where "pairing_of (store_run dh cs s') = Some (g, Paired k' t')"
    using paired_generation_pairing by blast
  moreover have "passed g (pairing_of (store_run dh cs s'))" by (rule passed_run [OF unpair_passes [OF assms]])
  ultimately show False by (simp add: passed_def)
qed

theorem revocation_cuts_sessions_witness:
  "fst (paired_generation (\<lambda>x. x) (example_env True)
     (store_run (\<lambda>x. x) [(example_env True, ScSetPeer (Pending example_key example_tx))] (example_store 4 Unpaired))) \<noteq> Inr 3"
  using revocation_cuts_sessions [OF plain_example_env pairing_of_example unpair_example(1)] by simp

text \<open>
  C32: A generation identifies one pairing, and generations tell pairings apart: if the store
  is paired and later, after any requests and failures, paired again, then either it is the
  same generation, the same key and the same pairing transaction, or the generation is a
  greater one. In particular a later pairing with another key, or by another transaction, never
  carries a generation that was used before.
\<close>

theorem generation_identifies_pairing:
  assumes "pairing_of s = Some (g, Paired k t)"
    and "pairing_of (store_run dh cs s) = Some (g', Paired k' t')"
  shows "(g' = g \<and> k' = k \<and> t' = t) \<or> unat g < unat g'"
  using paired_run [OF assms(1), of dh cs] assms(2) by (auto simp: passed_def)

theorem generation_identifies_pairing_witness:
  "\<exists>g k t. pairing_of (store_run (\<lambda>x. x) example_repairing (example_store 3 (Paired example_key example_tx)))
       = Some (g, Paired k t) \<and> k \<noteq> example_key \<and> unat (3 :: u64) < unat g"
proof -
  from generation_identifies_pairing [OF pairing_of_example example_repaired] example_repaired example_keys(5)
  show ?thesis by auto
qed

text \<open>
  C33: An interrupted revocation is recoverable: after the demand to recover, the same request
  with a working file system ends with no peer and a published identity, or finds that already
  done.
\<close>

theorem revocation_recoverable:
  assumes "plain_env env" and "unpair_inner dh env remote s = (Inl SeRevokedRecoveryRequired, s')"
    and "env' = \<lparr>se_prepare = None, se_lock = None, se_read = None, se_temporary = None, se_publish = [], se_joined = True\<rparr>"
  shows "(\<exists>s'' i. unpair_inner dh env' remote s' = (Inr (), s'') \<and> st_canonical s'' = Some i \<and> id_peer i = Unpaired) \<or>
    (unpair_inner dh env' remote s' = (Inl SePeerMismatch, s') \<and> (\<exists>i. st_canonical s' = Some i \<and> id_peer i = Unpaired))"
proof -
  from unpair_cases [OF assms(2,1)] obtain i tx where
    r: "read_unlocked dh env s = Inr i" and k: "peer_key (id_peer i) = Some (remote, tx)"
    and c: "st_canonical s' \<in> {Some (revoking_form i remote tx), Some ((revoking_form i remote tx)\<lparr>id_peer := Unpaired\<rparr>)}"
    by auto
  have ok: "identity_ok dh i" using r by (simp add: read_unlocked_iff)
  then have "is_ok (validate_peer (Revoking remote tx))" using k by (cases "id_peer i") (auto simp: identity_ok_def)
  then have ok': "identity_ok dh (revoking_form i remote tx)"
    "identity_ok dh ((revoking_form i remote tx)\<lparr>id_peer := Unpaired\<rparr>)"
    using ok by (auto simp: identity_ok_def revoking_form_def)
  show ?thesis
  proof (cases "st_canonical s' = Some (revoking_form i remote tx)")
    case True
    then have "read_unlocked dh env' s' = Inr (revoking_form i remote tx)"
      using ok' by (simp add: read_unlocked_iff assms(3))
    then have "unpair_inner dh env' remote s' = finish_unpair Published (revoking_form i remote tx) s'"
      by (simp add: unpair_inner_def assms(3) revoking_form_def nth_publish_def)
    then show ?thesis by (simp add: finish_unpair_def)
  next
    case False
    then have e: "st_canonical s' = Some ((revoking_form i remote tx)\<lparr>id_peer := Unpaired\<rparr>)" using c by simp
    then have "read_unlocked dh env' s' = Inr ((revoking_form i remote tx)\<lparr>id_peer := Unpaired\<rparr>)"
      using ok' by (simp add: read_unlocked_iff assms(3))
    then have "unpair_inner dh env' remote s' = (Inl SePeerMismatch, s')"
      by (simp add: unpair_inner_def assms(3))
    then show ?thesis using e by simp
  qed
qed

theorem revocation_recoverable_witness:
  "fst (unpair_inner (\<lambda>x. x) (example_env True) example_key
     (example_store 4 (Revoking example_key example_tx))) \<in> {Inr (), Inl SePeerMismatch}"
  using revocation_recoverable [OF plain_example_env unpair_example(2), of "example_env True"]
  by (auto simp: example_env_def)

text \<open>
  The hexadecimal form is canonical: a string decodes exactly when it is the lower-case
  encoding of the bytes it yields.
\<close>

theorem hex_canonical: "decode_hex s = Inr bs \<longleftrightarrow> hex bs = s"
  using hex_codec.accepts_iff [of s bs] by simp

end
