(* ===== verification/Host_Session.thy ===== *)
theory Host_Session
  imports Session_Wire Host_Capabilities Identity_Store
begin

text \<open>
  \<open>apps/desktop-host/src/lib.rs\<close>, one authenticated session of the host: the negotiation that
  opens it, the reader that answers requests, and the writer thread with its two bounded
  channels, its close slot and its private queue. Reader, writer and the identity store are
  parts of one state; an execution is a list of events, one atomic action each, so that every
  interleaving of the two threads and of the requests to the store is a run.
\<close>

section \<open>Negotiation\<close>

definition negotiate_hello :: "message \<Rightarrow> (context_id \<times> hello_reject_reason) + context_id" where
  "negotiate_hello hello =
     (case hello of
        Hello session protocol_majors required_features optional_features requested_permissions \<Rightarrow>
          if protocol_majors ! 0 AND 2 = 0 then Inl (session, NoCommonVersion)
          else if list_ex (\<lambda>(required, supported). required AND NOT supported \<noteq> 0)
                    (zip required_features AVAILABILITY_READ_V1) \<or>
                  (required_features ! 0 OR optional_features ! 0) AND AVAILABILITY_READ_V1 ! 0 = 0
            then Inl (session, RequiredFeatureUnsupported)
          else if requested_permissions ! 0 AND AVAILABILITY_READ_PERMISSION ! 0 = 0
            then Inl (session, PermissionDenied)
          else Inr session
      | _ \<Rightarrow> Inl (replicate 16 0, RequiredFeatureUnsupported))"

definition hello_of :: "context_id \<Rightarrow> message" where
  "hello_of session =
     Hello session PROTOCOL_MAJOR_1 AVAILABILITY_READ_V1 (replicate 8 0) AVAILABILITY_READ_PERMISSION"

definition hello_ack :: "context_id \<Rightarrow> message" where
  "hello_ack session = HelloAck session 1 AVAILABILITY_READ_V1 AVAILABILITY_READ_PERMISSION"

fun rejection_error :: "hello_reject_reason \<Rightarrow> session_error" where
  "rejection_error NoCommonVersion = SxIncompatible"
| "rejection_error RequiredFeatureUnsupported = SxIncompatible"
| "rejection_error PermissionDenied = SxAuthorizationDenied"
| "rejection_error SessionBusy = SxSessionBusy"

text \<open>What \<open>ClientSession::connect_inner\<close> makes of the answer to its hello.\<close>

definition client_hello_reply :: "context_id \<Rightarrow> message \<Rightarrow> session_error + unit" where
  "client_hello_reply session reply =
     (case reply of
        HelloAck s selected_major selected_features granted_permissions \<Rightarrow>
          if selected_major = 1 \<and> s = session \<and> selected_features = AVAILABILITY_READ_V1 \<and>
             granted_permissions = AVAILABILITY_READ_PERMISSION
          then Inr () else Inl SxProtocol
      | HelloReject rejected_session reason \<Rightarrow>
          if rejected_session = session then Inl (rejection_error reason) else Inl SxProtocol
      | _ \<Rightarrow> Inl SxProtocol)"

section \<open>The write queue\<close>

record session_write_queue =
  wq_close :: "message option"
  wq_pong :: bool
  wq_ping :: bool
  wq_application :: "message list"

definition wq_new :: session_write_queue where
  "wq_new = \<lparr>wq_close = None, wq_pong = False, wq_ping = False, wq_application = []\<rparr>"

definition wq_enqueue_application :: "message \<Rightarrow> (session_write_queue, session_error, unit) mut_call" where
  "wq_enqueue_application m self =
     (if length (wq_application self) \<ge> 8 then (Inl SxQueueFull, self)
      else (Inr (), self\<lparr>wq_application := wq_application self @ [m]\<rparr>))"

definition wq_enqueue_close :: "close_reason \<Rightarrow> session_write_queue \<Rightarrow> session_write_queue" where
  "wq_enqueue_close reason self = self\<lparr>wq_close := Some (Close reason)\<rparr>"

definition wq_enqueue_pong :: "session_write_queue \<Rightarrow> session_write_queue" where
  "wq_enqueue_pong self = self\<lparr>wq_pong := True\<rparr>"

definition wq_enqueue_ping_if_idle :: "session_write_queue \<Rightarrow> session_write_queue" where
  "wq_enqueue_ping_if_idle self =
     (if wq_close self = None \<and> \<not> wq_pong self \<and> wq_application self = [] then self\<lparr>wq_ping := True\<rparr> else self)"

definition wq_pop :: "session_write_queue \<Rightarrow> message option \<times> session_write_queue" where
  "wq_pop self =
     (case wq_close self of Some m \<Rightarrow> (Some m, self\<lparr>wq_close := None\<rparr>)
      | None \<Rightarrow>
        if wq_pong self then (Some Pong, self\<lparr>wq_pong := False\<rparr>)
        else if wq_ping self then (Some Ping, self\<lparr>wq_ping := False\<rparr>)
        else (case wq_application self of
                [] \<Rightarrow> (None, self)
              | m # ms \<Rightarrow> (Some m, self\<lparr>wq_application := ms\<rparr>)))"

section \<open>Requests and availability\<close>

definition accept_request_id :: "u32 \<Rightarrow> u32 \<Rightarrow> bool \<times> u32" where
  "accept_request_id last_id request_id =
     (if checked_add last_id 1 = Some request_id then (True, request_id) else (False, last_id))"

fun host_availability :: "availability_result \<Rightarrow> deterministic_availability" where
  "host_availability ArAvailable = DaAvailable"
| "host_availability ArUnavailable = DaUnavailable"
| "host_availability ArReadFailed = DaReadFailed"

fun protocol_availability :: "capability_result \<Rightarrow> availability_result \<times> error_kind option" where
  "protocol_availability (CapAvailability (Inr HcAvailable)) = (ArAvailable, None)"
| "protocol_availability (CapAvailability (Inr HcUnavailable)) = (ArUnavailable, None)"
| "protocol_availability (CapAvailability (Inl CfReadFailed)) = (ArReadFailed, Some EtReadUnavailable)"
| "protocol_availability (CapAvailability (Inl CfConnectorUnavailable)) = (ArReadFailed, Some EtConnectorUnavailable)"
| "protocol_availability (CapAvailability (Inl CfTimeout)) = (ArReadFailed, Some EtAvailabilityTimeout)"
| "protocol_availability (CapAvailability (Inl CfCancelled)) = (ArReadFailed, Some EtCancelled)"

section \<open>The two threads of a session\<close>

datatype writer_control = WcClose close_reason | WcPong | WcStop

text \<open>Where the reader and the writer stand between two atomic actions.\<close>

datatype reader_pc = RdReading | RdChecking | RdJoining | RdEnded "session_error + unit"

datatype writer_pc =
  WrClose | WrControls | WrApplications | WrPop | WrWrite message | WrEnded "session_error + unit"

record host_session =
  hs_store :: identity_store
  hs_generation :: u64
  hs_capabilities :: host_capabilities
  hs_last_request_id :: u32
  hs_reader :: reader_pc
  hs_applications :: "message list"
  hs_controls :: "writer_control list"
  hs_close :: "close_reason option"
  hs_failure :: "session_error option"
  hs_writer :: writer_pc
  hs_queue :: session_write_queue
  hs_sent :: "message list"

fun writer_ended :: "writer_pc \<Rightarrow> bool" where
  "writer_ended (WrEnded _) \<longleftrightarrow> True"
| "writer_ended _ \<longleftrightarrow> False"

fun reader_ended :: "reader_pc \<Rightarrow> bool" where
  "reader_ended (RdEnded _) \<longleftrightarrow> True"
| "reader_ended _ \<longleftrightarrow> False"

text \<open>
  \<open>SessionWriter::enqueue_application\<close> and \<open>enqueue_control\<close>: \<open>try_send\<close> on channels of
  capacity eight and one, refused too once the writer has dropped the receivers. A close
  goes into its own slot. The writer's end is one step: a message that would still have entered a
  channel between the report of its failure and its return is refused here.
\<close>

definition sw_enqueue_application :: "message \<Rightarrow> (host_session, session_error, unit) mut_call" where
  "sw_enqueue_application m s =
     (if writer_ended (hs_writer s) \<or> length (hs_applications s) \<ge> 8 then (Inl SxQueueFull, s)
      else (Inr (), s\<lparr>hs_applications := hs_applications s @ [m]\<rparr>))"

definition sw_enqueue_control :: "writer_control \<Rightarrow> (host_session, session_error, unit) mut_call" where
  "sw_enqueue_control control s =
     (case control of
        WcClose reason \<Rightarrow> (Inr (), s\<lparr>hs_close := Some reason\<rparr>)
      | _ \<Rightarrow>
          (if writer_ended (hs_writer s) \<or> length (hs_controls s) \<ge> 1 then (Inl SxQueueFull, s)
           else (Inr (), s\<lparr>hs_controls := hs_controls s @ [control]\<rparr>)))"

text \<open>
  The reader returns: dropping the \<open>SessionWriter\<close> tries to send \<open>Stop\<close>, ignoring a refusal,
  and then joins the writer. The channels' senders are dropped only after that.
\<close>

definition end_reader :: "session_error + unit \<Rightarrow> host_session \<Rightarrow> host_session" where
  "end_reader r s = snd (sw_enqueue_control WcStop s)\<lparr>hs_reader := RdEnded r\<rparr>"

definition reader_receive :: "(u8 list \<Rightarrow> u8 list) \<Rightarrow> store_env \<Rightarrow> message \<Rightarrow> host_session \<Rightarrow> host_session" where
  "reader_receive dh env m s =
     (case m of
        ReadAvailabilityMsg request_id operation \<Rightarrow>
          (let (ok, last_id) = accept_request_id (hs_last_request_id s) request_id;
               s = s\<lparr>hs_last_request_id := last_id\<rparr>
           in if \<not> ok then end_reader (Inl SxProtocol) s
              else
                (case paired_generation dh env (hs_store s) of
                   (Inl _, store) \<Rightarrow> end_reader (Inl SxIdentity) (s\<lparr>hs_store := store\<rparr>)
                 | (Inr generation, store) \<Rightarrow>
                     (let s = s\<lparr>hs_store := store\<rparr>
                      in if generation \<noteq> hs_generation s then end_reader (Inl SxIdentity) s
                         else
                           (case hc_invoke CapReadAvailability (hs_capabilities s) of
                              (Inl _, caps) \<Rightarrow> end_reader (Inl SxProtocol) (s\<lparr>hs_capabilities := caps\<rparr>)
                            | (Inr invocation, caps) \<Rightarrow>
                                (let result = fst (protocol_availability (inv_result invocation))
                                 in case sw_enqueue_application (AvailabilityResultMsg request_id operation result)
                                           (s\<lparr>hs_capabilities := caps\<rparr>) of
                                      (Inl e, s) \<Rightarrow> end_reader (Inl e) s
                                    | (Inr _, s) \<Rightarrow> s\<lparr>hs_reader := RdChecking\<rparr>)))))
      | Ping \<Rightarrow>
          (case sw_enqueue_control WcPong s of
             (Inl e, s) \<Rightarrow> end_reader (Inl e) s
           | (Inr _, s) \<Rightarrow> s\<lparr>hs_reader := RdChecking\<rparr>)
      | Pong \<Rightarrow> s\<lparr>hs_reader := RdChecking\<rparr>
      | Close reason \<Rightarrow> snd (sw_enqueue_control (WcClose reason) s)\<lparr>hs_reader := RdJoining\<rparr>
      | _ \<Rightarrow> end_reader (Inl SxProtocol) s)"

definition reader_check :: "host_session \<Rightarrow> host_session" where
  "reader_check s =
     (case hs_failure s of
        Some e \<Rightarrow> end_reader (Inl e) (s\<lparr>hs_failure := None\<rparr>)
      | None \<Rightarrow> s\<lparr>hs_reader := RdReading\<rparr>)"

definition reader_join :: "host_session \<Rightarrow> host_session" where
  "reader_join s = (case hs_writer s of WrEnded r \<Rightarrow> end_reader r s | _ \<Rightarrow> s)"

text \<open>The end of \<open>run_session_writer\<close>, as \<open>SessionWriter::start\<close> handles it.\<close>

definition writer_end :: "session_error + unit \<Rightarrow> host_session \<Rightarrow> host_session" where
  "writer_end r s =
     s\<lparr>hs_writer := WrEnded r, hs_failure := (case r of Inl e \<Rightarrow> Some e | Inr _ \<Rightarrow> hs_failure s)\<rparr>"

definition writer_take :: "message \<Rightarrow> writer_pc \<Rightarrow> host_session \<Rightarrow> host_session" where
  "writer_take m pc s =
     (case wq_enqueue_application m (hs_queue s) of
        (Inl e, queue) \<Rightarrow> writer_end (Inl e) (s\<lparr>hs_queue := queue\<rparr>)
      | (Inr _, queue) \<Rightarrow> s\<lparr>hs_queue := queue, hs_writer := pc\<rparr>)"

text \<open>
  One atomic action of the writer's loop. \<open>idle\<close> tells whether the last write lies fifteen
  seconds back, \<open>written\<close> is the outcome of writing to the stream. The generation check and
  the write happen under the write gate, which a revocation also holds.
\<close>

definition writer_step ::
  "(u8 list \<Rightarrow> u8 list) \<Rightarrow> store_env \<Rightarrow> bool \<Rightarrow> session_error + unit \<Rightarrow> host_session \<Rightarrow> host_session" where
  "writer_step dh env idle written s =
     (case hs_writer s of
        WrClose \<Rightarrow>
          s\<lparr>hs_queue := (case hs_close s of Some reason \<Rightarrow> wq_enqueue_close reason (hs_queue s) | None \<Rightarrow> hs_queue s),
            hs_close := None, hs_writer := WrControls\<rparr>
      | WrControls \<Rightarrow>
          (case hs_controls s of
             [] \<Rightarrow> s\<lparr>hs_writer := WrApplications\<rparr>
           | control # rest \<Rightarrow>
               (let s = s\<lparr>hs_controls := rest\<rparr>
                in case control of
                     WcClose reason \<Rightarrow> s\<lparr>hs_queue := wq_enqueue_close reason (hs_queue s)\<rparr>
                   | WcPong \<Rightarrow> s\<lparr>hs_queue := wq_enqueue_pong (hs_queue s)\<rparr>
                   | WcStop \<Rightarrow> writer_end (Inr ()) s))
      | WrApplications \<Rightarrow>
          (case hs_applications s of
             [] \<Rightarrow> s\<lparr>hs_writer := WrPop\<rparr>
           | m # rest \<Rightarrow> writer_take m WrApplications (s\<lparr>hs_applications := rest\<rparr>))
      | WrPop \<Rightarrow>
          (case wq_pop (hs_queue s) of
             (Some m, queue) \<Rightarrow> s\<lparr>hs_queue := queue, hs_writer := WrWrite m\<rparr>
           | (None, queue) \<Rightarrow>
               (case hs_applications s of
                  m # rest \<Rightarrow> writer_take m WrClose (s\<lparr>hs_queue := queue, hs_applications := rest\<rparr>)
                | [] \<Rightarrow>
                    s\<lparr>hs_queue := (if idle then wq_enqueue_ping_if_idle queue else queue), hs_writer := WrClose\<rparr>))
      | WrWrite m \<Rightarrow>
          (case paired_generation dh env (hs_store s) of
             (Inl _, store) \<Rightarrow> writer_end (Inl SxIdentity) (s\<lparr>hs_store := store\<rparr>)
           | (Inr generation, store) \<Rightarrow>
               (let s = s\<lparr>hs_store := store\<rparr>
                in if generation \<noteq> hs_generation s then writer_end (Inl SxIdentity) s
                   else
                     (case written of
                        Inl e \<Rightarrow> writer_end (Inl e) s
                      | Inr _ \<Rightarrow>
                          (let s = s\<lparr>hs_sent := hs_sent s @ [m]\<rparr>
                           in case m of Close _ \<Rightarrow> writer_end (Inr ()) s | _ \<Rightarrow> s\<lparr>hs_writer := WrClose\<rparr>))))
      | WrEnded _ \<Rightarrow> s)"

text \<open>The start of \<open>run_availability_session_inner\<close>.\<close>

definition session_start :: "availability_result \<Rightarrow> u64 \<Rightarrow> identity_store \<Rightarrow> session_error + host_session" where
  "session_start result generation store =
     (case hc_lifecycle HcStart (hc_new (host_availability result)) of
        (Inl _, _) \<Rightarrow> Inl SxProtocol
      | (Inr _, caps) \<Rightarrow>
          Inr \<lparr>hs_store = store, hs_generation = generation, hs_capabilities = caps, hs_last_request_id = 0,
               hs_reader = RdReading, hs_applications = [], hs_controls = [], hs_close = None,
               hs_failure = None, hs_writer = WrClose, hs_queue = wq_new, hs_sent = []\<rparr>)"

section \<open>Executions\<close>

datatype session_event =
  EvReceive store_env message
| EvReadFails session_error
| EvCheck
| EvJoin
| EvWriter store_env bool "session_error + unit"
| EvStore store_env store_call

text \<open>An event that the state does not enable changes nothing.\<close>

fun session_step :: "(u8 list \<Rightarrow> u8 list) \<Rightarrow> session_event \<Rightarrow> host_session \<Rightarrow> host_session" where
  "session_step dh (EvReceive env m) s = (if hs_reader s = RdReading then reader_receive dh env m s else s)"
| "session_step dh (EvReadFails e) s = (if hs_reader s = RdReading then end_reader (Inl e) s else s)"
| "session_step dh EvCheck s = (if hs_reader s = RdChecking then reader_check s else s)"
| "session_step dh EvJoin s = (if hs_reader s = RdJoining then reader_join s else s)"
| "session_step dh (EvWriter env idle written) s = writer_step dh env idle written s"
| "session_step dh (EvStore env call) s = s\<lparr>hs_store := store_step dh (hs_store s) (env, call)\<rparr>"

definition session_run :: "(u8 list \<Rightarrow> u8 list) \<Rightarrow> session_event list \<Rightarrow> host_session \<Rightarrow> host_session" where
  "session_run dh es s = fold (session_step dh) es s"

section \<open>What is answered\<close>

fun is_result :: "message \<Rightarrow> bool" where
  "is_result (AvailabilityResultMsg _ _ _) \<longleftrightarrow> True"
| "is_result _ \<longleftrightarrow> False"

definition answer_to :: "availability_result \<Rightarrow> u32 \<times> context_id \<Rightarrow> message" where
  "answer_to result r = AvailabilityResultMsg (fst r) (snd r) result"

text \<open>The requests the reader takes off the stream during an execution.\<close>

fun request_of :: "host_session \<Rightarrow> session_event \<Rightarrow> (u32 \<times> context_id) list" where
  "request_of s (EvReceive env (ReadAvailabilityMsg n operation)) =
     (if hs_reader s = RdReading then [(n, operation)] else [])"
| "request_of s _ = []"

fun requests :: "(u8 list \<Rightarrow> u8 list) \<Rightarrow> session_event list \<Rightarrow> host_session \<Rightarrow> (u32 \<times> context_id) list" where
  "requests dh [] s = []"
| "requests dh (e # es) s = request_of s e @ requests dh es (session_step dh e s)"

text \<open>Answers to the first \<open>k\<close> requests, which are numbered from one.\<close>

definition serves :: "availability_result \<Rightarrow> (u32 \<times> context_id) list \<Rightarrow> message list \<Rightarrow> bool" where
  "serves result reqs ms \<longleftrightarrow>
     (\<exists>k \<le> length reqs. ms = map (answer_to result) (take k reqs) \<and>
        map (\<lambda>r. unat (fst r)) (take k reqs) = [1..<Suc k])"

lemma serves_prefix: "serves result reqs (xs @ ys) \<Longrightarrow> serves result reqs xs"
proof -
  assume "serves result reqs (xs @ ys)"
  then obtain k where k: "k \<le> length reqs" "xs @ ys = map (answer_to result) (take k reqs)"
    "map (\<lambda>r. unat (fst r)) (take k reqs) = [1..<Suc k]" by (auto simp: serves_def)
  let ?j = "length xs"
  have j: "?j \<le> k" using arg_cong [OF k(2), of length] k(1) by simp
  have "xs = take ?j (xs @ ys)" by simp
  also have "\<dots> = map (answer_to result) (take ?j reqs)" unfolding k(2) using j by (simp add: take_map min_def)
  finally have "xs = map (answer_to result) (take ?j reqs)" .
  moreover have "map (\<lambda>r. unat (fst r)) (take ?j reqs) = take ?j (map (\<lambda>r. unat (fst r)) (take k reqs))"
    using j by (simp add: take_map min_def)
  then have "map (\<lambda>r. unat (fst r)) (take ?j reqs) = [1..<Suc ?j]" unfolding k(3) using j by (simp add: take_upt del: upt_Suc)
  ultimately show ?thesis unfolding serves_def using j k(1) by (intro exI [of _ ?j]) (simp del: upt_Suc)
qed

lemma serves_more: "serves result reqs xs \<Longrightarrow> serves result (reqs @ extra) xs"
  unfolding serves_def
proof (elim exE conjE)
  fix k
  assume k: "k \<le> length reqs" "xs = map (answer_to result) (take k reqs)" "map (\<lambda>r. unat (fst r)) (take k reqs) = [1..<Suc k]"
  then show "\<exists>k \<le> length (reqs @ extra). xs = map (answer_to result) (take k (reqs @ extra)) \<and>
      map (\<lambda>r. unat (fst r)) (take k (reqs @ extra)) = [1..<Suc k]"
    by (intro exI [of _ k]) (simp del: upt_Suc)
qed

lemma serves_all:
  "map (\<lambda>r. unat (fst r)) reqs = [1..<Suc (length reqs)] \<Longrightarrow> serves result reqs (map (answer_to result) reqs)"
  unfolding serves_def by (intro exI [of _ "length reqs"]) simp

definition in_hand :: "writer_pc \<Rightarrow> message list" where
  "in_hand pc = (case pc of WrWrite m \<Rightarrow> filter is_result [m] | _ \<Rightarrow> [])"

definition on_way :: "host_session \<Rightarrow> message list" where
  "on_way s = filter is_result (hs_sent s) @ in_hand (hs_writer s) @ wq_application (hs_queue s) @ hs_applications s"

definition session_wf :: "availability_result \<Rightarrow> host_session \<Rightarrow> bool" where
  "session_wf result s \<longleftrightarrow>
     hc_state (hs_capabilities s) = RsReady \<and> hc_availability (hs_capabilities s) = host_availability result \<and>
     list_all is_result (wq_application (hs_queue s)) \<and> list_all is_result (hs_applications s) \<and>
     (\<forall>m. wq_close (hs_queue s) = Some m \<longrightarrow> \<not> is_result m) \<and>
     length (hs_applications s) \<le> 8 \<and> length (wq_application (hs_queue s)) \<le> 8 \<and> length (hs_controls s) \<le> 1"

lemmas writer_defs = writer_step_def writer_take_def writer_end_def wq_enqueue_application_def wq_enqueue_close_def
  wq_enqueue_pong_def wq_enqueue_ping_if_idle_def wq_pop_def Let_def

lemmas writer_splits = writer_pc.splits option.splits list.splits writer_control.splits message.splits
  sum.splits prod.splits if_splits

text \<open>
  What an action of the writer leaves: the other thread's variables, the bounds, and, while it
  goes on, the answers on their way; what it has sent by then is the beginning of these.
\<close>

definition writer_moves :: "availability_result \<Rightarrow> host_session \<Rightarrow> host_session \<Rightarrow> bool" where
  "writer_moves result s s' \<longleftrightarrow>
     session_wf result s' \<and> hs_reader s' = hs_reader s \<and> hs_last_request_id s' = hs_last_request_id s \<and>
     hs_generation s' = hs_generation s \<and>
     (\<not> writer_ended (hs_writer s') \<longrightarrow> on_way s' = on_way s) \<and>
     (\<exists>rest. on_way s = filter is_result (hs_sent s') @ rest)"

lemma writer_step_moves:
  assumes wf: "session_wf result s" and alive: "\<not> writer_ended (hs_writer s)"
  shows "writer_moves result s (writer_step dh env idle written s)"
proof (cases "hs_writer s")
  case (WrWrite m)
  obtain r store where "paired_generation dh env (hs_store s) = (r, store)" by fastforce
  then show ?thesis
    using WrWrite wf
    by (cases r; cases written; cases m)
      (simp_all add: writer_moves_def session_wf_def on_way_def in_hand_def writer_step_def writer_end_def Let_def)
next
  case WrPop
  show ?thesis
  proof (cases "wq_pop (hs_queue s)")
    case (Pair popped queue)
    have q: "length (wq_application queue) \<le> 8" "list_all is_result (wq_application queue)"
      "\<forall>m. wq_close queue = Some m \<longrightarrow> \<not> is_result m"
      "(case popped of Some m \<Rightarrow> filter is_result [m] | None \<Rightarrow> []) @ wq_application queue = wq_application (hs_queue s)"
      "popped = None \<Longrightarrow> wq_application queue = [] \<and> wq_application (hs_queue s) = []"
      using Pair wf by (auto simp: session_wf_def wq_pop_def split: option.splits list.splits if_splits)
    show ?thesis
      using WrPop Pair wf q
      by (cases popped; cases "hs_applications s")
        (auto simp: writer_moves_def session_wf_def on_way_def in_hand_def writer_step_def writer_take_def
          wq_enqueue_application_def wq_enqueue_ping_if_idle_def)
  qed
next
  case WrControls
  then show ?thesis using wf
    by (cases "hs_controls s"; cases "hd (hs_controls s)")
      (simp_all add: writer_moves_def session_wf_def on_way_def in_hand_def writer_step_def writer_end_def
        wq_enqueue_close_def wq_enqueue_pong_def)
next
  case WrApplications
  then show ?thesis using wf
    by (cases "hs_applications s")
      (simp_all add: writer_moves_def session_wf_def on_way_def in_hand_def writer_step_def writer_take_def
        writer_end_def wq_enqueue_application_def)
next
  case WrClose
  then show ?thesis using wf
    by (cases "hs_close s")
      (simp_all add: writer_moves_def session_wf_def on_way_def in_hand_def writer_step_def wq_enqueue_close_def)
qed (use alive in simp)

lemma writer_step_ended: "writer_ended (hs_writer s) \<Longrightarrow> writer_step dh env idle written s = s"
  by (cases "hs_writer s") (simp_all add: writer_step_def)

lemma one_le_length [simp]: "Suc 0 \<le> length xs \<longleftrightarrow> xs \<noteq> []"
  by (cases xs) auto

lemma end_reader_frame:
  "hs_reader (end_reader r s) = RdEnded r" "hs_writer (end_reader r s) = hs_writer s"
  "on_way (end_reader r s) = on_way s" "hs_sent (end_reader r s) = hs_sent s"
  "session_wf result (end_reader r s) \<longleftrightarrow> session_wf result s"
  by (auto simp: end_reader_def sw_enqueue_control_def on_way_def session_wf_def)

lemma answer_configured:
  assumes "hc_state caps = RsReady" and "hc_availability caps = host_availability result"
    and "hc_invoke CapReadAvailability caps = (Inr invocation, caps')"
  shows "fst (protocol_availability (inv_result invocation)) = result" and
    "hc_state caps' = RsReady" and "hc_availability caps' = host_availability result"
proof -
  obtain q h where r: "hc_route CapReadAvailability caps = (Inr q, h)"
    using assms(3) by (auto simp: hc_invoke_eq split: prod.splits sum.splits)
  with assms(3) have i: "inv_result invocation = CapAvailability (connector_answer (hc_availability caps))"
    and c: "caps' = h\<lparr>hc_state := RsReady\<rparr>"
    by (auto simp: hc_invoke_eq)
  show "fst (protocol_availability (inv_result invocation)) = result"
    unfolding i assms(2) by (cases result) simp_all
  show "hc_state caps' = RsReady" "hc_availability caps' = host_availability result"
    using r assms(2) unfolding c by (auto elim: hc_route_cases)
qed

text \<open>What the reader makes of a request: it ends, or the answer is on its way.\<close>

lemma reader_request_cases:
  assumes "session_wf result s"
    and s'_def: "s' = reader_receive dh env (ReadAvailabilityMsg n operation) s"
  shows "session_wf result s'" and "hs_sent s' = hs_sent s" and "hs_writer s' = hs_writer s"
    and "(\<exists>e. hs_reader s' = RdEnded (Inl e)) \<and> on_way s' = on_way s \<or>
         hs_reader s' = RdChecking \<and> checked_add (hs_last_request_id s) 1 = Some n \<and> hs_last_request_id s' = n \<and>
         \<not> writer_ended (hs_writer s) \<and> on_way s' = on_way s @ [answer_to result (n, operation)]"
proof -
  have "session_wf result s' \<and> hs_sent s' = hs_sent s \<and> hs_writer s' = hs_writer s \<and>
    ((\<exists>e. hs_reader s' = RdEnded (Inl e)) \<and> on_way s' = on_way s \<or>
         hs_reader s' = RdChecking \<and> checked_add (hs_last_request_id s) 1 = Some n \<and> hs_last_request_id s' = n \<and>
         \<not> writer_ended (hs_writer s) \<and> on_way s' = on_way s @ [answer_to result (n, operation)])" (is "?P s'")
  proof (cases "checked_add (hs_last_request_id s) 1 = Some n")
    case False
    then have "s' = end_reader (Inl SxProtocol) s"
      by (simp add: s'_def reader_receive_def accept_request_id_def Let_def)
    then show ?thesis using assms(1) by (simp add: end_reader_frame)
  next
    case id: True
    let ?s = "s\<lparr>hs_last_request_id := n\<rparr>"
    obtain r store where pg: "paired_generation dh env (hs_store s) = (r, store)" by fastforce
    have wf: "session_wf result (?s\<lparr>hs_store := store\<rparr>)" "on_way (?s\<lparr>hs_store := store\<rparr>) = on_way s"
      using assms(1) by (simp_all add: session_wf_def on_way_def)
    show ?thesis
    proof (cases "r = Inr (hs_generation s)")
      case False
      then have "s' = end_reader (Inl SxIdentity) (?s\<lparr>hs_store := store\<rparr>)"
        using id pg by (cases r) (simp_all add: s'_def reader_receive_def accept_request_id_def Let_def)
      then show ?thesis using wf by (simp add: end_reader_frame)
    next
      case gen: True
      obtain v caps where inv: "hc_invoke CapReadAvailability (hs_capabilities s) = (v, caps)" by fastforce
      show ?thesis
      proof (cases v)
        case (Inl e)
        then have st: "s' = end_reader (Inl SxProtocol) (?s\<lparr>hs_store := store, hs_capabilities := caps\<rparr>)"
          using id pg gen inv by (simp add: s'_def reader_receive_def accept_request_id_def Let_def)
        have "caps = hs_capabilities s"
          using inv Inl by (auto simp: hc_invoke_eq hc_route_def Let_def split: prod.splits sum.splits hc_splits)
        then have "?s\<lparr>hs_store := store, hs_capabilities := caps\<rparr> = ?s\<lparr>hs_store := store\<rparr>" by simp
        then show ?thesis using wf unfolding st by (simp add: end_reader_frame)
      next
        case (Inr invocation)
        have caps: "hc_state (hs_capabilities s) = RsReady" "hc_availability (hs_capabilities s) = host_availability result"
          using assms(1) by (simp_all add: session_wf_def)
        note ans = answer_configured [OF caps inv [unfolded Inr]]
        let ?t = "?s\<lparr>hs_store := store, hs_capabilities := caps\<rparr>"
        have twf: "session_wf result ?t" "on_way ?t = on_way s"
          using assms(1) ans by (simp_all add: session_wf_def on_way_def)
        have st: "s' = (case sw_enqueue_application (AvailabilityResultMsg n operation result) ?t of
            (Inl e, s) \<Rightarrow> end_reader (Inl e) s | (Inr _, s) \<Rightarrow> s\<lparr>hs_reader := RdChecking\<rparr>)"
          using id pg gen inv Inr ans(1) by (simp add: s'_def reader_receive_def accept_request_id_def Let_def)
        show ?thesis
        proof (cases "writer_ended (hs_writer s) \<or> length (hs_applications s) \<ge> 8")
          case True
          then have "s' = end_reader (Inl SxQueueFull) ?t" unfolding st by (simp add: sw_enqueue_application_def)
          then show ?thesis using twf by (simp add: end_reader_frame)
        next
          case False
          then have "s' = ?t\<lparr>hs_applications := hs_applications s @ [AvailabilityResultMsg n operation result], hs_reader := RdChecking\<rparr>"
            unfolding st by (simp add: sw_enqueue_application_def)
          then show ?thesis using twf id False by (simp add: session_wf_def on_way_def answer_to_def)
        qed
      qed
    qed
  qed
  then show "session_wf result s'" "hs_sent s' = hs_sent s" "hs_writer s' = hs_writer s"
    "(\<exists>e. hs_reader s' = RdEnded (Inl e)) \<and> on_way s' = on_way s \<or>
         hs_reader s' = RdChecking \<and> checked_add (hs_last_request_id s) 1 = Some n \<and> hs_last_request_id s' = n \<and>
         \<not> writer_ended (hs_writer s) \<and> on_way s' = on_way s @ [answer_to result (n, operation)]"
    by blast+
qed

text \<open>Every other action of the reader leaves what is on its way, and the numbering, alone.\<close>

definition reader_quiet :: "availability_result \<Rightarrow> host_session \<Rightarrow> host_session \<Rightarrow> bool" where
  "reader_quiet result s s' \<longleftrightarrow>
     session_wf result s' \<and> hs_sent s' = hs_sent s \<and> hs_writer s' = hs_writer s \<and> on_way s' = on_way s \<and>
     (hs_last_request_id s' = hs_last_request_id s) \<and> (reader_ended (hs_reader s) \<longrightarrow> reader_ended (hs_reader s'))"

lemma end_reader_quiet: "session_wf result s \<Longrightarrow> reader_quiet result s (end_reader r s)"
  by (simp add: reader_quiet_def end_reader_frame) (simp add: end_reader_def sw_enqueue_control_def)

lemma reader_other_quiet:
  assumes "session_wf result s" and "\<And>n operation. m \<noteq> ReadAvailabilityMsg n operation" and "hs_reader s = RdReading"
  shows "reader_quiet result s (reader_receive dh env m s)"
proof -
  note q = end_reader_quiet [OF assms(1)]
  have "reader_quiet result s (case sw_enqueue_control WcPong s of
      (Inl e, s) \<Rightarrow> end_reader (Inl e) s | (Inr _, s) \<Rightarrow> s\<lparr>hs_reader := RdChecking\<rparr>)"
    using q [of "Inl SxQueueFull"] assms(1,3)
    by (auto simp: sw_enqueue_control_def reader_quiet_def on_way_def session_wf_def)
  moreover have "reader_quiet result s (s\<lparr>hs_reader := RdChecking\<rparr>)"
    "reader_quiet result s (s\<lparr>hs_close := c, hs_reader := RdJoining\<rparr>)" for c
    using assms(1,3) by (simp_all add: reader_quiet_def on_way_def session_wf_def)
  moreover have "False" if "m = ReadAvailabilityMsg n operation" for n operation using that assms(2) by blast
  ultimately show ?thesis
    using q by (cases m) (simp_all add: reader_receive_def sw_enqueue_control_def del: one_le_length, blast?)
qed

section \<open>The invariant of an execution\<close>

definition session_inv :: "availability_result \<Rightarrow> (u32 \<times> context_id) list \<Rightarrow> host_session \<Rightarrow> bool" where
  "session_inv result reqs s \<longleftrightarrow>
     session_wf result s \<and> serves result reqs (filter is_result (hs_sent s)) \<and>
     (\<not> writer_ended (hs_writer s) \<longrightarrow> serves result reqs (on_way s)) \<and>
     (\<not> reader_ended (hs_reader s) \<longrightarrow>
        map (\<lambda>r. unat (fst r)) reqs = [1..<Suc (length reqs)] \<and> unat (hs_last_request_id s) = length reqs \<and>
        (\<not> writer_ended (hs_writer s) \<longrightarrow> on_way s = map (answer_to result) reqs))"

lemma session_inv_quiet:
  assumes "session_inv result reqs s" and "reader_quiet result s s'"
  shows "session_inv result reqs s'"
  using assms unfolding session_inv_def reader_quiet_def by metis

lemma session_inv_writer:
  assumes "session_inv result reqs s"
  shows "session_inv result reqs (writer_step dh env idle written s)"
proof (cases "writer_ended (hs_writer s)")
  case True
  then show ?thesis using assms by (simp add: writer_step_ended)
next
  case False
  let ?s = "writer_step dh env idle written s"
  have wf: "session_wf result s" and way: "serves result reqs (on_way s)"
    using assms False by (simp_all add: session_inv_def)
  from writer_step_moves [OF wf False, of dh env idle written]
  have m: "writer_moves result s ?s" .
  then have "serves result reqs (filter is_result (hs_sent ?s))"
    using way serves_prefix unfolding writer_moves_def by metis
  then show ?thesis using assms m False unfolding session_inv_def writer_moves_def by metis
qed

lemma session_inv_request:
  assumes "session_inv result reqs s" and "hs_reader s = RdReading"
  shows "session_inv result (reqs @ [(n, operation)]) (reader_receive dh env (ReadAvailabilityMsg n operation) s)"
proof -
  let ?s = "reader_receive dh env (ReadAvailabilityMsg n operation) s"
  have wf: "session_wf result s" and ids: "map (\<lambda>r. unat (fst r)) reqs = [1..<Suc (length reqs)]"
    and last: "unat (hs_last_request_id s) = length reqs"
    and way: "\<not> writer_ended (hs_writer s) \<Longrightarrow> on_way s = map (answer_to result) reqs"
    and sent: "serves result reqs (filter is_result (hs_sent s))"
    using assms by (simp_all add: session_inv_def)
  note c = reader_request_cases [OF wf refl, of dh env n operation]
  have sent': "serves result (reqs @ [(n, operation)]) (filter is_result (hs_sent ?s))"
    using serves_more [OF sent] c(2) by simp
  from c(4) show ?thesis
  proof
    assume e: "(\<exists>e. hs_reader ?s = RdEnded (Inl e)) \<and> on_way ?s = on_way s"
    have "\<not> writer_ended (hs_writer ?s) \<longrightarrow> serves result (reqs @ [(n, operation)]) (on_way ?s)"
      using e c(3) way serves_more [OF serves_all [OF ids]] by simp
    then show ?thesis using c(1) sent' e by (auto simp: session_inv_def)
  next
    assume k: "hs_reader ?s = RdChecking \<and> checked_add (hs_last_request_id s) 1 = Some n \<and> hs_last_request_id ?s = n \<and>
         \<not> writer_ended (hs_writer s) \<and> on_way ?s = on_way s @ [answer_to result (n, operation)]"
    then have n: "unat n = Suc (length reqs)" using checked_add_Some [of "hs_last_request_id s" 1 n] last by simp
    then have ids': "map (\<lambda>r. unat (fst r)) (reqs @ [(n, operation)]) = [1..<Suc (length (reqs @ [(n, operation)]))]"
      using ids by simp
    have "on_way ?s = map (answer_to result) (reqs @ [(n, operation)])" using k way by simp
    then show ?thesis using c(1,3) sent' ids' n k serves_all [OF ids', of result] unfolding session_inv_def by simp
  qed
qed

lemma session_inv_step:
  assumes "session_inv result reqs s"
  shows "session_inv result (reqs @ request_of s e) (session_step dh e s)"
proof -
  have wf: "session_wf result s" using assms by (simp add: session_inv_def)
  note quiet = session_inv_quiet [OF assms]
  show ?thesis
  proof (cases e)
    case (EvReceive env m)
    show ?thesis
    proof (cases "hs_reader s = RdReading")
      case reading: True
      show ?thesis
      proof (cases "\<exists>n operation. m = ReadAvailabilityMsg n operation")
        case True
        then show ?thesis using EvReceive reading session_inv_request [OF assms reading] by auto
      next
        case False
        then have "reader_quiet result s (reader_receive dh env m s)"
          using reading by (intro reader_other_quiet [OF wf]) auto
        moreover have "request_of s e = []" using EvReceive False by (cases m) auto
        ultimately show ?thesis using quiet EvReceive reading by simp
      qed
    next
      case False
      then have "request_of s e = []" using EvReceive by (cases m) auto
      then show ?thesis using assms EvReceive False by simp
    qed
  next
    case (EvReadFails err)
    then show ?thesis using assms quiet [OF end_reader_quiet [OF wf]] by simp
  next
    case EvCheck
    have "reader_quiet result s (reader_check s)" if "hs_reader s = RdChecking"
    proof (cases "hs_failure s")
      case None
      then show ?thesis using that wf by (simp add: reader_check_def reader_quiet_def on_way_def session_wf_def)
    next
      case (Some err)
      have "session_wf result (s\<lparr>hs_failure := None\<rparr>)" using wf by (simp add: session_wf_def)
      moreover have "on_way (s\<lparr>hs_failure := None\<rparr>) = on_way s" by (simp add: on_way_def)
      ultimately show ?thesis using end_reader_quiet [of result "s\<lparr>hs_failure := None\<rparr>" "Inl err"] Some that
        by (simp add: reader_check_def reader_quiet_def)
    qed
    then show ?thesis using EvCheck assms quiet by simp
  next
    case EvJoin
    have "reader_quiet result s (reader_join s)" if "hs_reader s = RdJoining"
      using wf end_reader_quiet [OF wf] by (auto simp: reader_join_def reader_quiet_def split: writer_pc.splits)
    then show ?thesis using EvJoin assms quiet by simp
  next
    case (EvWriter env idle written)
    then show ?thesis using session_inv_writer [OF assms] by simp
  next
    case (EvStore env call)
    have "reader_quiet result s (s\<lparr>hs_store := store_step dh (hs_store s) (env, call)\<rparr>)"
      using wf by (simp add: reader_quiet_def on_way_def session_wf_def)
    then show ?thesis using EvStore quiet by simp
  qed
qed

lemma session_inv_run:
  "session_inv result reqs s \<Longrightarrow> session_inv result (reqs @ requests dh es s) (session_run dh es s)"
proof (induction es arbitrary: reqs s)
  case Nil
  then show ?case by (simp add: session_run_def)
next
  case (Cons e es)
  from Cons.IH [OF session_inv_step [OF Cons.prems, of e dh]] show ?case by (simp add: session_run_def)
qed

lemma session_started:
  "\<exists>s. session_start result generation store = Inr s \<and> session_inv result [] s \<and> hs_generation s = generation \<and> hs_store s = store"
  by (auto simp: session_start_def hc_lifecycle_def hc_new_def session_inv_def session_wf_def serves_def on_way_def
      in_hand_def wq_new_def)

text \<open>
  C21: Answers come back in order: whatever the interleaving of reader, writer and store, the
  results a session has sent are answers to the first requests it took, numbered from one, each
  with the operation asked for and the configured availability, none repeated or skipped; and
  while both threads run, every request taken is answered or on its way.
\<close>

theorem session_answers_in_order:
  "case session_start result generation store of
     Inl e \<Rightarrow> False
   | Inr s \<Rightarrow>
       (let reqs = requests dh es s; s' = session_run dh es s
        in serves result reqs (filter is_result (hs_sent s')) \<and>
           (reader_ended (hs_reader s') \<or> writer_ended (hs_writer s') \<or> on_way s' = map (answer_to result) reqs))"
proof -
  from session_started [of result generation store] obtain s where
    s: "session_start result generation store = Inr s" "session_inv result [] s" by blast
  from session_inv_run [OF s(2), of dh es] s(1) show ?thesis by (auto simp: session_inv_def Let_def)
qed

section \<open>Revocation\<close>

definition store_passed :: "host_session \<Rightarrow> bool" where
  "store_passed s \<longleftrightarrow> passed (hs_generation s) (pairing_of (hs_store s))"

lemma paired_generation_store:
  "pairing_of (snd (paired_generation dh env s)) = pairing_of s"
  using pairing_of_read [of dh env s]
  by (auto simp: paired_generation_def try_then_def split: prod.splits sum.splits peer_status.splits)

lemma passed_not_paired:
  assumes "passed g (pairing_of s)" and "paired_generation dh env s = (Inr g', s')"
  shows "g' \<noteq> g"
proof
  assume "g' = g"
  then obtain k t where "pairing_of s = Some (g, Paired k t)"
    using paired_generation_pairing [of dh env s g] assms(2) by auto
  then show False using assms(1) by (simp add: passed_def)
qed

lemma end_reader_store [simp]:
  "hs_store (end_reader r s) = hs_store s" "hs_generation (end_reader r s) = hs_generation s"
  by (simp_all add: end_reader_def sw_enqueue_control_def)

lemma reader_receive_passed:
  assumes "store_passed s"
  shows "store_passed (reader_receive dh env m s) \<and> hs_sent (reader_receive dh env m s) = hs_sent s"
proof (cases m)
  case (ReadAvailabilityMsg n operation)
  obtain r store where pg: "paired_generation dh env (hs_store s) = (r, store)" by fastforce
  have p: "pairing_of store = pairing_of (hs_store s)" using paired_generation_store [of dh env "hs_store s"] pg by simp
  have "\<not> (\<exists>g. r = Inr g \<and> g = hs_generation s)"
    using passed_not_paired [of "hs_generation s" "hs_store s" dh env _ store] pg assms by (auto simp: store_passed_def)
  then show ?thesis
    using assms p pg ReadAvailabilityMsg
    by (cases r) (auto simp: reader_receive_def accept_request_id_def store_passed_def end_reader_frame Let_def)
qed (use assms in \<open>auto simp: reader_receive_def store_passed_def sw_enqueue_control_def end_reader_frame\<close>)

lemma writer_step_passed:
  assumes "store_passed s"
  shows "store_passed (writer_step dh env idle written s) \<and> hs_sent (writer_step dh env idle written s) = hs_sent s"
proof (cases "hs_writer s")
  case (WrWrite m)
  obtain r store where pg: "paired_generation dh env (hs_store s) = (r, store)" by fastforce
  have p: "pairing_of store = pairing_of (hs_store s)" using paired_generation_store [of dh env "hs_store s"] pg by simp
  have "\<not> (\<exists>g. r = Inr g \<and> g = hs_generation s)"
    using passed_not_paired [of "hs_generation s" "hs_store s" dh env _ store] pg assms by (auto simp: store_passed_def)
  then show ?thesis
    using assms p pg WrWrite
    by (cases r) (auto simp: writer_step_def writer_end_def store_passed_def Let_def)
next
  case WrPop
  then show ?thesis using assms
    by (cases "wq_pop (hs_queue s)"; cases "fst (wq_pop (hs_queue s))"; cases "hs_applications s")
      (auto simp: writer_step_def writer_take_def writer_end_def wq_enqueue_application_def store_passed_def)
next
  case WrControls
  then show ?thesis using assms
    by (cases "hs_controls s"; cases "hd (hs_controls s)")
      (simp_all add: writer_step_def writer_end_def store_passed_def)
next
  case WrApplications
  then show ?thesis using assms
    by (cases "hs_applications s")
      (simp_all add: writer_step_def writer_take_def writer_end_def wq_enqueue_application_def store_passed_def)
qed (use assms in \<open>simp_all add: writer_step_def store_passed_def\<close>)

lemma session_step_passed:
  assumes "store_passed s"
  shows "store_passed (session_step dh e s) \<and> hs_sent (session_step dh e s) = hs_sent s"
proof (cases e)
  case (EvReceive env m)
  then show ?thesis using reader_receive_passed [OF assms] assms by simp
next
  case (EvWriter env idle written)
  then show ?thesis using writer_step_passed [OF assms] by simp
next
  case (EvStore env call)
  have "passed (hs_generation s) (pairing_of (store_run dh [(env, call)] (hs_store s)))"
    using assms by (intro passed_run) (simp add: store_passed_def)
  then show ?thesis using EvStore by (simp add: store_passed_def store_run_def)
qed (use assms in \<open>auto simp: reader_check_def reader_join_def store_passed_def end_reader_frame split: option.split writer_pc.split\<close>)

lemma session_run_passed: "store_passed s \<Longrightarrow> hs_sent (session_run dh es s) = hs_sent s"
proof (induction es arbitrary: s)
  case Nil
  then show ?case by (simp add: session_run_def)
next
  case (Cons e es)
  from session_step_passed [OF Cons.prems, of dh e] Cons.IH show ?case by (simp add: session_run_def)
qed

text \<open>
  C22: A revoked session is silent: once an unpairing request has been answered with success,
  or with the demand to recover it, a session of the revoked pairing writes nothing more to its
  peer, whatever it receives, whatever it still had queued, and whatever requests the store
  serves afterwards.
\<close>

theorem revoked_session_is_silent:
  assumes "plain_env env" and "pairing_of (hs_store s) = Some (hs_generation s, Paired k t)"
    and "unpair_inner dh env remote (hs_store s) = (r, store')"
    and "r = Inr () \<or> r = Inl SeRevokedRecoveryRequired"
  shows "hs_sent (session_run dh es (s\<lparr>hs_store := store'\<rparr>)) = hs_sent s"
proof -
  have "store_passed (s\<lparr>hs_store := store'\<rparr>)"
    using unpair_passes [OF assms] by (simp add: store_passed_def)
  from session_run_passed [OF this] show ?thesis by simp
qed

definition example_session :: host_session where
  "example_session = \<lparr>hs_store = example_store 3 (Paired example_key example_tx), hs_generation = 3,
     hs_capabilities = (hc_new DaAvailable)\<lparr>hc_state := RsReady\<rparr>, hs_last_request_id = 0,
     hs_reader = RdReading, hs_applications = [], hs_controls = [], hs_close = None, hs_failure = None,
     hs_writer = WrWrite Pong, hs_queue = wq_new, hs_sent = []\<rparr>"

theorem revoked_session_is_silent_witness:
  "hs_sent (session_run (\<lambda>x. x) [EvWriter (example_env True) False (Inr ())]
     (example_session\<lparr>hs_store := example_store 4 Unpaired\<rparr>)) = []"
proof -
  have "pairing_of (hs_store example_session) = Some (hs_generation example_session, Paired example_key example_tx)"
    "hs_store example_session = example_store 3 (Paired example_key example_tx)" "hs_sent example_session = []"
    by (simp_all add: example_session_def pairing_of_example)
  with revoked_session_is_silent [OF plain_example_env, of example_session example_key example_tx "\<lambda>x. x" True example_key "Inr ()"]
    unpair_example(1) show ?thesis by simp
qed

section \<open>Progress\<close>

text \<open>A session between two requests, and a store that answers with the session's generation.\<close>

definition idle_session :: "(u8 list \<Rightarrow> u8 list) \<Rightarrow> store_env \<Rightarrow> availability_result \<Rightarrow> host_session \<Rightarrow> bool" where
  "idle_session dh env result s \<longleftrightarrow>
     paired_generation dh env (hs_store s) = (Inr (hs_generation s), hs_store s) \<and>
     hc_state (hs_capabilities s) = RsReady \<and> hc_availability (hs_capabilities s) = host_availability result \<and>
     hs_reader s = RdReading \<and> hs_applications s = [] \<and> hs_controls s = [] \<and> hs_close s = None \<and>
     hs_failure s = None \<and> hs_writer s = WrClose \<and> hs_queue s = wq_new"

lemma hc_ready_invoke:
  assumes "hc_state h = RsReady" and "checked_add (hc_next_effect_id h) 1 = Some c"
  shows "\<exists>v. hc_invoke CapReadAvailability h = (Inr v, h\<lparr>hc_next_effect_id := c\<rparr>)"
  using assms checked_add_1_Some(2) [OF assms(2)]
  by (cases h) (auto simp: hc_invoke_eq hc_route_def NonZeroU64_new_def Let_def)

text \<open>One request, the reader's check, and six actions of the writer.\<close>

definition serve_round :: "store_env \<Rightarrow> message \<Rightarrow> session_event list" where
  "serve_round env m =
     (let w = EvWriter env False (Inr ()) in [EvReceive env m, EvCheck, w, w, w, w, w, w])"

lemma serve_round_idle:
  assumes "idle_session dh env result s" and "checked_add (hs_last_request_id s) 1 = Some n"
    and "checked_add (hc_next_effect_id (hs_capabilities s)) 1 = Some c"
  shows "session_run dh (serve_round env (ReadAvailabilityMsg n operation)) s =
     s\<lparr>hs_capabilities := (hs_capabilities s)\<lparr>hc_next_effect_id := c\<rparr>, hs_last_request_id := n,
       hs_sent := hs_sent s @ [answer_to result (n, operation)]\<rparr>"
proof -
  let ?m = "ReadAvailabilityMsg n operation"
  have pg: "paired_generation dh env (hs_store s) = (Inr (hs_generation s), hs_store s)"
    and caps: "hc_state (hs_capabilities s) = RsReady" "hc_availability (hs_capabilities s) = host_availability result"
    and pcs: "hs_reader s = RdReading" "hs_applications s = []" "hs_controls s = []" "hs_close s = None"
      "hs_failure s = None" "hs_writer s = WrClose" "hs_queue s = wq_new"
    using assms(1) by (simp_all add: idle_session_def)
  obtain invocation where inv: "hc_invoke CapReadAvailability (hs_capabilities s) =
      (Inr invocation, (hs_capabilities s)\<lparr>hc_next_effect_id := c\<rparr>)"
    using hc_ready_invoke [OF caps(1) assms(3)] by blast
  note ans = answer_configured(1) [OF caps inv]
  let ?caps = "(hs_capabilities s)\<lparr>hc_next_effect_id := c\<rparr>"
  let ?r = "answer_to result (n, operation)"
  have recv: "reader_receive dh env ?m s =
      s\<lparr>hs_last_request_id := n, hs_capabilities := ?caps, hs_applications := [?r], hs_reader := RdChecking\<rparr>"
    using assms(2) pg inv ans pcs
    by (simp add: reader_receive_def accept_request_id_def sw_enqueue_application_def answer_to_def Let_def)
  let ?s1 = "s\<lparr>hs_last_request_id := n, hs_capabilities := ?caps, hs_applications := [?r]\<rparr>"
  let ?q = "wq_new\<lparr>wq_application := [?r]\<rparr>"
  have rd: "hs_reader (?s1\<lparr>hs_reader := RdChecking\<rparr>) = RdChecking" by simp
  have chk: "reader_check (?s1\<lparr>hs_reader := RdChecking\<rparr>) = ?s1"
    using pcs by (simp add: reader_check_def)
  have w1: "writer_step dh env False (Inr ()) ?s1 = ?s1\<lparr>hs_writer := WrControls\<rparr>"
    using pcs by (simp add: writer_step_def)
  have w2: "writer_step dh env False (Inr ()) (?s1\<lparr>hs_writer := WrControls\<rparr>) = ?s1\<lparr>hs_writer := WrApplications\<rparr>"
    using pcs by (simp add: writer_step_def)
  have w3: "writer_step dh env False (Inr ()) (?s1\<lparr>hs_writer := WrApplications\<rparr>) =
      ?s1\<lparr>hs_applications := [], hs_queue := ?q, hs_writer := WrApplications\<rparr>"
    using pcs by (simp add: writer_step_def writer_take_def wq_enqueue_application_def wq_new_def)
  have w4: "writer_step dh env False (Inr ()) (?s1\<lparr>hs_applications := [], hs_queue := ?q, hs_writer := WrApplications\<rparr>) =
      ?s1\<lparr>hs_applications := [], hs_queue := ?q, hs_writer := WrPop\<rparr>"
    by (simp add: writer_step_def)
  have w5: "writer_step dh env False (Inr ()) (?s1\<lparr>hs_applications := [], hs_queue := ?q, hs_writer := WrPop\<rparr>) =
      ?s1\<lparr>hs_applications := [], hs_queue := wq_new, hs_writer := WrWrite ?r\<rparr>"
    by (simp add: writer_step_def wq_pop_def wq_new_def)
  have w6: "writer_step dh env False (Inr ()) (?s1\<lparr>hs_applications := [], hs_queue := wq_new, hs_writer := WrWrite ?r\<rparr>) =
      ?s1\<lparr>hs_applications := [], hs_queue := wq_new, hs_writer := WrClose, hs_sent := hs_sent s @ [?r]\<rparr>"
    using pg by (simp add: writer_step_def answer_to_def Let_def)
  have "session_run dh (serve_round env ?m) s =
      ?s1\<lparr>hs_applications := [], hs_queue := wq_new, hs_writer := WrClose, hs_sent := hs_sent s @ [?r]\<rparr>"
    by (simp only: session_run_def serve_round_def Let_def fold_simps session_step.simps recv rd pcs(1) refl if_True
        chk w1 w2 w3 w4 w5 w6)
  also have "\<dots> = s\<lparr>hs_capabilities := ?caps, hs_last_request_id := n, hs_sent := hs_sent s @ [?r]\<rparr>"
    using pcs by simp
  finally show ?thesis .
qed

fun serve_rounds :: "store_env \<Rightarrow> u32 \<Rightarrow> context_id list \<Rightarrow> session_event list" where
  "serve_rounds env n [] = []"
| "serve_rounds env n (operation # operations) =
     serve_round env (ReadAvailabilityMsg (n + 1) operation) @ serve_rounds env (n + 1) operations"

lemma checked_add_fits: "unat (a :: 'a::len word) + 1 < 2 ^ LENGTH('a) \<Longrightarrow> checked_add a 1 = Some (a + 1)"
  by (simp add: checked_add_def)

lemma serve_rounds_idle:
  assumes "idle_session dh env result s" and "unat (hs_last_request_id s) + length operations < 2 ^ 32"
    and "unat (hc_next_effect_id (hs_capabilities s)) + length operations < 2 ^ 64"
  shows "hs_sent (session_run dh (serve_rounds env (hs_last_request_id s) operations) s) =
     hs_sent s @ map (\<lambda>(i, operation). AvailabilityResultMsg (hs_last_request_id s + of_nat i + 1) operation result)
       (zip [0..<length operations] operations)"
  using assms
proof (induction operations arbitrary: s)
  case Nil
  then show ?case by (simp add: session_run_def)
next
  case (Cons operation operations)
  let ?n = "hs_last_request_id s" and ?c = "hc_next_effect_id (hs_capabilities s)"
  have n: "checked_add ?n 1 = Some (?n + 1)" and c: "checked_add ?c 1 = Some (?c + 1)"
    using Cons.prems(2,3) by (auto intro: checked_add_fits)
  let ?s = "s\<lparr>hs_capabilities := (hs_capabilities s)\<lparr>hc_next_effect_id := ?c + 1\<rparr>, hs_last_request_id := ?n + 1,
       hs_sent := hs_sent s @ [answer_to result (?n + 1, operation)]\<rparr>"
  note round = serve_round_idle [OF Cons.prems(1) n c, of operation]
  have "idle_session dh env result ?s" using Cons.prems(1) by (simp add: idle_session_def)
  moreover have "unat (?n + 1) + length operations < 2 ^ 32" "unat (?c + 1) + length operations < 2 ^ 64"
    using checked_add_Some [OF n] checked_add_Some [OF c] Cons.prems(2,3) by simp_all
  ultimately have "hs_sent (session_run dh (serve_rounds env (hs_last_request_id ?s) operations) ?s) =
     hs_sent ?s @ map (\<lambda>(i, operation). AvailabilityResultMsg (hs_last_request_id ?s + of_nat i + 1) operation result)
       (zip [0..<length operations] operations)"
    by (intro Cons.IH) simp_all
  moreover have "session_run dh (serve_rounds env ?n (operation # operations)) s =
      session_run dh (serve_rounds env (?n + 1) operations) ?s"
    using round by (simp add: session_run_def)
  moreover have "zip [0..<length (operation # operations)] (operation # operations) =
      (0, operation) # map (\<lambda>(i, operation). (Suc i, operation)) (zip [0..<length operations] operations)"
    by (simp add: upt_conv_Cons zip_map1 map_Suc_upt [symmetric] del: upt_Suc)
  ultimately show ?case by (simp add: answer_to_def case_prod_beta' comp_def algebra_simps)
qed

text \<open>
  C23: Requests are served: a session between two requests, whose pairing the store still
  confirms and whose counters have room, answers every consecutive request it then receives,
  each within six actions of its writer, with the configured availability.
\<close>

theorem session_serves_every_request:
  assumes "idle_session dh env result s" and "unat (hs_last_request_id s) + length operations < 2 ^ 32"
    and "unat (hc_next_effect_id (hs_capabilities s)) + length operations < 2 ^ 64"
  shows "hs_sent (session_run dh (serve_rounds env (hs_last_request_id s) operations) s) =
     hs_sent s @ map (\<lambda>(i, operation). AvailabilityResultMsg (hs_last_request_id s + of_nat i + 1) operation result)
       (zip [0..<length operations] operations)"
  by (rule serve_rounds_idle [OF assms])

lemma paired_generation_example:
  "paired_generation (\<lambda>x. x) (example_env j) (example_store g (Paired example_key example_tx)) =
     (Inr g, example_store g (Paired example_key example_tx))"
  unfolding paired_generation_def try_then_def read_identity_def read_example
  by (simp add: example_env_def example_store_def example_identity_def)

theorem session_serves_every_request_witness:
  "hs_sent (session_run (\<lambda>x. x) (serve_rounds (example_env True) 0 [[1], [2]]) (example_session\<lparr>hs_writer := WrClose\<rparr>)) =
     [AvailabilityResultMsg 1 [1] ArAvailable, AvailabilityResultMsg 2 [2] ArAvailable]"
  using session_serves_every_request [of "\<lambda>x. x" "example_env True" ArAvailable "example_session\<lparr>hs_writer := WrClose\<rparr>" "[[1], [2]]"]
    paired_generation_example [of True 3]
  by (simp add: idle_session_def example_session_def hc_new_def)

section \<open>Stopping\<close>

text \<open>
  A session whose reader has returned and whose writer will never be told: no stop in the
  channel, no close, a store that confirms the pairing.
\<close>

definition unstopped :: "(u8 list \<Rightarrow> u8 list) \<Rightarrow> store_env \<Rightarrow> host_session \<Rightarrow> bool" where
  "unstopped dh env s \<longleftrightarrow>
     paired_generation dh env (hs_store s) = (Inr (hs_generation s), hs_store s) \<and>
     reader_ended (hs_reader s) \<and> set (hs_controls s) \<subseteq> {WcPong} \<and> hs_close s = None \<and>
     hs_applications s = [] \<and> wq_close (hs_queue s) = None \<and> wq_application (hs_queue s) = [] \<and>
     hs_writer s \<in> {WrClose, WrControls, WrApplications, WrPop, WrWrite Ping, WrWrite Pong}"

lemma unstopped_step:
  assumes "unstopped dh env s"
  shows "unstopped dh env (writer_step dh env idle (Inr ()) s)"
proof -
  have pg: "paired_generation dh env (hs_store s) = (Inr (hs_generation s), hs_store s)"
    using assms by (simp add: unstopped_def)
  consider "hs_writer s = WrClose" | "hs_writer s = WrControls" | "hs_writer s = WrApplications"
    | "hs_writer s = WrPop" | "hs_writer s = WrWrite Ping" | "hs_writer s = WrWrite Pong"
    using assms by (auto simp: unstopped_def)
  then show ?thesis
  proof cases
    case 2
    then show ?thesis using assms
      by (cases "hs_controls s") (auto simp: unstopped_def writer_step_def wq_enqueue_pong_def)
  next
    case 4
    then show ?thesis using assms
      by (simp add: unstopped_def writer_step_def wq_pop_def wq_enqueue_ping_if_idle_def)
  qed (use assms pg in \<open>simp_all add: unstopped_def writer_step_def Let_def\<close>)
qed

lemma unstopped_run:
  "unstopped dh env s \<Longrightarrow> unstopped dh env (session_run dh (map (\<lambda>idle. EvWriter env idle (Inr ())) idles) s)"
  by (induction idles arbitrary: s) (simp_all add: session_run_def unstopped_step)

text \<open>
  C27: The stop can be lost: when the peer's last messages are a ping and an end of stream, read
  before the writer has taken the pong, the stop finds the control channel full. The reader has
  then returned, its caller waits for the writer to end, and the writer never does, however
  long it runs, as long as its writes succeed and the pairing stays.
\<close>

theorem session_stop_lost:
  assumes "idle_session dh env result s"
  defines "lost \<equiv> session_run dh [EvReceive env Ping, EvCheck, EvReadFails SxEndOfStream] s"
  shows "hs_reader lost = RdEnded (Inl SxEndOfStream) \<and>
     \<not> writer_ended (hs_writer (session_run dh (map (\<lambda>idle. EvWriter env idle (Inr ())) idles) lost))"
proof -
  have l: "lost = s\<lparr>hs_controls := [WcPong], hs_reader := RdEnded (Inl SxEndOfStream)\<rparr>"
    using assms(1)
    by (simp add: lost_def session_run_def idle_session_def reader_receive_def sw_enqueue_control_def reader_check_def
        end_reader_def)
  then have "unstopped dh env lost"
    using assms(1) by (simp add: idle_session_def unstopped_def wq_new_def)
  from unstopped_run [OF this, of idles]
  have "\<not> writer_ended (hs_writer (session_run dh (map (\<lambda>idle. EvWriter env idle (Inr ())) idles) lost))"
    by (auto simp: unstopped_def)
  then show ?thesis using l by simp
qed

theorem session_stop_lost_witness:
  "\<not> writer_ended (hs_writer (session_run (\<lambda>x. x)
     ([EvReceive (example_env True) Ping, EvCheck, EvReadFails SxEndOfStream] @
      map (\<lambda>idle. EvWriter (example_env True) idle (Inr ())) [False, False, True])
     (example_session\<lparr>hs_writer := WrClose\<rparr>)))"
proof -
  have "idle_session (\<lambda>x. x) (example_env True) ArAvailable (example_session\<lparr>hs_writer := WrClose\<rparr>)"
    using paired_generation_example [of True 3] by (simp add: idle_session_def example_session_def hc_new_def)
  from session_stop_lost [OF this, of "[False, False, True]"] show ?thesis
    unfolding session_run_def fold_append comp_apply by blast
qed

text \<open>In contrast, with room in the control channel the writer takes the stop and ends.\<close>

lemma stop_taken:
  assumes "hs_reader s = RdReading" and "hs_controls s = []" and "hs_writer s = WrControls"
  shows "hs_writer (session_run dh [EvReadFails e, EvWriter env idle written] s) = WrEnded (Inr ())"
  using assms
  by (simp add: session_run_def end_reader_def sw_enqueue_control_def writer_step_def writer_end_def Let_def)

section \<open>Opening a session\<close>

lemma bit_and_1: "(w :: u8) AND 1 = 0 \<longleftrightarrow> \<not> bit w 0" and bit_and_2: "(w :: u8) AND 2 = 0 \<longleftrightarrow> \<not> bit w 1"
  using bit_byte [of 0 w] bit_byte [of 1 w] by auto

lemma only_bit_0: "(w :: u8) AND NOT 1 = 0 \<longleftrightarrow> w \<in> {0, 1}"
proof
  assume e: "w AND NOT 1 = 0"
  have "\<not> bit w n" if "0 < n" for n
  proof
    assume w: "bit w n"
    then have "bit (w AND NOT 1) n" using that bit_imp_le_length [OF w] by (simp add: bit_simps bit_1_iff)
    then show False unfolding e by simp
  qed
  then have b: "bit w n \<longleftrightarrow> n = 0 \<and> bit w 0" for n by (cases n) auto
  have "w = (if bit w 0 then 1 else 0)"
  proof (rule bit_eqI)
    show "bit w n \<longleftrightarrow> bit (if bit w 0 then 1 else 0 :: u8) n" for n
      using b [of n] by (cases "bit w 0"; cases n) (auto simp: bit_1_iff)
  qed
  then show "w \<in> {0, 1}" by (auto split: if_splits)
qed auto

lemma length_8:
  assumes "length xs = 8"
  shows "xs = [xs ! 0, xs ! 1, xs ! 2, xs ! 3, xs ! 4, xs ! 5, xs ! 6, xs ! 7]"
  using assms by (intro nth_equalityI) (auto simp: less_Suc_eq numeral_eq_Suc)

text \<open>
  Admission is exact: a hello is accepted exactly when it offers protocol major one,
  requires no feature bit but the availability read, asks for that feature, required or optional,
  and requests its permission.
\<close>

theorem negotiate_hello_exact:
  assumes "length majors = 8" and "length required = 8" and "length optional = 8" and "length permissions = 8"
  shows "negotiate_hello (Hello session majors required optional permissions) = Inr session \<longleftrightarrow>
     bit (majors ! 0) 1 \<and> set (tl required) \<subseteq> {0} \<and> required ! 0 \<in> {0, 1} \<and>
     (bit (required ! 0) 0 \<or> bit (optional ! 0) 0) \<and> bit (permissions ! 0) 0"
proof -
  have "list_ex (\<lambda>(required, supported). required AND NOT supported \<noteq> 0) (zip required AVAILABILITY_READ_V1) \<longleftrightarrow>
      \<not> (required ! 0 \<in> {0, 1} \<and> set (tl required) \<subseteq> {0})"
    by (subst (1 3) length_8 [OF assms(2)]) (auto simp: AVAILABILITY_READ_V1_def only_bit_0 [simplified])
  then show ?thesis
    by (simp add: negotiate_hello_def AVAILABILITY_READ_V1_def AVAILABILITY_READ_PERMISSION_def bit_and_1 bit_and_2 bit_or_iff)
qed

theorem negotiate_hello_exact_witness:
  "negotiate_hello (Hello [1] PROTOCOL_MAJOR_1 (replicate 8 0) AVAILABILITY_READ_V1 AVAILABILITY_READ_PERMISSION) = Inr [1]"
  by (rule negotiate_hello_exact [THEN iffD2])
    (simp_all add: PROTOCOL_MAJOR_1_def AVAILABILITY_READ_V1_def AVAILABILITY_READ_PERMISSION_def)

text \<open>
  Host and client agree on the opening: the client's own hello is accepted, an
  acceptance is taken as one, and a rejection reaches the client as the error of its reason.
\<close>

theorem hello_agreement:
  "negotiate_hello (hello_of session) = Inr session \<and>
   (case negotiate_hello hello of
      Inr admitted \<Rightarrow> client_hello_reply admitted (hello_ack admitted) = Inr ()
    | Inl (rejected, reason) \<Rightarrow>
        client_hello_reply rejected (HelloReject rejected reason) = Inl (rejection_error reason))"
  by (auto simp: negotiate_hello_def hello_of_def client_hello_reply_def hello_ack_def PROTOCOL_MAJOR_1_def
      AVAILABILITY_READ_V1_def AVAILABILITY_READ_PERMISSION_def split: sum.split prod.split)

section \<open>Admission\<close>

definition verify_pinned_peer ::
  "(u8 list \<Rightarrow> u8 list) \<Rightarrow> store_env \<Rightarrow> u8 list option \<Rightarrow> (identity_store, session_error, u64) mut_call" where
  "verify_pinned_peer dh env remote_static self =
     (case remote_static of None \<Rightarrow> (Inl SxNoise, self) | Some remote \<Rightarrow>
      case read_identity dh env self of
        (Inl _, self) \<Rightarrow> (Inl SxIdentity, self)
      | (Inr identity, self) \<Rightarrow>
          (case id_peer identity of
             Paired key _ \<Rightarrow>
               (case decode_hex key of
                  Inl _ \<Rightarrow> (Inl SxIdentity, self)
                | Inr expected \<Rightarrow>
                    (if constant_time_eq remote expected then (Inr (id_generation identity), self)
                     else (Inl SxIdentity, self)))
           | _ \<Rightarrow> (Inl SxIdentity, self)))"

text \<open>\<open>IdentityStore::with_paired_generation\<close>.\<close>

definition with_paired_generation ::
  "(u8 list \<Rightarrow> u8 list) \<Rightarrow> store_env \<Rightarrow> u64 \<Rightarrow> (unit \<Rightarrow> 'a) \<Rightarrow> (identity_store, session_error, 'a) mut_call" where
  "with_paired_generation dh env generation action self =
     (case paired_generation dh env self of
        (Inl _, self) \<Rightarrow> (Inl SxIdentity, self)
      | (Inr current, self) \<Rightarrow>
          (if current \<noteq> generation then (Inl SxIdentity, self) else (Inr (action ()), self)))"

text \<open>
  What \<open>serve_stream_admitted_inner\<close> learns from the connection before the session runs: the
  prelude and the handshake with the remote static key, the hello, the outcome of the one message
  it writes, the store's answers to its three readings, and the requests the store serves to other
  threads (an unpairing by the owner, a pairing) between the first reading and the second and
  between the second and the third. The third is made under the session write gate, which a
  revocation takes before it is published.
\<close>

record opening_io =
  oi_prelude :: "session_error + u8 list"
  oi_handshake :: "session_error + u8 list option"
  oi_hello :: "session_error + message"
  oi_write :: "session_error + unit"
  oi_key_env :: store_env
  oi_peer_env :: store_env
  oi_gate_env :: store_env
  oi_before_peer :: "(store_env \<times> store_call) list"
  oi_before_gate :: "(store_env \<times> store_call) list"

datatype opening_outcome = OpRefused session_error | OpSession context_id u64

text \<open>
  The message written, if any, the admission flag as the attempt leaves it, and the outcome. The
  flag is released again (\<open>SessionAdmission::drop\<close>) on every path that does not open a session.
\<close>

definition serve_stream_admitted_inner ::
  "(u8 list \<Rightarrow> u8 list) \<Rightarrow> opening_io \<Rightarrow> bool option \<Rightarrow> identity_store \<Rightarrow>
     message option \<times> bool option \<times> opening_outcome \<times> identity_store" where
  "serve_stream_admitted_inner dh io admission store =
     (case oi_prelude io of Inl e \<Rightarrow> (None, admission, OpRefused e, store) | Inr prelude \<Rightarrow>
      if prelude \<noteq> PRELUDE then (None, admission, OpRefused SxProtocol, store)
      else
      (case read_identity dh (oi_key_env io) store of (Inl _, store) \<Rightarrow> (None, admission, OpRefused SxIdentity, store) | (Inr _, store) \<Rightarrow>
       case oi_handshake io of Inl e \<Rightarrow> (None, admission, OpRefused e, store) | Inr remote_static \<Rightarrow>
       case verify_pinned_peer dh (oi_peer_env io) remote_static (store_run dh (oi_before_peer io) store) of
         (Inl e, store) \<Rightarrow> (None, admission, OpRefused e, store)
       | (Inr generation, store) \<Rightarrow>
       case oi_hello io of Inl e \<Rightarrow> (None, admission, OpRefused e, store) | Inr hello \<Rightarrow>
       case negotiate_hello hello of
         Inl (session, reason) \<Rightarrow>
           (Some (HelloReject session reason), admission,
            OpRefused (case oi_write io of Inl e \<Rightarrow> e | Inr _ \<Rightarrow> SxProtocol), store)
       | Inr session \<Rightarrow>
           if admission = Some True then
             (Some (HelloReject session SessionBusy), admission,
              OpRefused (case oi_write io of Inl e \<Rightarrow> e | Inr _ \<Rightarrow> SxSessionBusy), store)
           else
             (case paired_generation dh (oi_gate_env io) (store_run dh (oi_before_gate io) store) of
                (Inl _, store) \<Rightarrow> (None, admission, OpRefused SxIdentity, store)
              | (Inr current, store) \<Rightarrow>
                  if current \<noteq> generation then (None, admission, OpRefused SxIdentity, store)
                  else
                    (case oi_write io of
                       Inl e \<Rightarrow> (Some (hello_ack session), admission, OpRefused e, store)
                     | Inr _ \<Rightarrow> (Some (hello_ack session), map_option (\<lambda>_. True) admission, OpSession session generation, store)))))"

text \<open>
  A session is admitted at a generation exactly when the identity can be read, is paired at
  that generation, and the remote static key is the pinned one.
\<close>

lemma pinned_peer_exact:
  "fst (verify_pinned_peer dh env remote s) = Inr g \<longleftrightarrow>
     (\<exists>i key t. fst (read_identity dh env s) = Inr i \<and> id_generation i = g \<and> id_peer i = Paired key t \<and>
        remote = Some (hex_pairs key) \<and> hex (hex_pairs key) = key)"
proof (cases remote)
  case (Some bytes)
  obtain q s' where rd: "read_identity dh env s = (q, s')" by fastforce
  show ?thesis
  proof (cases q)
    case (Inr i)
    show ?thesis
    proof (cases "\<exists>key t. id_peer i = Paired key t")
      case True
      then obtain key t where p: "id_peer i = Paired key t" by blast
      show ?thesis
      proof (cases "decode_hex key")
        case bad: (Inl e)
        then have "hex (hex_pairs key) \<noteq> key" using hex_codec.accepts_iff [of key "hex_pairs key"] by auto
        then show ?thesis using Some rd Inr p bad by (simp add: verify_pinned_peer_def)
      next
        case good: (Inr b)
        then have "hex b = key" using hex_codec.accepts_iff [of key b] by simp
        then have "hex_pairs key = b" "hex (hex_pairs key) = key" using hex_pairs_hex [of b] by auto
        then show ?thesis using Some rd Inr p good by (simp add: verify_pinned_peer_def constant_time_eq_iff eq_commute)
      qed
    next
      case False
      then show ?thesis using Some rd Inr
        by (cases "id_peer i") (auto simp: verify_pinned_peer_def)
    qed
  qed (auto simp: verify_pinned_peer_def Some rd)
qed (simp add: verify_pinned_peer_def)

lemma read_identity_value:
  assumes "fst (read_identity dh env s) = Inr i"
  shows "st_canonical s = Some i"
proof -
  have "read_unlocked dh env s = Inr i"
    using assms by (auto simp: read_identity_def split: option.splits sum.splits if_splits)
  then show ?thesis by (rule read_unlocked_value)
qed

lemma verify_pinned_store:
  "pairing_of (snd (verify_pinned_peer dh env remote s)) = pairing_of s"
proof -
  obtain r s' where rd: "read_identity dh env s = (r, s')" by fastforce
  have "snd (verify_pinned_peer dh env remote s) = (if remote = None then s else s')"
    by (cases remote; cases r)
      (auto simp: verify_pinned_peer_def rd split: peer_status.splits sum.splits)
  then show ?thesis using pairing_of_read [of dh env s] rd by simp
qed

text \<open>
  C28: A session opens only for the paired peer: if a connection gets a session, its generation is
  the one of the pairing the store holds when the acknowledgement is written, the connection proved
  the pinned key of exactly this pairing, its hello was acceptable, and no other session was
  admitted. This holds whatever requests the store served to other threads since the key was
  verified: a connection whose pairing was revoked meanwhile, even one that was paired again, gets
  no session.
\<close>

theorem session_opens_for_peer:
  assumes "serve_stream_admitted_inner dh io admission store = (written, admission', OpSession session generation, store')"
  shows "written = Some (hello_ack session) \<and> admission \<noteq> Some True \<and> admission' = map_option (\<lambda>_. True) admission \<and>
    (\<exists>key t. pairing_of store' = Some (generation, Paired key t) \<and> oi_handshake io = Inr (Some (hex_pairs key)) \<and>
       hex (hex_pairs key) = key) \<and>
    (\<exists>hello. oi_hello io = Inr hello \<and> negotiate_hello hello = Inr session)"
proof -
  obtain r1 s1 where k: "read_identity dh (oi_key_env io) store = (r1, s1)" by fastforce
  obtain x1 where r1: "r1 = Inr x1" using assms k
    by (cases r1) (auto simp: serve_stream_admitted_inner_def split: sum.splits if_splits)
  obtain remote where h: "oi_handshake io = Inr remote" using assms k r1
    by (cases "oi_handshake io") (auto simp: serve_stream_admitted_inner_def split: sum.splits if_splits)
  let ?p = "store_run dh (oi_before_peer io) s1"
  obtain r2 s2 where v: "verify_pinned_peer dh (oi_peer_env io) remote ?p = (r2, s2)" by fastforce
  obtain g where r2: "r2 = Inr g" using assms k r1 h v
    by (cases r2) (auto simp: serve_stream_admitted_inner_def split: sum.splits if_splits)
  let ?g = "store_run dh (oi_before_gate io) s2"
  obtain r3 s3 where p: "paired_generation dh (oi_gate_env io) ?g = (r3, s3)" by fastforce
  have o: "oi_prelude io = Inr PRELUDE" "written = Some (hello_ack session)" "admission \<noteq> Some True"
    "admission' = map_option (\<lambda>_. True) admission" "generation = g" "store' = s3" "r3 = Inr g"
    "\<exists>hello. oi_hello io = Inr hello \<and> negotiate_hello hello = Inr session"
    using assms k r1 h v r2 p by (auto simp: serve_stream_admitted_inner_def split: sum.splits if_splits prod.splits)
  obtain key t where pk: "remote = Some (hex_pairs key)" "hex (hex_pairs key) = key"
    and i: "\<exists>i. fst (read_identity dh (oi_peer_env io) ?p) = Inr i \<and> id_generation i = g \<and> id_peer i = Paired key t"
    using pinned_peer_exact [of dh "oi_peer_env io" remote ?p g] v r2 by auto
  have "pairing_of s2 = Some (g, Paired key t)"
    using verify_pinned_store [of dh "oi_peer_env io" remote ?p] v i read_identity_value by (auto simp: pairing_of_def)
  from paired_run [OF this, of dh "oi_before_gate io"]
  have "pairing_of ?g = Some (g, Paired key t)"
    using paired_generation_pairing [of dh "oi_gate_env io" ?g g] p o(7) by (auto simp: passed_def)
  moreover have "pairing_of s3 = pairing_of ?g" using paired_generation_store [of dh "oi_gate_env io" ?g] p by simp
  ultimately show ?thesis using o h pk by auto
qed

text \<open>
  The first connection meets only an unpairing request with a wrong key, the second is overtaken by
  an unpairing and a new pairing.
\<close>

definition example_io :: "(store_env \<times> store_call) list \<Rightarrow> opening_io" where
  "example_io calls = \<lparr>oi_prelude = Inr PRELUDE, oi_handshake = Inr (Some (replicate 32 1)), oi_hello = Inr (hello_of [5]),
     oi_write = Inr (), oi_key_env = example_env True, oi_peer_env = example_env True, oi_gate_env = example_env True,
     oi_before_peer = [], oi_before_gate = calls\<rparr>"

lemma example_peer:
  "verify_pinned_peer (\<lambda>x. x) (example_env True) (Some (replicate 32 1)) (example_store 3 (Paired example_key example_tx)) =
     (Inr 3, example_store 3 (Paired example_key example_tx))"
  "read_identity (\<lambda>x. x) (example_env True) (example_store 3 (Paired example_key example_tx)) =
     (Inr (example_identity 3 (Paired example_key example_tx)), example_store 3 (Paired example_key example_tx))"
proof -
  let ?s = "example_store 3 (Paired example_key example_tx)"
  show rd: "read_identity (\<lambda>x. x) (example_env True) ?s = (Inr (example_identity 3 (Paired example_key example_tx)), ?s)"
    unfolding read_identity_def read_example by (simp add: example_env_def example_store_def)
  have "decode_hex example_key = Inr (replicate 32 1)"
    using hex_codec.accepts_iff [of example_key "replicate 32 1"] by (simp add: example_key_def)
  then show "verify_pinned_peer (\<lambda>x. x) (example_env True) (Some (replicate 32 1)) ?s = (Inr 3, ?s)"
    by (simp add: verify_pinned_peer_def rd example_identity_def constant_time_eq_iff)
qed

lemma example_hello: "negotiate_hello (hello_of [5]) = Inr [5]"
  by (simp add: negotiate_hello_def hello_of_def PROTOCOL_MAJOR_1_def AVAILABILITY_READ_V1_def
      AVAILABILITY_READ_PERMISSION_def)

lemma example_overtaken:
  "\<exists>admission store. serve_stream_admitted_inner (\<lambda>x. x) (example_io example_repairing) (Some False)
     (example_store 3 (Paired example_key example_tx)) = (None, admission, OpRefused SxIdentity, store)"
proof -
  let ?g = "store_run (\<lambda>x. x) example_repairing (example_store 3 (Paired example_key example_tx))"
  obtain r s where p: "paired_generation (\<lambda>x. x) (example_env True) ?g = (r, s)" by fastforce
  have "r \<noteq> Inr 3" using paired_generation_pairing [of "\<lambda>x. x" "example_env True" ?g 3] p example_repaired by auto
  then show ?thesis using p
    by (cases r) (auto simp: serve_stream_admitted_inner_def example_io_def example_peer example_hello store_run_def)
qed

theorem session_opens_for_peer_witness:
  "(\<exists>key t. pairing_of (example_store 3 (Paired example_key example_tx)) = Some (3, Paired key t) \<and>
      oi_handshake (example_io [(example_env True, ScUnpair example_other_key)]) = Inr (Some (hex_pairs key))) \<and>
   (\<exists>admission store. serve_stream_admitted_inner (\<lambda>x. x) (example_io example_repairing) (Some False)
      (example_store 3 (Paired example_key example_tx)) = (None, admission, OpRefused SxIdentity, store))"
proof -
  let ?s = "example_store 3 (Paired example_key example_tx)"
  have "store_run (\<lambda>x. x) [(example_env True, ScUnpair example_other_key)] ?s = ?s"
    unfolding store_run_def store_step.simps unpair_inner_def fold_simps read_example
    by (simp add: example_env_def example_identity_def example_keys(5) [symmetric])
  then have "serve_stream_admitted_inner (\<lambda>x. x) (example_io [(example_env True, ScUnpair example_other_key)]) (Some False) ?s =
     (Some (hello_ack [5]), Some True, OpSession [5] 3, ?s)"
    by (simp add: serve_stream_admitted_inner_def example_io_def example_peer example_hello paired_generation_example)
      (simp add: store_run_def example_peer example_hello paired_generation_example)
  from session_opens_for_peer [OF this] show ?thesis using example_overtaken by blast
qed

end
