(* ===== verification/Pairing.thy ===== *)
theory Pairing
  imports Host_Session
begin

text \<open>
  \<open>apps/desktop-host/src/lib.rs\<close>, pairing: the responder (\<open>pair_responder_stream_reserved_inner\<close>)
  and the initiator (\<open>pair_initiator_until_inner\<close>) after their Noise handshake, as two parties that
  each run from one read of the stream to the next. The two share nothing but the messages they
  delivered to each other, in order. Clock, user, file system and stream are an argument of
  every step (\<open>pair_env\<close>).
\<close>

section \<open>Parties\<close>

datatype pair_pc =
  AwaitBegin
| AwaitRemoteDecision context_id
| AwaitRemotePrepared context_id
| AwaitCommit context_id
| AwaitFinalCommitted context_id
| AwaitHello context_id
| AwaitDecision context_id bool
| AwaitPrepared context_id
| AwaitCommitted context_id
| AwaitComplete context_id
| AwaitHelloReply context_id
| PairEnd "session_error + unit"

text \<open>Its program counter, its store, what it delivered to the other, and how much it read.\<close>

record party =
  pt_pc :: pair_pc
  pt_store :: identity_store
  pt_sent :: "message list"
  pt_read :: nat

text \<open>A failed write may have delivered its message all the same.\<close>

datatype write_outcome = Written | WriteFailed bool session_error

record pair_env =
  pv_late :: bool
  pv_late_again :: bool
  pv_reserved :: bool
  pv_confirmed :: bool
  pv_timer :: "session_error + unit"
  pv_store :: store_env
  pv_write :: write_outcome
  pv_close :: write_outcome

definition delivered :: "write_outcome \<Rightarrow> message \<Rightarrow> message list" where
  "delivered w m = (case w of Written \<Rightarrow> [m] | WriteFailed d _ \<Rightarrow> if d then [m] else [])"

definition pair_end :: "session_error + unit \<Rightarrow> party \<Rightarrow> party" where
  "pair_end r p = p\<lparr>pt_pc := PairEnd r\<rparr>"

text \<open>\<open>write_message(...)?\<close>, and on with the program.\<close>

definition say :: "pair_env \<Rightarrow> message \<Rightarrow> (party \<Rightarrow> party) \<Rightarrow> party \<Rightarrow> party" where
  "say env m k p =
     (let p = p\<lparr>pt_sent := pt_sent p @ delivered (pv_write env) m\<rparr>
      in case pv_write env of Written \<Rightarrow> k p | WriteFailed _ e \<Rightarrow> pair_end (Inl e) p)"

definition close_pairing :: "pair_env \<Rightarrow> context_id \<Rightarrow> pairing_close_reason \<Rightarrow> session_error \<Rightarrow> party \<Rightarrow> party" where
  "close_pairing env transaction reason error p =
     pair_end (Inl error) (p\<lparr>pt_sent := pt_sent p @ delivered (pv_close env) (PairingClose transaction reason)\<rparr>)"

definition set_peer_or_close ::
  "(u8 list \<Rightarrow> u8 list) \<Rightarrow> pair_env \<Rightarrow> context_id \<Rightarrow> peer_status \<Rightarrow> (party \<Rightarrow> party) \<Rightarrow> party \<Rightarrow> party" where
  "set_peer_or_close dh env transaction peer k p =
     (case set_peer dh (pv_store env) peer (pt_store p) of
        (Inl _, store) \<Rightarrow> close_pairing env transaction PcStoreFailed SxStoreFailed (p\<lparr>pt_store := store\<rparr>)
      | (Inr _, store) \<Rightarrow> k (p\<lparr>pt_store := store\<rparr>))"

definition unless_late :: "bool \<Rightarrow> pair_env \<Rightarrow> context_id \<Rightarrow> (party \<Rightarrow> party) \<Rightarrow> party \<Rightarrow> party" where
  "unless_late late env transaction k p =
     (if late then close_pairing env transaction PcExpired SxPairingTimeout p else k p)"

definition await :: "pair_pc \<Rightarrow> party \<Rightarrow> party" where
  "await pc p = p\<lparr>pt_pc := pc\<rparr>"

definition decision :: "bool \<Rightarrow> pairing_decision" where
  "decision confirmed = (if confirmed then Confirmed else Rejected)"

section \<open>The responder\<close>

text \<open>One definition per stretch from a read to the next; \<open>remote\<close> is the initiator's key.\<close>

definition rsp_begin :: "pair_env \<Rightarrow> message \<Rightarrow> party \<Rightarrow> party" where
  "rsp_begin env m p =
     (case m of
        PairingBegin transaction \<Rightarrow>
          unless_late (pv_late env) env transaction (\<lambda>p.
            if \<not> pv_reserved env then
              say env (PairingClose transaction PcPairingBusy) (pair_end (Inl SxSessionBusy)) p
            else
              say env (PairingDecision transaction (decision (pv_confirmed env))) (\<lambda>p.
                if \<not> pv_confirmed env then pair_end (Inl SxPairingRejected) p
                else
                  unless_late (pv_late_again env) env transaction (\<lambda>p.
                    case pv_timer env of
                      Inl e \<Rightarrow> pair_end (Inl e) p
                    | Inr _ \<Rightarrow> await (AwaitRemoteDecision transaction) p) p) p) p
      | _ \<Rightarrow> pair_end (Inl SxProtocol) p)"

definition rsp_decision :: "context_id \<Rightarrow> pair_env \<Rightarrow> message \<Rightarrow> party \<Rightarrow> party" where
  "rsp_decision transaction env m p =
     (case m of
        PairingDecision t d \<Rightarrow>
          if t = transaction then
            (case d of
               Confirmed \<Rightarrow>
                 (case pv_timer env of
                    Inl e \<Rightarrow> pair_end (Inl e) p
                  | Inr _ \<Rightarrow> await (AwaitRemotePrepared transaction) p)
             | Rejected \<Rightarrow> pair_end (Inl SxPairingRejected) p)
          else pair_end (Inl SxPairingIncomplete) p
      | _ \<Rightarrow> pair_end (Inl SxPairingIncomplete) p)"

definition rsp_prepared :: "(u8 list \<Rightarrow> u8 list) \<Rightarrow> string \<Rightarrow> context_id \<Rightarrow> pair_env \<Rightarrow> message \<Rightarrow> party \<Rightarrow> party" where
  "rsp_prepared dh remote transaction env m p =
     (if m = PairingPrepared transaction then
        unless_late (pv_late env) env transaction
          (set_peer_or_close dh env transaction (Pending remote (hex transaction))
            (say env (PairingPrepared transaction) (await (AwaitCommit transaction)))) p
      else pair_end (Inl SxProtocol) p)"

definition rsp_commit :: "(u8 list \<Rightarrow> u8 list) \<Rightarrow> string \<Rightarrow> context_id \<Rightarrow> pair_env \<Rightarrow> message \<Rightarrow> party \<Rightarrow> party" where
  "rsp_commit dh remote transaction env m p =
     (if m = PairingCommit transaction then
        unless_late (pv_late env) env transaction
          (set_peer_or_close dh env transaction (Committing remote (hex transaction))
            (say env (PairingCommitted transaction) (await (AwaitFinalCommitted transaction)))) p
      else pair_end (Inl SxProtocol) p)"

definition rsp_committed :: "context_id \<Rightarrow> pair_env \<Rightarrow> message \<Rightarrow> party \<Rightarrow> party" where
  "rsp_committed transaction env m p =
     (if m = PairingCommitted transaction then
        unless_late (pv_late env) env transaction
          (say env (PairingComplete transaction) (await (AwaitHello transaction))) p
      else pair_end (Inl SxProtocol) p)"

definition complete_responder_trust ::
  "(u8 list \<Rightarrow> u8 list) \<Rightarrow> store_env \<Rightarrow> string \<Rightarrow> string \<Rightarrow> message \<Rightarrow>
     (identity_store, session_error, context_id \<times> hello_reject_reason option) mut_call" where
  "complete_responder_trust dh env remote tx hello store =
     (case hello of
        Hello session _ _ _ _ \<Rightarrow>
          (let rejection = (case negotiate_hello hello of Inl (_, reason) \<Rightarrow> Some reason | Inr _ \<Rightarrow> None)
           in case set_peer dh env (Paired remote tx) store of
                (Inl _, store) \<Rightarrow> (Inl SxStoreFailed, store)
              | (Inr _, store) \<Rightarrow> (Inr (session, rejection), store))
      | _ \<Rightarrow> (Inl SxProtocol, store))"

definition rsp_hello :: "(u8 list \<Rightarrow> u8 list) \<Rightarrow> string \<Rightarrow> context_id \<Rightarrow> pair_env \<Rightarrow> message \<Rightarrow> party \<Rightarrow> party" where
  "rsp_hello dh remote transaction env m p =
     (case m of
        Hello _ _ _ _ _ \<Rightarrow>
          (case complete_responder_trust dh (pv_store env) remote (hex transaction) m (pt_store p) of
             (Inl error, store) \<Rightarrow>
               close_pairing env transaction (if error = SxStoreFailed then PcStoreFailed else PcIncomplete) error
                 (p\<lparr>pt_store := store\<rparr>)
           | (Inr (session, Some reason), store) \<Rightarrow>
               say env (HelloReject session reason) (pair_end (Inl (rejection_error reason))) (p\<lparr>pt_store := store\<rparr>)
           | (Inr (session, None), store) \<Rightarrow>
               say env (hello_ack session) (pair_end (Inr ())) (p\<lparr>pt_store := store\<rparr>))
      | _ \<Rightarrow> pair_end (Inl SxProtocol) p)"

text \<open>
  What comes before the first message: the connection, the prelude, the key from the store, and
  the handshake, which yields its hash. The authentication string of the hash is shown to the
  user; it does not decide anything here.
\<close>

record handshake_io =
  hk_loopback :: bool
  hk_connect :: "session_error + unit"
  hk_prelude :: "session_error + u8 list"
  hk_peer_env :: store_env
  hk_key_env :: store_env
  hk_handshake :: "session_error + u8 list"

definition new_party :: "identity_store \<Rightarrow> party" where
  "new_party store = \<lparr>pt_pc = AwaitBegin, pt_store = store, pt_sent = [], pt_read = 0\<rparr>"

definition handshake_done :: "(u8 list \<Rightarrow> u8 list) \<Rightarrow> handshake_io \<Rightarrow> (party \<Rightarrow> party) \<Rightarrow> identity_store \<Rightarrow> party" where
  "handshake_done dh io k store =
     (case read_identity dh (hk_key_env io) store of
        (Inl _, store) \<Rightarrow> pair_end (Inl SxIdentity) (new_party store)
      | (Inr _, store) \<Rightarrow>
          (case hk_handshake io of
             Inl e \<Rightarrow> pair_end (Inl e) (new_party store)
           | Inr hash \<Rightarrow>
               (case authentication_string hash of
                  Inl _ \<Rightarrow> pair_end (Inl SxProtocol) (new_party store)
                | Inr _ \<Rightarrow> k (new_party store))))"

definition responder_start :: "(u8 list \<Rightarrow> u8 list) \<Rightarrow> handshake_io \<Rightarrow> identity_store \<Rightarrow> party" where
  "responder_start dh io store =
     (case read_identity dh (hk_peer_env io) store of
        (Inl _, store) \<Rightarrow> pair_end (Inl SxIdentity) (new_party store)
      | (Inr identity, store) \<Rightarrow>
          if id_peer identity \<noteq> Unpaired then pair_end (Inl SxIdentity) (new_party store)
          else
            (case hk_connect io of Inl e \<Rightarrow> pair_end (Inl e) (new_party store) | Inr _ \<Rightarrow>
             case hk_prelude io of Inl e \<Rightarrow> pair_end (Inl e) (new_party store) | Inr prelude \<Rightarrow>
               if prelude \<noteq> PRELUDE then pair_end (Inl SxProtocol) (new_party store)
               else handshake_done dh io (\<lambda>p. p) store))"

text \<open>
  The window's shared state: consumed, a reservation waiting to be transferred, the reserved
  task finished. A connection that comes while it is consumed is told so.
\<close>

definition reserve_pairing_window :: "bool \<times> bool \<times> bool \<Rightarrow> bool \<times> (bool \<times> bool \<times> bool)" where
  "reserve_pairing_window state =
     (case state of (consumed, waiting, finished) \<Rightarrow>
        if consumed then (False, state) else (True, (True, True, finished)))"

definition reject_pairing_busy :: "pair_env \<Rightarrow> message \<Rightarrow> party \<Rightarrow> party" where
  "reject_pairing_busy env m p =
     (case m of
        PairingBegin transaction \<Rightarrow> say env (PairingClose transaction PcPairingBusy) (pair_end (Inr ())) p
      | _ \<Rightarrow> pair_end (Inl SxProtocol) p)"

section \<open>The initiator\<close>

definition initiator_start :: "(u8 list \<Rightarrow> u8 list) \<Rightarrow> handshake_io \<Rightarrow> pair_env \<Rightarrow> context_id \<Rightarrow> identity_store \<Rightarrow> party" where
  "initiator_start dh io env transaction store =
     (if \<not> hk_loopback io then pair_end (Inl SxNonLoopback) (new_party store)
      else
        case read_identity dh (hk_peer_env io) store of
          (Inl _, store) \<Rightarrow> pair_end (Inl SxIdentity) (new_party store)
        | (Inr identity, store) \<Rightarrow>
            if id_peer identity \<noteq> Unpaired then pair_end (Inl SxIdentity) (new_party store)
            else
              (case hk_connect io of Inl e \<Rightarrow> pair_end (Inl e) (new_party store) | Inr _ \<Rightarrow>
                 handshake_done dh io
                   (say env (PairingBegin transaction) (await (AwaitDecision transaction (pv_confirmed env)))) store))"

fun close_error :: "pairing_close_reason \<Rightarrow> session_error" where
  "close_error PcPairingBusy = SxSessionBusy"
| "close_error PcExpired = SxPairingTimeout"
| "close_error PcRejected = SxPairingRejected"
| "close_error PcStoreFailed = SxStoreFailed"
| "close_error PcIncomplete = SxPairingIncomplete"

text \<open>The two messages of this stretch, the decision and the preparation, have an outcome each.\<close>

definition ini_decision ::
  "(u8 list \<Rightarrow> u8 list) \<Rightarrow> string \<Rightarrow> context_id \<Rightarrow> bool \<Rightarrow> pair_env \<Rightarrow> write_outcome \<Rightarrow> message \<Rightarrow> party \<Rightarrow> party" where
  "ini_decision dh remote transaction local_confirmed env first_write m p =
     (let answer = (\<lambda>remote_confirmed.
        say (env\<lparr>pv_write := first_write\<rparr>) (PairingDecision transaction (decision local_confirmed)) (\<lambda>p.
          if \<not> remote_confirmed \<or> \<not> local_confirmed then pair_end (Inl SxPairingRejected) p
          else
            unless_late (pv_late env) env transaction
              (set_peer_or_close dh env transaction (Pending remote (hex transaction))
                (say env (PairingPrepared transaction) (await (AwaitPrepared transaction)))) p) p)
      in case m of
           PairingDecision t d \<Rightarrow> if t = transaction then answer (d = Confirmed) else pair_end (Inl SxProtocol) p
         | PairingClose t reason \<Rightarrow>
             if t = transaction then pair_end (Inl (close_error reason)) p else pair_end (Inl SxProtocol) p
         | _ \<Rightarrow> pair_end (Inl SxProtocol) p)"

definition ini_prepared :: "context_id \<Rightarrow> pair_env \<Rightarrow> message \<Rightarrow> party \<Rightarrow> party" where
  "ini_prepared transaction env m p =
     (if m = PairingPrepared transaction then
        unless_late (pv_late env) env transaction
          (say env (PairingCommit transaction) (await (AwaitCommitted transaction))) p
      else pair_end (Inl SxProtocol) p)"

definition ini_committed :: "(u8 list \<Rightarrow> u8 list) \<Rightarrow> string \<Rightarrow> context_id \<Rightarrow> pair_env \<Rightarrow> message \<Rightarrow> party \<Rightarrow> party" where
  "ini_committed dh remote transaction env m p =
     (if m = PairingCommitted transaction then
        set_peer_or_close dh env transaction (Committing remote (hex transaction))
          (say env (PairingCommitted transaction) (await (AwaitComplete transaction))) p
      else pair_end (Inl SxProtocol) p)"

definition ini_complete ::
  "(u8 list \<Rightarrow> u8 list) \<Rightarrow> string \<Rightarrow> context_id \<Rightarrow> context_id \<Rightarrow> pair_env \<Rightarrow> message \<Rightarrow> party \<Rightarrow> party" where
  "ini_complete dh remote transaction session env m p =
     (if m = PairingComplete transaction then
        unless_late (pv_late env) env transaction
          (set_peer_or_close dh env transaction (Paired remote (hex transaction))
            (say env (hello_of session) (await (AwaitHelloReply transaction)))) p
      else pair_end (Inl SxProtocol) p)"

definition ini_reply :: "context_id \<Rightarrow> message \<Rightarrow> party \<Rightarrow> party" where
  "ini_reply session m p =
     (case m of
        HelloAck s selected_major selected_features granted_permissions \<Rightarrow>
          pair_end (if selected_major = 1 \<and> s = session \<and> selected_features = AVAILABILITY_READ_V1 \<and>
                       granted_permissions = AVAILABILITY_READ_PERMISSION
                    then Inr () else Inl SxProtocol) p
      | HelloReject _ reason \<Rightarrow> pair_end (Inl (rejection_error reason)) p
      | _ \<Rightarrow> pair_end (Inl SxProtocol) p)"

section \<open>The two parties together\<close>

definition responder_step :: "(u8 list \<Rightarrow> u8 list) \<Rightarrow> string \<Rightarrow> pair_env \<Rightarrow> message \<Rightarrow> party \<Rightarrow> party" where
  "responder_step dh remote env m p =
     (case pt_pc p of
        AwaitBegin \<Rightarrow> rsp_begin env m p
      | AwaitRemoteDecision transaction \<Rightarrow> rsp_decision transaction env m p
      | AwaitRemotePrepared transaction \<Rightarrow> rsp_prepared dh remote transaction env m p
      | AwaitCommit transaction \<Rightarrow> rsp_commit dh remote transaction env m p
      | AwaitFinalCommitted transaction \<Rightarrow> rsp_committed transaction env m p
      | AwaitHello transaction \<Rightarrow> rsp_hello dh remote transaction env m p
      | _ \<Rightarrow> p)"

definition initiator_step ::
  "(u8 list \<Rightarrow> u8 list) \<Rightarrow> string \<Rightarrow> context_id \<Rightarrow> pair_env \<Rightarrow> write_outcome \<Rightarrow> message \<Rightarrow> party \<Rightarrow> party" where
  "initiator_step dh remote session env first_write m p =
     (case pt_pc p of
        AwaitDecision transaction confirmed \<Rightarrow> ini_decision dh remote transaction confirmed env first_write m p
      | AwaitPrepared transaction \<Rightarrow> ini_prepared transaction env m p
      | AwaitCommitted transaction \<Rightarrow> ini_committed dh remote transaction env m p
      | AwaitComplete transaction \<Rightarrow> ini_complete dh remote transaction session env m p
      | AwaitHelloReply transaction \<Rightarrow> ini_reply session m p
      | _ \<Rightarrow> p)"

record pairing_system =
  ps_responder :: party
  ps_initiator :: party

text \<open>
  A party takes the next message the other delivered, when there is one and it has not ended;
  or its read fails, at any time.
\<close>

datatype pair_event =
  ResponderReads pair_env
| ResponderFails session_error
| InitiatorReads pair_env write_outcome
| InitiatorFails session_error

fun pair_ended :: "pair_pc \<Rightarrow> bool" where
  "pair_ended (PairEnd _) \<longleftrightarrow> True"
| "pair_ended _ \<longleftrightarrow> False"

definition party_reads :: "(message \<Rightarrow> party \<Rightarrow> party) \<Rightarrow> message list \<Rightarrow> party \<Rightarrow> party" where
  "party_reads step arrived p =
     (if pair_ended (pt_pc p) \<or> length arrived \<le> pt_read p then p
      else step (arrived ! pt_read p) (p\<lparr>pt_read := Suc (pt_read p)\<rparr>))"

definition party_fails :: "session_error \<Rightarrow> party \<Rightarrow> party" where
  "party_fails e p = (if pair_ended (pt_pc p) then p else pair_end (Inl e) p)"

text \<open>The keys are the ones the handshake showed: each side's view of the other.\<close>

record pair_config =
  pcf_dh :: "u8 list \<Rightarrow> u8 list"
  pcf_responder_key :: string
  pcf_initiator_key :: string
  pcf_transaction :: context_id
  pcf_session :: context_id

fun pair_step :: "pair_config \<Rightarrow> pair_event \<Rightarrow> pairing_system \<Rightarrow> pairing_system" where
  "pair_step c (ResponderReads env) s =
     s\<lparr>ps_responder := party_reads (responder_step (pcf_dh c) (pcf_initiator_key c) env)
        (pt_sent (ps_initiator s)) (ps_responder s)\<rparr>"
| "pair_step c (ResponderFails e) s = s\<lparr>ps_responder := party_fails e (ps_responder s)\<rparr>"
| "pair_step c (InitiatorReads env w) s =
     s\<lparr>ps_initiator := party_reads (initiator_step (pcf_dh c) (pcf_responder_key c) (pcf_session c) env w)
        (pt_sent (ps_responder s)) (ps_initiator s)\<rparr>"
| "pair_step c (InitiatorFails e) s = s\<lparr>ps_initiator := party_fails e (ps_initiator s)\<rparr>"

definition pair_start :: "pair_config \<Rightarrow> handshake_io \<Rightarrow> handshake_io \<Rightarrow> pair_env \<Rightarrow> identity_store \<Rightarrow> identity_store \<Rightarrow> pairing_system" where
  "pair_start c io io' env responder_store initiator_store =
     \<lparr>ps_responder = responder_start (pcf_dh c) io responder_store,
      ps_initiator = initiator_start (pcf_dh c) io' env (pcf_transaction c) initiator_store\<rparr>"

definition pair_run :: "pair_config \<Rightarrow> pair_event list \<Rightarrow> pairing_system \<Rightarrow> pairing_system" where
  "pair_run c es s = fold (pair_step c) es s"

section \<open>What a party knows\<close>

definition peer_of :: "identity_store \<Rightarrow> peer_status option" where
  "peer_of store = map_option id_peer (st_canonical store)"

lemma set_peer_peer:
  assumes "set_peer dh env q store = (r, store')"
  shows "(is_ok r \<longrightarrow> peer_of store' = Some q) \<and> (peer_of store' = peer_of store \<or> peer_of store' = Some q)"
proof -
  have pub: "publish_locked w i store = (r, store') \<Longrightarrow>
      (is_ok r \<longrightarrow> st_canonical store' = Some i) \<and> (st_canonical store' = st_canonical store \<or> st_canonical store' = Some i)" for w i
    by (cases w) auto
  have "(\<exists>e. r = Inl e \<and> store' = store) \<or>
      (\<exists>i. publish_locked (nth_publish env 0) (i\<lparr>id_peer := q\<rparr>) store = (r, store'))"
  proof (cases "validate_peer q")
    case (Inl e)
    then have "(Inl e, store) = (r, store')" using assms by (simp add: set_peer_def)
    then show ?thesis by blast
  next
    case (Inr u)
    show ?thesis
    proof (cases "read_unlocked dh env store")
      case (Inl e)
      then show ?thesis using assms Inr by (auto simp: set_peer_def split: option.splits)
    next
      case (Inr i)
      then show ?thesis using assms \<open>validate_peer q = Inr u\<close>
        by (auto simp: set_peer_def split: option.splits if_splits)
    qed
  qed
  then consider (same) e where "r = Inl e" "store' = store"
    | (published) i where "publish_locked (nth_publish env 0) (i\<lparr>id_peer := q\<rparr>) store = (r, store')" by blast
  then show ?thesis
  proof cases
    case (published i)
    then show ?thesis using pub [of "nth_publish env 0" "i\<lparr>id_peer := q\<rparr>"] by (auto simp: peer_of_def)
  qed simp
qed

text \<open>
  The trust a party has stored, from what it has sent and read. The trust grows in three steps,
  and each message that leads the other on is sent only after the step before it is stored.
\<close>

definition rsp_facts :: "string \<Rightarrow> peer_status option \<Rightarrow> message set \<Rightarrow> message set \<Rightarrow> bool" where
  "rsp_facts remote peer sent arrived \<longleftrightarrow>
     (peer \<noteq> Some Unpaired \<longrightarrow>
        (\<exists>t. PairingBegin t \<in> arrived \<and> PairingDecision t Confirmed \<in> sent \<and> PairingDecision t Confirmed \<in> arrived \<and>
           PairingPrepared t \<in> arrived \<and>
           (peer = Some (Pending remote (hex t)) \<or>
            peer = Some (Committing remote (hex t)) \<or>
            (\<exists>s a b c d. Hello s a b c d \<in> arrived) \<and> peer = Some (Paired remote (hex t))))) \<and>
     (\<forall>t. PairingPrepared t \<in> sent \<longrightarrow> peer \<noteq> Some Unpaired) \<and>
     (\<forall>t. PairingCommitted t \<in> sent \<or> PairingComplete t \<in> sent \<longrightarrow>
        (\<exists>k t. peer = Some (Committing k t) \<or> peer = Some (Paired k t)))"

definition rsp_pc_ok :: "string \<Rightarrow> pair_pc \<Rightarrow> peer_status option \<Rightarrow> message set \<Rightarrow> message set \<Rightarrow> bool" where
  "rsp_pc_ok remote pc peer sent arrived \<longleftrightarrow>
     (case pc of
        AwaitBegin \<Rightarrow> peer = Some Unpaired
      | AwaitRemoteDecision t \<Rightarrow>
          peer = Some Unpaired \<and> PairingBegin t \<in> arrived \<and> PairingDecision t Confirmed \<in> sent
      | AwaitRemotePrepared t \<Rightarrow>
          peer = Some Unpaired \<and> PairingBegin t \<in> arrived \<and> PairingDecision t Confirmed \<in> sent \<and>
          PairingDecision t Confirmed \<in> arrived
      | AwaitCommit t \<Rightarrow> peer = Some (Pending remote (hex t))
      | AwaitFinalCommitted t \<Rightarrow> peer = Some (Committing remote (hex t))
      | AwaitHello t \<Rightarrow> peer = Some (Committing remote (hex t))
      | PairEnd _ \<Rightarrow> True
      | _ \<Rightarrow> False)"

definition ini_facts :: "string \<Rightarrow> context_id \<Rightarrow> peer_status option \<Rightarrow> message set \<Rightarrow> message set \<Rightarrow> bool" where
  "ini_facts remote t peer sent arrived \<longleftrightarrow>
     (\<forall>t'. PairingBegin t' \<in> sent \<longrightarrow> t' = t) \<and>
     (peer \<noteq> Some Unpaired \<longrightarrow>
        PairingDecision t Confirmed \<in> sent \<and> PairingDecision t Confirmed \<in> arrived \<and>
        (peer = Some (Pending remote (hex t)) \<or>
         PairingCommitted t \<in> arrived \<and>
         (peer = Some (Committing remote (hex t)) \<or>
          PairingComplete t \<in> arrived \<and> peer = Some (Paired remote (hex t))))) \<and>
     (\<forall>t. PairingPrepared t \<in> sent \<longrightarrow> peer \<noteq> Some Unpaired) \<and>
     (\<forall>t. PairingCommitted t \<in> sent \<longrightarrow> (\<exists>k t. peer = Some (Committing k t) \<or> peer = Some (Paired k t))) \<and>
     (\<forall>s a b c d. Hello s a b c d \<in> sent \<longrightarrow> (\<exists>k t. peer = Some (Paired k t)))"

definition ini_pc_ok :: "string \<Rightarrow> context_id \<Rightarrow> pair_pc \<Rightarrow> peer_status option \<Rightarrow> bool" where
  "ini_pc_ok remote t pc peer \<longleftrightarrow>
     (case pc of
        AwaitBegin \<Rightarrow> peer = Some Unpaired
      | AwaitDecision t' _ \<Rightarrow> t' = t \<and> peer = Some Unpaired
      | AwaitPrepared t' \<Rightarrow> t' = t \<and> peer = Some (Pending remote (hex t))
      | AwaitCommitted t' \<Rightarrow> t' = t \<and> peer = Some (Pending remote (hex t))
      | AwaitComplete t' \<Rightarrow> t' = t \<and> peer = Some (Committing remote (hex t))
      | AwaitHelloReply t' \<Rightarrow> t' = t \<and> peer = Some (Paired remote (hex t))
      | PairEnd _ \<Rightarrow> True
      | _ \<Rightarrow> False)"

definition rsp_inv :: "string \<Rightarrow> party \<Rightarrow> message set \<Rightarrow> bool" where
  "rsp_inv remote p arrived \<longleftrightarrow>
     rsp_facts remote (peer_of (pt_store p)) (set (pt_sent p)) arrived \<and>
     rsp_pc_ok remote (pt_pc p) (peer_of (pt_store p)) (set (pt_sent p)) arrived"

definition ini_inv :: "string \<Rightarrow> context_id \<Rightarrow> party \<Rightarrow> message set \<Rightarrow> bool" where
  "ini_inv remote t p arrived \<longleftrightarrow>
     ini_facts remote t (peer_of (pt_store p)) (set (pt_sent p)) arrived \<and>
     ini_pc_ok remote t (pt_pc p) (peer_of (pt_store p))"

lemmas party_defs = pair_end_def say_def close_pairing_def unless_late_def await_def delivered_def decision_def Let_def

lemma rsp_facts_more: "rsp_facts remote peer sent arrived \<Longrightarrow> rsp_facts remote peer sent (insert m arrived)"
  unfolding rsp_facts_def by blast

lemma ini_facts_more: "ini_facts remote t peer sent arrived \<Longrightarrow> ini_facts remote t peer sent (insert m arrived)"
  unfolding ini_facts_def by blast

lemma ini_facts_send [simp]:
  "ini_facts remote t peer (insert (PairingCommit u) sent) arrived \<longleftrightarrow> ini_facts remote t peer sent arrived"
  "ini_facts remote t peer (insert (PairingClose u reason) sent) arrived \<longleftrightarrow> ini_facts remote t peer sent arrived"
  "ini_facts remote t peer (sent \<union> {x. x = PairingCommit u \<and> b}) arrived \<longleftrightarrow> ini_facts remote t peer sent arrived"
  "ini_facts remote t peer (sent \<union> {x. x = PairingClose u reason \<and> b}) arrived \<longleftrightarrow> ini_facts remote t peer sent arrived"
  by (simp_all add: ini_facts_def)

lemma rsp_begin_inv:
  assumes "rsp_inv remote p arrived" and "pt_pc p = AwaitBegin"
  shows "rsp_inv remote (rsp_begin env m p) (insert m arrived)"
  using assms
  by (cases m) (auto simp: rsp_begin_def rsp_inv_def rsp_pc_ok_def rsp_facts_def party_defs split: write_outcome.split sum.split)

lemma rsp_decision_inv:
  assumes "rsp_inv remote p arrived" and "pt_pc p = AwaitRemoteDecision t"
  shows "rsp_inv remote (rsp_decision t env m p) (insert m arrived)"
  using assms
  by (cases m) (auto simp: rsp_decision_def rsp_inv_def rsp_pc_ok_def rsp_facts_def party_defs
      split: sum.split pairing_decision.split)

lemma rsp_prepared_inv:
  assumes "rsp_inv remote p arrived" and "pt_pc p = AwaitRemotePrepared t"
  shows "rsp_inv remote (rsp_prepared dh remote t env m p) (insert m arrived)"
proof -
  obtain r st where st: "set_peer dh (pv_store env) (Pending remote (hex t)) (pt_store p) = (r, st)" by fastforce
  note sp = set_peer_peer [OF st]
  show ?thesis using assms sp
    by (cases r; cases "m = PairingPrepared t")
      (auto simp: rsp_prepared_def rsp_inv_def rsp_pc_ok_def rsp_facts_def set_peer_or_close_def st party_defs
        split: write_outcome.split)
qed

lemma rsp_commit_inv:
  assumes "rsp_inv remote p arrived" and "pt_pc p = AwaitCommit t"
  shows "rsp_inv remote (rsp_commit dh remote t env m p) (insert m arrived)"
proof -
  obtain r st where st: "set_peer dh (pv_store env) (Committing remote (hex t)) (pt_store p) = (r, st)" by fastforce
  note sp = set_peer_peer [OF st]
  show ?thesis using assms sp
    by (cases r; cases "m = PairingCommit t")
      (auto simp: rsp_commit_def rsp_inv_def rsp_pc_ok_def rsp_facts_def set_peer_or_close_def st party_defs
        split: write_outcome.split)
qed

lemma rsp_committed_inv:
  assumes "rsp_inv remote p arrived" and "pt_pc p = AwaitFinalCommitted t"
  shows "rsp_inv remote (rsp_committed t env m p) (insert m arrived)"
  using assms
  by (cases "m = PairingCommitted t")
    (auto simp: rsp_committed_def rsp_inv_def rsp_pc_ok_def rsp_facts_def party_defs split: write_outcome.split)

lemma rsp_hello_inv:
  assumes "rsp_inv remote p arrived" and "pt_pc p = AwaitHello t"
  shows "rsp_inv remote (rsp_hello dh remote t env m p) (insert m arrived)"
proof (cases "\<exists>s a b c d. m = Hello s a b c d")
  case True
  then obtain s a b c d where m: "m = Hello s a b c d" by blast
  obtain r st where st: "set_peer dh (pv_store env) (Paired remote (hex t)) (pt_store p) = (r, st)" by fastforce
  note sp = set_peer_peer [OF st]
  have peer: "peer_of (pt_store p) = Some (Committing remote (hex t))"
    using assms by (simp add: rsp_inv_def rsp_pc_ok_def)
  from assms(1) peer obtain u where u: "PairingBegin u \<in> arrived" "PairingDecision u Confirmed \<in> set (pt_sent p)"
    "PairingDecision u Confirmed \<in> arrived" "PairingPrepared u \<in> arrived" "hex t = hex u"
    by (auto simp: rsp_inv_def rsp_facts_def)
  have "peer_of st = Some (Committing remote (hex u)) \<or> peer_of st = Some (Paired remote (hex u))"
    using sp peer u(5) by auto
  moreover have "\<exists>s a b c d. Hello s a b c d \<in> insert m arrived" using m by blast
  moreover from calculation(1) have "peer_of st \<noteq> Some Unpaired"
    "\<exists>k t. peer_of st = Some (Committing k t) \<or> peer_of st = Some (Paired k t)" by auto
  ultimately have facts: "rsp_facts remote (peer_of st) (set (pt_sent p)) (insert m arrived)"
    unfolding rsp_facts_def using u by blast
  show ?thesis
  proof (cases r)
    case (Inl e)
    then show ?thesis using facts
      by (auto simp: m rsp_hello_def complete_responder_trust_def st rsp_inv_def rsp_pc_ok_def party_defs
          rsp_facts_def split: write_outcome.split)
  next
    case (Inr x)
    then show ?thesis using facts
      by (cases "negotiate_hello m")
        (auto simp: m rsp_hello_def complete_responder_trust_def st rsp_inv_def rsp_pc_ok_def party_defs
          rsp_facts_def hello_ack_def split: write_outcome.split prod.split)
  qed
next
  case False
  then have "rsp_hello dh remote t env m p = pair_end (Inl SxProtocol) p"
    by (cases m) (auto simp: rsp_hello_def)
  then show ?thesis using assms(1) rsp_facts_more by (simp add: rsp_inv_def rsp_pc_ok_def pair_end_def)
qed

lemma responder_step_inv:
  assumes "rsp_inv remote p arrived"
  shows "rsp_inv remote (responder_step dh remote env m p) (insert m arrived)"
proof (cases "pt_pc p")
  case (PairEnd r)
  then show ?thesis using assms rsp_facts_more by (simp add: responder_step_def rsp_inv_def rsp_pc_ok_def)
qed (use assms in \<open>simp_all add: responder_step_def rsp_begin_inv rsp_decision_inv rsp_prepared_inv rsp_commit_inv
      rsp_committed_inv rsp_hello_inv\<close>, simp_all add: rsp_inv_def rsp_pc_ok_def)

lemma ini_prepare_inv:
  assumes "ini_facts remote t (Some Unpaired) (set (pt_sent p)) arrived" and "peer_of (pt_store p) = Some Unpaired"
    and "PairingDecision t Confirmed \<in> set (pt_sent p)" and "PairingDecision t Confirmed \<in> arrived"
  shows "ini_inv remote t (unless_late late env t (set_peer_or_close dh env t (Pending remote (hex t))
      (say env (PairingPrepared t) (await (AwaitPrepared t)))) p) arrived"
proof -
  obtain r st where st: "set_peer dh (pv_store env) (Pending remote (hex t)) (pt_store p) = (r, st)" by fastforce
  note sp = set_peer_peer [OF st]
  show ?thesis using assms sp
    by (cases r) (auto simp: ini_inv_def ini_pc_ok_def ini_facts_def set_peer_or_close_def st party_defs
        split: write_outcome.split)
qed

lemma ini_decision_inv:
  assumes "ini_inv remote t p arrived" and "pt_pc p = AwaitDecision t confirmed"
  shows "ini_inv remote t (ini_decision dh remote t confirmed env w m p) (insert m arrived)"
proof -
  have peer: "peer_of (pt_store p) = Some Unpaired" using assms by (simp add: ini_inv_def ini_pc_ok_def)
  have facts: "ini_facts remote t (Some Unpaired) (set (pt_sent p)) (insert m arrived)"
    using assms(1) peer ini_facts_more by (auto simp: ini_inv_def)
  let ?p = "\<lambda>ms. p\<lparr>pt_sent := pt_sent p @ ms\<rparr>"
  let ?d = "PairingDecision t (decision confirmed)"
  have facts': "ini_facts remote t (Some Unpaired) (set (pt_sent (?p ms))) (insert m arrived)" if "set ms \<subseteq> {?d}" for ms
    using facts that by (auto simp: ini_facts_def)
  have ended: "ini_inv remote t (pair_end r (?p ms)) (insert m arrived)" if "set ms \<subseteq> {?d}" for r ms
    using facts' [OF that] peer by (simp add: ini_inv_def ini_pc_ok_def pair_end_def)
  show ?thesis
  proof (cases "\<exists>d. m = PairingDecision t d")
    case True
    then obtain d where m: "m = PairingDecision t d" by blast
    show ?thesis
    proof (cases w)
      case (WriteFailed b e)
      then show ?thesis using ended [of "[?d]" "Inl e"] ended [of "[]" "Inl e"]
        by (simp add: m ini_decision_def say_def delivered_def Let_def pair_end_def)
    next
      case Written
      show ?thesis
      proof (cases "d = Confirmed \<and> confirmed")
        case True
        then have "ini_inv remote t (unless_late (pv_late env) env t (set_peer_or_close dh env t (Pending remote (hex t))
            (say env (PairingPrepared t) (await (AwaitPrepared t)))) (?p [?d])) (insert m arrived)"
          using facts' [of "[?d]"] peer by (intro ini_prepare_inv) (auto simp: m decision_def)
        then show ?thesis using True Written by (simp add: m ini_decision_def say_def delivered_def Let_def)
      next
        case False
        then show ?thesis using ended [of "[?d]" "Inl SxPairingRejected"] Written
          by (auto simp: m ini_decision_def say_def delivered_def Let_def)
      qed
    qed
  next
    case False
    then have "\<exists>e. ini_decision dh remote t confirmed env w m p = pair_end (Inl e) p"
      by (cases m) (auto simp: ini_decision_def Let_def)
    then show ?thesis using ended [of "[]"] by auto
  qed
qed

lemma ini_prepared_inv:
  assumes "ini_inv remote t p arrived" and "pt_pc p = AwaitPrepared t"
  shows "ini_inv remote t (ini_prepared t env m p) (insert m arrived)"
  using assms ini_facts_more [of remote t _ "set (pt_sent p)" arrived m]
  by (cases "m = PairingPrepared t"; cases "pv_late env"; cases "pv_write env"; cases "pv_close env")
    (simp_all add: ini_prepared_def ini_inv_def ini_pc_ok_def party_defs)

lemma ini_committed_inv:
  assumes "ini_inv remote t p arrived" and "pt_pc p = AwaitCommitted t"
  shows "ini_inv remote t (ini_committed dh remote t env m p) (insert m arrived)"
proof -
  obtain r st where st: "set_peer dh (pv_store env) (Committing remote (hex t)) (pt_store p) = (r, st)" by fastforce
  note sp = set_peer_peer [OF st]
  show ?thesis using assms sp
    by (cases r; cases "m = PairingCommitted t")
      (auto simp: ini_committed_def ini_inv_def ini_pc_ok_def ini_facts_def set_peer_or_close_def st party_defs
        split: write_outcome.split)
qed

lemma ini_complete_inv:
  assumes "ini_inv remote t p arrived" and "pt_pc p = AwaitComplete t"
  shows "ini_inv remote t (ini_complete dh remote t session env m p) (insert m arrived)"
proof -
  obtain r st where st: "set_peer dh (pv_store env) (Paired remote (hex t)) (pt_store p) = (r, st)" by fastforce
  note sp = set_peer_peer [OF st]
  show ?thesis using assms sp
    by (cases r; cases "m = PairingComplete t")
      (auto simp: ini_complete_def ini_inv_def ini_pc_ok_def ini_facts_def set_peer_or_close_def st party_defs
        hello_of_def split: write_outcome.split)
qed

lemma ini_reply_inv:
  assumes "ini_inv remote t p arrived"
  shows "ini_inv remote t (ini_reply session m p) (insert m arrived)"
proof -
  have "\<exists>r. ini_reply session m p = pair_end r p" by (cases m) (auto simp: ini_reply_def)
  then show ?thesis using assms ini_facts_more by (auto simp: ini_inv_def ini_pc_ok_def pair_end_def)
qed

lemma initiator_step_inv:
  assumes "ini_inv remote t p arrived"
  shows "ini_inv remote t (initiator_step dh remote session env w m p) (insert m arrived)"
proof (cases "pt_pc p")
  case (AwaitDecision t' confirmed)
  moreover from this have "t' = t" using assms by (simp add: ini_inv_def ini_pc_ok_def)
  ultimately show ?thesis using ini_decision_inv [OF assms] by (simp add: initiator_step_def)
next
  case (AwaitPrepared t')
  moreover from this have "t' = t" using assms by (simp add: ini_inv_def ini_pc_ok_def)
  ultimately show ?thesis using ini_prepared_inv [OF assms] by (simp add: initiator_step_def)
next
  case (AwaitCommitted t')
  moreover from this have "t' = t" using assms by (simp add: ini_inv_def ini_pc_ok_def)
  ultimately show ?thesis using ini_committed_inv [OF assms] by (simp add: initiator_step_def)
next
  case (AwaitComplete t')
  moreover from this have "t' = t" using assms by (simp add: ini_inv_def ini_pc_ok_def)
  ultimately show ?thesis using ini_complete_inv [OF assms] by (simp add: initiator_step_def)
next
  case (AwaitHelloReply t')
  then show ?thesis using ini_reply_inv [OF assms] by (simp add: initiator_step_def)
qed (use assms in \<open>auto simp: initiator_step_def ini_inv_def ini_pc_ok_def intro: ini_facts_more\<close>)

section \<open>Agreement\<close>

definition arrived_at :: "party \<Rightarrow> party \<Rightarrow> message set" where
  "arrived_at p other = set (take (pt_read p) (pt_sent other))"

definition pair_inv :: "pair_config \<Rightarrow> pairing_system \<Rightarrow> bool" where
  "pair_inv c s \<longleftrightarrow>
     rsp_inv (pcf_initiator_key c) (ps_responder s) (arrived_at (ps_responder s) (ps_initiator s)) \<and>
     ini_inv (pcf_responder_key c) (pcf_transaction c) (ps_initiator s) (arrived_at (ps_initiator s) (ps_responder s)) \<and>
     pt_read (ps_responder s) \<le> length (pt_sent (ps_initiator s)) \<and>
     pt_read (ps_initiator s) \<le> length (pt_sent (ps_responder s))"

text \<open>What a party delivers is only ever added to, so what has arrived stays.\<close>

definition grows :: "party \<Rightarrow> party \<Rightarrow> bool" where
  "grows p p' \<longleftrightarrow> (\<exists>ms. pt_sent p' = pt_sent p @ ms) \<and> pt_read p' = pt_read p"

lemma grows_party:
  "grows p (pair_end r p)" "grows p (await pc p)" "grows p p"
  "(\<And>p'. grows p p' \<Longrightarrow> grows p (k p')) \<Longrightarrow> grows p q \<Longrightarrow> grows p (say env m k q)"
  "grows p q \<Longrightarrow> grows p (close_pairing env t reason e q)"
  "(\<And>p'. grows p p' \<Longrightarrow> grows p (k p')) \<Longrightarrow> grows p q \<Longrightarrow> grows p (unless_late late env t k q)"
  "(\<And>p'. grows p p' \<Longrightarrow> grows p (k p')) \<Longrightarrow> grows p q \<Longrightarrow> grows p (set_peer_or_close dh env t peer k q)"
  "grows p q \<Longrightarrow> grows p (pair_end r q)" "grows p q \<Longrightarrow> grows p (await pc q)"
  "grows p q \<Longrightarrow> grows p (q\<lparr>pt_store := st\<rparr>)"
proof -
  have fields: "grows p q \<Longrightarrow> grows p (q\<lparr>pt_sent := pt_sent q @ ms\<rparr>)" "grows p q \<Longrightarrow> grows p (q\<lparr>pt_pc := pc\<rparr>)"
    "grows p q \<Longrightarrow> grows p (q\<lparr>pt_store := st\<rparr>)" for q ms pc st
    by (auto simp: grows_def)
  then show "grows p q \<Longrightarrow> grows p (q\<lparr>pt_store := st\<rparr>)" "grows p q \<Longrightarrow> grows p (pair_end r q)"
    "grows p q \<Longrightarrow> grows p (await pc q)" by (auto simp: pair_end_def await_def)
  show "grows p p" "grows p (pair_end r p)" "grows p (await pc p)"
    by (auto simp: grows_def pair_end_def await_def)
  have close: "grows p q \<Longrightarrow> grows p (close_pairing env t reason e q)" for q e t reason
    by (auto simp: close_pairing_def pair_end_def intro: fields)
  then show "grows p q \<Longrightarrow> grows p (close_pairing env t reason e q)" .
  show "(\<And>p'. grows p p' \<Longrightarrow> grows p (k p')) \<Longrightarrow> grows p q \<Longrightarrow> grows p (say env m k q)"
    by (auto simp: say_def Let_def pair_end_def intro: fields split: write_outcome.split)
  show "(\<And>p'. grows p p' \<Longrightarrow> grows p (k p')) \<Longrightarrow> grows p q \<Longrightarrow> grows p (unless_late late env t k q)"
    by (auto simp: unless_late_def intro: close)
  show "(\<And>p'. grows p p' \<Longrightarrow> grows p (k p')) \<Longrightarrow> grows p q \<Longrightarrow> grows p (set_peer_or_close dh env t peer k q)"
    by (auto simp: set_peer_or_close_def intro: close fields split: prod.split sum.split)
qed

lemma responder_grows: "grows p (responder_step dh remote env m p)"
  unfolding responder_step_def rsp_begin_def rsp_decision_def rsp_prepared_def rsp_commit_def rsp_committed_def rsp_hello_def
  by (auto intro!: grows_party split: pair_pc.split message.split pairing_decision.split sum.split prod.split option.split)

lemma initiator_grows: "grows p (initiator_step dh remote session env w m p)"
  unfolding initiator_step_def ini_decision_def ini_prepared_def ini_committed_def ini_complete_def ini_reply_def Let_def
  by (auto intro!: grows_party split: pair_pc.split message.split)


lemma pair_inv_step:
  assumes "pair_inv c s"
  shows "pair_inv c (pair_step c e s)"
proof -
  let ?r = "ps_responder s" and ?i = "ps_initiator s"
  have inv: "rsp_inv (pcf_initiator_key c) ?r (arrived_at ?r ?i)"
    "ini_inv (pcf_responder_key c) (pcf_transaction c) ?i (arrived_at ?i ?r)"
    "pt_read ?r \<le> length (pt_sent ?i)" "pt_read ?i \<le> length (pt_sent ?r)"
    using assms by (simp_all add: pair_inv_def)
  have mono: "arrived_at p (q\<lparr>pt_sent := pt_sent q @ ms\<rparr>) = arrived_at p q" if "pt_read p \<le> length (pt_sent q)" for p q ms
    using that by (simp add: arrived_at_def)
  have same: "arrived_at p q' = arrived_at p q" if "grows q q'" "pt_read p \<le> length (pt_sent q)" for p q q'
    using that by (auto simp: grows_def arrived_at_def)
  have next_read: "arrived_at (p\<lparr>pt_read := Suc (pt_read p)\<rparr>) q = insert (pt_sent q ! pt_read p) (arrived_at p q)"
    if "pt_read p < length (pt_sent q)" for p q
    using that by (simp add: arrived_at_def take_Suc_conv_app_nth)
  have fails: "rsp_inv k (party_fails e p) arrived" if "rsp_inv k p arrived" for k e p arrived
    using that by (auto simp: party_fails_def pair_end_def rsp_inv_def rsp_pc_ok_def)
  have fails': "ini_inv k t (party_fails e p) arrived" if "ini_inv k t p arrived" for k t e p arrived
    using that by (auto simp: party_fails_def pair_end_def ini_inv_def ini_pc_ok_def)
  have quiet: "pt_sent (party_fails e p) = pt_sent p" "pt_read (party_fails e p) = pt_read p" for e p
    by (simp_all add: party_fails_def pair_end_def)
  show ?thesis
  proof (cases e)
    case (ResponderReads env)
    show ?thesis
    proof (cases "pair_ended (pt_pc ?r) \<or> length (pt_sent ?i) \<le> pt_read ?r")
      case True
      then show ?thesis using assms ResponderReads by (simp add: party_reads_def)
    next
      case False
      let ?p = "?r\<lparr>pt_read := Suc (pt_read ?r)\<rparr>" and ?m = "pt_sent ?i ! pt_read ?r"
      let ?p' = "responder_step (pcf_dh c) (pcf_initiator_key c) env ?m ?p"
      have g: "grows ?p ?p'" by (rule responder_grows)
      then have g': "pt_read ?p' = Suc (pt_read ?r)" "\<exists>ms. pt_sent ?p' = pt_sent ?r @ ms" by (auto simp: grows_def)
      have "rsp_inv (pcf_initiator_key c) ?p (arrived_at ?r ?i)" using inv(1) by (simp add: rsp_inv_def)
      then have "rsp_inv (pcf_initiator_key c) ?p' (insert ?m (arrived_at ?r ?i))" by (rule responder_step_inv)
      moreover have "arrived_at ?p' ?i = insert ?m (arrived_at ?r ?i)"
        using next_read [of ?r ?i] False g' by (simp add: arrived_at_def)
      moreover have "arrived_at ?i ?p' = arrived_at ?i ?r" using g' inv(4) by (auto simp: arrived_at_def)
      ultimately show ?thesis using inv False ResponderReads g' by (auto simp: pair_inv_def party_reads_def)
    qed
  next
    case (InitiatorReads env w)
    show ?thesis
    proof (cases "pair_ended (pt_pc ?i) \<or> length (pt_sent ?r) \<le> pt_read ?i")
      case True
      then show ?thesis using assms InitiatorReads by (simp add: party_reads_def)
    next
      case False
      let ?p = "?i\<lparr>pt_read := Suc (pt_read ?i)\<rparr>" and ?m = "pt_sent ?r ! pt_read ?i"
      let ?p' = "initiator_step (pcf_dh c) (pcf_responder_key c) (pcf_session c) env w ?m ?p"
      have g: "grows ?p ?p'" by (rule initiator_grows)
      then have g': "pt_read ?p' = Suc (pt_read ?i)" "\<exists>ms. pt_sent ?p' = pt_sent ?i @ ms" by (auto simp: grows_def)
      have "ini_inv (pcf_responder_key c) (pcf_transaction c) ?p (arrived_at ?i ?r)" using inv(2) by (simp add: ini_inv_def)
      then have "ini_inv (pcf_responder_key c) (pcf_transaction c) ?p' (insert ?m (arrived_at ?i ?r))"
        by (rule initiator_step_inv)
      moreover have "arrived_at ?p' ?r = insert ?m (arrived_at ?i ?r)"
        using next_read [of ?i ?r] False g' by (simp add: arrived_at_def)
      moreover have "arrived_at ?r ?p' = arrived_at ?r ?i" using g' inv(3) by (auto simp: arrived_at_def)
      ultimately show ?thesis using inv False InitiatorReads g' by (auto simp: pair_inv_def party_reads_def)
    qed
  next
    case (ResponderFails err)
    then show ?thesis using inv fails by (simp add: pair_inv_def arrived_at_def quiet)
  next
    case (InitiatorFails err)
    then show ?thesis using inv fails' by (simp add: pair_inv_def arrived_at_def quiet)
  qed
qed

lemma pair_inv_run: "pair_inv c s \<Longrightarrow> pair_inv c (pair_run c es s)"
  by (induction es arbitrary: s) (simp_all add: pair_run_def pair_inv_step)

lemma peer_of_read: "peer_of (snd (read_identity dh env store)) = peer_of store"
  by (simp add: peer_of_def read_identity_canonical)

lemma peer_of_read_eq: "read_identity dh env store = (r, store') \<Longrightarrow> peer_of store' = peer_of store"
  using peer_of_read [of dh env store] by simp

lemma new_party_inv:
  assumes "peer_of store = Some Unpaired"
  shows "rsp_inv k (new_party store) {}" and "rsp_inv k (pair_end r (new_party store)) {}"
    and "ini_inv k t (pair_end r (new_party store)) {}"
    and "ini_inv k t (say env (PairingBegin t) (await (AwaitDecision t confirmed)) (new_party store)) {}"
    and "pt_read (new_party store) = 0" and "pt_read (pair_end r (new_party store)) = 0"
    and "pt_read (say env (PairingBegin t) (await (AwaitDecision t confirmed)) (new_party store)) = 0"
  using assms
  by (auto simp: new_party_def rsp_inv_def ini_inv_def rsp_pc_ok_def ini_pc_ok_def rsp_facts_def ini_facts_def party_defs
      split: write_outcome.split)

lemma responder_start_inv:
  assumes "peer_of store = Some Unpaired"
  shows "rsp_inv k (responder_start dh io store) {} \<and> pt_read (responder_start dh io store) = 0"
  using assms
  by (auto simp: responder_start_def handshake_done_def new_party_inv dest!: peer_of_read_eq split: prod.split sum.split)

lemma initiator_start_inv:
  assumes "peer_of store = Some Unpaired"
  shows "ini_inv k t (initiator_start dh io env t store) {} \<and> pt_read (initiator_start dh io env t store) = 0"
  using assms
  by (auto simp: initiator_start_def handshake_done_def new_party_inv dest!: peer_of_read_eq split: prod.split sum.split)

lemma pair_inv_start:
  assumes "peer_of rs = Some Unpaired" and "peer_of is = Some Unpaired"
  shows "pair_inv c (pair_start c io io' env rs is)"
  using responder_start_inv [OF assms(1)] initiator_start_inv [OF assms(2)]
  by (simp add: pair_start_def pair_inv_def arrived_at_def)

text \<open>
  What holds of the stored trust in every state: by the facts each party has about the other's
  messages.
\<close>

lemma pair_inv_agreement:
  assumes "pair_inv c s"
  defines "responder \<equiv> peer_of (pt_store (ps_responder s))" and "initiator \<equiv> peer_of (pt_store (ps_initiator s))"
  shows "(\<exists>k t. responder = Some (Paired k t)) \<Longrightarrow> \<exists>k t. initiator = Some (Paired k t)"
    and "(\<exists>k t. initiator = Some (Paired k t)) \<Longrightarrow> \<exists>k t. responder = Some (Committing k t) \<or> responder = Some (Paired k t)"
    and "responder \<noteq> Some Unpaired \<Longrightarrow> initiator \<noteq> Some Unpaired"
    and "initiator \<noteq> Some Unpaired \<Longrightarrow>
       PairingDecision (pcf_transaction c) Confirmed \<in> set (pt_sent (ps_responder s)) \<and>
       PairingDecision (pcf_transaction c) Confirmed \<in> set (pt_sent (ps_initiator s))"
    and "responder \<in> {Some Unpaired, Some (Pending (pcf_initiator_key c) (hex (pcf_transaction c))),
       Some (Committing (pcf_initiator_key c) (hex (pcf_transaction c))), Some (Paired (pcf_initiator_key c) (hex (pcf_transaction c)))}"
    and "initiator \<in> {Some Unpaired, Some (Pending (pcf_responder_key c) (hex (pcf_transaction c))),
       Some (Committing (pcf_responder_key c) (hex (pcf_transaction c))), Some (Paired (pcf_responder_key c) (hex (pcf_transaction c)))}"
proof -
  let ?r = "ps_responder s" and ?i = "ps_initiator s" and ?t = "pcf_transaction c"
  have facts: "rsp_facts (pcf_initiator_key c) responder (set (pt_sent ?r)) (arrived_at ?r ?i)"
    "ini_facts (pcf_responder_key c) ?t initiator (set (pt_sent ?i)) (arrived_at ?i ?r)"
    using assms by (simp_all add: pair_inv_def rsp_inv_def ini_inv_def)
  have sub: "arrived_at ?r ?i \<subseteq> set (pt_sent ?i)" "arrived_at ?i ?r \<subseteq> set (pt_sent ?r)"
    by (simp_all add: arrived_at_def set_take_subset)
  have tx: "PairingBegin u \<in> arrived_at ?r ?i \<Longrightarrow> u = ?t" for u
    using facts(2) sub(1) unfolding ini_facts_def by blast
  show "\<exists>k t. initiator = Some (Paired k t)" if paired: "\<exists>k t. responder = Some (Paired k t)"
  proof -
    have "responder \<noteq> Some Unpaired" "\<And>k t. responder \<noteq> Some (Pending k t)" "\<And>k t. responder \<noteq> Some (Committing k t)"
      using paired by auto
    then have "\<exists>s a b c d. Hello s a b c d \<in> arrived_at ?r ?i" using facts(1) unfolding rsp_facts_def by metis
    then show ?thesis using facts(2) sub(1) unfolding ini_facts_def by blast
  qed
  show "\<exists>k t. responder = Some (Committing k t) \<or> responder = Some (Paired k t)"
    if paired: "\<exists>k t. initiator = Some (Paired k t)"
  proof -
    have "initiator \<noteq> Some Unpaired" "\<And>k t. initiator \<noteq> Some (Pending k t)" "\<And>k t. initiator \<noteq> Some (Committing k t)"
      using paired by auto
    then have "PairingComplete ?t \<in> arrived_at ?i ?r" using facts(2) unfolding ini_facts_def by metis
    then show ?thesis using facts(1) sub(2) unfolding rsp_facts_def by blast
  qed
  show "initiator \<noteq> Some Unpaired" if trusts: "responder \<noteq> Some Unpaired"
  proof -
    obtain u where "PairingPrepared u \<in> arrived_at ?r ?i" using facts(1) trusts unfolding rsp_facts_def by blast
    then show ?thesis using facts(2) sub(1) unfolding ini_facts_def by blast
  qed
  show "PairingDecision ?t Confirmed \<in> set (pt_sent ?r) \<and> PairingDecision ?t Confirmed \<in> set (pt_sent ?i)"
    if "initiator \<noteq> Some Unpaired"
    using that facts(2) sub(2) unfolding ini_facts_def by blast
  show "responder \<in> {Some Unpaired, Some (Pending (pcf_initiator_key c) (hex ?t)),
       Some (Committing (pcf_initiator_key c) (hex ?t)), Some (Paired (pcf_initiator_key c) (hex ?t))}"
    using facts(1) tx unfolding rsp_facts_def by blast
  show "initiator \<in> {Some Unpaired, Some (Pending (pcf_responder_key c) (hex ?t)),
       Some (Committing (pcf_responder_key c) (hex ?t)), Some (Paired (pcf_responder_key c) (hex ?t))}"
    using facts(2) unfolding ini_facts_def by blast
qed

text \<open>
  C16: Pairing agrees. Whatever the interleaving, the two users, the clocks, the file systems
  and the stream do: a host that has stored the trust faces an initiator that has stored it too,
  and an initiator that has faces a host that has at least committed to it, in the same
  transaction, each under the other's key; and nobody stores anything of the other unless both
  users confirmed.
\<close>

theorem pairing_agreement:
  assumes "peer_of responder_store = Some Unpaired" and "peer_of initiator_store = Some Unpaired"
  shows "let s = pair_run c es (pair_start c io io' env responder_store initiator_store);
      responder = peer_of (pt_store (ps_responder s)); initiator = peer_of (pt_store (ps_initiator s));
      rk = pcf_responder_key c; ik = pcf_initiator_key c; t = hex (pcf_transaction c)
    in responder \<in> {Some Unpaired, Some (Pending ik t), Some (Committing ik t), Some (Paired ik t)} \<and>
       initiator \<in> {Some Unpaired, Some (Pending rk t), Some (Committing rk t), Some (Paired rk t)} \<and>
       (responder = Some (Paired ik t) \<longrightarrow> initiator = Some (Paired rk t)) \<and>
       (initiator = Some (Paired rk t) \<longrightarrow> responder \<in> {Some (Committing ik t), Some (Paired ik t)}) \<and>
       (responder = Some Unpaired \<and> initiator = Some Unpaired \<or>
        PairingDecision (pcf_transaction c) Confirmed \<in> set (pt_sent (ps_responder s)) \<and>
        PairingDecision (pcf_transaction c) Confirmed \<in> set (pt_sent (ps_initiator s)))"
proof -
  have "pair_inv c (pair_run c es (pair_start c io io' env responder_store initiator_store))"
    by (rule pair_inv_run [OF pair_inv_start [OF assms]])
  note a = pair_inv_agreement [OF this]
  let ?s = "pair_run c es (pair_start c io io' env responder_store initiator_store)"
  let ?R = "peer_of (pt_store (ps_responder ?s))" and ?I = "peer_of (pt_store (ps_initiator ?s))"
  have "?R = Some (Paired ik t) \<Longrightarrow> ?I = Some (Paired (pcf_responder_key c) (hex (pcf_transaction c)))" for ik t
    using a(1,6) by auto
  moreover have "?I = Some (Paired rk t) \<Longrightarrow>
      ?R \<in> {Some (Committing (pcf_initiator_key c) (hex (pcf_transaction c))), Some (Paired (pcf_initiator_key c) (hex (pcf_transaction c)))}" for rk t
    using a(2,5) by auto
  ultimately show ?thesis unfolding Let_def using a(3-6) by (intro conjI) (assumption | blast)+
qed

section \<open>Completion\<close>

text \<open>A user who confirms, a clock before the deadline, a file system and a stream that work.\<close>

definition smooth :: pair_env where
  "smooth = \<lparr>pv_late = False, pv_late_again = False, pv_reserved = True, pv_confirmed = True, pv_timer = Inr (),
     pv_store = example_env True, pv_write = Written, pv_close = Written\<rparr>"

definition smooth_handshake :: "u8 list \<Rightarrow> handshake_io" where
  "smooth_handshake hash = \<lparr>hk_loopback = True, hk_connect = Inr (), hk_prelude = Inr PRELUDE, hk_peer_env = example_env True,
     hk_key_env = example_env True, hk_handshake = Inr hash\<rparr>"

definition smooth_events :: "pair_event list" where
  "smooth_events =
     (let r = ResponderReads smooth; i = InitiatorReads smooth Written in [r, i, r, r, i, r, i, r, i, r, i])"

definition stored :: "identity \<Rightarrow> peer_status \<Rightarrow> identity_store" where
  "stored i peer = \<lparr>st_canonical = Some (i\<lparr>id_peer := peer\<rparr>), st_temporary = False\<rparr>"

lemma stored_read:
  assumes "identity_ok dh (i\<lparr>id_peer := peer\<rparr>)"
  shows "read_identity dh (example_env True) (stored i peer) = (Inr (i\<lparr>id_peer := peer\<rparr>), stored i peer)"
proof -
  have "read_unlocked dh (example_env True) (stored i peer) = Inr (i\<lparr>id_peer := peer\<rparr>)"
    using assms by (simp add: read_unlocked_iff stored_def example_env_def)
  then show ?thesis by (simp add: read_identity_def) (simp add: example_env_def stored_def)
qed

lemma stored_set_peer:
  assumes "identity_ok dh (i\<lparr>id_peer := peer\<rparr>)" and "valid_peer_transition peer q" and "validate_peer q = Inr ()"
  shows "set_peer dh (example_env True) q (stored i peer) = (Inr (), stored i q)"
proof -
  have "read_unlocked dh (example_env True) (stored i peer) = Inr (i\<lparr>id_peer := peer\<rparr>)"
    using assms(1) by (simp add: read_unlocked_iff stored_def example_env_def)
  then show ?thesis using assms(2,3)
    by (simp add: set_peer_def) (simp add: example_env_def nth_publish_def stored_def)
qed

lemma pairing_steps:
  assumes "identity_ok dh (i\<lparr>id_peer := Unpaired\<rparr>)" and "is_ok (validate_hex key 32)" and "is_ok (validate_hex tx 16)"
  shows "read_identity dh (example_env True) (stored i Unpaired) = (Inr (i\<lparr>id_peer := Unpaired\<rparr>), stored i Unpaired)"
    and "set_peer dh (example_env True) (Pending key tx) (stored i Unpaired) = (Inr (), stored i (Pending key tx))"
    and "set_peer dh (example_env True) (Committing key tx) (stored i (Pending key tx)) = (Inr (), stored i (Committing key tx))"
    and "set_peer dh (example_env True) (Paired key tx) (stored i (Committing key tx)) = (Inr (), stored i (Paired key tx))"
proof -
  have v: "validate_hex key 32 = Inr ()" "validate_hex tx 16 = Inr ()" using assms(2,3) by (auto simp: is_ok_iff)
  have ok: "identity_ok dh (i\<lparr>id_peer := Pending key tx\<rparr>)" "identity_ok dh (i\<lparr>id_peer := Committing key tx\<rparr>)"
    using assms(1) v by (simp_all add: identity_ok_def)
  show "read_identity dh (example_env True) (stored i Unpaired) = (Inr (i\<lparr>id_peer := Unpaired\<rparr>), stored i Unpaired)"
    by (rule stored_read [OF assms(1)])
  show "set_peer dh (example_env True) (Pending key tx) (stored i Unpaired) = (Inr (), stored i (Pending key tx))"
    "set_peer dh (example_env True) (Committing key tx) (stored i (Pending key tx)) = (Inr (), stored i (Committing key tx))"
    "set_peer dh (example_env True) (Paired key tx) (stored i (Committing key tx)) = (Inr (), stored i (Paired key tx))"
    using v by (auto intro!: stored_set_peer assms(1) ok)
qed

text \<open>
  C17: Pairing completes: after a handshake with a hash long enough to be shown, two stores without
  a peer, both users confirming in time and everything working, end paired with each other in the transaction of the initiator, and both
  sides report success.
\<close>

theorem pairing_completes:
  assumes "identity_ok dh (ri\<lparr>id_peer := Unpaired\<rparr>)" and "identity_ok dh (ii\<lparr>id_peer := Unpaired\<rparr>)"
    and "is_ok (validate_hex rk 32)" and "is_ok (validate_hex ik 32)" and "is_ok (validate_hex (hex t) 16)"
    and "4 \<le> length hash"
  shows "let c = \<lparr>pcf_dh = dh, pcf_responder_key = rk, pcf_initiator_key = ik, pcf_transaction = t, pcf_session = session\<rparr>;
      s = pair_run c smooth_events (pair_start c (smooth_handshake hash) (smooth_handshake hash) smooth (stored ri Unpaired) (stored ii Unpaired))
    in pt_store (ps_responder s) = stored ri (Paired ik (hex t)) \<and> pt_store (ps_initiator s) = stored ii (Paired rk (hex t)) \<and>
       pt_pc (ps_responder s) = PairEnd (Inr ()) \<and> pt_pc (ps_initiator s) = PairEnd (Inr ())"
proof -
  note r = pairing_steps [OF assms(1,4,5)]
  note i = pairing_steps [OF assms(2,3,5)]
  have n: "negotiate_hello (hello_of session) = Inr session"
    by (simp add: negotiate_hello_def hello_of_def PROTOCOL_MAJOR_1_def AVAILABILITY_READ_V1_def
        AVAILABILITY_READ_PERMISSION_def)
  let ?P = "\<lambda>pc st sent k. \<lparr>pt_pc = pc, pt_store = st, pt_sent = sent, pt_read = k\<rparr>"
  let ?x = "hex t"
  note step_defs = responder_step_def initiator_step_def smooth_def say_def await_def pair_end_def unless_late_def
    set_peer_or_close_def delivered_def decision_def
  have R: "responder_step dh ik smooth (PairingBegin t) (?P AwaitBegin st m k) =
      ?P (AwaitRemoteDecision t) st (m @ [PairingDecision t Confirmed]) k"
    "responder_step dh ik smooth (PairingDecision t Confirmed) (?P (AwaitRemoteDecision t) st m k) =
      ?P (AwaitRemotePrepared t) st m k"
    "responder_step dh ik smooth (PairingPrepared t) (?P (AwaitRemotePrepared t) (stored ri Unpaired) m k) =
      ?P (AwaitCommit t) (stored ri (Pending ik ?x)) (m @ [PairingPrepared t]) k"
    "responder_step dh ik smooth (PairingCommit t) (?P (AwaitCommit t) (stored ri (Pending ik ?x)) m k) =
      ?P (AwaitFinalCommitted t) (stored ri (Committing ik ?x)) (m @ [PairingCommitted t]) k"
    "responder_step dh ik smooth (PairingCommitted t) (?P (AwaitFinalCommitted t) st m k) =
      ?P (AwaitHello t) st (m @ [PairingComplete t]) k" for st m k
    by (simp_all add: step_defs rsp_begin_def rsp_decision_def rsp_prepared_def rsp_commit_def rsp_committed_def r)
  have h: "\<exists>a b c d. hello_of session = Hello session a b c d" by (simp add: hello_of_def)
  have hello: "responder_step dh ik smooth (hello_of session) (?P (AwaitHello t) (stored ri (Committing ik ?x)) m k) =
      ?P (PairEnd (Inr ())) (stored ri (Paired ik ?x)) (m @ [hello_ack session]) k" for m k
    using h n by (auto simp: step_defs rsp_hello_def complete_responder_trust_def r)
  have I: "initiator_step dh rk session smooth Written (PairingDecision t Confirmed) (?P (AwaitDecision t True) (stored ii Unpaired) m k) =
      ?P (AwaitPrepared t) (stored ii (Pending rk ?x)) (m @ [PairingDecision t Confirmed, PairingPrepared t]) k"
    "initiator_step dh rk session smooth Written (PairingPrepared t) (?P (AwaitPrepared t) st m k) =
      ?P (AwaitCommitted t) st (m @ [PairingCommit t]) k"
    "initiator_step dh rk session smooth Written (PairingCommitted t) (?P (AwaitCommitted t) (stored ii (Pending rk ?x)) m k) =
      ?P (AwaitComplete t) (stored ii (Committing rk ?x)) (m @ [PairingCommitted t]) k"
    "initiator_step dh rk session smooth Written (PairingComplete t) (?P (AwaitComplete t) (stored ii (Committing rk ?x)) m k) =
      ?P (AwaitHelloReply t) (stored ii (Paired rk ?x)) (m @ [hello_of session]) k"
    "initiator_step dh rk session smooth Written (hello_ack session) (?P (AwaitHelloReply t) st m k) =
      ?P (PairEnd (Inr ())) st m k" for st m k
    by (simp_all add: step_defs ini_decision_def ini_prepared_def ini_committed_def ini_complete_def ini_reply_def
        hello_ack_def i Let_def)
  have sas: "\<exists>s. authentication_string hash = Inr s" using assms(6) by (simp add: authentication_string_def)
  have S: "responder_start dh (smooth_handshake hash) (stored ri Unpaired) = ?P AwaitBegin (stored ri Unpaired) [] 0"
    "initiator_start dh (smooth_handshake hash) smooth t (stored ii Unpaired) = ?P (AwaitDecision t True) (stored ii Unpaired) [PairingBegin t] 0"
    using sas by (auto simp: responder_start_def initiator_start_def handshake_done_def new_party_def smooth_handshake_def r i
        step_defs Let_def)
  let ?c = "\<lparr>pcf_dh = dh, pcf_responder_key = rk, pcf_initiator_key = ik, pcf_transaction = t, pcf_session = session\<rparr>"
  let ?S = "\<lambda>r i. \<lparr>ps_responder = r, ps_initiator = i\<rparr>"
  let ?r = "ResponderReads smooth" and ?i = "InitiatorReads smooth Written"
  have s1: "pair_step ?c ?r (?S (?P (AwaitBegin) (stored ri (Unpaired)) [] 0)
        (?P (AwaitDecision t True) (stored ii (Unpaired)) [PairingBegin t] 0)) =
      ?S (?P (AwaitRemoteDecision t) (stored ri (Unpaired)) [PairingDecision t Confirmed] (Suc 0))
        (?P (AwaitDecision t True) (stored ii (Unpaired)) [PairingBegin t] 0)"
    by (simp add: party_reads_def R I hello)
  have s2: "pair_step ?c ?i (?S (?P (AwaitRemoteDecision t) (stored ri (Unpaired)) [PairingDecision t Confirmed] (Suc 0))
        (?P (AwaitDecision t True) (stored ii (Unpaired)) [PairingBegin t] 0)) =
      ?S (?P (AwaitRemoteDecision t) (stored ri (Unpaired)) [PairingDecision t Confirmed] (Suc 0))
        (?P (AwaitPrepared t) (stored ii (Pending rk ?x)) [PairingBegin t, PairingDecision t Confirmed, PairingPrepared t] (Suc 0))"
    by (simp add: party_reads_def R I hello)
  have s3: "pair_step ?c ?r (?S (?P (AwaitRemoteDecision t) (stored ri (Unpaired)) [PairingDecision t Confirmed] (Suc 0))
        (?P (AwaitPrepared t) (stored ii (Pending rk ?x)) [PairingBegin t, PairingDecision t Confirmed, PairingPrepared t] (Suc 0))) =
      ?S (?P (AwaitRemotePrepared t) (stored ri (Unpaired)) [PairingDecision t Confirmed] (Suc (Suc 0)))
        (?P (AwaitPrepared t) (stored ii (Pending rk ?x)) [PairingBegin t, PairingDecision t Confirmed, PairingPrepared t] (Suc 0))"
    by (simp add: party_reads_def R I hello)
  have s4: "pair_step ?c ?r (?S (?P (AwaitRemotePrepared t) (stored ri (Unpaired)) [PairingDecision t Confirmed] (Suc (Suc 0)))
        (?P (AwaitPrepared t) (stored ii (Pending rk ?x)) [PairingBegin t, PairingDecision t Confirmed, PairingPrepared t] (Suc 0))) =
      ?S (?P (AwaitCommit t) (stored ri (Pending ik ?x)) [PairingDecision t Confirmed, PairingPrepared t] (Suc (Suc (Suc 0))))
        (?P (AwaitPrepared t) (stored ii (Pending rk ?x)) [PairingBegin t, PairingDecision t Confirmed, PairingPrepared t] (Suc 0))"
    by (simp add: party_reads_def R I hello)
  have s5: "pair_step ?c ?i (?S (?P (AwaitCommit t) (stored ri (Pending ik ?x)) [PairingDecision t Confirmed, PairingPrepared t] (Suc (Suc (Suc 0))))
        (?P (AwaitPrepared t) (stored ii (Pending rk ?x)) [PairingBegin t, PairingDecision t Confirmed, PairingPrepared t] (Suc 0))) =
      ?S (?P (AwaitCommit t) (stored ri (Pending ik ?x)) [PairingDecision t Confirmed, PairingPrepared t] (Suc (Suc (Suc 0))))
        (?P (AwaitCommitted t) (stored ii (Pending rk ?x)) [PairingBegin t, PairingDecision t Confirmed, PairingPrepared t, PairingCommit t] (Suc (Suc 0)))"
    by (simp add: party_reads_def R I hello)
  have s6: "pair_step ?c ?r (?S (?P (AwaitCommit t) (stored ri (Pending ik ?x)) [PairingDecision t Confirmed, PairingPrepared t] (Suc (Suc (Suc 0))))
        (?P (AwaitCommitted t) (stored ii (Pending rk ?x)) [PairingBegin t, PairingDecision t Confirmed, PairingPrepared t, PairingCommit t] (Suc (Suc 0)))) =
      ?S (?P (AwaitFinalCommitted t) (stored ri (Committing ik ?x)) [PairingDecision t Confirmed, PairingPrepared t, PairingCommitted t] (Suc (Suc (Suc (Suc 0)))))
        (?P (AwaitCommitted t) (stored ii (Pending rk ?x)) [PairingBegin t, PairingDecision t Confirmed, PairingPrepared t, PairingCommit t] (Suc (Suc 0)))"
    by (simp add: party_reads_def R I hello)
  have s7: "pair_step ?c ?i (?S (?P (AwaitFinalCommitted t) (stored ri (Committing ik ?x)) [PairingDecision t Confirmed, PairingPrepared t, PairingCommitted t] (Suc (Suc (Suc (Suc 0)))))
        (?P (AwaitCommitted t) (stored ii (Pending rk ?x)) [PairingBegin t, PairingDecision t Confirmed, PairingPrepared t, PairingCommit t] (Suc (Suc 0)))) =
      ?S (?P (AwaitFinalCommitted t) (stored ri (Committing ik ?x)) [PairingDecision t Confirmed, PairingPrepared t, PairingCommitted t] (Suc (Suc (Suc (Suc 0)))))
        (?P (AwaitComplete t) (stored ii (Committing rk ?x)) [PairingBegin t, PairingDecision t Confirmed, PairingPrepared t, PairingCommit t, PairingCommitted t] (Suc (Suc (Suc 0))))"
    by (simp add: party_reads_def R I hello)
  have s8: "pair_step ?c ?r (?S (?P (AwaitFinalCommitted t) (stored ri (Committing ik ?x)) [PairingDecision t Confirmed, PairingPrepared t, PairingCommitted t] (Suc (Suc (Suc (Suc 0)))))
        (?P (AwaitComplete t) (stored ii (Committing rk ?x)) [PairingBegin t, PairingDecision t Confirmed, PairingPrepared t, PairingCommit t, PairingCommitted t] (Suc (Suc (Suc 0))))) =
      ?S (?P (AwaitHello t) (stored ri (Committing ik ?x)) [PairingDecision t Confirmed, PairingPrepared t, PairingCommitted t, PairingComplete t] (Suc (Suc (Suc (Suc (Suc 0))))))
        (?P (AwaitComplete t) (stored ii (Committing rk ?x)) [PairingBegin t, PairingDecision t Confirmed, PairingPrepared t, PairingCommit t, PairingCommitted t] (Suc (Suc (Suc 0))))"
    by (simp add: party_reads_def R I hello)
  have s9: "pair_step ?c ?i (?S (?P (AwaitHello t) (stored ri (Committing ik ?x)) [PairingDecision t Confirmed, PairingPrepared t, PairingCommitted t, PairingComplete t] (Suc (Suc (Suc (Suc (Suc 0))))))
        (?P (AwaitComplete t) (stored ii (Committing rk ?x)) [PairingBegin t, PairingDecision t Confirmed, PairingPrepared t, PairingCommit t, PairingCommitted t] (Suc (Suc (Suc 0))))) =
      ?S (?P (AwaitHello t) (stored ri (Committing ik ?x)) [PairingDecision t Confirmed, PairingPrepared t, PairingCommitted t, PairingComplete t] (Suc (Suc (Suc (Suc (Suc 0))))))
        (?P (AwaitHelloReply t) (stored ii (Paired rk ?x)) [PairingBegin t, PairingDecision t Confirmed, PairingPrepared t, PairingCommit t, PairingCommitted t, hello_of session] (Suc (Suc (Suc (Suc 0)))))"
    by (simp add: party_reads_def R I hello)
  have s10: "pair_step ?c ?r (?S (?P (AwaitHello t) (stored ri (Committing ik ?x)) [PairingDecision t Confirmed, PairingPrepared t, PairingCommitted t, PairingComplete t] (Suc (Suc (Suc (Suc (Suc 0))))))
        (?P (AwaitHelloReply t) (stored ii (Paired rk ?x)) [PairingBegin t, PairingDecision t Confirmed, PairingPrepared t, PairingCommit t, PairingCommitted t, hello_of session] (Suc (Suc (Suc (Suc 0)))))) =
      ?S (?P (PairEnd (Inr ())) (stored ri (Paired ik ?x)) [PairingDecision t Confirmed, PairingPrepared t, PairingCommitted t, PairingComplete t, hello_ack session] (Suc (Suc (Suc (Suc (Suc (Suc 0)))))))
        (?P (AwaitHelloReply t) (stored ii (Paired rk ?x)) [PairingBegin t, PairingDecision t Confirmed, PairingPrepared t, PairingCommit t, PairingCommitted t, hello_of session] (Suc (Suc (Suc (Suc 0)))))"
    by (simp add: party_reads_def R I hello)
  have s11: "pair_step ?c ?i (?S (?P (PairEnd (Inr ())) (stored ri (Paired ik ?x)) [PairingDecision t Confirmed, PairingPrepared t, PairingCommitted t, PairingComplete t, hello_ack session] (Suc (Suc (Suc (Suc (Suc (Suc 0)))))))
        (?P (AwaitHelloReply t) (stored ii (Paired rk ?x)) [PairingBegin t, PairingDecision t Confirmed, PairingPrepared t, PairingCommit t, PairingCommitted t, hello_of session] (Suc (Suc (Suc (Suc 0)))))) =
      ?S (?P (PairEnd (Inr ())) (stored ri (Paired ik ?x)) [PairingDecision t Confirmed, PairingPrepared t, PairingCommitted t, PairingComplete t, hello_ack session] (Suc (Suc (Suc (Suc (Suc (Suc 0)))))))
        (?P (PairEnd (Inr ())) (stored ii (Paired rk ?x)) [PairingBegin t, PairingDecision t Confirmed, PairingPrepared t, PairingCommit t, PairingCommitted t, hello_of session] (Suc (Suc (Suc (Suc (Suc 0))))))"
    by (simp add: party_reads_def R I hello)
  show ?thesis
    by (simp only: Let_def pair_start_def pair_config.simps S smooth_events_def pair_run_def fold_simps
        s1 s2 s3 s4 s5 s6 s7 s8 s9 s10 s11 pairing_system.simps party.simps refl simp_thms)
qed

lemma example_identity_ok: "identity_ok (\<lambda>x. x) ((example_identity g p)\<lparr>id_peer := Unpaired\<rparr>)"
proof -
  have "identity_ok (\<lambda>x. x) (example_identity 3 (Paired example_key example_tx))"
    using read_example [of True 3] by (simp add: read_unlocked_iff)
  then show ?thesis by (simp add: identity_ok_def example_identity_def)
qed

lemma example_hex: "is_ok (validate_hex example_key 32)" "is_ok (validate_hex example_tx 16)"
  "example_tx = hex (replicate 16 2)"
proof -
  have "list_all lower_hex (hex bs)" for bs using hex_lower by blast
  then show "is_ok (validate_hex example_key 32)" "is_ok (validate_hex example_tx 16)" "example_tx = hex (replicate 16 2)"
    by (simp_all add: validate_hex_def example_key_def example_tx_def)
qed

definition example_config :: pair_config where
  "example_config = \<lparr>pcf_dh = (\<lambda>x. x), pcf_responder_key = example_key, pcf_initiator_key = example_key,
     pcf_transaction = replicate 16 2, pcf_session = [7]\<rparr>"

theorem pairing_completes_witness:
  "pt_store (ps_responder (pair_run example_config smooth_events
     (pair_start example_config (smooth_handshake [0, 0, 0, 42]) (smooth_handshake [0, 0, 0, 42]) smooth (stored (example_identity 3 Unpaired) Unpaired)
       (stored (example_identity 5 Unpaired) Unpaired)))) =
   stored (example_identity 3 Unpaired) (Paired example_key example_tx)"
  using pairing_completes [OF example_identity_ok [of 3 Unpaired] example_identity_ok [of 5 Unpaired] example_hex(1,1), of "replicate 16 2" "[0, 0, 0, 42]" "[7]"]
    example_hex
  by (simp add: Let_def example_config_def)

theorem pairing_agreement_witness:
  "peer_of (pt_store (ps_responder (pair_run example_config smooth_events
     (pair_start example_config (smooth_handshake [0, 0, 0, 42]) (smooth_handshake [0, 0, 0, 42]) smooth (stored (example_identity 3 Unpaired) Unpaired)
       (stored (example_identity 5 Unpaired) Unpaired))))) \<noteq> Some (Revoking [] [])"
  using pairing_agreement [of "stored (example_identity 3 Unpaired) Unpaired" "stored (example_identity 5 Unpaired) Unpaired"
      example_config smooth_events "smooth_handshake [0, 0, 0, 42]" "smooth_handshake [0, 0, 0, 42]" smooth]
  by (auto simp: Let_def peer_of_def stored_def)

end
