(* ===== verification/Owner_Control.thy ===== *)
theory Owner_Control
  imports Identity_Store
begin

text \<open>
  \<open>apps/desktop-host/src/owner_control.rs\<close>: the owner's command table. Commands are answered
  under one lock; operations run in threads of their own and pairing tasks in the runtime's
  connections, and both report back through the completion channel. A task is known by its
  number in the state; its decision channel, its deadline and its cancellation flag are kept
  there, where its clones share them. The clock is read once per step, in milliseconds.
\<close>

section \<open>Commands, responses, events\<close>

datatype owner_command =
  OcOwnerInfo
| OcIdentityInit string string
| OcIdentityList
| OcUnpair string string string
| OcPairingWindowOpen string string
| OcPairStart string string string
| OcPairingDecide string string string string bool
| OcCommandResult string string
| OcShutdown string

record owner_launch_metadata =
  ol_profile_name :: string
  ol_role_root :: string
  ol_bind_mode :: string
  ol_bind_address :: string
  ol_availability :: string
  ol_recording :: string

datatype owner_response =
  OrOwnerInfo string "owner_launch_metadata option"
| OrIdentityInitialized
| OrIdentityState peer_status
| OrUnpaired
| OrPairingConfirmationRequired string string
| OrPairingDecisionAccepted
| OrPairingWaiting
| OrPaired
| OrCommandUnknown
| OrCommandAccepted
| OrCommandPending
| OrStaleOwner
| OrInvalidRequest
| OrOwnerBusy
| OrOperationFailed
| OrShutdownAccepted

text \<open>The two operations of the identity actor that run in a thread, and what they answer.\<close>

datatype owner_operation = IdentityInitOp | UnpairOp string

fun operation_success :: "owner_operation \<Rightarrow> owner_response" where
  "operation_success IdentityInitOp = OrIdentityInitialized"
| "operation_success (UnpairOp _) = OrUnpaired"

datatype owner_event =
  EvIdentityRevoked
| EvPairingWindowOpen nat
| EvPairStart string nat
| EvRuntimeShutdown

section \<open>State\<close>

record pairing_task =
  tk_command_id :: string
  tk_decisions :: "(string \<times> bool) list"
  tk_deadline :: nat
  tk_cancelled :: bool
  tk_alive :: bool

datatype diagnostic_kind = IdentityInit | IdentityUnpair

record command_record =
  cr_id :: string
  cr_response :: "owner_response option"
  cr_completed_at :: "nat option"
  cr_decision :: "nat option"
  cr_decision_results :: "(string \<times> owner_response) list"
  cr_diagnostic :: "diagnostic_kind option"

text \<open>
  \<open>cs_coordinator\<close> is the event sender, when there is one: whether its receiver still exists.
  \<open>cs_diagnostics\<close> lists the finished diagnostic spans.
\<close>

record control_state =
  cs_table :: "command_record list"
  cs_completions :: "(string \<times> owner_response \<times> nat) list"
  cs_workers :: "(string \<times> owner_operation) list"
  cs_coordinator :: "bool option"
  cs_events :: "owner_event list"
  cs_tasks :: "pairing_task list"
  cs_diagnostics :: "(diagnostic_kind \<times> bool) list"

definition TABLE_MAX :: nat where "TABLE_MAX = 16"

definition control_new :: "bool option \<Rightarrow> control_state" where
  "control_new coordinator = \<lparr>cs_table = [], cs_completions = [], cs_workers = [],
     cs_coordinator = coordinator, cs_events = [], cs_tasks = [], cs_diagnostics = []\<rparr>"

text \<open>What a command finds outside: the clock, the identity store, address syntax, recording.\<close>

record control_env =
  ce_now :: nat
  ce_peer :: "store_error + peer_status"
  ce_address :: "string \<Rightarrow> bool option"
  ce_recording :: bool

definition valid_id :: "string \<Rightarrow> bool" where
  "valid_id v \<longleftrightarrow> length v = 32 \<and> list_all (\<lambda>c. c \<in> set ''0123456789abcdef'') v"

section \<open>Completions\<close>

definition terminal :: "owner_response \<Rightarrow> bool" where
  "terminal response =
     (case response of OrPairingConfirmationRequired _ _ \<Rightarrow> False | OrPairingWaiting \<Rightarrow> False | _ \<Rightarrow> True)"

definition complete_record :: "owner_response \<Rightarrow> nat \<Rightarrow> command_record \<Rightarrow> command_record" where
  "complete_record response completed_at r =
     r\<lparr>cr_response := Some response,
       cr_completed_at := (if terminal response then Some completed_at else None),
       cr_diagnostic := (if terminal response then None else cr_diagnostic r)\<rparr>"

definition finished_diagnostic :: "owner_response \<Rightarrow> command_record \<Rightarrow> (diagnostic_kind \<times> bool) list" where
  "finished_diagnostic response r =
     (case cr_diagnostic r of
        Some kind \<Rightarrow> if terminal response then [(kind, response \<in> {OrIdentityInitialized, OrUnpaired})] else []
      | None \<Rightarrow> [])"

text \<open>\<open>iter_mut().find(...)\<close>: the first record of that identity.\<close>

fun update_first :: "string \<Rightarrow> (command_record \<Rightarrow> command_record) \<Rightarrow> command_record list \<Rightarrow> command_record list" where
  "update_first i f [] = []"
| "update_first i f (r # rs) = (if cr_id r = i then f r # rs else r # update_first i f rs)"

definition find_record :: "string \<Rightarrow> command_record list \<Rightarrow> command_record option" where
  "find_record i table = find (\<lambda>r. cr_id r = i) table"

definition apply_completion :: "string \<times> owner_response \<times> nat \<Rightarrow> control_state \<Rightarrow> control_state" where
  "apply_completion completion s =
     (case completion of (i, response, completed_at) \<Rightarrow>
        (case find_record i (cs_table s) of
           None \<Rightarrow> s
         | Some r \<Rightarrow>
             s\<lparr>cs_table := update_first i (complete_record response completed_at) (cs_table s),
               cs_diagnostics := cs_diagnostics s @ finished_diagnostic response r\<rparr>))"

definition apply_completions :: "control_state \<Rightarrow> control_state" where
  "apply_completions s = fold apply_completion (cs_completions s) (s\<lparr>cs_completions := []\<rparr>)"

text \<open>Ten minutes.\<close>

definition unexpired :: "nat \<Rightarrow> command_record \<Rightarrow> bool" where
  "unexpired now r = (case cr_completed_at r of None \<Rightarrow> True | Some completed \<Rightarrow> now - completed < 600000)"

definition expire_terminal :: "nat \<Rightarrow> command_record list \<Rightarrow> command_record list" where
  "expire_terminal now table = filter (unexpired now) table"

section \<open>Accepting a command\<close>

definition current_response :: "command_record \<Rightarrow> owner_response" where
  "current_response r = (case cr_response r of Some response \<Rightarrow> response | None \<Rightarrow> OrCommandPending)"

definition accept_operation ::
  "control_env \<Rightarrow> string \<Rightarrow> diagnostic_kind \<Rightarrow> owner_operation \<Rightarrow> control_state \<Rightarrow> owner_response \<times> control_state" where
  "accept_operation env command_id kind operation s =
     (if \<not> valid_id command_id then (OrInvalidRequest, s)
      else
        case find_record command_id (cs_table s) of
          Some r \<Rightarrow> (current_response r, s)
        | None \<Rightarrow>
            if length (cs_table s) \<ge> TABLE_MAX then (OrOwnerBusy, s)
            else
              (OrCommandAccepted,
               s\<lparr>cs_table := cs_table s @
                   [\<lparr>cr_id = command_id, cr_response = None, cr_completed_at = None, cr_decision = None,
                     cr_decision_results = [], cr_diagnostic = (if ce_recording env then Some kind else None)\<rparr>],
                 cs_workers := cs_workers s @ [(command_id, operation)]\<rparr>))"

text \<open>A task whose event finds no receiver is dropped with the event.\<close>

definition accept_pairing_event ::
  "control_env \<Rightarrow> string \<Rightarrow> (nat \<Rightarrow> owner_event) \<Rightarrow> control_state \<Rightarrow> owner_response \<times> control_state" where
  "accept_pairing_event env command_id event s =
     (if \<not> valid_id command_id then (OrInvalidRequest, s)
      else
        case find_record command_id (cs_table s) of
          Some r \<Rightarrow> (current_response r, s)
        | None \<Rightarrow>
            if length (cs_table s) \<ge> TABLE_MAX then (OrOwnerBusy, s)
            else
              (case cs_coordinator s of
                 None \<Rightarrow> (OrOperationFailed, s)
               | Some receiver \<Rightarrow>
                   (let n = length (cs_tasks s);
                        task = \<lparr>tk_command_id = command_id, tk_decisions = [], tk_deadline = ce_now env + 60000,
                                tk_cancelled = False, tk_alive = receiver\<rparr>;
                        r = \<lparr>cr_id = command_id, cr_response = None, cr_completed_at = None,
                             cr_decision = Some n, cr_decision_results = [], cr_diagnostic = None\<rparr>;
                        s = s\<lparr>cs_tasks := cs_tasks s @ [task]\<rparr>
                    in if receiver then
                         (OrCommandAccepted, s\<lparr>cs_table := cs_table s @ [r], cs_events := cs_events s @ [event n]\<rparr>)
                       else
                         (OrOperationFailed,
                          s\<lparr>cs_table := cs_table s @ [r\<lparr>cr_response := Some OrOperationFailed,
                              cr_completed_at := Some (ce_now env), cr_decision := None\<rparr>]\<rparr>))))"

text \<open>
  \<open>send\<close> on a channel of capacity one: it fails without a receiver and waits, with the lock
  held, while the channel is full (\<open>None\<close>).
\<close>

definition decision_send :: "nat \<Rightarrow> string \<times> bool \<Rightarrow> control_state \<Rightarrow> (bool \<times> control_state) option" where
  "decision_send n d s =
     (let task = cs_tasks s ! n
      in if \<not> tk_alive task then Some (False, s)
         else if tk_decisions task \<noteq> [] then None
         else Some (True, s\<lparr>cs_tasks := (cs_tasks s)[n := task\<lparr>tk_decisions := [d]\<rparr>]\<rparr>))"

fun find_decision :: "string \<Rightarrow> command_record list \<Rightarrow> owner_response option" where
  "find_decision i [] = None"
| "find_decision i (r # rs) =
     (case map_of (cr_decision_results r) i of Some response \<Rightarrow> Some response | None \<Rightarrow> find_decision i rs)"

definition accept_pairing_decision ::
  "string \<Rightarrow> string \<Rightarrow> string \<Rightarrow> bool \<Rightarrow> control_state \<Rightarrow> owner_response option \<times> control_state" where
  "accept_pairing_decision command_id parent_command_id transaction confirmed s =
     (if \<not> valid_id command_id \<or> \<not> valid_id parent_command_id \<or> \<not> valid_id transaction
      then (Some OrInvalidRequest, s)
      else
        case find_decision command_id (cs_table s) of
          Some response \<Rightarrow> (Some response, s)
        | None \<Rightarrow>
            (case find_record parent_command_id (cs_table s) of
               None \<Rightarrow> (Some OrInvalidRequest, s)
             | Some parent \<Rightarrow>
                 if cr_decision_results parent \<noteq> [] then (Some OrInvalidRequest, s)
                 else
                   (case cr_response parent of
                      Some (OrPairingConfirmationRequired shown _) \<Rightarrow>
                        if shown \<noteq> transaction then (Some OrInvalidRequest, s)
                        else
                          (let answer = (\<lambda>response s. (Some response,
                             s\<lparr>cs_table := update_first parent_command_id
                                (\<lambda>r. r\<lparr>cr_decision_results := cr_decision_results r @ [(command_id, response)]\<rparr>) (cs_table s)\<rparr>))
                           in case cr_decision parent of
                                None \<Rightarrow> answer OrInvalidRequest s
                              | Some n \<Rightarrow>
                                  (case decision_send n (transaction, confirmed) s of
                                     None \<Rightarrow> (None, s)
                                   | Some (True, s) \<Rightarrow> answer OrPairingDecisionAccepted s
                                   | Some (False, s) \<Rightarrow> answer OrInvalidRequest s))
                    | _ \<Rightarrow> (Some OrInvalidRequest, s))))"

section \<open>Handling a command\<close>

fun find_result :: "string \<Rightarrow> command_record list \<Rightarrow> owner_response option" where
  "find_result i [] = None"
| "find_result i (r # rs) =
     (if cr_id r = i then Some (current_response r)
      else case map_of (cr_decision_results r) i of Some response \<Rightarrow> Some response | None \<Rightarrow> find_result i rs)"

text \<open>Before a command is looked at, the completions are applied and the table is cleared.\<close>

definition control_ready :: "nat \<Rightarrow> control_state \<Rightarrow> control_state" where
  "control_ready now s =
     (let s = apply_completions s in s\<lparr>cs_table := expire_terminal now (cs_table s)\<rparr>)"

text \<open>The answer (\<open>None\<close>: it never comes), and whether it asks the server to stop.\<close>

definition handle_command ::
  "string \<Rightarrow> owner_launch_metadata option \<Rightarrow> control_env \<Rightarrow> owner_command \<Rightarrow> control_state \<Rightarrow>
     (owner_response option \<times> bool) \<times> control_state" where
  "handle_command owner_generation launch env command s =
     (let s = control_ready (ce_now env) s;
          reply = (\<lambda>(response, s). ((Some response, False), s));
          stale = ((Some OrStaleOwner, False), s)
      in case command of
           OcOwnerInfo \<Rightarrow> reply (OrOwnerInfo owner_generation launch, s)
         | OcIdentityList \<Rightarrow>
             reply (case ce_peer env of Inl _ \<Rightarrow> OrOperationFailed | Inr peer \<Rightarrow> OrIdentityState peer, s)
         | OcCommandResult command_id generation \<Rightarrow>
             if generation = owner_generation
             then reply (case find_result command_id (cs_table s) of Some r \<Rightarrow> r | None \<Rightarrow> OrCommandUnknown, s)
             else stale
         | OcShutdown generation \<Rightarrow>
             if generation = owner_generation then ((Some OrShutdownAccepted, True), s) else stale
         | OcIdentityInit command_id generation \<Rightarrow>
             if generation = owner_generation
             then reply (accept_operation env command_id IdentityInit IdentityInitOp s) else stale
         | OcUnpair command_id generation peer_id \<Rightarrow>
             if generation = owner_generation
             then reply (accept_operation env command_id IdentityUnpair (UnpairOp peer_id) s) else stale
         | OcPairingWindowOpen command_id generation \<Rightarrow>
             if generation = owner_generation
             then reply (accept_pairing_event env command_id EvPairingWindowOpen s) else stale
         | OcPairStart command_id generation loopback_address \<Rightarrow>
             if generation = owner_generation
             then (case ce_address env loopback_address of
                     Some True \<Rightarrow> reply (accept_pairing_event env command_id (EvPairStart loopback_address) s)
                   | _ \<Rightarrow> reply (OrInvalidRequest, s))
             else stale
         | OcPairingDecide command_id generation parent_command_id transaction confirmed \<Rightarrow>
             if generation = owner_generation
             then (case accept_pairing_decision command_id parent_command_id transaction confirmed s of
                     (response, s) \<Rightarrow> ((response, False), s))
             else stale)"

section \<open>The other side: operations and tasks\<close>

definition send_completion :: "string \<Rightarrow> owner_response \<Rightarrow> nat \<Rightarrow> control_state \<Rightarrow> control_state" where
  "send_completion i response now s = s\<lparr>cs_completions := cs_completions s @ [(i, response, now)]\<rparr>"

text \<open>The operation of a thread returns; anything but success is \<open>OperationFailed\<close>.\<close>

definition operation_returns :: "nat \<Rightarrow> bool \<Rightarrow> nat \<Rightarrow> control_state \<Rightarrow> control_state" where
  "operation_returns k success now s =
     (if k < length (cs_workers s) then
        (case cs_workers s ! k of (i, operation) \<Rightarrow>
           send_completion i (if success then operation_success operation else OrOperationFailed) now
             (s\<lparr>cs_workers := take k (cs_workers s) @ drop (Suc k) (cs_workers s)\<rparr>))
      else s)"

definition task_waiting :: "nat \<Rightarrow> nat \<Rightarrow> control_state \<Rightarrow> control_state" where
  "task_waiting n now s = send_completion (tk_command_id (cs_tasks s ! n)) OrPairingWaiting now s"

definition task_expired :: "nat \<Rightarrow> nat \<Rightarrow> control_state \<Rightarrow> bool" where
  "task_expired n now s \<longleftrightarrow> now \<ge> tk_deadline (cs_tasks s ! n)"

definition task_cancel :: "nat \<Rightarrow> control_state \<Rightarrow> control_state" where
  "task_cancel n s = s\<lparr>cs_tasks := (cs_tasks s)[n := (cs_tasks s ! n)\<lparr>tk_cancelled := True\<rparr>]\<rparr>"

definition task_finish :: "nat \<Rightarrow> bool \<Rightarrow> nat \<Rightarrow> control_state \<Rightarrow> control_state" where
  "task_finish n success now s =
     send_completion (tk_command_id (cs_tasks s ! n)) (if success then OrPaired else OrOperationFailed) now s"

text \<open>The last clone of a task goes, and the receiver of its decisions with it.\<close>

definition task_drop :: "nat \<Rightarrow> control_state \<Rightarrow> control_state" where
  "task_drop n s = s\<lparr>cs_tasks := (cs_tasks s)[n := (cs_tasks s ! n)\<lparr>tk_alive := False\<rparr>]\<rparr>"

text \<open>
  \<open>confirm\<close> first shows the prompt (\<open>confirm_prompt\<close>, false when it is too late), then takes
  turns of at most 50 ms waiting for the decision (\<open>confirm_turn\<close>, \<open>None\<close> for another turn).
\<close>

definition confirm_prompt :: "nat \<Rightarrow> u8 list \<Rightarrow> string \<Rightarrow> nat \<Rightarrow> control_state \<Rightarrow> bool \<times> control_state" where
  "confirm_prompt n transaction authentication now s =
     (let task = cs_tasks s ! n
      in if tk_deadline task \<le> now then (False, s)
         else (True, send_completion (tk_command_id task)
                       (OrPairingConfirmationRequired (hex transaction) authentication) now s))"

definition confirm_turn :: "nat \<Rightarrow> u8 list \<Rightarrow> nat \<Rightarrow> control_state \<Rightarrow> bool option \<times> control_state" where
  "confirm_turn n transaction now s =
     (let task = cs_tasks s ! n
      in if tk_cancelled task then (Some False, s)
         else if tk_deadline task < now then (Some False, s)
         else
           (case tk_decisions task of
              (received, confirmed) # rest \<Rightarrow>
                (Some (received = hex transaction \<and> confirmed),
                 s\<lparr>cs_tasks := (cs_tasks s)[n := task\<lparr>tk_decisions := rest\<rparr>]\<rparr>)
            | [] \<Rightarrow>
                if list_ex (\<lambda>r. cr_decision r = Some n) (cs_table s) then (None, s) else (Some False, s)))"

text \<open>
  What the thread of an unpairing sends once the revocation is stored, and the server when it
  stops: the event, when there is a runtime to take it.
\<close>

definition send_event :: "owner_event \<Rightarrow> control_state \<Rightarrow> control_state" where
  "send_event event s = (if cs_coordinator s = Some True then s\<lparr>cs_events := cs_events s @ [event]\<rparr> else s)"

section \<open>The system\<close>

datatype control_event =
  CtCommand control_env owner_command
| CtOperation nat bool nat
| CtWaiting nat nat
| CtPrompt nat "u8 list" string nat
| CtConfirm nat "u8 list" nat
| CtFinish nat bool nat
| CtCancel nat
| CtDrop nat
| CtRevoked
| CtShutdown
| CtEventTaken
| CtCoordinatorGone

text \<open>
  Everything that may happen to the state, in any order. A task acts while a clone of it lives.
  A command yields its answer.
\<close>

definition live_task :: "nat \<Rightarrow> control_state \<Rightarrow> bool" where
  "live_task n s \<longleftrightarrow> n < length (cs_tasks s) \<and> tk_alive (cs_tasks s ! n)"

definition control_step ::
  "string \<Rightarrow> owner_launch_metadata option \<Rightarrow> control_event \<Rightarrow> control_state \<Rightarrow> owner_response option \<times> control_state" where
  "control_step generation launch e s =
     (case e of
        CtCommand env command \<Rightarrow>
          (case handle_command generation launch env command s of ((response, _), s) \<Rightarrow> (response, s))
      | CtOperation k success now \<Rightarrow> (None, operation_returns k success now s)
      | CtWaiting n now \<Rightarrow> (None, if live_task n s then task_waiting n now s else s)
      | CtPrompt n transaction authentication now \<Rightarrow>
          (None, if live_task n s then snd (confirm_prompt n transaction authentication now s) else s)
      | CtConfirm n transaction now \<Rightarrow>
          (None, if live_task n s then snd (confirm_turn n transaction now s) else s)
      | CtFinish n success now \<Rightarrow> (None, if live_task n s then task_finish n success now s else s)
      | CtCancel n \<Rightarrow> (None, if live_task n s then task_cancel n s else s)
      | CtDrop n \<Rightarrow> (None, if live_task n s then task_drop n s else s)
      | CtRevoked \<Rightarrow> (None, send_event EvIdentityRevoked s)
      | CtShutdown \<Rightarrow> (None, send_event EvRuntimeShutdown s)
      | CtEventTaken \<Rightarrow> (None, s\<lparr>cs_events := drop 1 (cs_events s)\<rparr>)
      | CtCoordinatorGone \<Rightarrow>
          (None, s\<lparr>cs_coordinator := map_option (\<lambda>_. False) (cs_coordinator s), cs_events := []\<rparr>))"

text \<open>A run, with the log of its events and answers.\<close>

type_synonym control_log = "(control_event \<times> owner_response option) list"

fun logged_step ::
  "string \<Rightarrow> owner_launch_metadata option \<Rightarrow> control_event \<Rightarrow> control_log \<times> control_state \<Rightarrow> control_log \<times> control_state" where
  "logged_step generation launch e (log, s) =
     (case control_step generation launch e s of (response, s) \<Rightarrow> (log @ [(e, response)], s))"

definition control_run ::
  "string \<Rightarrow> owner_launch_metadata option \<Rightarrow> control_event list \<Rightarrow> control_state \<Rightarrow> control_log \<times> control_state" where
  "control_run generation launch es s = fold (logged_step generation launch) es ([], s)"

section \<open>Well-formed tables\<close>

definition record_ok :: "pairing_task list \<Rightarrow> command_record \<Rightarrow> bool" where
  "record_ok tasks r \<longleftrightarrow>
     valid_id (cr_id r) \<and> length (cr_decision_results r) \<le> 1 \<and>
     (cr_completed_at r \<noteq> None \<longleftrightarrow> (case cr_response r of Some response \<Rightarrow> terminal response | None \<Rightarrow> False)) \<and>
     (case cr_decision r of
        None \<Rightarrow> True
      | Some n \<Rightarrow> n < length tasks \<and> tk_command_id (tasks ! n) = cr_id r \<and>
          length (tk_decisions (tasks ! n)) \<le> length (cr_decision_results r))"

definition control_ok :: "control_state \<Rightarrow> bool" where
  "control_ok s \<longleftrightarrow>
     length (cs_table s) \<le> TABLE_MAX \<and> distinct (map cr_id (cs_table s)) \<and>
     list_all (record_ok (cs_tasks s)) (cs_table s)"

lemma update_first_ids [simp]:
  "(\<And>r. cr_id (f r) = cr_id r) \<Longrightarrow> map cr_id (update_first i f rs) = map cr_id rs"
  by (induction rs) auto

lemma update_first_length [simp]: "length (update_first i f rs) = length rs"
  by (induction rs) auto

lemma update_first_all:
  "list_all P rs \<Longrightarrow> (\<And>r. P r \<Longrightarrow> cr_id r = i \<Longrightarrow> P (f r)) \<Longrightarrow> list_all P (update_first i f rs)"
  by (induction rs) auto

lemma find_record_Some: "find_record i rs = Some r \<Longrightarrow> r \<in> set rs \<and> cr_id r = i"
  by (induction rs) (auto simp: find_record_def split: if_splits)

lemma find_record_None: "find_record i rs = None \<longleftrightarrow> i \<notin> cr_id ` set rs"
  by (induction rs) (auto simp: find_record_def split: if_splits)

lemma record_ok_complete: "record_ok ts r \<Longrightarrow> record_ok ts (complete_record response c r)"
  by (cases "cr_decision r") (auto simp: record_ok_def complete_record_def)

lemma complete_record_id [simp]: "cr_id (complete_record response c r) = cr_id r"
  by (simp add: complete_record_def)

lemma control_ok_completion: "control_ok s \<Longrightarrow> control_ok (apply_completion c s)"
  by (cases c) (auto simp: apply_completion_def control_ok_def intro: update_first_all record_ok_complete split: option.splits)

lemma apply_completion_tasks [simp]: "cs_tasks (apply_completion c s) = cs_tasks s"
  by (auto simp: apply_completion_def split: prod.splits option.splits)

lemma control_ok_completions: "control_ok s \<Longrightarrow> control_ok (apply_completions s)"
proof -
  assume "control_ok s"
  then have "control_ok (s\<lparr>cs_completions := []\<rparr>)" by (simp add: control_ok_def)
  then have "control_ok (fold apply_completion cs (s\<lparr>cs_completions := []\<rparr>))" for cs
    by (induction cs arbitrary: s rule: rev_induct) (simp_all add: control_ok_completion)
  then show ?thesis by (simp add: apply_completions_def)
qed

lemma control_ok_expire: "control_ok s \<Longrightarrow> control_ok (s\<lparr>cs_table := expire_terminal now (cs_table s)\<rparr>)"
  by (auto simp: control_ok_def expire_terminal_def list_all_iff distinct_map_filter
      intro: order_trans [OF length_filter_le])

lemma control_ok_accept: "control_ok s \<Longrightarrow> control_ok (snd (accept_operation env i kind op s))"
  by (auto simp: accept_operation_def control_ok_def record_ok_def list_all_iff find_record_None split: option.splits)

lemma record_ok_more_tasks:
  "record_ok ts r \<Longrightarrow> record_ok (ts @ [t]) r"
  by (auto simp: record_ok_def nth_append split: option.splits)

lemma control_ok_event: "control_ok s \<Longrightarrow> control_ok (snd (accept_pairing_event env i ev s))"
  by (auto simp: accept_pairing_event_def control_ok_def list_all_iff find_record_None Let_def record_ok_more_tasks
      split: option.splits) (auto simp: record_ok_def nth_append terminal_def)

lemma find_record_unique:
  assumes "distinct (map cr_id rs)" and "r \<in> set rs"
  shows "find_record (cr_id r) rs = Some r"
  using assms by (induction rs) (auto simp: find_record_def)

text \<open>A decision reaches an empty channel: no command waits for ever.\<close>

lemma decision_channel_empty:
  assumes "control_ok s" and "find_record i (cs_table s) = Some r"
    and "cr_decision r = Some n" and "cr_decision_results r = []"
  shows "decision_send n d s = Some (if tk_alive (cs_tasks s ! n)
      then (True, s\<lparr>cs_tasks := (cs_tasks s)[n := (cs_tasks s ! n)\<lparr>tk_decisions := [d]\<rparr>]\<rparr>) else (False, s))"
    and "n < length (cs_tasks s)" and "tk_command_id (cs_tasks s ! n) = i"
proof -
  have "record_ok (cs_tasks s) r" and "cr_id r = i"
    using assms(1,2) find_record_Some [of i "cs_table s" r] by (auto simp: control_ok_def list_all_iff)
  then have "tk_decisions (cs_tasks s ! n) = []" and *: "n < length (cs_tasks s)" "tk_command_id (cs_tasks s ! n) = i"
    using assms(3,4) by (auto simp: record_ok_def)
  then show "decision_send n d s = Some (if tk_alive (cs_tasks s ! n)
      then (True, s\<lparr>cs_tasks := (cs_tasks s)[n := (cs_tasks s ! n)\<lparr>tk_decisions := [d]\<rparr>]\<rparr>) else (False, s))"
    by (simp add: decision_send_def Let_def)
  from * show "n < length (cs_tasks s)" and "tk_command_id (cs_tasks s ! n) = i" by auto
qed

text \<open>Another record keeps its channel when one channel changes, and when tasks keep their past.\<close>

lemma record_ok_tasks:
  assumes "record_ok ts r" and "length ts \<le> length us"
    and "\<And>n. n < length ts \<Longrightarrow> tk_command_id (us ! n) = tk_command_id (ts ! n)"
    and "\<And>n. cr_decision r = Some n \<Longrightarrow> length (tk_decisions (us ! n)) \<le> length (tk_decisions (ts ! n))"
  shows "record_ok us r"
  using assms by (cases "cr_decision r") (force simp: record_ok_def)+

lemma update_first_split:
  assumes "distinct (map cr_id rs)"
    and "\<And>r. r \<in> set rs \<Longrightarrow> cr_id r \<noteq> i \<Longrightarrow> Q r" and "\<And>r. r \<in> set rs \<Longrightarrow> cr_id r = i \<Longrightarrow> Q (f r)"
  shows "list_all Q (update_first i f rs)"
  using assms by (induction rs) (auto simp: list_all_iff, metis rev_image_eqI)

lemma control_ok_result:
  assumes "control_ok s" and "find_record parent (cs_table s) = Some r" and "cr_decision_results r = []"
    and "\<And>n. n < length (cs_tasks s) \<Longrightarrow> tk_command_id (ts ! n) = tk_command_id (cs_tasks s ! n)"
    and "length ts = length (cs_tasks s)"
    and "\<And>n. n < length (cs_tasks s) \<Longrightarrow> tk_command_id (cs_tasks s ! n) \<noteq> parent \<Longrightarrow> ts ! n = cs_tasks s ! n"
    and "\<And>n. cr_decision r = Some n \<Longrightarrow> length (tk_decisions (ts ! n)) \<le> 1"
  shows "control_ok (s\<lparr>cs_tasks := ts,
     cs_table := update_first parent (\<lambda>r. r\<lparr>cr_decision_results := cr_decision_results r @ [x]\<rparr>) (cs_table s)\<rparr>)"
proof -
  have d: "distinct (map cr_id (cs_table s))" and ok: "record_ok (cs_tasks s) q" if "q \<in> set (cs_table s)" for q
    using assms(1) that by (auto simp: control_ok_def list_all_iff)
  have r: "r \<in> set (cs_table s)" "cr_id r = parent" using find_record_Some [OF assms(2)] by auto
  have "list_all (record_ok ts) (update_first parent (\<lambda>r. r\<lparr>cr_decision_results := cr_decision_results r @ [x]\<rparr>) (cs_table s))"
  proof (rule update_first_split [OF d [OF r(1)]])
    fix q assume q: "q \<in> set (cs_table s)" "cr_id q \<noteq> parent"
    show "record_ok ts q"
    proof (rule record_ok_tasks [OF ok [OF q(1)]])
      show "length (tk_decisions (ts ! n)) \<le> length (tk_decisions (cs_tasks s ! n))" if "cr_decision q = Some n" for n
        using ok [OF q(1)] that q(2) assms(6) [of n] by (auto simp: record_ok_def)
    qed (use assms(4,5) in auto)
  next
    fix q assume q: "q \<in> set (cs_table s)" "cr_id q = parent"
    then have "q = r" using d [OF r(1)] find_record_unique [of "cs_table s" q] assms(2) by simp
    with ok [OF r(1)] show "record_ok ts (q\<lparr>cr_decision_results := cr_decision_results q @ [x]\<rparr>)"
      using assms(3,4,5,7) by (cases "cr_decision r") (auto simp: record_ok_def)
  qed
  with assms(1) show ?thesis by (simp add: control_ok_def)
qed

lemma control_ok_decision:
  assumes "control_ok s"
  shows "control_ok (snd (accept_pairing_decision i parent t c s))"
proof (cases "find_record parent (cs_table s)")
  case None
  with assms show ?thesis by (auto simp: accept_pairing_decision_def split: option.splits)
next
  case (Some r)
  have same: "control_ok (s\<lparr>cs_table := update_first parent
      (\<lambda>r. r\<lparr>cr_decision_results := cr_decision_results r @ [x]\<rparr>) (cs_table s)\<rparr>)"
    if "cr_decision_results r = []" for x
    using control_ok_result [OF assms Some that, where ts = "cs_tasks s" and x = x] assms Some
      find_record_Some [OF Some] that by (fastforce simp: control_ok_def list_all_iff record_ok_def)
  have sent: "control_ok (s\<lparr>cs_tasks := (cs_tasks s)[n := (cs_tasks s ! n)\<lparr>tk_decisions := [d]\<rparr>],
      cs_table := update_first parent (\<lambda>r. r\<lparr>cr_decision_results := cr_decision_results r @ [x]\<rparr>) (cs_table s)\<rparr>)"
    if "cr_decision_results r = []" "cr_decision r = Some n" for x d n
    using decision_channel_empty(2,3) [OF assms Some that(2,1)] that
    by (intro control_ok_result [OF assms Some that(1)]) (auto simp: nth_list_update)
  show ?thesis
    using assms same sent Some
    by (auto simp: accept_pairing_decision_def Let_def decision_channel_empty split: option.splits owner_response.splits)
qed

lemma accept_pairing_decision_answers:
  "control_ok s \<Longrightarrow> fst (accept_pairing_decision i parent t c s) \<noteq> None"
  by (auto simp: accept_pairing_decision_def Let_def decision_channel_empty split: option.splits owner_response.splits)

lemma control_ok_ready:
  "control_ok s \<Longrightarrow> control_ok (control_ready now s)"
  by (simp add: control_ready_def Let_def control_ok_expire control_ok_completions)

lemma control_ok_handle:
  assumes "control_ok s"
  shows "control_ok (snd (handle_command g l env command s))" and "fst (fst (handle_command g l env command s)) \<noteq> None"
proof -
  note ready = control_ok_ready [OF assms, of "ce_now env"]
  note kept = control_ok_accept [OF ready] control_ok_event [OF ready] control_ok_decision [OF ready]
  show "control_ok (snd (handle_command g l env command s))"
    using ready kept by (cases command) (simp_all add: handle_command_def Let_def case_prod_unfold split: option.splits bool.splits)
  show "fst (fst (handle_command g l env command s)) \<noteq> None"
    using accept_pairing_decision_answers [OF ready]
    by (cases command) (simp_all add: handle_command_def Let_def case_prod_unfold split: option.splits bool.splits)
qed

lemma control_ok_task:
  assumes "control_ok s" and "length ts = length (cs_tasks s)"
    and "\<And>n. n < length (cs_tasks s) \<Longrightarrow> tk_command_id (ts ! n) = tk_command_id (cs_tasks s ! n) \<and>
      length (tk_decisions (ts ! n)) \<le> length (tk_decisions (cs_tasks s ! n))"
  shows "control_ok (s\<lparr>cs_tasks := ts\<rparr>)"
proof -
  have "record_ok ts r" if "record_ok (cs_tasks s) r" for r
    by (rule record_ok_tasks [OF that]) (use assms that in \<open>auto simp: record_ok_def\<close>)
  with assms(1) show ?thesis by (auto simp: control_ok_def list_all_iff)
qed

lemma control_ok_send: "control_ok s \<Longrightarrow> control_ok (send_completion i r now s)"
  by (simp add: control_ok_def send_completion_def)

lemma control_ok_step:
  assumes "control_ok s"
  shows "control_ok (snd (control_step g l e s))"
proof (cases e)
  case (CtCommand env command)
  then show ?thesis using control_ok_handle(1) [OF assms, of g l env command]
    by (simp add: control_step_def case_prod_unfold)
next
  case (CtOperation k ok now)
  have "control_ok (s\<lparr>cs_workers := ws\<rparr>)" for ws using assms by (simp add: control_ok_def)
  then show ?thesis using assms
    by (simp add: CtOperation control_step_def operation_returns_def control_ok_send split: prod.split)
next
  case (CtConfirm n t now)
  then show ?thesis using assms
    by (auto simp: control_step_def confirm_turn_def Let_def live_task_def nth_list_update
        intro!: control_ok_task split: list.splits)
next
  case (CtCancel n)
  then show ?thesis using assms
    by (auto simp: control_step_def task_cancel_def live_task_def nth_list_update intro!: control_ok_task)
next
  case (CtDrop n)
  then show ?thesis using assms
    by (auto simp: control_step_def task_drop_def live_task_def nth_list_update intro!: control_ok_task)
qed (use assms in \<open>auto simp: control_step_def send_event_def task_waiting_def confirm_prompt_def task_finish_def control_ok_send Let_def,
     auto simp: control_ok_def\<close>)

section \<open>Prompts and decisions\<close>

text \<open>
  Every prompt in the table or on its way there satisfies \<open>P\<close>, every decision in a task's
  channel satisfies \<open>D\<close>.
\<close>

definition prompts_ok :: "(string \<Rightarrow> string \<Rightarrow> bool) \<Rightarrow> control_state \<Rightarrow> bool" where
  "prompts_ok P s \<longleftrightarrow>
     (\<forall>i t a now. (i, OrPairingConfirmationRequired t a, now) \<in> set (cs_completions s) \<longrightarrow> P i t) \<and>
     (\<forall>r t a. r \<in> set (cs_table s) \<longrightarrow> cr_response r = Some (OrPairingConfirmationRequired t a) \<longrightarrow> P (cr_id r) t)"

definition decisions_ok :: "(string \<Rightarrow> string \<Rightarrow> bool \<Rightarrow> bool) \<Rightarrow> control_state \<Rightarrow> bool" where
  "decisions_ok D s \<longleftrightarrow>
     (\<forall>task t b. task \<in> set (cs_tasks s) \<longrightarrow> (t, b) \<in> set (tk_decisions task) \<longrightarrow> D (tk_command_id task) t b)"

lemma prompts_ok_mono: "prompts_ok P s \<Longrightarrow> (\<And>i t. P i t \<Longrightarrow> Q i t) \<Longrightarrow> prompts_ok Q s"
  by (force simp: prompts_ok_def)

lemma decisions_ok_mono: "decisions_ok D s \<Longrightarrow> (\<And>i t b. D i t b \<Longrightarrow> E i t b) \<Longrightarrow> decisions_ok E s"
  by (force simp: decisions_ok_def)

lemma set_update_first: "r \<in> set (update_first i f rs) \<Longrightarrow> r \<in> set rs \<or> (\<exists>q \<in> set rs. cr_id q = i \<and> r = f q)"
  by (induction rs) (auto split: if_splits)

lemma prompts_ok_completion:
  assumes "prompts_ok P s" and "\<And>i t a now. c = (i, OrPairingConfirmationRequired t a, now) \<Longrightarrow> P i t"
  shows "prompts_ok P (apply_completion c s)"
proof -
  obtain i response now where c: "c = (i, response, now)" by (cases c)
  show ?thesis
    using assms unfolding prompts_ok_def apply_completion_def c
    by (auto split: option.splits dest!: set_update_first simp: complete_record_def)
qed

lemma prompts_ok_ready:
  assumes "prompts_ok P s"
  shows "prompts_ok P (control_ready now s)"
proof -
  have folded: "prompts_ok P (fold apply_completion cs q)"
    if "prompts_ok P q" "\<forall>(i, response, now) \<in> set cs. \<forall>t a. response = OrPairingConfirmationRequired t a \<longrightarrow> P i t" for cs q
    using that
  proof (induction cs arbitrary: q)
    case Nil
    then show ?case by simp
  next
    case (Cons c cs)
    have "prompts_ok P (apply_completion c q)"
      by (rule prompts_ok_completion [OF Cons.prems(1)]) (use Cons.prems(2) in auto)
    from Cons.IH [OF this] Cons.prems(2) show ?case by simp
  qed
  have "prompts_ok P (apply_completions s)"
    unfolding apply_completions_def using assms by (intro folded) (auto simp: prompts_ok_def)
  then show ?thesis by (auto simp: prompts_ok_def control_ready_def Let_def expire_terminal_def)
qed

lemma tasks_completions [simp]: "cs_tasks (apply_completions s) = cs_tasks s"
proof -
  have "cs_tasks (fold apply_completion cs q) = cs_tasks q" for cs q
    by (induction cs arbitrary: q) simp_all
  then show ?thesis by (simp add: apply_completions_def)
qed

lemma tasks_ready [simp]: "cs_tasks (control_ready now s) = cs_tasks s"
  by (simp add: control_ready_def Let_def)

text \<open>What a decision changes: one channel, of the task whose prompt it answers.\<close>

lemma decision_effect:
  assumes "control_ok s" and "accept_pairing_decision i parent t b s = (response, s')"
  shows "cs_completions s' = cs_completions s" and "prompts_ok P s \<Longrightarrow> prompts_ok P s'"
    and "cs_tasks s' = cs_tasks s \<or>
      (\<exists>n a r. response = Some OrPairingDecisionAccepted \<and> r \<in> set (cs_table s) \<and> cr_id r = parent \<and>
         cr_response r = Some (OrPairingConfirmationRequired t a) \<and> n < length (cs_tasks s) \<and>
         tk_command_id (cs_tasks s ! n) = parent \<and>
         cs_tasks s' = (cs_tasks s)[n := (cs_tasks s ! n)\<lparr>tk_decisions := [(t, b)]\<rparr>])"
proof -
  note cases_of = accept_pairing_decision_def Let_def
  show "cs_completions s' = cs_completions s"
    using assms by (auto simp: cases_of decision_channel_empty split: option.splits owner_response.splits if_splits)
  show "prompts_ok P s \<Longrightarrow> prompts_ok P s'"
    using assms by (auto simp: cases_of decision_channel_empty prompts_ok_def
        split: option.splits owner_response.splits if_splits dest!: set_update_first) blast+
  show "cs_tasks s' = cs_tasks s \<or>
      (\<exists>n a r. response = Some OrPairingDecisionAccepted \<and> r \<in> set (cs_table s) \<and> cr_id r = parent \<and>
         cr_response r = Some (OrPairingConfirmationRequired t a) \<and> n < length (cs_tasks s) \<and>
         tk_command_id (cs_tasks s ! n) = parent \<and>
         cs_tasks s' = (cs_tasks s)[n := (cs_tasks s ! n)\<lparr>tk_decisions := [(t, b)]\<rparr>])" (is "?same \<or> ?sent")
  proof (cases ?same)
    case False
    then obtain r a n where r: "find_record parent (cs_table s) = Some r" "cr_decision_results r = []"
      "cr_response r = Some (OrPairingConfirmationRequired t a)" "cr_decision r = Some n"
      "response = Some OrPairingDecisionAccepted"
      "cs_tasks s' = (cs_tasks s)[n := (cs_tasks s ! n)\<lparr>tk_decisions := [(t, b)]\<rparr>]"
      using assms by (auto simp: cases_of decision_channel_empty split: option.splits owner_response.splits if_splits)
    then have ?sent
      using decision_channel_empty(2,3) [OF assms(1) r(1,4,2)] find_record_Some [OF r(1)] by blast
    then show ?thesis ..
  qed simp
qed

lemma accept_operation_keeps:
  "prompts_ok P s \<Longrightarrow> prompts_ok P (snd (accept_operation env i kind op s))"
  "cs_tasks (snd (accept_operation env i kind op s)) = cs_tasks s"
  by (auto simp: accept_operation_def prompts_ok_def split: option.splits)

lemma accept_pairing_event_keeps:
  "prompts_ok P s \<Longrightarrow> prompts_ok P (snd (accept_pairing_event env i ev s))"
  "decisions_ok D s \<Longrightarrow> decisions_ok D (snd (accept_pairing_event env i ev s))"
  "\<exists>more. cs_tasks (snd (accept_pairing_event env i ev s)) = cs_tasks s @ more"
  by (auto simp: accept_pairing_event_def prompts_ok_def decisions_ok_def Let_def split: option.splits)

text \<open>A command keeps prompts; it adds a decision only by being one, for a prompt in the table.\<close>

lemma handle_prompts:
  assumes "control_ok s" and "prompts_ok P s"
  shows "prompts_ok P (snd (handle_command g l env command s))"
proof -
  note ready = prompts_ok_ready [OF assms(2), of "ce_now env"] and ok = control_ok_ready [OF assms(1), of "ce_now env"]
  note kept = accept_operation_keeps(1) [OF ready] accept_pairing_event_keeps(1) [OF ready]
    decision_effect(2) [OF ok prod.collapse [symmetric] ready]
  show ?thesis
    using ready kept by (cases command) (simp_all add: handle_command_def Let_def case_prod_unfold split: option.splits bool.splits)
qed

lemma handle_decisions:
  assumes "control_ok s" and "prompts_ok P s" and "decisions_ok D s"
    and "\<And>i parent t b. command = OcPairingDecide i g parent t b \<Longrightarrow>
      fst (fst (handle_command g l env command s)) = Some OrPairingDecisionAccepted \<Longrightarrow> P parent t \<Longrightarrow> D parent t b"
  shows "decisions_ok D (snd (handle_command g l env command s))"
proof -
  let ?s = "control_ready (ce_now env) s"
  have ready: "decisions_ok D ?s" using assms(3) by (simp add: decisions_ok_def)
  note ok = control_ok_ready [OF assms(1), of "ce_now env"] and prompts = prompts_ok_ready [OF assms(2), of "ce_now env"]
  have op: "decisions_ok D (snd (accept_operation env i kind op ?s))" for i kind op
    using ready accept_operation_keeps(2) [of env i kind op ?s] by (simp add: decisions_ok_def)
  note kept = op accept_pairing_event_keeps(2) [OF ready]
  show ?thesis
  proof (cases "\<exists>i parent t b. command = OcPairingDecide i g parent t b")
    case False
    then show ?thesis using ready kept
      by (cases command) (simp_all add: handle_command_def Let_def case_prod_unfold split: option.splits bool.splits)
  next
    case True
    then obtain i parent t b where c: "command = OcPairingDecide i g parent t b" by blast
    obtain response s' where r: "accept_pairing_decision i parent t b ?s = (response, s')" by fastforce
    have h: "handle_command g l env command s = ((response, False), s')"
      using r by (simp add: handle_command_def c Let_def)
    from decision_effect(3) [OF ok r] show ?thesis
    proof
      assume "cs_tasks s' = cs_tasks ?s"
      with ready show ?thesis by (simp add: h decisions_ok_def)
    next
      assume "\<exists>n a r. response = Some OrPairingDecisionAccepted \<and> r \<in> set (cs_table ?s) \<and> cr_id r = parent \<and>
         cr_response r = Some (OrPairingConfirmationRequired t a) \<and> n < length (cs_tasks ?s) \<and>
         tk_command_id (cs_tasks ?s ! n) = parent \<and>
         cs_tasks s' = (cs_tasks ?s)[n := (cs_tasks ?s ! n)\<lparr>tk_decisions := [(t, b)]\<rparr>]"
      then obtain n a r where n: "response = Some OrPairingDecisionAccepted" "r \<in> set (cs_table ?s)" "cr_id r = parent"
        "cr_response r = Some (OrPairingConfirmationRequired t a)" "tk_command_id (cs_tasks s ! n) = parent"
        "cs_tasks s' = (cs_tasks s)[n := (cs_tasks s ! n)\<lparr>tk_decisions := [(t, b)]\<rparr>]" by auto
      have "P parent t" using prompts n(2-4) by (auto simp: prompts_ok_def)
      then have "D parent t b" using assms(4) [OF c] n(1) by (simp add: h)
      with assms(3) n(5,6) show ?thesis
        by (auto simp: h decisions_ok_def dest!: set_update_subset_insert [THEN subsetD]) 
    qed
  qed
qed

section \<open>The past of a state\<close>

text \<open>In the log: a prompt for a transaction of a command, and an accepted decision after it.\<close>

definition prompted :: "control_log \<Rightarrow> string list \<Rightarrow> string \<Rightarrow> string \<Rightarrow> bool" where
  "prompted log commands i t \<longleftrightarrow>
     (\<exists>n x a now response. (CtPrompt n x a now, response) \<in> set log \<and> n < length commands \<and> commands ! n = i \<and> hex x = t)"

definition decided :: "string \<Rightarrow> control_log \<Rightarrow> string list \<Rightarrow> string \<Rightarrow> string \<Rightarrow> bool \<Rightarrow> bool" where
  "decided g log commands i t b \<longleftrightarrow>
     (\<exists>before env d after.
        log = before @ (CtCommand env (OcPairingDecide d g i t b), Some OrPairingDecisionAccepted) # after \<and>
        prompted before commands i t)"

lemma prompted_mono:
  assumes "prompted log commands i t"
  shows "prompted (log @ l) (commands @ c) i t"
proof -
  from assms obtain n x a now r where "(CtPrompt n x a now, r) \<in> set log" "n < length commands"
    "commands ! n = i" "hex x = t" by (auto simp: prompted_def)
  then have "(CtPrompt n x a now, r) \<in> set (log @ l)" "n < length (commands @ c)" "(commands @ c) ! n = i" "hex x = t"
    by (auto simp: nth_append)
  then show ?thesis unfolding prompted_def by blast
qed

lemma decided_mono:
  assumes "decided g log commands i t b"
  shows "decided g (log @ l) (commands @ c) i t b"
proof -
  from assms obtain before env d after where
    "log = before @ (CtCommand env (OcPairingDecide d g i t b), Some OrPairingDecisionAccepted) # after"
    and "prompted before commands i t" by (auto simp: decided_def)
  then have "log @ l = before @ (CtCommand env (OcPairingDecide d g i t b), Some OrPairingDecisionAccepted) # (after @ l)"
    and "prompted before (commands @ c) i t"
    using prompted_mono [of before commands i t "[]" c] by simp_all
  then show ?thesis unfolding decided_def by blast
qed

definition commands_of :: "control_state \<Rightarrow> string list" where
  "commands_of s = map tk_command_id (cs_tasks s)"

fun control_inv :: "string \<Rightarrow> control_log \<times> control_state \<Rightarrow> bool" where
  "control_inv g (log, s) \<longleftrightarrow>
     control_ok s \<and> prompts_ok (prompted log (commands_of s)) s \<and>
     decisions_ok (decided g log (commands_of s)) s"

lemma control_inv_mono:
  assumes "control_ok s'" and "\<exists>more. commands_of s' = commands_of s @ more"
    and "prompts_ok (prompted log (commands_of s)) s'"
    and "decisions_ok (decided g log (commands_of s)) s'"
  shows "control_inv g (log @ l, s')"
proof -
  from assms(2) obtain more where more: "commands_of s' = commands_of s @ more" ..
  have "prompts_ok (prompted (log @ l) (commands_of s')) s'"
    unfolding more by (rule prompts_ok_mono [OF assms(3) prompted_mono])
  moreover have "decisions_ok (decided g (log @ l) (commands_of s')) s'"
    unfolding more by (rule decisions_ok_mono [OF assms(4) decided_mono])
  ultimately show ?thesis using assms(1) by simp
qed

lemma handle_commands_of:
  assumes "control_ok s"
  shows "\<exists>more. commands_of (snd (handle_command g l env command s)) = commands_of s @ more"
proof -
  let ?s = "control_ready (ce_now env) s"
  have ready: "commands_of ?s = commands_of s" by (simp add: commands_of_def)
  have op: "commands_of (snd (accept_operation env i kind op ?s)) = commands_of s" for i kind op
    using accept_operation_keeps(2) [of env i kind op ?s] by (simp add: commands_of_def)
  have ev: "\<exists>more. commands_of (snd (accept_pairing_event env i e ?s)) = commands_of s @ more" for i e
    using accept_pairing_event_keeps(3) [of env i e ?s] by (auto simp: commands_of_def)
  have dec: "commands_of (snd (accept_pairing_decision i parent t b ?s)) = commands_of s" for i parent t b
    using decision_effect(3) [OF control_ok_ready [OF assms, of "ce_now env"] prod.collapse [symmetric], of i parent t b]
    by (auto simp: commands_of_def map_update list_update_same_conv)
  show ?thesis
    using ready op ev dec
    by (cases command) (simp_all add: handle_command_def Let_def case_prod_unfold split: option.splits bool.splits)
qed

lemma prompts_ok_send:
  "prompts_ok P s \<Longrightarrow> (\<And>t a. response = OrPairingConfirmationRequired t a \<Longrightarrow> P i t) \<Longrightarrow>
   prompts_ok P (send_completion i response now s)"
  unfolding prompts_ok_def send_completion_def by simp blast

lemma control_inv_command:
  assumes "control_inv g (log, s)"
  shows "control_inv g (logged_step g l (CtCommand env command) (log, s))"
proof -
  obtain response stop s' where h: "handle_command g l env command s = ((response, stop), s')"
    by (metis prod.collapse)
  let ?log = "log @ [(CtCommand env command, response)]"
  from assms have ok: "control_ok s" "prompts_ok (prompted log (commands_of s)) s"
    "decisions_ok (decided g log (commands_of s)) s" by auto
  obtain more where more: "commands_of s' = commands_of s @ more"
    using handle_commands_of [OF ok(1), of g l env command] h by auto
  have "decisions_ok (decided g ?log (commands_of s)) (snd (handle_command g l env command s))"
  proof (rule handle_decisions [OF ok(1,2)])
    show "decisions_ok (decided g ?log (commands_of s)) s"
      using decisions_ok_mono [OF ok(3) decided_mono [where c = "[]"]] by simp
  next
    fix i parent t b
    assume c: "command = OcPairingDecide i g parent t b" and p: "prompted log (commands_of s) parent t"
      and "fst (fst (handle_command g l env command s)) = Some OrPairingDecisionAccepted"
    then have "response = Some OrPairingDecisionAccepted" using h by simp
    then have "?log = log @ (CtCommand env (OcPairingDecide i g parent t b), Some OrPairingDecisionAccepted) # []"
      by (simp add: c)
    with p show "decided g ?log (commands_of s) parent t b" unfolding decided_def by blast
  qed
  then have "decisions_ok (decided g ?log (commands_of s')) s'"
    using h more decisions_ok_mono [OF _ decided_mono [where l = "[]" and c = more]] by simp
  moreover have "prompts_ok (prompted ?log (commands_of s')) s'"
    using prompts_ok_mono [OF handle_prompts [OF ok(1,2), of g l env command] prompted_mono] h more by simp
  ultimately show ?thesis
    using control_ok_handle(1) [OF ok(1), of g l env command] h by (simp add: control_step_def)
qed

lemma decisions_ok_tasks:
  assumes "decisions_ok D s" and "length ts = length (cs_tasks s)"
    and "\<And>n. n < length (cs_tasks s) \<Longrightarrow> tk_command_id (ts ! n) = tk_command_id (cs_tasks s ! n) \<and>
      set (tk_decisions (ts ! n)) \<subseteq> set (tk_decisions (cs_tasks s ! n))"
  shows "decisions_ok D (s\<lparr>cs_tasks := ts\<rparr>)"
  unfolding decisions_ok_def
proof (intro allI impI)
  fix task t b
  assume task: "task \<in> set (cs_tasks (s\<lparr>cs_tasks := ts\<rparr>))" "(t, b) \<in> set (tk_decisions task)"
  then obtain n where n: "n < length (cs_tasks s)" "ts ! n = task" using assms(2) by (auto simp: in_set_conv_nth)
  then have "(t, b) \<in> set (tk_decisions (cs_tasks s ! n))" "tk_command_id task = tk_command_id (cs_tasks s ! n)"
    using assms(3) [OF n(1)] task(2) by auto
  then show "D (tk_command_id task) t b" using assms(1) n(1) by (auto simp: decisions_ok_def)
qed

text \<open>The tasks' own steps.\<close>

lemma control_inv_tasks:
  assumes "control_inv g (log, s)" and "control_ok s'"
    and "length (cs_tasks s') = length (cs_tasks s)" and "cs_table s' = cs_table s" and "set (cs_completions s') \<subseteq> set (cs_completions s)"
    and "\<And>n. n < length (cs_tasks s) \<Longrightarrow> tk_command_id (cs_tasks s' ! n) = tk_command_id (cs_tasks s ! n) \<and>
      set (tk_decisions (cs_tasks s' ! n)) \<subseteq> set (tk_decisions (cs_tasks s ! n))"
  shows "control_inv g (log @ l, s')"
proof (rule control_inv_mono [OF assms(2)])
  have "commands_of s' = commands_of s"
    unfolding commands_of_def using assms(3,6) by (auto intro!: nth_equalityI)
  then show "\<exists>more. commands_of s' = commands_of s @ more" by simp
  show "prompts_ok (prompted log (commands_of s)) s'"
    using assms(1,4,5) by (auto simp: prompts_ok_def dest!: subsetD)
  have "decisions_ok (decided g log (commands_of s)) (s\<lparr>cs_tasks := cs_tasks s'\<rparr>)"
    by (rule decisions_ok_tasks) (use assms in auto)
  then show "decisions_ok (decided g log (commands_of s)) s'" by (simp add: decisions_ok_def)
qed

lemma control_inv_send:
  assumes "control_inv g (log, s)" and "\<And>t a. response = OrPairingConfirmationRequired t a \<Longrightarrow> prompted (log @ l) (commands_of s) i t"
  shows "control_inv g (log @ l, send_completion i response now s)"
proof -
  from assms(1) have ok: "control_ok s" "prompts_ok (prompted log (commands_of s)) s"
    "decisions_ok (decided g log (commands_of s)) s" by auto
  have p: "prompts_ok (prompted (log @ l) (commands_of s)) s"
    using prompts_ok_mono [OF ok(2) prompted_mono [where c = "[]"]] by simp
  have d: "decisions_ok (decided g (log @ l) (commands_of s)) s"
    using decisions_ok_mono [OF ok(3) decided_mono [where c = "[]"]] by simp
  have c: "commands_of (send_completion i response now s) = commands_of s" by (simp add: commands_of_def send_completion_def)
  have "prompts_ok (prompted (log @ l) (commands_of s)) (send_completion i response now s)"
    by (rule prompts_ok_send [OF p]) (rule assms(2))
  moreover have "decisions_ok (decided g (log @ l) (commands_of s)) (send_completion i response now s)"
    using d by (simp add: decisions_ok_def send_completion_def)
  ultimately show ?thesis using control_ok_send [OF ok(1)] by (simp add: c)
qed

lemma control_inv_same: "control_inv g (log, s) \<Longrightarrow> control_inv g (log @ l, s)"
  by (rule control_inv_mono [where s = s and s' = s]) auto

lemma control_inv_step: "control_inv g x \<Longrightarrow> control_inv g (logged_step g l e x)"
proof (cases x)
  case (Pair log s)
  assume "control_inv g x"
  then have inv: "control_inv g (log, s)" by (simp add: Pair)
  then have ok: "control_ok s" by simp
  have next_ok: "control_ok (snd (control_step g l e s))" by (rule control_ok_step [OF ok])
  note tasks = control_inv_tasks [OF inv next_ok]
  have "control_inv g (logged_step g l e (log, s))"
  proof (cases e)
    case (CtCommand env command)
    then show ?thesis using control_inv_command [OF inv] by simp
  next
    case (CtOperation k success now)
    have "control_inv g (log, s\<lparr>cs_workers := ws\<rparr>)" for ws
      using inv by (simp add: control_ok_def prompts_ok_def decisions_ok_def commands_of_def)
    moreover have "operation_success op \<noteq> OrPairingConfirmationRequired t a" for op t a by (cases op) simp_all
    ultimately show ?thesis
      using control_inv_same [OF inv]
      by (auto simp: CtOperation control_step_def operation_returns_def simp del: control_inv.simps
          split: prod.split intro!: control_inv_send split: if_splits)
  next
    case (CtWaiting n now)
    then show ?thesis using control_inv_same [OF inv]
      by (auto intro!: control_inv_send [OF inv] simp: control_step_def task_waiting_def simp del: control_inv.simps)
  next
    case (CtPrompt n x a now)
    have "prompted (log @ [(CtPrompt n x a now, None)]) (commands_of s) (tk_command_id (cs_tasks s ! n)) (hex x)"
      if "live_task n s"
      using that unfolding prompted_def live_task_def commands_of_def
      by (intro exI [of _ n] exI [of _ x] exI [of _ a] exI [of _ now] exI [of _ None]) simp
    then show ?thesis using control_inv_same [OF inv]
      by (auto intro!: control_inv_send [OF inv] simp: CtPrompt control_step_def confirm_prompt_def Let_def simp del: control_inv.simps)
  next
    case (CtConfirm n x now)
    have "control_inv g (log @ r, snd (control_step g l e s))" for r
      by (rule tasks)
        (auto simp: CtConfirm control_step_def confirm_turn_def Let_def live_task_def nth_list_update split: list.splits)
    then show ?thesis by (simp add: CtConfirm control_step_def split: if_splits)
  next
    case (CtFinish n success now)
    then show ?thesis using control_inv_same [OF inv]
      by (auto intro!: control_inv_send [OF inv] simp: control_step_def task_finish_def simp del: control_inv.simps)
  next
    case (CtCancel n)
    have "control_inv g (log @ r, snd (control_step g l e s))" for r
      by (rule tasks) (simp_all add: CtCancel control_step_def task_cancel_def live_task_def nth_list_update)
    then show ?thesis by (simp add: CtCancel control_step_def split: if_splits)
  next
    case (CtDrop n)
    have "control_inv g (log @ r, snd (control_step g l e s))" for r
      by (rule tasks) (simp_all add: CtDrop control_step_def task_drop_def live_task_def nth_list_update)
    then show ?thesis by (simp add: CtDrop control_step_def split: if_splits)
  next
    case CtEventTaken
    have "control_inv g (log @ r, snd (control_step g l e s))" for r
      by (rule tasks) (simp_all add: CtEventTaken control_step_def)
    then show ?thesis by (simp add: CtEventTaken control_step_def)
  next
    case CtRevoked
    have "control_inv g (log @ r, snd (control_step g l e s))" for r
      by (rule tasks) (simp_all add: CtRevoked control_step_def send_event_def)
    then show ?thesis by (simp add: CtRevoked control_step_def)
  next
    case CtShutdown
    have "control_inv g (log @ r, snd (control_step g l e s))" for r
      by (rule tasks) (simp_all add: CtShutdown control_step_def send_event_def)
    then show ?thesis by (simp add: CtShutdown control_step_def)
  next
    case CtCoordinatorGone
    have "control_inv g (log @ r, snd (control_step g l e s))" for r
      by (rule tasks) (simp_all add: CtCoordinatorGone control_step_def)
    then show ?thesis by (simp add: CtCoordinatorGone control_step_def)
  qed
  then show ?thesis by (simp add: Pair)
qed

interpretation owner_system: invariant_system "logged_step g l" "control_inv g" for g l
  by unfold_locales (rule control_inv_step)

lemma control_inv_run: "control_inv g (control_run g l es (control_new c))"
  unfolding control_run_def
  by (rule owner_system.inv_run)
    (simp add: control_new_def control_ok_def prompts_ok_def decisions_ok_def)

section \<open>Commands within ten minutes\<close>

fun event_times :: "control_event \<Rightarrow> nat list" where
  "event_times (CtCommand env _) = [ce_now env]"
| "event_times (CtOperation _ _ now) = [now]"
| "event_times (CtWaiting _ now) = [now]"
| "event_times (CtPrompt _ _ _ now) = [now]"
| "event_times (CtConfirm _ _ now) = [now]"
| "event_times (CtFinish _ _ now) = [now]"
| "event_times _ = []"

text \<open>The identity under which a command is accepted, and the identities accepted in a log.\<close>

fun accepting :: "owner_command \<Rightarrow> string option" where
  "accepting (OcIdentityInit i _) = Some i"
| "accepting (OcUnpair i _ _) = Some i"
| "accepting (OcPairingWindowOpen i _) = Some i"
| "accepting (OcPairStart i _ _) = Some i"
| "accepting _ = None"

fun accepted_id :: "control_event \<times> owner_response option \<Rightarrow> string list" where
  "accepted_id (CtCommand _ command, Some OrCommandAccepted) =
     (case accepting command of Some i \<Rightarrow> [i] | None \<Rightarrow> [])"
| "accepted_id _ = []"

definition accepted_ids :: "control_log \<Rightarrow> string list" where
  "accepted_ids log = concat (map accepted_id log)"

text \<open>The commands for which a step starts an operation: a thread, or a task that lives.\<close>

definition started :: "control_state \<Rightarrow> control_state \<Rightarrow> string list" where
  "started s s' = map fst (drop (length (cs_workers s)) (cs_workers s')) @
     map tk_command_id (filter tk_alive (drop (length (cs_tasks s)) (cs_tasks s')))"

fun operation_starts ::
  "string \<Rightarrow> owner_launch_metadata option \<Rightarrow> control_event list \<Rightarrow> control_state \<Rightarrow> string list" where
  "operation_starts g l [] s = []"
| "operation_starts g l (e # es) s =
     (let s' = snd (control_step g l e s) in started s s' @ operation_starts g l es s')"

text \<open>No completion is an acceptance, and those of the identities in \<open>S\<close> are stamped from \<open>t\<close> on.\<close>

definition stamped_from :: "nat \<Rightarrow> string set \<Rightarrow> control_state \<Rightarrow> bool" where
  "stamped_from t S s \<longleftrightarrow>
     list_all (\<lambda>(i, response, c). (i \<in> S \<longrightarrow> t \<le> c) \<and> response \<noteq> OrCommandAccepted) (cs_completions s) \<and>
     (\<forall>r \<in> set (cs_table s). (\<forall>c. cr_id r \<in> S \<longrightarrow> cr_completed_at r = Some c \<longrightarrow> t \<le> c) \<and>
        cr_response r \<noteq> Some OrCommandAccepted)"

definition ids_of :: "control_state \<Rightarrow> string set" where
  "ids_of s = cr_id ` set (cs_table s)"

lemma stamped_nobody: "stamped_from t S s \<Longrightarrow> stamped_from t' {} s"
  by (auto simp: stamped_from_def list_all_iff)

lemma update_first_id_set [simp]:
  "(\<And>r. cr_id (f r) = cr_id r) \<Longrightarrow> cr_id ` set (update_first i f rs) = cr_id ` set rs"
  by (induction rs) auto

lemma stamped_completions:
  assumes "stamped_from t S s"
  shows "stamped_from t S (apply_completions s)" and "ids_of (apply_completions s) = ids_of s"
    and "cs_completions (apply_completions s) = []" and "cs_workers (apply_completions s) = cs_workers s"
proof -
  have one: "stamped_from t S (apply_completion c q) \<and> ids_of (apply_completion c q) = ids_of q \<and>
      cs_completions (apply_completion c q) = cs_completions q \<and> cs_workers (apply_completion c q) = cs_workers q"
    if "stamped_from t S q" "(\<lambda>(i, response, c). (i \<in> S \<longrightarrow> t \<le> c) \<and> response \<noteq> OrCommandAccepted) c" for c q
    using that by (cases c) (auto simp: stamped_from_def apply_completion_def ids_of_def complete_record_def
        split: option.splits if_splits dest!: set_update_first)
  have "stamped_from t S (fold apply_completion cs q) \<and> ids_of (fold apply_completion cs q) = ids_of q \<and>
      cs_completions (fold apply_completion cs q) = cs_completions q \<and> cs_workers (fold apply_completion cs q) = cs_workers q"
    if "stamped_from t S q" "list_all (\<lambda>(i, response, c). (i \<in> S \<longrightarrow> t \<le> c) \<and> response \<noteq> OrCommandAccepted) cs" for cs q
    using that
  proof (induction cs arbitrary: q)
    case (Cons c cs)
    then show ?case using one [of q c] by auto
  qed simp
  from this [of "s\<lparr>cs_completions := []\<rparr>" "cs_completions s"] assms
  show "stamped_from t S (apply_completions s)" and "ids_of (apply_completions s) = ids_of s"
    and "cs_completions (apply_completions s) = []" and "cs_workers (apply_completions s) = cs_workers s"
    by (auto simp: apply_completions_def stamped_from_def ids_of_def)
qed

text \<open>What the stretch knows of the table; only identities outside \<open>S\<close> may be expired.\<close>

definition stretch :: "nat \<Rightarrow> string set \<Rightarrow> control_state \<Rightarrow> bool" where
  "stretch t S s \<longleftrightarrow> control_ok s \<and> stamped_from t S s \<and> S \<subseteq> ids_of s"

lemma stretch_ready:
  assumes "stretch t S s" and "now < t + 600000"
  shows "stretch t S (control_ready now s)" and "cs_completions (control_ready now s) = []"
    and "started (control_ready now s) s' = started s s'"
proof -
  let ?q = "apply_completions s"
  have st: "stamped_from t S s" and S: "S \<subseteq> ids_of s" and ok: "control_ok s" using assms(1) by (simp_all add: stretch_def)
  note q = stamped_completions [OF st]
  have kept: "unexpired now r" if "r \<in> set (cs_table ?q)" "cr_id r \<in> S" for r
    using q(1) that assms(2) by (auto simp: unexpired_def stamped_from_def less_diff_conv2 split: option.split)
  have "i \<in> ids_of (control_ready now s)" if i: "i \<in> S" for i
  proof -
    have "i \<in> ids_of ?q" using i S q(2) by auto
    then obtain r where "r \<in> set (cs_table ?q)" "cr_id r = i" by (auto simp: ids_of_def)
    then show ?thesis using kept i by (auto simp: ids_of_def control_ready_def Let_def expire_terminal_def)
  qed
  then have "S \<subseteq> ids_of (control_ready now s)" by blast
  moreover have "stamped_from t S (control_ready now s)"
    using q(1) by (auto simp: stamped_from_def control_ready_def Let_def expire_terminal_def)
  ultimately show "stretch t S (control_ready now s)" using control_ok_ready [OF ok] by (simp add: stretch_def)
  show "cs_completions (control_ready now s) = []" using q(3) by (simp add: control_ready_def Let_def)
  show "started (control_ready now s) s' = started s s'" using q(4) by (simp add: started_def control_ready_def Let_def)
qed

text \<open>An acceptance starts one operation, of an identity that was not in the table; anything else none.\<close>

definition answered :: "nat \<Rightarrow> string set \<Rightarrow> string \<Rightarrow> control_state \<Rightarrow> owner_response \<times> control_state \<Rightarrow> bool" where
  "answered t S i s = (\<lambda>(response, s').
     if response = OrCommandAccepted
     then i \<notin> S \<and> started s s' = [i] \<and> stretch t (insert i S) s'
     else started s s' = [] \<and> stretch t S s')"

lemma accept_operation_stretch:
  assumes "stretch t S s" and "cs_completions s = []"
  shows "answered t S i s (accept_operation env i kind op s)"
proof -
  have "control_ok (snd (accept_operation env i kind op s))" using assms(1) by (simp add: stretch_def control_ok_accept)
  then show ?thesis using assms find_record_None [of i "cs_table s"] find_record_Some [of i "cs_table s"]
    by (auto simp: answered_def stretch_def accept_operation_def stamped_from_def ids_of_def current_response_def started_def
        split: option.splits if_splits)
qed

lemma accept_pairing_event_stretch:
  assumes "stretch t S s" and "cs_completions s = []"
  shows "answered t S i s (accept_pairing_event env i ev s)"
proof -
  have "control_ok (snd (accept_pairing_event env i ev s))" using assms(1) by (simp add: stretch_def control_ok_event)
  then show ?thesis using assms find_record_None [of i "cs_table s"] find_record_Some [of i "cs_table s"]
    by (auto simp: answered_def stretch_def accept_pairing_event_def stamped_from_def ids_of_def current_response_def started_def Let_def
        split: option.splits if_splits)
qed

lemma decision_stretch:
  assumes "stretch t S s"
  shows "stretch t S (snd (accept_pairing_decision i parent tx b s)) \<and> started s (snd (accept_pairing_decision i parent tx b s)) = []"
proof -
  have ok: "control_ok s" using assms by (simp add: stretch_def)
  then have "control_ok (snd (accept_pairing_decision i parent tx b s))" by (rule control_ok_decision)
  then show ?thesis using assms ok
    by (auto simp: accept_pairing_decision_def Let_def decision_channel_empty stamped_from_def ids_of_def stretch_def started_def
        split: option.splits owner_response.splits dest!: set_update_first)
qed

lemma handle_stretch:
  assumes "stretch t S s" and "ce_now env < t + 600000"
    and "handle_command g l env command s = ((response, stop), s')"
  shows "(\<exists>i. accepting command = Some i \<and> response = Some OrCommandAccepted \<and> i \<notin> S \<and> started s s' = [i] \<and> stretch t (insert i S) s') \<or>
    (accepting command = None \<or> response \<noteq> Some OrCommandAccepted) \<and> started s s' = [] \<and> stretch t S s'"
proof -
  let ?q = "control_ready (ce_now env) s"
  note q = stretch_ready [OF assms(1,2)]
  note op = accept_operation_stretch [OF q(1,2)] and ev = accept_pairing_event_stretch [OF q(1,2)]
    and dec = decision_stretch [OF q(1)]
  have same: "started s ?q = []" using q(3) [of ?q] by (simp add: started_def)
  have "answered t S i s x \<Longrightarrow> x = (r, s1) \<Longrightarrow>
      (r = OrCommandAccepted \<and> i \<notin> S \<and> started s s1 = [i] \<and> stretch t (insert i S) s1) \<or>
      (r \<noteq> OrCommandAccepted \<and> started s s1 = [] \<and> stretch t S s1)" for i x r s1
    by (auto simp: answered_def split: if_splits)
  note cases_of = this [OF _ prod.collapse [symmetric]]
  have op': "answered t S i s (accept_operation env i kind o' ?q)" for i kind o'
    using op [of i env kind o'] q(3) by (simp add: answered_def case_prod_unfold split: if_splits)
  have ev': "answered t S i s (accept_pairing_event env i e' ?q)" for i e'
    using ev [of i env e'] q(3) by (simp add: answered_def case_prod_unfold split: if_splits)
  note h = assms(3) [unfolded handle_command_def Let_def case_prod_unfold]
  show ?thesis
  proof (cases command)
    case (OcIdentityInit i generation)
    then show ?thesis using h q(1) same cases_of [OF op' [of i IdentityInit IdentityInitOp]] by (auto split: if_splits)
  next
    case (OcUnpair i generation peer_id)
    then show ?thesis using h q(1) same cases_of [OF op' [of i IdentityUnpair "UnpairOp peer_id"]] by (auto split: if_splits)
  next
    case (OcPairingWindowOpen i generation)
    then show ?thesis using h q(1) same cases_of [OF ev' [of i EvPairingWindowOpen]] by (auto split: if_splits)
  next
    case (OcPairStart i generation address)
    then show ?thesis using h q(1) same cases_of [OF ev' [of i "EvPairStart address"]]
      by (auto split: if_splits option.splits bool.splits)
  next
    case (OcPairingDecide i generation parent tx b)
    then show ?thesis using h q(1,3) same dec [of i parent tx b] by (auto split: if_splits)
  qed (use h q(1) same in \<open>auto split: if_splits\<close>)
qed

lemma stretch_step:
  assumes "stretch t S s" and "list_all (\<lambda>now. t \<le> now \<and> now < t + 600000) (event_times e)"
    and st: "control_step g l e s = (response, s')" and new: "accepted_id (e, response) = new"
  shows "started s s' = new \<and> distinct new \<and> set new \<inter> S = {} \<and> stretch t (set new \<union> S) s'"
proof (cases e)
  case (CtCommand env command)
  then obtain stop where h: "handle_command g l env command s = ((response, stop), s')"
    using st by (auto simp: control_step_def split: prod.splits)
  have time: "ce_now env < t + 600000" using assms(2) by (simp add: CtCommand)
  have "new = (case accepting command of Some i \<Rightarrow> if response = Some OrCommandAccepted then [i] else [] | None \<Rightarrow> [])"
    using new by (cases "(e, response)" rule: accepted_id.cases) (auto simp: CtCommand split: option.splits)
  then show ?thesis using handle_stretch [OF assms(1) time h] by (auto split: option.splits)
next
  case (CtOperation k success now)
  have "operation_success op \<noteq> OrCommandAccepted" and "OrCommandAccepted \<noteq> operation_success op" for op
    by (cases op; simp)+
  then show ?thesis using assms control_ok_step [of s g l e]
    by (auto simp: CtOperation control_step_def operation_returns_def send_completion_def stamped_from_def ids_of_def
        stretch_def started_def split: prod.splits if_splits)
qed (use assms control_ok_step [of s g l e] in \<open>auto simp: control_step_def send_event_def task_waiting_def task_finish_def
      task_cancel_def task_drop_def confirm_prompt_def confirm_turn_def send_completion_def stamped_from_def ids_of_def Let_def
      stretch_def started_def split: prod.splits if_splits list.splits\<close>)

lemma logged_fold: "fold (logged_step g l) es (log, s) = (log @ fst (control_run g l es s), snd (control_run g l es s))"
proof -
  have "fold (logged_step g l) es (log @ log', s) =
      (log @ fst (fold (logged_step g l) es (log', s)), snd (fold (logged_step g l) es (log', s)))" for log'
    by (induction es arbitrary: s log') (simp_all add: case_prod_unfold)
  from this [of "[]"] show ?thesis by (simp add: control_run_def)
qed

lemma control_run_Cons:
  "control_run g l (e # es) s =
     ((e, fst (control_step g l e s)) # fst (control_run g l es (snd (control_step g l e s))),
      snd (control_run g l es (snd (control_step g l e s))))"
  using logged_fold [of g l es "[(e, fst (control_step g l e s))]" "snd (control_step g l e s)"]
  by (simp add: control_run_def case_prod_unfold)

lemma control_run_Nil: "control_run g l [] s = ([], s)"
  by (simp add: control_run_def)

lemma stretch_run:
  assumes "stretch t S s" and "list_all (\<lambda>e. list_all (\<lambda>now. t \<le> now \<and> now < t + 600000) (event_times e)) es"
  shows "operation_starts g l es s = accepted_ids (fst (control_run g l es s)) \<and>
    distinct (accepted_ids (fst (control_run g l es s))) \<and> set (accepted_ids (fst (control_run g l es s))) \<inter> S = {}"
  using assms
proof (induction es arbitrary: s S)
  case Nil
  then show ?case by (simp add: control_run_Nil accepted_ids_def)
next
  case (Cons e es)
  obtain response s' where st: "control_step g l e s = (response, s')" by fastforce
  let ?new = "accepted_id (e, response)"
  have times: "list_all (\<lambda>now. t \<le> now \<and> now < t + 600000) (event_times e)" using Cons.prems(2) by simp
  note step = stretch_step [OF Cons.prems(1) times st refl]
  have "stretch t (set ?new \<union> S) s'" using step by blast
  from Cons.IH [OF this] Cons.prems(2) step show ?case
    by (auto simp: control_run_Cons st accepted_ids_def Let_def)
qed

text \<open>Before the stretch the clock may have shown anything.\<close>

lemma reachable_stretch: "stretch t {} (snd (control_run g l es (control_new c)))"
proof -
  have "stretch t {} s \<Longrightarrow> stretch t {} (snd (control_run g l es s))" for s
  proof (induction es arbitrary: s)
    case (Cons e es)
    obtain response s' where st: "control_step g l e s = (response, s')" by fastforce
    define u where "u = (case event_times e of [] \<Rightarrow> 0 | now # _ \<Rightarrow> now)"
    have times: "list_all (\<lambda>now. u \<le> now \<and> now < u + 600000) (event_times e)"
      by (cases e) (simp_all add: u_def)
    have "stretch u {} s" using Cons.prems stamped_nobody by (auto simp: stretch_def)
    from stretch_step [OF this times st refl] have "stretch t {} s'"
      using stamped_nobody by (auto simp: stretch_def)
    then show ?case using Cons.IH by (simp add: control_run_Cons st)
  qed (simp add: control_run_Nil)
  moreover have "stretch t {} (control_new c)"
    by (simp add: stretch_def control_new_def control_ok_def stamped_from_def)
  ultimately show ?thesis by blast
qed

section \<open>A command nobody will finish\<close>

text \<open>
  The command waits, nothing reported for it is on its way, no thread runs for it, and no clone
  of its task is left. Nothing that can happen to the owner control changes that.
\<close>

definition orphaned :: "string \<Rightarrow> control_state \<Rightarrow> bool" where
  "orphaned i s \<longleftrightarrow>
     (\<exists>r. find_record i (cs_table s) = Some r \<and> cr_response r = Some OrPairingWaiting \<and> cr_completed_at r = None) \<and>
     i \<notin> fst ` set (cs_completions s) \<and> i \<notin> fst ` set (cs_workers s) \<and>
     (\<forall>task \<in> set (cs_tasks s). tk_command_id task = i \<longrightarrow> \<not> tk_alive task)"

lemma find_record_other:
  "j \<noteq> i \<Longrightarrow> (\<And>r. cr_id (f r) = cr_id r) \<Longrightarrow> find_record i (update_first j f rs) = find_record i rs"
  by (induction rs) (auto simp: find_record_def)

lemma find_record_filter: "find_record i rs = Some r \<Longrightarrow> P r \<Longrightarrow> find_record i (filter P rs) = Some r"
  by (induction rs) (auto simp: find_record_def split: if_splits)

lemma find_record_append: "find_record i rs = Some r \<Longrightarrow> find_record i (rs @ qs) = Some r"
  by (induction rs) (auto simp: find_record_def)

lemma orphaned_ready:
  assumes "orphaned i s"
  shows "orphaned i (control_ready now s)"
proof -
  have one: "find_record i (cs_table (apply_completion c q)) = find_record i (cs_table q)" "cs_tasks (apply_completion c q) = cs_tasks q"
    "cs_workers (apply_completion c q) = cs_workers q" "cs_completions (apply_completion c q) = cs_completions q"
    if "fst c \<noteq> i" for c q
    using that by (auto simp: apply_completion_def find_record_other split: prod.splits option.splits)
  have "find_record i (cs_table (fold apply_completion cs q)) = find_record i (cs_table q) \<and>
      cs_tasks (fold apply_completion cs q) = cs_tasks q \<and> cs_workers (fold apply_completion cs q) = cs_workers q \<and>
      cs_completions (fold apply_completion cs q) = cs_completions q"
    if "i \<notin> fst ` set cs" for cs q
    using that by (induction cs arbitrary: q) (auto simp: one)
  from this [of "cs_completions s" "s\<lparr>cs_completions := []\<rparr>"] assms show ?thesis
    by (auto simp: orphaned_def control_ready_def apply_completions_def Let_def expire_terminal_def unexpired_def
        intro!: find_record_filter)
qed

lemma orphaned_accept: "orphaned i s \<Longrightarrow> orphaned i (snd (accept_operation env j kind op s))"
  by (auto simp: orphaned_def accept_operation_def find_record_append split: option.splits)

lemma orphaned_event: "orphaned i s \<Longrightarrow> orphaned i (snd (accept_pairing_event env j ev s))"
  by (auto simp: orphaned_def accept_pairing_event_def find_record_append Let_def split: option.splits)

lemma orphaned_task_update:
  assumes "orphaned i s" and "tk_command_id t = tk_command_id (cs_tasks s ! n)" and "tk_alive t \<Longrightarrow> tk_alive (cs_tasks s ! n)"
  shows "orphaned i (s\<lparr>cs_tasks := (cs_tasks s)[n := t]\<rparr>)"
proof (cases "n < length (cs_tasks s)")
  case True
  with assms show ?thesis by (auto simp: orphaned_def dest!: set_update_subset_insert [THEN subsetD])
next
  case False
  with assms(1) show ?thesis by (simp add: list_update_beyond)
qed

lemma orphaned_decision:
  assumes "orphaned i s"
  shows "orphaned i (snd (accept_pairing_decision j parent t b s))"
proof -
  have send: "orphaned i s'" if "decision_send n d s = Some (ok, s')" for n d ok s'
    using that assms by (auto simp: decision_send_def Let_def intro!: orphaned_task_update split: if_splits)
  have answer: "orphaned i (s'\<lparr>cs_table := update_first parent
      (\<lambda>r. r\<lparr>cr_decision_results := cr_decision_results r @ [x]\<rparr>) (cs_table s')\<rparr>)"
    if "orphaned i s'" "parent \<noteq> i" for s' x
    using that by (simp add: orphaned_def find_record_other)
  show ?thesis
  proof (cases "parent = i")
    case True
    with assms show ?thesis
      by (auto simp: orphaned_def accept_pairing_decision_def split: option.splits)
  next
    case False
    with assms show ?thesis
      by (auto simp: accept_pairing_decision_def Let_def answer send split: option.splits owner_response.splits bool.splits)
  qed
qed

lemma orphaned_handle: "orphaned i s \<Longrightarrow> orphaned i (snd (handle_command g l env command s))"
proof -
  assume "orphaned i s"
  note ready = orphaned_ready [OF this, of "ce_now env"]
  note kept = ready orphaned_accept [OF ready] orphaned_event [OF ready] orphaned_decision [OF ready]
  show ?thesis
    using kept by (cases command) (simp_all add: handle_command_def Let_def case_prod_unfold split: option.splits bool.splits)
qed

lemma live_task_other: "orphaned i s \<Longrightarrow> live_task n s \<Longrightarrow> tk_command_id (cs_tasks s ! n) \<noteq> i"
  by (auto simp: orphaned_def live_task_def)

lemma orphaned_send: "orphaned i s \<Longrightarrow> j \<noteq> i \<Longrightarrow> orphaned i (send_completion j r now s)"
  by (simp add: orphaned_def send_completion_def)

lemma orphaned_step:
  assumes "orphaned i s"
  shows "orphaned i (snd (control_step g l e s))"
proof (cases e)
  case (CtCommand env command)
  then show ?thesis using orphaned_handle [OF assms] by (simp add: control_step_def case_prod_unfold)
next
  case (CtOperation k success now)
  have "fst (cs_workers s ! k) \<noteq> i" if "k < length (cs_workers s)"
    using assms that by (auto simp: orphaned_def)
  moreover have "orphaned i (s\<lparr>cs_workers := take k (cs_workers s) @ drop (Suc k) (cs_workers s)\<rparr>)"
    using assms by (auto simp: orphaned_def dest: in_set_takeD in_set_dropD)
  ultimately show ?thesis using assms
    by (auto simp: CtOperation control_step_def operation_returns_def split: prod.split intro!: orphaned_send)
next
  case (CtConfirm n t now)
  then show ?thesis using assms
    by (auto simp: control_step_def confirm_turn_def Let_def live_task_def
        intro!: orphaned_task_update split: list.splits if_splits)
next
  case (CtCancel n)
  then show ?thesis using assms
    by (auto simp: control_step_def task_cancel_def live_task_def intro!: orphaned_task_update)
next
  case (CtDrop n)
  then show ?thesis using assms
    by (auto simp: control_step_def task_drop_def live_task_def intro!: orphaned_task_update)
qed (use assms live_task_other [OF assms] in
    \<open>auto simp: control_step_def send_event_def task_waiting_def confirm_prompt_def task_finish_def Let_def intro!: orphaned_send,
     auto simp: orphaned_def\<close>)

section \<open>Properties\<close>

text \<open>
  C20: The table is well formed after every run of commands, operations and tasks: at most sixteen
  records of distinct valid identities, a completion time exactly on the terminal ones, at most
  one decision each; and every command is answered, since a decision always finds the channel of
  its task empty.
\<close>

theorem owner_table_well_formed:
  "let s = snd (control_run g l es (control_new c))
   in control_ok s \<and> fst (fst (handle_command g l env command s)) \<noteq> None"
proof -
  have "control_ok (snd (control_run g l es (control_new c)))"
    using control_inv_run [of g l es c] by (cases "control_run g l es (control_new c)") simp
  then show ?thesis using control_ok_handle(2) by (simp add: Let_def)
qed

text \<open>
  C18: A pairing task is told \<open>true\<close> only for the transaction it showed the user, after the user's
  decision on that very transaction was accepted for its command: in the log, a prompt for the
  transaction, then the confirming decision.
\<close>

theorem pairing_confirmed_by_user:
  assumes "control_run g l es (control_new c) = (log, s)" and "live_task n s"
    and "fst (confirm_turn n transaction now s) = Some True"
  shows "decided g log (commands_of s) (commands_of s ! n) (hex transaction) True"
proof -
  let ?task = "cs_tasks s ! n"
  have "decisions_ok (decided g log (commands_of s)) s" using control_inv_run [of g l es c] assms(1) by simp
  moreover have "(hex transaction, True) \<in> set (tk_decisions ?task)"
    using assms(3) by (auto simp: confirm_turn_def Let_def split: if_splits list.splits)
  moreover have "n < length (cs_tasks s)" "commands_of s ! n = tk_command_id ?task"
    using assms(2) by (simp_all add: live_task_def commands_of_def)
  ultimately show ?thesis by (auto simp: decisions_ok_def)
qed

text \<open>A window is opened, its task shows a prompt, and the user confirms it.\<close>

definition example_control_env :: "nat \<Rightarrow> control_env" where
  "example_control_env now = \<lparr>ce_now = now, ce_peer = Inr Unpaired, ce_address = (\<lambda>_. None), ce_recording = False\<rparr>"

definition example_id :: "char \<Rightarrow> string" where
  "example_id c = replicate 32 c"

definition example_confirmation :: "control_event list" where
  "example_confirmation =
     [CtCommand (example_control_env 0) (OcPairingWindowOpen (example_id CHR ''a'') ''g''),
      CtPrompt 0 (replicate 16 17) ''123456'' 10,
      CtCommand (example_control_env 20) (OcCommandResult (example_id CHR ''a'') ''g''),
      CtCommand (example_control_env 30)
        (OcPairingDecide (example_id CHR ''b'') ''g'' (example_id CHR ''a'') (hex (replicate 16 17)) True)]"

text \<open>A transaction as it is shown is a valid identity.\<close>

lemma valid_id_hex: "length bs = 16 \<Longrightarrow> valid_id (hex bs)"
  using hex_lower [of bs] by (auto simp: valid_id_def lower_hex_def HEX_DIGITS_def list_all_iff)

lemma example_ids:
  "valid_id (example_id CHR ''a'')" "valid_id (example_id CHR ''b'')" "valid_id (hex (replicate 16 17))"
  "(example_id CHR ''b'' = example_id CHR ''a'') = False"
  by (simp_all only: valid_id_hex length_replicate) (simp_all add: valid_id_def example_id_def list_all_iff)

lemmas example_control_defs = control_run_def control_step_def handle_command_def control_ready_def
  apply_completions_def apply_completion_def accept_pairing_event_def accept_pairing_decision_def decision_send_def
  confirm_prompt_def send_completion_def find_record_def complete_record_def expire_terminal_def unexpired_def
  finished_diagnostic_def terminal_def live_task_def control_new_def example_control_env_def TABLE_MAX_def Let_def

lemma example_confirmation_run:
  "let (log, s) = control_run ''g'' None example_confirmation (control_new (Some True))
   in live_task 0 s \<and> fst (confirm_turn 0 (replicate 16 17) 40 s) = Some True"
  by (simp add: example_confirmation_def example_control_defs example_ids confirm_turn_def del: hex.simps)

theorem pairing_confirmed_by_user_witness:
  "let (log, s) = control_run ''g'' None example_confirmation (control_new (Some True))
   in decided ''g'' log (commands_of s) (commands_of s ! 0) (hex (replicate 16 17)) True"
  using example_confirmation_run
    pairing_confirmed_by_user [where g = "''g''" and l = None and es = example_confirmation and c = "Some True"
      and n = 0 and transaction = "replicate 16 17" and now = 40]
  by (auto split: prod.splits)

text \<open>
  C19: In any ten minutes of an owner's life, each command identity is accepted at most once, and
  the operations started (threads of the identity actor, pairing tasks handed to the runtime) are
  exactly those of the accepted commands, one each and in their order: a repeated command starts
  nothing, however commands, operations and tasks interleave, however often an answer is lost, and
  whatever happened before.
\<close>

theorem owner_command_accepted_once:
  assumes "list_all (\<lambda>e. list_all (\<lambda>now. t \<le> now \<and> now < t + 600000) (event_times e)) later"
    and "s = snd (control_run g l earlier (control_new c))"
  shows "operation_starts g l later s = accepted_ids (fst (control_run g l later s)) \<and>
    distinct (accepted_ids (fst (control_run g l later s)))"
  using stretch_run [OF reachable_stretch assms(1), of g l g l earlier c] assms(2) by simp

text \<open>
  An initialisation is accepted, expires after ten minutes, is accepted once more, and then
  repeated while its operation runs and after it.
\<close>

definition example_repetition :: "control_event list" where
  "example_repetition =
     [CtCommand (example_control_env 700000) (OcIdentityInit (example_id CHR ''a'') ''g''),
      CtCommand (example_control_env 700005) (OcIdentityInit (example_id CHR ''a'') ''g''),
      CtOperation 0 False 700007,
      CtCommand (example_control_env 700009) (OcIdentityInit (example_id CHR ''a'') ''g'')]"

definition example_before :: "control_event list" where
  "example_before =
     [CtCommand (example_control_env 5) (OcIdentityInit (example_id CHR ''a'') ''g''), CtOperation 0 True 7]"

theorem owner_command_accepted_once_witness:
  "operation_starts ''g'' None example_repetition (snd (control_run ''g'' None example_before (control_new None)))
     = [example_id CHR ''a'']"
proof -
  have "accepted_ids (fst (control_run ''g'' None example_repetition
      (snd (control_run ''g'' None example_before (control_new None))))) = [example_id CHR ''a'']"
    by (simp add: example_repetition_def example_before_def example_control_defs example_ids accepted_ids_def
        accept_operation_def operation_returns_def current_response_def)
  then show ?thesis
    using owner_command_accepted_once [where t = 700000 and g = "''g''" and l = None and c = None
        and later = example_repetition and earlier = example_before, OF _ refl]
    by (simp add: example_repetition_def example_control_env_def)
qed

end
