(* ===== verification/Host_Loop.thy ===== *)
theory Host_Loop
  imports Pairing Owner_Control
begin

text \<open>
  \<open>apps/desktop-host/src/lib.rs\<close>, \<open>host_accept_loop\<close>: the loop of the host runtime, with the
  threads of its connections and the owner control it shares its pairing tasks with. The loop
  goes from one point where others can interfere to the next (\<open>hl_pc\<close>); the connection threads
  and the owner's commands come in between, in any order. The end of a connection's thread and
  its report to the loop are one step.
\<close>

section \<open>State\<close>

text \<open>
  How far a connection of the pairing window has come: before its \<open>PairingBegin\<close>, with the
  reservation, after the prompt, after the decision, refused, or after telling the result.
\<close>

datatype pairing_stage =
  PsBegin | PsReserved | PsPrompted "u8 list" | PsDecided | PsRefused | PsFinished

datatype session_stage = SsOpening | SsAdmitted | SsServing

datatype connection_work =
  PairingWork nat pairing_stage
| BusyWork
| SessionWork session_stage

datatype loop_pc =
  LpStart | LpDone | LpEvents | LpPairing | LpAcks | LpAccept | LpEnded "session_error + bool"

text \<open>
  \<open>hl_streams\<close> are the cancellation streams and whether they have been shut down, \<open>hl_done\<close> is
  the channel \<open>connection_completed\<close>, \<open>hl_finished\<close> counts tasks that ended and were not joined
  yet, \<open>hl_acks\<close> lists the acknowledgements sent.
\<close>

record host_loop =
  hl_pc :: loop_pc
  hl_control :: control_state
  hl_window :: "nat option"
  hl_active :: "nat option"
  hl_pairing :: "bool \<times> bool \<times> bool"
  hl_streams :: "(u64 \<times> bool) list"
  hl_next_connection_id :: u64
  hl_workers :: "(u64 \<times> connection_work) list"
  hl_done :: "u64 list"
  hl_finished :: nat
  hl_permits :: nat
  hl_authenticated :: bool
  hl_listener :: bool
  hl_signal :: bool
  hl_revocation :: bool
  hl_shutdown :: bool
  hl_acks :: "owner_event list"

definition host_start :: "control_state \<Rightarrow> host_loop" where
  "host_start control = \<lparr>hl_pc = LpStart, hl_control = control, hl_window = None, hl_active = None,
     hl_pairing = (False, False, False), hl_streams = [], hl_next_connection_id = 0,
     hl_workers = [], hl_done = [], hl_finished = 0, hl_permits = 4, hl_authenticated = False,
     hl_listener = True, hl_signal = False, hl_revocation = False, hl_shutdown = False, hl_acks = []\<rparr>"

section \<open>Owner events\<close>

definition cancel_task :: "nat option \<Rightarrow> control_state \<Rightarrow> control_state" where
  "cancel_task task control = (case task of Some n \<Rightarrow> task_cancel n control | None \<Rightarrow> control)"

definition cancel_everything :: "host_loop \<Rightarrow> host_loop" where
  "cancel_everything s =
     s\<lparr>hl_control := cancel_task (hl_active s) (cancel_task (hl_window s) (hl_control s)),
       hl_streams := map (\<lambda>(i, _). (i, True)) (hl_streams s)\<rparr>"

text \<open>Leaving the loop drops its tasks and its end of the event channel.\<close>

definition loop_end :: "session_error + bool \<Rightarrow> host_loop \<Rightarrow> host_loop" where
  "loop_end result s =
     s\<lparr>hl_pc := LpEnded result, hl_window := None, hl_active := None,
       hl_control := (hl_control s)\<lparr>cs_coordinator := map_option (\<lambda>_. False) (cs_coordinator (hl_control s)),
                                  cs_events := []\<rparr>\<rparr>"

definition open_window :: "nat \<Rightarrow> nat \<Rightarrow> store_error + peer_status \<Rightarrow> host_loop \<Rightarrow> host_loop" where
  "open_window now n peer s =
     (if hl_window s \<noteq> None \<or> hl_active s \<noteq> None
      then s\<lparr>hl_control := task_finish n False now (hl_control s)\<rparr>
      else
        (case peer of
           Inl _ \<Rightarrow> loop_end (Inl SxIdentity) s
         | Inr status \<Rightarrow>
             if status \<noteq> Unpaired then s\<lparr>hl_control := task_finish n False now (hl_control s)\<rparr>
             else s\<lparr>hl_pairing := (False, False, False), hl_active := None,
                    hl_control := task_waiting n now (hl_control s), hl_window := Some n\<rparr>))"

definition owner_event :: "nat \<Rightarrow> store_error + peer_status \<Rightarrow> owner_event \<Rightarrow> host_loop \<Rightarrow> host_loop" where
  "owner_event now peer event s =
     (case event of
        EvIdentityRevoked \<Rightarrow> (cancel_everything s)\<lparr>hl_revocation := True\<rparr>
      | EvPairingWindowOpen n \<Rightarrow> open_window now n peer s
      | EvPairStart _ n \<Rightarrow> s\<lparr>hl_control := task_finish n False now (hl_control s)\<rparr>
      | EvRuntimeShutdown \<Rightarrow> (cancel_everything s)\<lparr>hl_listener := False, hl_shutdown := True\<rparr>)"

section \<open>The pairing window\<close>

text \<open>
  The state shared with the connections: consumed, a reservation waiting to be transferred, the
  reserved task finished.
\<close>

definition pairing_turn :: "nat \<Rightarrow> host_loop \<Rightarrow> host_loop" where
  "pairing_turn now s =
     (let s = (case hl_pairing s of (consumed, waiting, finished) \<Rightarrow>
                 if waiting \<and> hl_active s = None
                 then s\<lparr>hl_active := hl_window s, hl_window := None, hl_pairing := (consumed, False, finished)\<rparr> else s);
          s = (case hl_pairing s of (consumed, waiting, finished) \<Rightarrow>
                 if finished then s\<lparr>hl_active := None, hl_pairing := (False, False, False)\<rparr> else s);
          (consumed, waiting, finished) = hl_pairing s;
          s = (case hl_window s of
                 Some n \<Rightarrow>
                   if \<not> consumed \<and> task_expired n now (hl_control s)
                   then s\<lparr>hl_window := None, hl_control := task_finish n False now (hl_control s)\<rparr> else s
               | None \<Rightarrow> s)
      in if consumed \<and> \<not> finished then s else s\<lparr>hl_active := None\<rparr>)"

section \<open>Accepting connections\<close>

text \<open>
  What \<open>select!\<close> yields: a signal, with whether the owner control accepted the shutdown; nothing
  for 10 ms; a failed accept; a connection, with whether it could be taken over and cloned.
\<close>

datatype accept_outcome = AcSignal bool | AcTimeout | AcError | AcConnection bool bool

definition spawn_connection :: "connection_work \<Rightarrow> host_loop \<Rightarrow> host_loop" where
  "spawn_connection w s =
     (let i = hl_next_connection_id s
      in s\<lparr>hl_next_connection_id := i + 1, hl_streams := (i, False) # filter (\<lambda>x. fst x \<noteq> i) (hl_streams s),
           hl_workers := hl_workers s @ [(i, w)], hl_permits := hl_permits s - 1\<rparr>)"

definition accept_connection :: "nat \<Rightarrow> bool \<Rightarrow> bool \<Rightarrow> host_loop \<Rightarrow> host_loop" where
  "accept_connection now taken cloned s =
     (if hl_permits s = 0 \<or> \<not> taken then s
      else
        case hl_window s of
          Some n \<Rightarrow>
            if \<not> cloned then s\<lparr>hl_control := task_finish n False now (hl_control s)\<rparr>
            else spawn_connection (PairingWork n PsBegin) s
        | None \<Rightarrow>
            if \<not> cloned then s
            else if fst (hl_pairing s) then spawn_connection BusyWork s
            else spawn_connection (SessionWork SsOpening) s)"

text \<open>What a turn of the loop finds outside.\<close>

record loop_env =
  le_now :: nat
  le_peer :: "store_error + peer_status"
  le_owner_done :: "bool option"
  le_accept :: accept_outcome

definition acknowledge :: "host_loop \<Rightarrow> host_loop" where
  "acknowledge s =
     (let s = (if hl_revocation s \<and> hl_streams s = []
               then s\<lparr>hl_revocation := False, hl_acks := hl_acks s @ [EvIdentityRevoked]\<rparr> else s)
      in if hl_shutdown s \<and> hl_streams s = [] \<and> hl_workers s = [] \<and> hl_finished s = 0
         then s\<lparr>hl_shutdown := False, hl_acks := hl_acks s @ [EvRuntimeShutdown]\<rparr> else s)"

definition take_connection :: "nat \<Rightarrow> accept_outcome \<Rightarrow> host_loop \<Rightarrow> host_loop" where
  "take_connection now outcome s =
     (case outcome of
        AcTimeout \<Rightarrow> s
      | AcError \<Rightarrow> loop_end (Inl SxIo) s
      | AcSignal ok \<Rightarrow>
          if hl_signal s then s else if ok then s\<lparr>hl_signal := True\<rparr> else loop_end (Inl SxIo) s
      | AcConnection taken cloned \<Rightarrow> accept_connection now taken cloned s)"

section \<open>One step of the loop\<close>

definition loop_step :: "loop_env \<Rightarrow> host_loop \<Rightarrow> host_loop" where
  "loop_step env s =
     (case hl_pc s of
        LpStart \<Rightarrow> s\<lparr>hl_finished := 0, hl_pc := LpDone\<rparr>
      | LpDone \<Rightarrow>
          (case hl_done s of
             [] \<Rightarrow> s\<lparr>hl_pc := LpEvents\<rparr>
           | i # rest \<Rightarrow> s\<lparr>hl_done := rest, hl_streams := filter (\<lambda>x. fst x \<noteq> i) (hl_streams s)\<rparr>)
      | LpEvents \<Rightarrow>
          (case cs_events (hl_control s) of
             [] \<Rightarrow> s\<lparr>hl_pc := LpPairing\<rparr>
           | event # rest \<Rightarrow>
               owner_event (le_now env) (le_peer env) event (s\<lparr>hl_control := (hl_control s)\<lparr>cs_events := rest\<rparr>\<rparr>))
      | LpPairing \<Rightarrow> (pairing_turn (le_now env) s)\<lparr>hl_pc := LpAcks\<rparr>
      | LpAcks \<Rightarrow>
          (let s = acknowledge s
           in case le_owner_done env of
                Some ok \<Rightarrow> loop_end (if ok then Inr (hl_signal s) else Inl SxIo) s
              | None \<Rightarrow> s\<lparr>hl_pc := (if hl_listener s then LpAccept else LpStart)\<rparr>)
      | LpAccept \<Rightarrow> take_connection (le_now env) (le_accept env) (s\<lparr>hl_pc := LpStart\<rparr>)
      | LpEnded _ \<Rightarrow> s)"

section \<open>Connection threads\<close>

datatype connection_action =
  CnReserve nat
| CnPrompt "u8 list" string nat
| CnTurn nat
| CnFinish bool bool nat
| CnAdmit
| CnRelease
| CnEnd

definition set_work :: "nat \<Rightarrow> connection_work \<Rightarrow> host_loop \<Rightarrow> host_loop" where
  "set_work k w s = s\<lparr>hl_workers := (hl_workers s)[k := (fst (hl_workers s ! k), w)]\<rparr>"

text \<open>The end of a thread returns its permit, unless released, and its session's admission.\<close>

definition end_work :: "nat \<Rightarrow> host_loop \<Rightarrow> host_loop" where
  "end_work k s =
     (case hl_workers s ! k of (i, w) \<Rightarrow>
        s\<lparr>hl_workers := take k (hl_workers s) @ drop (Suc k) (hl_workers s), hl_done := hl_done s @ [i],
          hl_finished := hl_finished s + 1,
          hl_permits := (if w = SessionWork SsServing then hl_permits s else hl_permits s + 1),
          hl_authenticated := (if w \<in> {SessionWork SsAdmitted, SessionWork SsServing} then False else hl_authenticated s)\<rparr>)"

text \<open>
  One action of a connection of the pairing window. Before its \<open>PairingBegin\<close> the connection waits
  for as long as a run lets it: the five seconds its prelude, its handshake and its first message
  may each take are not imposed, so every timing of the code is among the runs.
\<close>

definition pairing_step :: "nat \<Rightarrow> connection_action \<Rightarrow> nat \<Rightarrow> pairing_stage \<Rightarrow> host_loop \<Rightarrow> host_loop" where
  "pairing_step k action n stage s =
     (case (stage, action) of
        (PsBegin, CnReserve now) \<Rightarrow>
          if task_expired n now (hl_control s) then set_work k (PairingWork n PsRefused) s
          else (case reserve_pairing_window (hl_pairing s) of (reserved, state) \<Rightarrow>
             set_work k (PairingWork n (if reserved then PsReserved else PsRefused)) (s\<lparr>hl_pairing := state\<rparr>))
      | (PsReserved, CnPrompt transaction authentication now) \<Rightarrow>
          (case confirm_prompt n transaction authentication now (hl_control s) of (shown, control) \<Rightarrow>
             set_work k (PairingWork n (if shown then PsPrompted transaction else PsDecided)) (s\<lparr>hl_control := control\<rparr>))
      | (PsPrompted transaction, CnTurn now) \<Rightarrow>
          (case confirm_turn n transaction now (hl_control s) of (answer, control) \<Rightarrow>
             (if answer = None then s else set_work k (PairingWork n PsDecided) s)\<lparr>hl_control := control\<rparr>)
      | (PsDecided, CnFinish ok paired now) \<Rightarrow>
          set_work k (PairingWork n PsFinished) (s\<lparr>hl_control := task_finish n (ok \<or> paired) now (hl_control s)\<rparr>)
      | (PsFinished, CnEnd) \<Rightarrow>
          (case hl_pairing s of (consumed, waiting, _) \<Rightarrow> end_work k (s\<lparr>hl_pairing := (consumed, waiting, True)\<rparr>))
      | (PsBegin, CnEnd) \<Rightarrow> end_work k s
      | (PsRefused, CnEnd) \<Rightarrow> end_work k s
      | _ \<Rightarrow> s)"

definition session_stage_step :: "nat \<Rightarrow> connection_action \<Rightarrow> session_stage \<Rightarrow> host_loop \<Rightarrow> host_loop" where
  "session_stage_step k action stage s =
     (case (stage, action) of
        (SsOpening, CnAdmit) \<Rightarrow>
          if hl_authenticated s then s else set_work k (SessionWork SsAdmitted) (s\<lparr>hl_authenticated := True\<rparr>)
      | (SsAdmitted, CnRelease) \<Rightarrow> set_work k (SessionWork SsServing) (s\<lparr>hl_permits := hl_permits s + 1\<rparr>)
      | (_, CnEnd) \<Rightarrow> end_work k s
      | _ \<Rightarrow> s)"

definition connection_step :: "nat \<Rightarrow> connection_action \<Rightarrow> host_loop \<Rightarrow> host_loop" where
  "connection_step k action s =
     (if k < length (hl_workers s) then
        (case snd (hl_workers s ! k) of
           PairingWork n stage \<Rightarrow> pairing_step k action n stage s
         | BusyWork \<Rightarrow> if action = CnEnd then end_work k s else s
         | SessionWork stage \<Rightarrow> session_stage_step k action stage s)
      else s)"

section \<open>The host\<close>

text \<open>Who holds a clone of a task. A task without one is gone, and its receiver with it.\<close>

definition event_task :: "owner_event \<Rightarrow> nat option" where
  "event_task event = (case event of EvPairingWindowOpen n \<Rightarrow> Some n | EvPairStart _ n \<Rightarrow> Some n | _ \<Rightarrow> None)"

definition work_task :: "connection_work \<Rightarrow> nat option" where
  "work_task w = (case w of PairingWork n _ \<Rightarrow> Some n | _ \<Rightarrow> None)"

definition task_held :: "host_loop \<Rightarrow> nat \<Rightarrow> bool" where
  "task_held s n \<longleftrightarrow>
     hl_window s = Some n \<or> hl_active s = Some n \<or>
     list_ex (\<lambda>event. event_task event = Some n) (cs_events (hl_control s)) \<or>
     list_ex (\<lambda>x. work_task (snd x) = Some n) (hl_workers s)"

definition drop_tasks :: "host_loop \<Rightarrow> host_loop" where
  "drop_tasks s =
     s\<lparr>hl_control := fold (\<lambda>n control. if live_task n control then task_drop n control else control)
         (filter (\<lambda>n. \<not> task_held s n) [0..<length (cs_tasks (hl_control s))]) (hl_control s)\<rparr>"

datatype host_event =
  HsCommand control_env owner_command
| HsOperation nat bool nat
| HsRevoked
| HsShutdown
| HsLoop loop_env
| HsConnection nat connection_action

definition host_step :: "string \<Rightarrow> owner_launch_metadata option \<Rightarrow> host_event \<Rightarrow> host_loop \<Rightarrow> host_loop" where
  "host_step generation launch e s =
     drop_tasks
       (case e of
          HsCommand env command \<Rightarrow> s\<lparr>hl_control := snd (handle_command generation launch env command (hl_control s))\<rparr>
        | HsOperation k success now \<Rightarrow> s\<lparr>hl_control := operation_returns k success now (hl_control s)\<rparr>
        | HsRevoked \<Rightarrow> s\<lparr>hl_control := send_event EvIdentityRevoked (hl_control s)\<rparr>
        | HsShutdown \<Rightarrow> s\<lparr>hl_control := send_event EvRuntimeShutdown (hl_control s)\<rparr>
        | HsLoop env \<Rightarrow> loop_step env s
        | HsConnection k action \<Rightarrow> connection_step k action s)"

definition host_run :: "string \<Rightarrow> owner_launch_metadata option \<Rightarrow> host_event list \<Rightarrow> host_loop \<Rightarrow> host_loop" where
  "host_run generation launch es s = fold (host_step generation launch) es s"

section \<open>Connections and capacity\<close>

definition holds_permit :: "connection_work \<Rightarrow> bool" where
  "holds_permit w \<longleftrightarrow> w \<noteq> SessionWork SsServing"

definition admitted :: "connection_work \<Rightarrow> bool" where
  "admitted w \<longleftrightarrow> w \<in> {SessionWork SsAdmitted, SessionWork SsServing}"

text \<open>
  After \<open>k\<close> connections: every thread, running or ended and not yet seen by the loop, has an
  identity of its own and its stream; the permits and the admission are accounted for.
\<close>

definition connection_ids :: "host_loop \<Rightarrow> u64 list" where
  "connection_ids s = map fst (hl_workers s) @ hl_done s"

definition host_ok :: "nat \<Rightarrow> host_loop \<Rightarrow> bool" where
  "host_ok k s \<longleftrightarrow>
     hl_next_connection_id s = of_nat k \<and>
     distinct (connection_ids s) \<and>
     (\<forall>i \<in> set (connection_ids s). unat i < k \<and> i \<in> fst ` set (hl_streams s)) \<and>
     hl_permits s + length (filter (holds_permit \<circ> snd) (hl_workers s)) = 4 \<and>
     length (filter (admitted \<circ> snd) (hl_workers s)) = of_bool (hl_authenticated s)"

text \<open>What these facts are about, as one value: steps that keep it keep them.\<close>

definition connection_view ::
  "host_loop \<Rightarrow> u64 \<times> (u64 \<times> connection_work) list \<times> u64 list \<times> u64 list \<times> nat \<times> bool" where
  "connection_view s = (hl_next_connection_id s, hl_workers s, hl_done s, map fst (hl_streams s), hl_permits s, hl_authenticated s)"

lemma host_ok_view: "connection_view s' = connection_view s \<Longrightarrow> host_ok k s \<Longrightarrow> host_ok k s'"
  by (simp add: connection_view_def host_ok_def connection_ids_def flip: set_map)

lemma view_simps [simp]:
  "connection_view (s\<lparr>hl_control := c\<rparr>) = connection_view s"
  "connection_view (s\<lparr>hl_pc := pc\<rparr>) = connection_view s"
  "connection_view (s\<lparr>hl_window := w\<rparr>) = connection_view s"
  "connection_view (s\<lparr>hl_active := w\<rparr>) = connection_view s"
  "connection_view (s\<lparr>hl_pairing := p\<rparr>) = connection_view s"
  "connection_view (s\<lparr>hl_finished := n\<rparr>) = connection_view s"
  "connection_view (s\<lparr>hl_revocation := b\<rparr>) = connection_view s"
  "connection_view (s\<lparr>hl_shutdown := b\<rparr>) = connection_view s"
  "connection_view (s\<lparr>hl_listener := b\<rparr>) = connection_view s"
  "connection_view (s\<lparr>hl_signal := b\<rparr>) = connection_view s"
  "connection_view (s\<lparr>hl_acks := a\<rparr>) = connection_view s"
  by (simp_all add: connection_view_def)

lemma view_cancel [simp]: "connection_view (cancel_everything s) = connection_view s"
  by (simp add: connection_view_def cancel_everything_def case_prod_unfold comp_def)

lemma view_loop_end [simp]: "connection_view (loop_end r s) = connection_view s"
  by (simp add: loop_end_def connection_view_def)

lemma view_owner_event [simp]: "connection_view (owner_event now peer event s) = connection_view s"
  by (simp add: owner_event_def open_window_def split: owner_event.split sum.split)

lemma view_pairing_turn [simp]: "connection_view (pairing_turn now s) = connection_view s"
  by (simp add: pairing_turn_def Let_def split: prod.split option.split)

lemma view_acknowledge [simp]: "connection_view (acknowledge s) = connection_view s"
  by (simp add: acknowledge_def Let_def)

lemma view_drop_tasks [simp]: "connection_view (drop_tasks s) = connection_view s"
  by (simp add: drop_tasks_def)

lemma unat_of_nat_small: "k < 2 ^ 64 \<Longrightarrow> unat (of_nat k :: u64) = k"
  by (simp add: unsigned_of_nat take_bit_nat_eq_self)

lemma host_ok_spawn:
  assumes "host_ok k s" and "k < 2 ^ 64" and "hl_permits s \<noteq> 0" and "holds_permit w" and "\<not> admitted w"
  shows "host_ok (Suc k) (spawn_connection w s)"
proof -
  have "of_nat k \<notin> set (connection_ids s)"
    using assms(1) unat_of_nat_small [OF assms(2)] unfolding host_ok_def by (metis less_irrefl)
  moreover have "distinct (connection_ids (spawn_connection w s)) \<longleftrightarrow>
      of_nat k \<notin> set (connection_ids s) \<and> distinct (connection_ids s)"
    and "set (connection_ids (spawn_connection w s)) = insert (of_nat k) (set (connection_ids s))"
    using assms(1) by (auto simp: host_ok_def spawn_connection_def Let_def connection_ids_def)
  moreover have "i \<in> fst ` set (hl_streams (spawn_connection w s))"
    if "i = of_nat k \<or> i \<in> fst ` set (hl_streams s)" for i
    using that assms(1) by (force simp: host_ok_def spawn_connection_def Let_def image_iff)
  ultimately have "distinct (connection_ids (spawn_connection w s))"
    and "\<forall>i \<in> set (connection_ids (spawn_connection w s)). unat i < Suc k \<and> i \<in> fst ` set (hl_streams (spawn_connection w s))"
    using assms(1) unat_of_nat_small [OF assms(2)] by (auto simp: host_ok_def intro: less_SucI)
  with assms show ?thesis
    by (auto simp: host_ok_def spawn_connection_def Let_def)
qed

lemma host_ok_accept:
  assumes "host_ok k s" and "k < 2 ^ 64"
  shows "\<exists>k' \<le> Suc k. k \<le> k' \<and> host_ok k' (accept_connection now taken cloned s)"
proof -
  have spawned: "hl_permits s \<noteq> 0 \<Longrightarrow> host_ok (Suc k) (spawn_connection w s)"
    if "w \<in> {PairingWork n PsBegin, BusyWork, SessionWork SsOpening}" for w n
    using host_ok_spawn [OF assms, of w] that by (auto simp: holds_permit_def admitted_def)
  have same: "host_ok k (s\<lparr>hl_control := c\<rparr>)" for c by (rule host_ok_view [OF _ assms(1)]) simp
  consider (same) c where "accept_connection now taken cloned s = s\<lparr>hl_control := c\<rparr>"
    | (spawn) w n where "accept_connection now taken cloned s = spawn_connection w s" "hl_permits s \<noteq> 0"
        "w \<in> {PairingWork n PsBegin, BusyWork, SessionWork SsOpening}"
    using that(1) [of "hl_control s"] that
    by (cases "hl_permits s = 0 \<or> \<not> taken"; cases "hl_window s"; cases cloned; cases "fst (hl_pairing s)")
      (fastforce simp: accept_connection_def)+
  then show ?thesis
  proof cases
    case same
    with \<open>\<And>c. host_ok k (s\<lparr>hl_control := c\<rparr>)\<close> show ?thesis by (intro exI [of _ k]) simp
  next
    case spawn
    then show ?thesis using spawned [of w n] by (intro exI [of _ "Suc k"]) simp
  qed
qed

text \<open>One thread changes its work, or ends.\<close>

lemma filter_remove:
  assumes "j < length xs"
  shows "length (filter P (take j xs @ drop (Suc j) xs)) + of_bool (P (xs ! j)) = length (filter P xs)"
proof -
  have "length (filter P xs) = length (filter P (take j xs @ xs ! j # drop (Suc j) xs))"
    by (rule arg_cong [where f = "\<lambda>ys. length (filter P ys)"]) (rule id_take_nth_drop [OF assms])
  then show ?thesis by simp
qed

lemma filter_update:
  "j < length xs \<Longrightarrow> length (filter P (xs[j := y])) + of_bool (P (xs ! j)) = length (filter P xs) + of_bool (P y)"
  using filter_remove [of j xs P] by (simp add: upd_conv_take_nth_drop)

lemma host_ok_set_work:
  assumes "host_ok k s" and "j < length (hl_workers s)"
    and "hl_permits s' + of_bool (holds_permit w) = hl_permits s + of_bool (holds_permit (snd (hl_workers s ! j)))"
    and "of_bool (hl_authenticated s') + of_bool (admitted (snd (hl_workers s ! j))) =
      (of_bool (hl_authenticated s) + of_bool (admitted w) :: nat)"
    and "hl_workers s' = hl_workers s" "hl_done s' = hl_done s" "hl_next_connection_id s' = hl_next_connection_id s"
      "hl_streams s' = hl_streams s"
  shows "host_ok k (set_work j w s')"
proof -
  have ids: "map fst ((hl_workers s)[j := (fst (hl_workers s ! j), w)]) = map fst (hl_workers s)"
    using assms(2) by (simp add: map_update list_update_same_conv)
  show ?thesis
    using assms(1,3,4) filter_update [OF assms(2), of "holds_permit \<circ> snd" "(fst (hl_workers s ! j), w)"]
      filter_update [OF assms(2), of "admitted \<circ> snd" "(fst (hl_workers s ! j), w)"]
    by (simp add: host_ok_def set_work_def connection_ids_def ids assms(5-8))
qed

lemma host_ok_end_work:
  assumes "host_ok k s" and "j < length (hl_workers s)"
  shows "host_ok k (end_work j s)"
proof -
  obtain i w where w: "hl_workers s ! j = (i, w)" by (cases "hl_workers s ! j")
  have split: "hl_workers s = take j (hl_workers s) @ (i, w) # drop (Suc j) (hl_workers s)"
    using id_take_nth_drop [OF assms(2)] w by simp
  have ids: "map fst (hl_workers s) = map fst (take j (hl_workers s)) @ i # map fst (drop (Suc j) (hl_workers s))"
    using arg_cong [OF split, of "map fst"] by simp
  have "distinct (map fst (take j (hl_workers s) @ drop (Suc j) (hl_workers s)) @ hl_done s @ [i])"
    and "set (map fst (take j (hl_workers s) @ drop (Suc j) (hl_workers s)) @ hl_done s @ [i]) = set (connection_ids s)"
    using assms(1) unfolding host_ok_def connection_ids_def ids by auto
  moreover have "admitted w \<longrightarrow> hl_authenticated s" 
    using assms w filter_remove [OF assms(2), of "admitted \<circ> snd"]
    by (cases "hl_authenticated s") (auto simp: host_ok_def)
  moreover have "hl_permits (end_work j s) + of_bool (\<not> holds_permit w) = hl_permits s + 1"
    by (simp add: end_work_def w holds_permit_def)
  moreover have "hl_authenticated (end_work j s) \<longleftrightarrow> hl_authenticated s \<and> \<not> admitted w"
    by (simp add: end_work_def w admitted_def)
  moreover have "hl_workers (end_work j s) = take j (hl_workers s) @ drop (Suc j) (hl_workers s)"
    "hl_done (end_work j s) = hl_done s @ [i]" "hl_streams (end_work j s) = hl_streams s"
    "hl_next_connection_id (end_work j s) = hl_next_connection_id s"
    by (simp_all add: end_work_def w)
  moreover note filter_remove [OF assms(2), of "holds_permit \<circ> snd"] filter_remove [OF assms(2), of "admitted \<circ> snd"]
  ultimately show ?thesis
    using assms(1) unfolding host_ok_def connection_ids_def w
    by (cases "admitted w"; cases "holds_permit w"; cases "hl_authenticated s") simp_all
qed

lemma host_ok_loop:
  assumes "host_ok k s" and "k < 2 ^ 64"
  shows "\<exists>k' \<le> Suc k. k \<le> k' \<and> host_ok k' (loop_step env s)"
proof (cases "hl_pc s")
  case LpDone
  show ?thesis
  proof (cases "hl_done s")
    case Nil
    then show ?thesis using LpDone host_ok_view [OF _ assms(1)] by (intro exI [of _ k]) (simp add: loop_step_def)
  next
    case (Cons i rest)
    have ids: "i \<notin> set (map fst (hl_workers s) @ rest)" "distinct (map fst (hl_workers s) @ rest)"
      and inside: "\<forall>q \<in> set (map fst (hl_workers s) @ rest). unat q < k \<and> q \<in> fst ` set (hl_streams s)"
      using assms(1) Cons by (auto simp: host_ok_def connection_ids_def)
    have "fst ` set (filter (\<lambda>x. fst x \<noteq> i) (hl_streams s)) = fst ` set (hl_streams s) - {i}" by auto
    then have "\<forall>q \<in> set (map fst (hl_workers s) @ rest).
        unat q < k \<and> q \<in> fst ` set (filter (\<lambda>x. fst x \<noteq> i) (hl_streams s))"
      using ids(1) inside by (metis Diff_iff singletonD)
    then have "host_ok k (loop_step env s)"
      using assms(1) ids(2) by (simp add: loop_step_def LpDone Cons host_ok_def connection_ids_def)
    then show ?thesis by (intro exI [of _ k]) simp
  qed
next
  case LpAccept
  have "host_ok k (s\<lparr>hl_pc := LpStart\<rparr>)" by (rule host_ok_view [OF _ assms(1)]) simp
  note accepted = host_ok_accept [OF this assms(2)]
  show ?thesis
  proof (cases "le_accept env")
    case (AcConnection taken cloned)
    then show ?thesis using accepted LpAccept by (simp add: loop_step_def take_connection_def)
  qed (use LpAccept host_ok_view [OF _ assms(1)] in \<open>auto simp: loop_step_def take_connection_def intro!: exI [of _ k]\<close>)
qed (use host_ok_view [OF _ assms(1)] in
    \<open>auto simp: loop_step_def Let_def intro!: exI [of _ k] split: list.split option.split\<close>)

lemma host_ok_pairing:
  assumes "host_ok k s" and "j < length (hl_workers s)" and "snd (hl_workers s ! j) = PairingWork n stage"
  shows "host_ok k (pairing_step j action n stage s)"
proof -
  have work: "host_ok k (set_work j (PairingWork n stage') s')"
    if "hl_permits s' = hl_permits s" "hl_authenticated s' = hl_authenticated s" "hl_workers s' = hl_workers s"
      "hl_done s' = hl_done s" "hl_next_connection_id s' = hl_next_connection_id s" "hl_streams s' = hl_streams s" for s' stage'
    by (rule host_ok_set_work [OF assms(1,2)]) (simp_all add: assms(3) that holds_permit_def admitted_def)
  have pairing: "host_ok k (s\<lparr>hl_pairing := p\<rparr>)" and control: "host_ok k (s\<lparr>hl_control := c\<rparr>)" for p c
    by (rule host_ok_view [OF _ assms(1)]; simp)+
  have ended: "host_ok k (end_work j s)" "host_ok k (end_work j (s\<lparr>hl_pairing := p\<rparr>))" for p
    using host_ok_end_work [OF assms(1,2)] host_ok_end_work [OF pairing, of j p] assms(2) by simp_all
  have set_control: "(set_work j w s)\<lparr>hl_control := c\<rparr> = set_work j w (s\<lparr>hl_control := c\<rparr>)" for w c
    by (simp add: set_work_def)
  show ?thesis
    unfolding pairing_step_def
    by (cases stage; cases action)
      (auto simp: assms(1) ended control set_control case_prod_unfold intro!: work)
qed

lemma host_ok_session:
  assumes "host_ok k s" and "j < length (hl_workers s)" and "snd (hl_workers s ! j) = SessionWork stage"
  shows "host_ok k (session_stage_step j action stage s)"
proof -
  have admit: "host_ok k (set_work j (SessionWork SsAdmitted) (s\<lparr>hl_authenticated := True\<rparr>))"
    if "stage = SsOpening" "\<not> hl_authenticated s"
    by (rule host_ok_set_work [OF assms(1,2)]) (simp_all add: assms(3) that holds_permit_def admitted_def)
  have release: "host_ok k (set_work j (SessionWork SsServing) (s\<lparr>hl_permits := hl_permits s + 1\<rparr>))"
    if "stage = SsAdmitted"
    by (rule host_ok_set_work [OF assms(1,2)]) (simp_all add: assms(3) that holds_permit_def admitted_def)
  show ?thesis
    unfolding session_stage_step_def
    by (cases stage; cases action) (simp_all add: assms(1) admit release [simplified] host_ok_end_work [OF assms(1,2)])
qed

lemma host_ok_step:
  assumes "host_ok k s" and "k < 2 ^ 64"
  shows "\<exists>k' \<le> Suc k. k \<le> k' \<and> host_ok k' (host_step g l e s)"
proof -
  have dropped: "host_ok k' (drop_tasks s') \<longleftrightarrow> host_ok k' s'" for k' s'
    using host_ok_view [of "drop_tasks s'" s' k'] host_ok_view [of s' "drop_tasks s'" k'] by auto
  have control: "host_ok k (s\<lparr>hl_control := c\<rparr>)" for c by (rule host_ok_view [OF _ assms(1)]) simp
  have "host_ok k (connection_step j action s)" for j action
    using assms(1) host_ok_pairing [OF assms(1)] host_ok_session [OF assms(1)] host_ok_end_work [OF assms(1)]
    by (simp add: connection_step_def split: connection_work.split)
  then show ?thesis
    using host_ok_loop [OF assms] control
    by (cases e) (auto simp: host_step_def dropped intro!: exI [of _ k])
qed

lemma host_ok_run:
  assumes "length es \<le> 2 ^ 64"
  shows "\<exists>k \<le> length es. host_ok k (host_run g l es (host_start c))"
  using assms
proof (induction es rule: rev_induct)
  case Nil
  show ?case by (simp add: host_run_def host_start_def host_ok_def connection_ids_def)
next
  case (snoc e es)
  then obtain k where k: "k \<le> length es" "host_ok k (host_run g l es (host_start c))" by auto
  moreover have "k < 2 ^ 64" using k(1) snoc.prems by simp
  ultimately obtain k' where "k' \<le> Suc k" "host_ok k' (host_step g l e (host_run g l es (host_start c)))"
    using host_ok_step by blast
  then show ?case using k(1) by (intro exI [of _ k']) (simp add: host_run_def)
qed

section \<open>The host drives the owner control\<close>

text \<open>What the host does to the owner control is a sequence of the control's own steps.\<close>

definition control_steps :: "string \<Rightarrow> owner_launch_metadata option \<Rightarrow> control_event list \<Rightarrow> control_state \<Rightarrow> control_state" where
  "control_steps g l es s = fold (\<lambda>e s. snd (control_step g l e s)) es s"

definition reaches :: "string \<Rightarrow> owner_launch_metadata option \<Rightarrow> control_state \<Rightarrow> control_state \<Rightarrow> bool" where
  "reaches g l s s' \<longleftrightarrow> (\<exists>es. s' = control_steps g l es s)"

lemma reaches_refl [intro, simp]: "reaches g l s s"
  unfolding reaches_def control_steps_def by (intro exI [of _ "[]"]) simp

lemma reaches_trans: "reaches g l s s' \<Longrightarrow> reaches g l s' s'' \<Longrightarrow> reaches g l s s''"
  unfolding reaches_def control_steps_def by (metis fold_append comp_apply)

lemma reaches_one: "snd (control_step g l e s) = s' \<Longrightarrow> reaches g l s s'"
  unfolding reaches_def control_steps_def by (intro exI [of _ "[e]"]) simp

lemma reaches_ops:
  "reaches g l s (snd (handle_command g l env command s))"
  "reaches g l s (operation_returns k ok now s)"
  "reaches g l s (send_event EvIdentityRevoked s)"
  "reaches g l s (send_event EvRuntimeShutdown s)"
  "live_task n s \<Longrightarrow> reaches g l s (task_waiting n now s)"
  "live_task n s \<Longrightarrow> reaches g l s (task_finish n ok now s)"
  "live_task n s \<Longrightarrow> reaches g l s (task_cancel n s)"
  "live_task n s \<Longrightarrow> reaches g l s (task_drop n s)"
  "live_task n s \<Longrightarrow> reaches g l s (snd (confirm_prompt n t a now s))"
  "live_task n s \<Longrightarrow> reaches g l s (snd (confirm_turn n t now s))"
  "reaches g l s (s\<lparr>cs_events := drop 1 (cs_events s)\<rparr>)"
  "reaches g l s (s\<lparr>cs_coordinator := map_option (\<lambda>_. False) (cs_coordinator s), cs_events := []\<rparr>)"
  by (rule reaches_one [where e = "CtCommand env command"], simp add: control_step_def case_prod_unfold)
    (rule reaches_one [where e = "CtOperation k ok now"], simp add: control_step_def,
     rule reaches_one [where e = CtRevoked], simp add: control_step_def,
     rule reaches_one [where e = CtShutdown], simp add: control_step_def,
     rule reaches_one [where e = "CtWaiting n now"], simp add: control_step_def,
     rule reaches_one [where e = "CtFinish n ok now"], simp add: control_step_def,
     rule reaches_one [where e = "CtCancel n"], simp add: control_step_def,
     rule reaches_one [where e = "CtDrop n"], simp add: control_step_def,
     rule reaches_one [where e = "CtPrompt n t a now"], simp add: control_step_def,
     rule reaches_one [where e = "CtConfirm n t now"], simp add: control_step_def,
     rule reaches_one [where e = CtEventTaken], simp add: control_step_def,
     rule reaches_one [where e = CtCoordinatorGone], simp add: control_step_def)

lemma alive_update [simp]:
  "m < length xs \<Longrightarrow> tk_alive t = tk_alive (xs ! n) \<Longrightarrow> tk_alive (xs[n := t] ! m) = tk_alive (xs ! m)"
  by (cases "n = m") auto

text \<open>The steps of tasks and operations leave lives and events alone.\<close>

lemma live_simps [simp]:
  "live_task m (task_waiting n now s) = live_task m s"
  "live_task m (task_finish n ok now s) = live_task m s"
  "live_task m (task_cancel n s) = live_task m s"
  "live_task m (snd (confirm_prompt n t a now s)) = live_task m s"
  "live_task m (snd (confirm_turn n t now s)) = live_task m s"
  "live_task m (operation_returns k ok now s) = live_task m s"
  "live_task m (send_event ev s) = live_task m s"
  "live_task m (s\<lparr>cs_events := evs\<rparr>) = live_task m s"
  "live_task m (s\<lparr>cs_coordinator := c\<rparr>) = live_task m s"
  "live_task m (s\<lparr>cs_coordinator := c, cs_events := evs\<rparr>) = live_task m s"
  by (auto simp: live_task_def task_waiting_def task_finish_def task_cancel_def confirm_prompt_def confirm_turn_def
      operation_returns_def send_event_def send_completion_def Let_def
      split: prod.splits list.splits)

lemma live_drop: "live_task m (task_drop n s) \<longleftrightarrow> live_task m s \<and> m \<noteq> n"
  by (cases "m = n") (auto simp: live_task_def task_drop_def)

lemma events_simps [simp]:
  "cs_events (task_waiting n now s) = cs_events s"
  "cs_events (task_finish n ok now s) = cs_events s"
  "cs_events (task_cancel n s) = cs_events s"
  "cs_events (task_drop n s) = cs_events s"
  "cs_events (snd (confirm_prompt n t a now s)) = cs_events s"
  "cs_events (snd (confirm_turn n t now s)) = cs_events s"
  "cs_events (operation_returns k ok now s) = cs_events s"
  by (auto simp: task_waiting_def task_finish_def task_cancel_def task_drop_def confirm_prompt_def confirm_turn_def
      operation_returns_def send_completion_def Let_def split: prod.splits list.splits)

lemma tasks_expire_simps [simp]:
  "cs_events (control_ready now s) = cs_events s"
proof -
  have "cs_events (fold apply_completion cs q) = cs_events q" for cs q
    by (induction cs arbitrary: q) (auto simp: apply_completion_def split: prod.splits option.splits)
  then show ?thesis by (simp add: control_ready_def apply_completions_def Let_def)
qed

text \<open>The tasks alive in \<open>s\<close> and those of the waiting events are alive in \<open>q\<close>.\<close>

definition lives_on :: "control_state \<Rightarrow> control_state \<Rightarrow> bool" where
  "lives_on s q \<longleftrightarrow> (\<forall>m. live_task m s \<longrightarrow> live_task m q) \<and>
     (\<forall>ev \<in> set (cs_events q). \<forall>n. event_task ev = Some n \<longrightarrow> live_task n q)"

lemma handle_lives:
  assumes "lives_on s s"
  shows "lives_on s (snd (handle_command g l env command s))"
proof -
  have ready: "lives_on s (control_ready now s)" for now using assms by (simp add: lives_on_def live_task_def)
  have op: "lives_on s (snd (accept_operation env i kind op q))" if "lives_on s q" for i kind op q
    using that by (auto simp: lives_on_def accept_operation_def live_task_def split: option.split)
  have ev: "lives_on s (snd (accept_pairing_event env i ev q))" if "lives_on s q" "\<And>n. event_task (ev n) = Some n" for i ev q
    using that by (auto simp: lives_on_def accept_pairing_event_def live_task_def Let_def nth_append split: option.split)
  have evs: "lives_on s (snd (accept_pairing_event env i EvPairingWindowOpen (control_ready now s)))"
    "lives_on s (snd (accept_pairing_event env i (EvPairStart a) (control_ready now s)))" for i a now
    by (rule ev [OF ready]; simp add: event_task_def)+
  have dec: "lives_on s (snd (accept_pairing_decision i parent t b q))" if "lives_on s q" for i parent t b q
    using that by (auto simp: lives_on_def accept_pairing_decision_def decision_send_def Let_def live_task_def
        split: option.splits owner_response.splits if_splits)
  show ?thesis
    using ready op [OF ready] evs dec [OF ready]
    by (cases command) (simp_all add: handle_command_def Let_def case_prod_unfold split: option.splits bool.splits)
qed

text \<open>Every held task is live, before and after dropping the others.\<close>

definition holders_live :: "host_loop \<Rightarrow> bool" where
  "holders_live s \<longleftrightarrow> (\<forall>n. task_held s n \<longrightarrow> live_task n (hl_control s))"

lemma drop_tasks_control:
  fixes g l
  assumes "holders_live s"
  shows "holders_live (drop_tasks s)" and "reaches g l (hl_control s) (hl_control (drop_tasks s))"
proof -
  let ?drop = "\<lambda>n control. if live_task n control then task_drop n control else control"
  have *: "reaches g l q (fold ?drop ns q) \<and> cs_events (fold ?drop ns q) = cs_events q \<and>
      (\<forall>m. live_task m (fold ?drop ns q) \<longleftrightarrow> live_task m q \<and> m \<notin> set ns)" for ns q
  proof (induction ns arbitrary: q)
    case (Cons n ns)
    have "reaches g l q (?drop n q)" by (auto intro: reaches_ops)
    then show ?case using Cons [of "?drop n q"] by (auto intro: reaches_trans simp: live_drop)
  qed simp
  let ?ns = "filter (\<lambda>n. \<not> task_held s n) [0..<length (cs_tasks (hl_control s))]"
  have held: "task_held (drop_tasks s) n = task_held s n" for n
    using * [of "hl_control s" ?ns] by (simp add: task_held_def drop_tasks_def)
  show "reaches g l (hl_control s) (hl_control (drop_tasks s))"
    using * [of "hl_control s" ?ns] by (simp add: drop_tasks_def)
  show "holders_live (drop_tasks s)"
    using assms * [of "hl_control s" ?ns] unfolding holders_live_def held by (auto simp: drop_tasks_def)
qed

text \<open>A step that hands tasks only from holder to holder.\<close>

lemma holders_live_passed:
  assumes "holders_live s" and "\<And>n. live_task n (hl_control s) \<Longrightarrow> live_task n (hl_control s')"
    and "\<And>n. task_held s' n \<Longrightarrow> task_held s n"
  shows "holders_live s'"
  using assms unfolding holders_live_def by blast

lemma held_window: "holders_live s \<Longrightarrow> hl_window s = Some n \<Longrightarrow> live_task n (hl_control s)"
  and held_active: "holders_live s \<Longrightarrow> hl_active s = Some n \<Longrightarrow> live_task n (hl_control s)"
  and held_work: "holders_live s \<Longrightarrow> k < length (hl_workers s) \<Longrightarrow> snd (hl_workers s ! k) = PairingWork n w \<Longrightarrow> live_task n (hl_control s)"
  and held_event: "holders_live s \<Longrightarrow> ev \<in> set (cs_events (hl_control s)) \<Longrightarrow> event_task ev = Some n \<Longrightarrow> live_task n (hl_control s)"
proof -
  assume live: "holders_live s"
  show "hl_window s = Some n \<Longrightarrow> live_task n (hl_control s)"
    and "hl_active s = Some n \<Longrightarrow> live_task n (hl_control s)"
    using live by (simp_all add: holders_live_def task_held_def)
  show "ev \<in> set (cs_events (hl_control s)) \<Longrightarrow> event_task ev = Some n \<Longrightarrow> live_task n (hl_control s)"
    using live by (auto simp: holders_live_def task_held_def list_ex_iff)
  assume "k < length (hl_workers s)" and "snd (hl_workers s ! k) = PairingWork n w"
  then have "list_ex (\<lambda>x. work_task (snd x) = Some n) (hl_workers s)"
    by (auto simp: list_ex_iff work_task_def intro!: bexI [of _ "hl_workers s ! k"])
  with live show "live_task n (hl_control s)" by (simp add: holders_live_def task_held_def)
qed

lemma holders_live_iff:
  "holders_live s \<longleftrightarrow>
     (\<forall>n. hl_window s = Some n \<longrightarrow> live_task n (hl_control s)) \<and> (\<forall>n. hl_active s = Some n \<longrightarrow> live_task n (hl_control s)) \<and>
     (\<forall>ev \<in> set (cs_events (hl_control s)). \<forall>n. event_task ev = Some n \<longrightarrow> live_task n (hl_control s)) \<and>
     (\<forall>w \<in> snd ` set (hl_workers s). \<forall>n. work_task w = Some n \<longrightarrow> live_task n (hl_control s))"
  by (auto simp: holders_live_def task_held_def list_ex_iff)

definition passes :: "string \<Rightarrow> owner_launch_metadata option \<Rightarrow> host_loop \<Rightarrow> host_loop \<Rightarrow> bool" where
  "passes g l s s' \<longleftrightarrow> reaches g l (hl_control s) (hl_control s') \<and> holders_live s'"

lemma passes_refl: "holders_live s \<Longrightarrow> passes g l s s"
  by (simp add: passes_def)

lemma passes_trans: "passes g l s s' \<Longrightarrow> passes g l s' s'' \<Longrightarrow> passes g l s s''"
  by (auto simp: passes_def intro: reaches_trans)

lemma passes_finish: "holders_live s \<Longrightarrow> live_task n (hl_control s) \<Longrightarrow> passes g l s (s\<lparr>hl_control := task_finish n ok now (hl_control s)\<rparr>)"
  by (auto simp: passes_def holders_live_iff intro: reaches_ops)

lemma passes_loop_end: "holders_live s \<Longrightarrow> passes g l s (loop_end r s)"
  by (auto simp: passes_def holders_live_iff loop_end_def intro: reaches_ops)

lemma passes_cancel: "holders_live s \<Longrightarrow> passes g l s (cancel_everything s)"
  unfolding passes_def holders_live_iff
  by (auto simp: cancel_everything_def cancel_task_def split: option.split intro: reaches_ops reaches_trans [OF reaches_ops(7) reaches_ops(7)])

lemma passes_open_window:
  "holders_live s \<Longrightarrow> live_task n (hl_control s) \<Longrightarrow> passes g l s (open_window now n peer s)"
  unfolding open_window_def
  by (auto simp: passes_finish passes_loop_end split: sum.split) (auto simp: passes_def holders_live_iff intro: reaches_ops)

lemma passes_owner_event:
  assumes "holders_live s" and "\<And>n. event_task event = Some n \<Longrightarrow> live_task n (hl_control s)"
  shows "passes g l s (owner_event now peer event s)"
proof (cases event)
  case EvIdentityRevoked
  then show ?thesis using passes_cancel [OF assms(1), of g l] by (simp add: owner_event_def passes_def holders_live_iff)
next
  case EvRuntimeShutdown
  then show ?thesis using passes_cancel [OF assms(1), of g l] by (simp add: owner_event_def passes_def holders_live_iff)
qed (use assms in \<open>simp_all add: owner_event_def event_task_def passes_open_window passes_finish\<close>)

lemma passes_pairing_turn:
  assumes "holders_live s"
  shows "passes g l s (pairing_turn now s)"
  using assms unfolding pairing_turn_def Let_def
  by (cases "hl_pairing s"; cases "hl_window s"; cases "hl_active s")
    (auto simp: passes_def holders_live_iff intro: reaches_ops)

lemma passes_accept:
  assumes "holders_live s"
  shows "passes g l s (accept_connection now taken cloned s)"
  using assms passes_finish [OF assms held_window [OF assms]] unfolding accept_connection_def
  by (auto simp: passes_refl split: option.split) (auto simp: passes_def holders_live_iff spawn_connection_def Let_def work_task_def)

lemma passes_loop:
  assumes "holders_live s"
  shows "passes g l s (loop_step env s)"
proof (cases "hl_pc s")
  case LpEvents
  show ?thesis
  proof (cases "cs_events (hl_control s)")
    case Nil
    then show ?thesis using assms by (simp add: loop_step_def LpEvents passes_def holders_live_iff)
  next
    case (Cons ev rest)
    let ?s = "s\<lparr>hl_control := (hl_control s)\<lparr>cs_events := rest\<rparr>\<rparr>"
    have "reaches g l (hl_control s) (hl_control ?s)" using reaches_ops(11) [of g l "hl_control s"] by (simp add: Cons)
    moreover have "holders_live ?s" using assms by (simp add: holders_live_iff Cons)
    ultimately have "passes g l s ?s" by (simp add: passes_def)
    moreover have "passes g l ?s (owner_event (le_now env) (le_peer env) ev ?s)"
      by (rule passes_owner_event [OF \<open>holders_live ?s\<close>]) (use held_event [OF assms, of ev] Cons in simp)
    ultimately show ?thesis by (auto simp: loop_step_def LpEvents Cons intro: passes_trans)
  qed
next
  case LpPairing
  have "holders_live (s'\<lparr>hl_pc := pc\<rparr>) = holders_live s'" for s' pc by (simp add: holders_live_iff)
  with passes_pairing_turn [OF assms] show ?thesis by (simp add: loop_step_def LpPairing passes_def)
next
  case LpAcks
  have ack: "passes g l s (acknowledge s)" using assms by (simp add: passes_def acknowledge_def Let_def holders_live_iff)
  then have "holders_live (acknowledge s)" by (simp add: passes_def)
  from passes_trans [OF ack passes_loop_end [OF this]] ack show ?thesis
    by (simp add: loop_step_def LpAcks Let_def passes_def holders_live_iff split: option.split)
next
  case LpAccept
  have "holders_live (s\<lparr>hl_pc := LpStart\<rparr>)" "holders_live (s\<lparr>hl_pc := LpStart, hl_signal := True\<rparr>)"
    using assms by (simp_all add: holders_live_iff)
  moreover from calculation have "passes g l (s\<lparr>hl_pc := LpStart\<rparr>) (take_connection now (le_accept env) (s\<lparr>hl_pc := LpStart\<rparr>))" for now
    by (auto simp: take_connection_def passes_refl passes_loop_end passes_accept split: accept_outcome.split)
      (simp add: passes_def)
  ultimately show ?thesis by (simp add: loop_step_def LpAccept passes_def)
qed (use assms in \<open>simp_all add: loop_step_def passes_def holders_live_iff split: list.split\<close>)

lemma passes_set_work:
  assumes "passes g l s s'" and "hl_workers s' = hl_workers s" and "work_task w = work_task (snd (hl_workers s ! k))"
  shows "passes g l s (set_work k w s')"
proof (cases "k < length (hl_workers s)")
  case True
  have "live_task n (hl_control s')"
    if "x \<in> set ((hl_workers s)[k := (i, w)])" "work_task (snd x) = Some n" for x n i
  proof -
    have "x = (i, w) \<or> x \<in> set (hl_workers s)" using that(1) by (auto dest!: set_update_subset_insert [THEN subsetD])
    then have "\<exists>y \<in> set (hl_workers s). work_task (snd y) = Some n"
      using that(2) assms(3) nth_mem [OF True] by auto
    then show ?thesis using assms(1,2) by (auto simp: passes_def holders_live_iff)
  qed
  then show ?thesis
    using assms(1,2) by (auto simp: passes_def holders_live_iff set_work_def)
qed (use assms in \<open>simp add: passes_def holders_live_iff set_work_def list_update_beyond\<close>)

lemma passes_end_work: "passes g l s s' \<Longrightarrow> passes g l s (end_work k s')"
  by (cases "hl_workers s' ! k") (auto simp: passes_def holders_live_iff end_work_def dest: in_set_takeD in_set_dropD)

lemma passes_connection:
  assumes "holders_live s"
  shows "passes g l s (connection_step k action s)"
proof -
  note here = passes_refl [OF assms]
  have pairing: "passes g l s (s\<lparr>hl_pairing := p\<rparr>)" and authenticated: "passes g l s (s\<lparr>hl_authenticated := b\<rparr>)"
    and permits: "passes g l s (s\<lparr>hl_permits := m\<rparr>)" for p b m
    using assms by (simp_all add: passes_def holders_live_iff)
  have "passes g l s (pairing_step k action n stage s)"
    if "k < length (hl_workers s)" "snd (hl_workers s ! k) = PairingWork n stage" for n stage
  proof -
    note live = held_work [OF assms that]
    have work: "passes g l s (set_work k (PairingWork n stage') s')"
      if "passes g l s s'" "hl_workers s' = hl_workers s" for s' stage'
      by (rule passes_set_work [OF that]) (simp add: \<open>snd _ = _\<close> work_task_def)
    have control: "passes g l s (s\<lparr>hl_control := c\<rparr>)"
      if "c \<in> {snd (confirm_prompt n t a now (hl_control s)), snd (confirm_turn n t now (hl_control s)),
          task_finish n ok now (hl_control s)}" for c t a now ok
      using that assms live by (auto simp: passes_def holders_live_iff intro: reaches_ops)
    have set_control: "(set_work k w s)\<lparr>hl_control := c\<rparr> = set_work k w (s\<lparr>hl_control := c\<rparr>)" for w c
      by (simp add: set_work_def)
    show ?thesis
      unfolding pairing_step_def
      by (cases stage; cases action)
        (auto simp: here set_control case_prod_unfold intro!: work control pairing passes_end_work)
  qed
  moreover have "passes g l s (session_stage_step k action stage s)"
    if "k < length (hl_workers s)" "snd (hl_workers s ! k) = SessionWork stage" for stage
    unfolding session_stage_step_def using that
    by (cases stage; cases action)
      (auto simp: here passes_end_work [OF here] intro!: passes_set_work authenticated permits [simplified] simp: work_task_def)
  ultimately show ?thesis
    using passes_end_work [OF here] here
    by (cases "snd (hl_workers s ! k)") (auto simp: connection_step_def)
qed

lemma passes_step:
  assumes "holders_live s"
  shows "passes g l s (host_step g l e s)"
proof -
  have control: "passes g l s (s\<lparr>hl_control := c\<rparr>)" if "reaches g l (hl_control s) c" "lives_on (hl_control s) c" for c
    using that assms by (auto simp: passes_def holders_live_iff lives_on_def)
  have lives: "lives_on (hl_control s) (hl_control s)" using assms by (simp add: lives_on_def holders_live_iff)
  then have "lives_on (hl_control s) (operation_returns k ok now (hl_control s))"
    "lives_on (hl_control s) (send_event EvIdentityRevoked (hl_control s))"
    "lives_on (hl_control s) (send_event EvRuntimeShutdown (hl_control s))" for k ok now
    by (auto simp: lives_on_def send_event_def event_task_def)
  then have "passes g l s (case e of
          HsCommand env command \<Rightarrow> s\<lparr>hl_control := snd (handle_command g l env command (hl_control s))\<rparr>
        | HsOperation k success now \<Rightarrow> s\<lparr>hl_control := operation_returns k success now (hl_control s)\<rparr>
        | HsRevoked \<Rightarrow> s\<lparr>hl_control := send_event EvIdentityRevoked (hl_control s)\<rparr>
        | HsShutdown \<Rightarrow> s\<lparr>hl_control := send_event EvRuntimeShutdown (hl_control s)\<rparr>
        | HsLoop env \<Rightarrow> loop_step env s
        | HsConnection k action \<Rightarrow> connection_step k action s)" (is "passes g l s ?s")
    using handle_lives [OF lives] passes_loop [OF assms] passes_connection [OF assms]
    by (cases e) (simp_all add: control reaches_ops)
  moreover from this have "passes g l ?s (drop_tasks ?s)" by (simp add: passes_def drop_tasks_control)
  ultimately show ?thesis unfolding host_step_def by (rule passes_trans)
qed

lemma passes_run: "holders_live s \<Longrightarrow> passes g l s (host_run g l es s)"
proof (induction es arbitrary: s)
  case Nil
  then show ?case by (simp add: host_run_def passes_refl)
next
  case (Cons e es)
  note step = passes_step [OF Cons.prems, of g l e]
  then have "holders_live (host_step g l e s)" by (simp add: passes_def)
  from passes_trans [OF step Cons.IH [OF this]] show ?case by (simp add: host_run_def)
qed

section \<open>A window that is lost\<close>

text \<open>
  Two connections come while the first window is open. One takes it and is rejected by the user;
  the other still waits with its clone of the first task. The second window is opened, and the
  other connection takes that one for the first task.
\<close>

definition example_loop_env :: "nat \<Rightarrow> accept_outcome \<Rightarrow> loop_env" where
  "example_loop_env now outcome = \<lparr>le_now = now, le_peer = Inr Unpaired, le_owner_done = None, le_accept = outcome\<rparr>"

definition example_turn :: "nat \<Rightarrow> accept_outcome \<Rightarrow> host_event list" where
  "example_turn now outcome = (let e = HsLoop (example_loop_env now outcome) in [e, e, e, e, e, e])"

definition example_busy_turn :: "nat \<Rightarrow> accept_outcome \<Rightarrow> host_event list" where
  "example_busy_turn now outcome = HsLoop (example_loop_env now outcome) # example_turn now outcome"

definition example_window_1 :: "host_event list" where
  "example_window_1 =
     HsCommand (example_control_env 0) (OcPairingWindowOpen (example_id CHR ''a'') ''g'') #
     example_busy_turn 10 (AcConnection True True) @ example_turn 20 (AcConnection True True)"

definition example_attempt_1 :: "host_event list" where
  "example_attempt_1 =
     [HsConnection 1 (CnReserve 1000), HsConnection 1 (CnPrompt (replicate 16 17) ''123456'' 1000),
      HsCommand (example_control_env 5000)
        (OcPairingDecide (example_id CHR ''b'') ''g'' (example_id CHR ''a'') (hex (replicate 16 17)) False),
      HsConnection 1 (CnTurn 5000), HsConnection 1 (CnFinish False False 5000), HsConnection 1 CnEnd] @
     example_busy_turn 5010 AcTimeout"

definition example_window_2 :: "host_event list" where
  "example_window_2 =
     HsCommand (example_control_env 9000) (OcPairingWindowOpen (example_id CHR ''c'') ''g'') #
     example_busy_turn 9010 AcTimeout @
     [HsCommand (example_control_env 10000) (OcCommandResult (example_id CHR ''c'') ''g'')]"

definition example_attempt_2 :: "host_event list" where
  "example_attempt_2 =
     HsConnection 0 (CnReserve 20000) # example_turn 20010 AcTimeout @
     [HsConnection 0 (CnPrompt (replicate 16 18) ''654321'' 20020), HsConnection 0 (CnTurn 60001),
      HsConnection 0 (CnFinish False False 60001), HsConnection 0 CnEnd] @
     example_busy_turn 60010 AcTimeout"

lemma example_ids':
  "valid_id (example_id CHR ''c'')" "valid_id (hex (replicate 16 18))"
  "(example_id CHR ''c'' = example_id CHR ''a'') = False" "(example_id CHR ''a'' = example_id CHR ''c'') = False"
  "(example_id CHR ''c'' = example_id CHR ''b'') = False" "(example_id CHR ''b'' = example_id CHR ''c'') = False"
  "(example_id CHR ''a'' = example_id CHR ''b'') = False"
  by (simp_all only: valid_id_hex length_replicate) (simp_all add: valid_id_def example_id_def list_all_iff)

lemmas host_eval = host_step_def drop_tasks_def task_held_def event_task_def work_task_def loop_step_def
  owner_event_def open_window_def pairing_turn_def acknowledge_def take_connection_def accept_connection_def spawn_connection_def
  connection_step_def pairing_step_def set_work_def end_work_def reserve_pairing_window_def task_drop_def task_finish_def
  task_waiting_def task_expired_def confirm_turn_def example_control_defs example_loop_env_def

lemma host_run_append: "host_run g l (es @ fs) s = host_run g l fs (host_run g l es s)"
  by (simp add: host_run_def)

lemma example_window_orphaned:
  "orphaned (example_id CHR ''c'') (hl_control (host_run ''g'' None
     (example_window_1 @ example_attempt_1 @ example_window_2 @ example_attempt_2) (host_start (control_new (Some True)))))"
  unfolding example_window_1_def example_attempt_1_def example_window_2_def example_attempt_2_def example_busy_turn_def example_turn_def host_run_def
  by (simp add: host_eval orphaned_def example_ids example_ids' host_start_def upt_rec del: hex.simps replicate.simps)

lemma example_window_gone:
  "let s = host_run ''g'' None (example_window_1 @ example_attempt_1 @ example_window_2 @ example_attempt_2)
      (host_start (control_new (Some True)))
   in hl_window s = None \<and> hl_active s = None \<and> hl_workers s = []"
  unfolding example_window_1_def example_attempt_1_def example_window_2_def example_attempt_2_def example_busy_turn_def example_turn_def host_run_def
  by (simp add: host_eval example_ids example_ids' host_start_def upt_rec del: hex.simps replicate.simps)

lemma control_steps_orphaned: "orphaned i s \<Longrightarrow> orphaned i (control_steps g l es s)"
  unfolding control_steps_def by (induction es arbitrary: s) (simp_all add: orphaned_step)

definition example_revocation :: "host_event list" where
  "example_revocation = example_turn 0 (AcConnection True True) @ [HsRevoked, HsConnection 0 CnEnd] @ example_turn 10 AcTimeout"

lemma example_revocation_run:
  "let s = host_run ''g'' None example_revocation (host_start (control_new (Some True)))
   in hl_acks s = [] \<and> hl_acks (host_step ''g'' None (HsLoop (example_loop_env 10 AcTimeout)) s) = [EvIdentityRevoked]"
  unfolding example_revocation_def example_turn_def host_run_def
  by (simp add: host_eval session_stage_step_def send_event_def cancel_everything_def cancel_task_def host_start_def)

text \<open>Only the loop acknowledges, and only when there are no streams left.\<close>

lemma acks_simps [simp]:
  "hl_acks (drop_tasks s) = hl_acks s" "hl_acks (cancel_everything s) = hl_acks s" "hl_acks (loop_end r s) = hl_acks s"
  "hl_acks (spawn_connection w s) = hl_acks s" "hl_acks (set_work k w s) = hl_acks s" "hl_acks (end_work k s) = hl_acks s"
  by (simp_all add: drop_tasks_def cancel_everything_def loop_end_def spawn_connection_def set_work_def end_work_def Let_def
      split: prod.split)

lemma acks_parts [simp]:
  "hl_acks (owner_event now peer ev s) = hl_acks s" "hl_acks (pairing_turn now s) = hl_acks s"
  "hl_acks (take_connection now outcome s) = hl_acks s" "hl_acks (connection_step k action s) = hl_acks s"
  by (auto simp: owner_event_def open_window_def pairing_turn_def take_connection_def accept_connection_def connection_step_def
      pairing_step_def session_stage_step_def Let_def
      split: owner_event.split sum.split prod.split option.split accept_outcome.split connection_work.split
        pairing_stage.split connection_action.split session_stage.split)

lemma acknowledged_step:
  assumes "hl_acks (host_step g l e s) \<noteq> hl_acks s"
  shows "hl_streams s = [] \<and> hl_workers (host_step g l e s) = hl_workers s"
proof -
  obtain env where env: "e = HsLoop env" "hl_pc s = LpAcks"
  proof (cases e)
    case (HsLoop env)
    then have "hl_pc s = LpAcks"
      using assms by (cases "hl_pc s") (auto simp: host_step_def loop_step_def split: list.splits)
    with HsLoop that show thesis by blast
  qed (use assms in \<open>simp_all add: host_step_def\<close>)
  then have "hl_acks (acknowledge s) \<noteq> hl_acks s"
    using assms by (auto simp: host_step_def loop_step_def Let_def split: option.splits)
  then have "hl_streams s = []" by (auto simp: acknowledge_def Let_def split: if_splits)
  moreover have "hl_workers (host_step g l e s) = hl_workers s"
    by (simp add: env host_step_def drop_tasks_def loop_step_def loop_end_def acknowledge_def Let_def split: option.split)
  ultimately show ?thesis ..
qed

section \<open>Properties\<close>

text \<open>
  C26: At most four connections are served before their session is acknowledged, and at most one
  session is admitted, whatever happens in the first \<open>2 ^ 64\<close> steps.
\<close>

theorem host_capacity:
  assumes "length es \<le> 2 ^ 64"
  shows "let workers = map snd (hl_workers (host_run g l es (host_start c)))
    in length (filter (\<lambda>w. w \<noteq> SessionWork SsServing) workers) \<le> 4 \<and>
       length (filter (\<lambda>w. w \<in> {SessionWork SsAdmitted, SessionWork SsServing}) workers) \<le> 1"
proof -
  obtain k where "host_ok k (host_run g l es (host_start c))" using host_ok_run [OF assms] by blast
  moreover have "(\<lambda>w. w \<noteq> SessionWork SsServing) = holds_permit"
    "(\<lambda>w. w \<in> {SessionWork SsAdmitted, SessionWork SsServing}) = admitted"
    by (auto simp: holds_permit_def admitted_def)
  ultimately show ?thesis by (auto simp: host_ok_def Let_def filter_map split: if_splits)
qed

theorem host_capacity_witness:
  "length (filter (\<lambda>w. w \<noteq> SessionWork SsServing)
     (map snd (hl_workers (host_run ''g'' None example_window_1 (host_start (control_new (Some True))))))) \<le> 4"
  using host_capacity [of example_window_1 "''g''" None "control_new (Some True)"]
  by (simp add: example_window_1_def example_busy_turn_def example_turn_def Let_def)

text \<open>
  C25: A revocation, or the shutdown, is acknowledged only when no connection is left: then no thread
  of a connection is running, of those open at the time or accepted since.
\<close>

theorem acknowledged_when_idle:
  assumes "length es \<le> 2 ^ 64" and "s = host_run g l es (host_start c)"
    and "hl_acks (host_step g l e s) \<noteq> hl_acks s"
  shows "hl_workers (host_step g l e s) = [] \<and> hl_done s = []"
proof -
  obtain k where "host_ok k s" using host_ok_run [OF assms(1)] assms(2) by blast
  with acknowledged_step [OF assms(3)] have "set (connection_ids s) = {}" by (auto simp: host_ok_def)
  with acknowledged_step [OF assms(3)] show ?thesis by (simp add: connection_ids_def)
qed

theorem acknowledged_when_idle_witness:
  "let s = host_run ''g'' None example_revocation (host_start (control_new (Some True)))
   in hl_workers (host_step ''g'' None (HsLoop (example_loop_env 10 AcTimeout)) s) = []"
  using example_revocation_run
    acknowledged_when_idle [of example_revocation _ "''g''" None "control_new (Some True)" "HsLoop (example_loop_env 10 AcTimeout)"]
  by (simp add: example_revocation_def example_turn_def Let_def)

text \<open>
  C24: Opening a second window can be lost for good: its command stays at \<open>PairingWaiting\<close> and keeps its
  place in the table, whatever happens from then on, although no window is open and no pairing is
  running.
\<close>

theorem pairing_window_lost:
  "let s = host_run ''g'' None (example_window_1 @ example_attempt_1 @ example_window_2 @ example_attempt_2)
         (host_start (control_new (Some True)));
       r = find_record (example_id CHR ''c'') (cs_table (hl_control (host_run ''g'' None es s)))
   in hl_window s = None \<and> hl_active s = None \<and> hl_workers s = [] \<and>
      map_option cr_response r = Some (Some OrPairingWaiting) \<and> map_option cr_completed_at r = Some None"
proof -
  let ?s = "host_run ''g'' None (example_window_1 @ example_attempt_1 @ example_window_2 @ example_attempt_2)
         (host_start (control_new (Some True)))"
  have "holders_live (host_start (control_new (Some True)))"
    by (simp add: holders_live_iff host_start_def control_new_def)
  then have "holders_live ?s" using passes_run by (auto simp: passes_def)
  then have "reaches ''g'' None (hl_control ?s) (hl_control (host_run ''g'' None es ?s))"
    using passes_run by (auto simp: passes_def)
  then have "orphaned (example_id CHR ''c'') (hl_control (host_run ''g'' None es ?s))"
    using control_steps_orphaned [OF example_window_orphaned] by (auto simp: reaches_def)
  then show ?thesis using example_window_gone by (auto simp: orphaned_def Let_def)
qed

end
